(* ===== verification/Prelude.thy ===== *)
theory Prelude
  imports Main "HOL-Library.Word"
begin

text \<open>
  Shared vocabulary of the development: the C integer types as words, the byte-addressed
  memory the string and formatting routines run over, NUL-terminated strings in that memory,
  the ways a kernel routine can stop (panic, \<open>BUG_ON\<close>, a bad dereference), and the generic
  lemmas on words, lists and options that the component theories use.
\<close>

unbundle bit_operations_syntax

subsection \<open>Integer types, memory and faults\<close>

type_synonym u8 = "8 word"
type_synonym u16 = "16 word"
type_synonym u32 = "32 word"
type_synonym u64 = "64 word"

text \<open>Pointers are 64-bit words; memory is a total map from addresses to bytes. Pointer
  arithmetic wraps exactly as the machine's does.\<close>

type_synonym addr = u64
type_synonym mem = "addr \<Rightarrow> u8"

text \<open>How a routine can stop without returning: the kernel's \<^verbatim>\<open>panic\<close>, a failed
  \<^verbatim>\<open>BUG_ON\<close>, a null dereference, an access outside an array.\<close>

datatype fault = Panic | Bug | NullDeref | OutOfBounds

type_synonym 'a outcome = "fault + 'a"

text \<open>The negative error codes the modelled routines return.\<close>

datatype errno = ENOMEM | EFAULT | EEXIST | EINVAL | EBUSY | ENODEV | EAGAIN

named_theorems kdefs \<open>definitions of small helpers that proofs unfold\<close>

subsection \<open>Option and outcome plumbing\<close>

definition obind :: "'a outcome \<Rightarrow> ('a \<Rightarrow> 'b outcome) \<Rightarrow> 'b outcome" where
  "obind x f = (case x of Inl e \<Rightarrow> Inl e | Inr a \<Rightarrow> f a)"

lemma obind_simps [simp]:
  "obind (Inl e) f = Inl e"
  "obind (Inr a) f = f a"
  by (simp_all add: obind_def)

lemma obind_Inr_iff: "obind x f = Inr b \<longleftrightarrow> (\<exists>a. x = Inr a \<and> f a = Inr b)"
  by (cases x) auto

subsection \<open>Words\<close>

lemma of_nat64_inj:
  assumes "a < 2 ^ 64" and "b < 2 ^ 64"
  shows "(of_nat a :: u64) = of_nat b \<longleftrightarrow> a = b"
  using assms by (auto simp: word_of_nat_eq_iff take_bit_nat_eq_self)

lemma unat_of_nat64 [simp]: "n < 2 ^ 64 \<Longrightarrow> unat (of_nat n :: u64) = n"
  by (simp add: unat_of_nat take_bit_nat_eq_self)

lemma of_nat64_wrap: "(of_nat (2 ^ 64) :: u64) = 0"
  by simp

lemma unat_minus_Suc:
  fixes a t :: u64
  assumes "a \<noteq> t"
  shows "unat (a - t) = Suc (unat (a - (t + 1)))"
proof -
  have nz: "a - t \<noteq> 0" using assms by simp
  have eq: "a - (t + 1) = a - t - 1" by (simp add: algebra_simps)
  have "unat (a - (t + 1)) = unat (a - t) - 1" unfolding eq by (rule unat_minus_one [OF nz])
  then show ?thesis using nz by (simp add: unat_gt_0)
qed

lemma unat_add_no_wrap:
  fixes p :: u64
  assumes "unat p + n < 2 ^ 64"
  shows "unat (p + of_nat n) = unat p + n"
proof -
  have "unat (of_nat n :: u64) = n" using assms by simp
  then show ?thesis using assms by (simp add: unat_word_ariths)
qed

lemma unat_minus_one_top [simp]: "unat (- 1 :: u64) = 2 ^ 64 - 1"
  by (simp add: unsigned_minus_1_eq_mask mask_eq_exp_minus_1)

lemma unat_u64_less: "unat (x :: u64) < 2 ^ 64"
  using unsigned_less [of x] by simp

lemma unat_u32_less: "unat (x :: u32) < 2 ^ 32"
  using unsigned_less [of x] by simp

lemma take_bit_add_word:
  "take_bit n (take_bit n a + take_bit n b) = take_bit n (a + b :: 'a::len word)"
  by transfer (simp add: take_bit_add)

lemma unat_u64_le: "unat (x :: u64) \<le> 2 ^ 64 - 1"
  using unat_u64_less [of x] by simp

lemma add_of_nat_unat [simp]: "t + of_nat (unat (a - t)) = (a :: u64)"
  by simp

lemma unat_diff_wrap:
  fixes a b :: u64
  assumes "unat a < unat b"
  shows "unat (a - b) = 2 ^ 64 + unat a - unat b"
proof -
  have "uint a < uint b" using assms by (simp add: word_less_def [symmetric] word_less_nat_alt)
  then have "uint (a - b) = uint a - uint b + 2 ^ 64" using uint_sub_if' [of a b] by simp
  then have "int (unat (a - b) + unat b) = int (2 ^ 64 + unat a)" by simp
  then have "unat (a - b) + unat b = 2 ^ 64 + unat a" by (simp only: of_nat_eq_iff)
  then show ?thesis by linarith
qed

lemma unat_word_inverse: "of_nat (unat x) = (x :: u64)"
  by simp

lemma and_mask_nat: "unat (x AND (2 ^ k - 1) :: u64) = unat x mod 2 ^ k"
proof -
  have "x AND (2 ^ k - 1) = take_bit k x" by (simp only: take_bit_eq_mask mask_eq_exp_minus_1)
  moreover have "unat (take_bit k x) = unat x mod 2 ^ k" by (simp only: unsigned_take_bit_eq) (simp only: take_bit_eq_mod)
  ultimately show ?thesis by (simp only:)
qed

lemmas and_low = and_mask_nat [where k = 2, simplified] and_mask_nat [where k = 3, simplified] and_mask_nat [where k = 7, simplified]

lemma and_not_mask_nat:
  fixes x :: "'a::len word"
  assumes "k < LENGTH('a)"
  shows "unat (x AND NOT (2 ^ k - 1)) = unat x div 2 ^ k * 2 ^ k"
proof -
  have "x AND NOT (mask k) = push_bit k (drop_bit k x)"
    by (rule bit_word_eqI) (auto simp: bit_simps)
  also have "\<dots> = x - take_bit k x" by (metis add_diff_cancel_right' bits_ident)
  finally have "x AND NOT (2 ^ k - 1) = x - take_bit k x" by (simp only: mask_eq_exp_minus_1)
  moreover have "unat (take_bit k x) = unat x mod 2 ^ k"
    by (simp only: unsigned_take_bit_eq) (simp only: take_bit_eq_mod)
  moreover then have "take_bit k x \<le> x" by (simp only: word_le_nat_alt mod_less_eq_dividend)
  ultimately have "unat (x AND NOT (2 ^ k - 1)) = unat x - unat x mod 2 ^ k" by (simp only: unat_sub)
  then show ?thesis by (simp only: minus_mod_eq_div_mult)
qed

text \<open>Rounding up to a power of two, as the kernel's \<^verbatim>\<open>ALIGN\<close> does it.\<close>

lemma align_up_nat:
  fixes x :: "'a::len word"
  assumes "k < LENGTH('a)" and "unat x + 2 ^ k - 1 < 2 ^ LENGTH('a)"
  shows "unat ((x + (2 ^ k - 1)) AND NOT (2 ^ k - 1)) = (unat x + 2 ^ k - 1) div 2 ^ k * 2 ^ k"
proof -
  have "nat (uint (mask k :: 'a word)) = nat (mask k)" using assms(1) by (simp only: uint_mask_eq min_def) simp
  also have "\<dots> = 2 ^ k - 1" by (simp add: mask_eq_exp_minus_1 nat_diff_distrib nat_power_eq)
  finally have "unat (2 ^ k - 1 :: 'a word) = 2 ^ k - 1" by (simp only: nat_uint_eq mask_eq_exp_minus_1)
  then have "unat (x + (2 ^ k - 1)) = unat x + (2 ^ k - 1)" using assms(2) by (subst unat_word_ariths(1)) simp
  then have "unat (x + (2 ^ k - 1)) = unat x + 2 ^ k - 1" by simp
  then show ?thesis by (simp only: and_not_mask_nat [OF assms(1)])
qed

subsection \<open>Lists\<close>

lemma takeWhile_shorter: "x \<in> set xs \<Longrightarrow> \<not> P x \<Longrightarrow> length (takeWhile P xs) < length xs"
  by (induction xs) auto

subsection \<open>NUL-terminated strings in memory\<close>

primrec cstr :: "mem \<Rightarrow> addr \<Rightarrow> u8 list \<Rightarrow> bool" where
  "cstr m p [] \<longleftrightarrow> m p = 0"
| "cstr m p (x # xs) \<longleftrightarrow> m p = x \<and> x \<noteq> 0 \<and> cstr m (p + 1) xs"

lemma cstr_iff:
  "cstr m p xs \<longleftrightarrow>
     (\<forall>i < length xs. m (p + of_nat i) = xs ! i \<and> xs ! i \<noteq> 0) \<and> m (p + of_nat (length xs)) = 0"
proof (induction xs arbitrary: p)
  case Nil
  show ?case by simp
next
  case (Cons x xs)
  have all_less: "(\<forall>i < Suc n. P i) \<longleftrightarrow> P 0 \<and> (\<forall>i < n. P (Suc i))" for n and P :: "nat \<Rightarrow> bool"
    using less_Suc_eq_0_disj by auto
  show ?case by (auto simp: Cons.IH all_less add.assoc)
qed

lemma cstr_nth: "cstr m p xs \<Longrightarrow> i < length xs \<Longrightarrow> m (p + of_nat i) = xs ! i"
  by (simp add: cstr_iff)

lemma cstr_nth_nonzero: "cstr m p xs \<Longrightarrow> i < length xs \<Longrightarrow> m (p + of_nat i) \<noteq> 0"
  by (simp add: cstr_iff)

lemma cstr_end: "cstr m p xs \<Longrightarrow> m (p + of_nat (length xs)) = 0"
  by (simp add: cstr_iff)

text \<open>The address space has \<open>2 ^ 64\<close> bytes and one of them is the NUL, so a string is shorter.\<close>

lemma cstr_length:
  assumes "cstr m p xs"
  shows "length xs < 2 ^ 64"
proof (rule ccontr)
  assume "\<not> length xs < 2 ^ 64"
  then have le: "2 ^ 64 \<le> length xs" by (rule leI)
  define k where "k = length xs - 2 ^ 64"
  have k: "length xs = k + 2 ^ 64" using le unfolding k_def by (rule le_add_diff_inverse2 [symmetric])
  have "k < length xs" unfolding k by (rule less_add_same_cancel1 [THEN iffD2]) simp
  then have "m (p + of_nat k) \<noteq> 0" by (rule cstr_nth_nonzero [OF assms])
  moreover have "(of_nat (length xs) :: u64) = of_nat k"
    unfolding k of_nat_add of_nat64_wrap by simp
  ultimately show False using cstr_end [OF assms] by simp
qed

lemma cstr_unique: "cstr m p xs \<Longrightarrow> cstr m p ys \<Longrightarrow> xs = ys"
proof (induction xs arbitrary: p ys)
  case Nil
  then show ?case by (cases ys) auto
next
  case (Cons x xs)
  then show ?case by (cases ys) auto
qed

lemma cstr_cong: "(\<And>i. i \<le> length xs \<Longrightarrow> m (p + of_nat i) = m' (p + of_nat i)) \<Longrightarrow> cstr m p xs = cstr m' p xs"
  by (simp add: cstr_iff)

lemma cstr_suffix:
  "cstr m p (xs @ ys) \<Longrightarrow> cstr m (p + of_nat (length xs)) ys"
proof (induction xs arbitrary: p)
  case (Cons x xs)
  then have "cstr m (p + 1 + of_nat (length xs)) ys" by simp
  then show ?case by (simp add: add.assoc)
qed simp

lemma cstr_elem_nonzero: "cstr m p xs \<Longrightarrow> 0 \<notin> set xs"
  by (induction xs arbitrary: p) auto

end
