(* ===== verification/KString.thy ===== *)
theory KString
  imports Prelude "HOL-Library.List_Lexorder"
begin

text \<open>
  The C string and memory library: \<^verbatim>\<open>src/lib/string.c\<close>, \<^verbatim>\<open>src/startup/string.c\<close>, the character
  classes of \<^verbatim>\<open>src/include/types.h\<close> and the copy routine of \<^verbatim>\<open>src/startup/memcpy.S\<close>. Plain \<open>char\<close> is unsigned on
  RISC-V, so every byte is a \<open>u8\<close>. A loop that stops only at a NUL byte is a
  \<^theory_text>\<open>partial_function (option)\<close>: \<open>None\<close> means that it never stops. A loop bounded by a
  count recurses on the count.
\<close>

section \<open>Definitions\<close>

subsection \<open>Character classes\<close>

text \<open>The table \<^verbatim>\<open>_ctype\<close>, row by row. The class bits are upper 1, lower 2, digit 4,
  control 8, punctuation 16, space 32, hex digit 64, hard space 128.\<close>

definition ctype_table :: "u8 list" where
  "ctype_table =
     replicate 9 8 @ replicate 5 40 @ replicate 18 8
     @ [160] @ replicate 15 16
     @ replicate 10 4 @ replicate 7 16
     @ replicate 6 65 @ replicate 20 1 @ replicate 6 16
     @ replicate 6 66 @ replicate 20 2 @ replicate 4 16 @ [8]
     @ replicate 32 0
     @ [160] @ replicate 31 16
     @ replicate 23 1 @ [16] @ replicate 7 1 @ [2]
     @ replicate 23 2 @ [16] @ replicate 8 2"

definition ismask :: "u8 \<Rightarrow> u8" where
  "ismask c = ctype_table ! unat c"

definition isupper :: "u8 \<Rightarrow> bool" where
  "isupper c \<longleftrightarrow> ismask c AND 1 \<noteq> 0"

definition isspace :: "u8 \<Rightarrow> bool" where
  "isspace c \<longleftrightarrow> ismask c AND 32 \<noteq> 0"

definition isxdigit :: "u8 \<Rightarrow> bool" where
  "isxdigit c \<longleftrightarrow> ismask c AND 68 \<noteq> 0"

definition tolower :: "u8 \<Rightarrow> u8" where
  "tolower c = (if isupper c then c + 32 else c)"

subsection \<open>Memory areas\<close>

text \<open>\<^verbatim>\<open>memset\<close> ends in the assembly of \<^verbatim>\<open>src/startup/memset.S\<close>, which only stores: it is modelled by its effect.\<close>

definition memset :: "mem \<Rightarrow> addr \<Rightarrow> u32 \<Rightarrow> u64 \<Rightarrow> mem" where
  "memset m s c count = (\<lambda>a. if a - s < count then ucast c else m a)"

text \<open>\<^verbatim>\<open>memcpy\<close> is the assembly of \<^verbatim>\<open>src/startup/memcpy.S\<close>, with its registers. A row of loads followed by the
  row of their stores copies a block whose bytes are all read before the first one is written.\<close>

definition copy_area :: "mem \<Rightarrow> addr \<Rightarrow> addr \<Rightarrow> u64 \<Rightarrow> mem" where
  "copy_area m dest src count = (\<lambda>a. if a - dest < count then m (src + (a - dest)) else m a)"

text \<open>One round of the loop at label 3: ten double words, then six.\<close>

definition copy_128 :: "mem \<Rightarrow> addr \<Rightarrow> addr \<Rightarrow> mem" where
  "copy_128 m t6 a1 = (let m = copy_area m t6 a1 80 in copy_area m (t6 + 80) (a1 + 80) 48)"

definition copy_4 :: "mem \<Rightarrow> addr \<Rightarrow> addr \<Rightarrow> mem" where
  "copy_4 m t6 a1 = copy_area m t6 a1 4"

definition copy_1 :: "mem \<Rightarrow> addr \<Rightarrow> addr \<Rightarrow> mem" where
  "copy_1 m t6 a1 = m(t6 := m a1)"

text \<open>The loops of the routine: a round, both pointers advance, and the branch \<^verbatim>\<open>bltu\<close> goes back while the
  source pointer is below \<^verbatim>\<open>a3\<close>. The first argument bounds the rounds; each call gives the distance to \<^verbatim>\<open>a3\<close>
  in rounds, after which the pointer is \<^verbatim>\<open>a3\<close> and the branch falls through.\<close>

primrec copy_loop :: "nat \<Rightarrow> (mem \<Rightarrow> addr \<Rightarrow> addr \<Rightarrow> mem) \<Rightarrow> u64 \<Rightarrow> mem \<Rightarrow> addr \<Rightarrow> addr \<Rightarrow> addr \<Rightarrow> mem \<times> addr \<times> addr" where
  "copy_loop 0 body d m t6 a1 a3 = (m, t6, a1)"
| "copy_loop (Suc n) body d m t6 a1 a3 =
     (let m = body m t6 a1; a1 = a1 + d; t6 = t6 + d
      in if a1 < a3 then copy_loop n body d m t6 a1 a3 else (m, t6, a1))"

text \<open>Label 1: bytes up to the next double word. Label 2 and 3: blocks of 128 bytes. Label 4: the rest.\<close>

definition copy_head :: "mem \<Rightarrow> addr \<Rightarrow> addr \<Rightarrow> u64 \<Rightarrow> mem \<times> addr \<times> addr \<times> u64" where
  "copy_head m t6 a1 a2 =
     (if t6 AND 7 = 0 then (m, t6, a1, a2)
      else let a3 = (a1 AND NOT 7) + 8; a4 = a3 - a1; (m, t6, a1) = copy_loop (unat a4) copy_1 1 m t6 a1 a3
           in (m, t6, a1, a2 - a4))"

definition copy_blocks :: "mem \<Rightarrow> addr \<Rightarrow> addr \<Rightarrow> u64 \<Rightarrow> mem \<times> addr \<times> addr \<times> u64" where
  "copy_blocks m t6 a1 a2 =
     (let a4 = a2 AND NOT 127
      in if a4 = 0 then (m, t6, a1, a2)
         else let a3 = a1 + a4; (m, t6, a1) = copy_loop (unat a4 div 128) copy_128 128 m t6 a1 a3
              in (m, t6, a1, a2 AND 127))"

definition copy_rest :: "mem \<Rightarrow> addr \<Rightarrow> addr \<Rightarrow> u64 \<Rightarrow> mem" where
  "copy_rest m t6 a1 a2 =
     (if a2 = 0 then m
      else let a3 = a1 + a2
           in if (a1 OR t6 OR a3) AND 3 = 0 then fst (copy_loop (unat a2 div 4) copy_4 4 m t6 a1 a3)
              else fst (copy_loop (unat a2) copy_1 1 m t6 a1 a3))"

definition memcpy :: "mem \<Rightarrow> addr \<Rightarrow> addr \<Rightarrow> u64 \<Rightarrow> mem" where
  "memcpy m dest src count =
     (if count < 128 \<or> dest AND 7 \<noteq> src AND 7 then copy_rest m dest src count
      else let (m, t6, a1, a2) = copy_head m dest src count;
               (m, t6, a1, a2) = copy_blocks m t6 a1 a2
           in copy_rest m t6 a1 a2)"

fun memcmp_loop :: "mem \<Rightarrow> addr \<Rightarrow> addr \<Rightarrow> nat \<Rightarrow> int" where
  "memcmp_loop m su1 su2 0 = 0"
| "memcmp_loop m su1 su2 (Suc count) =
     (let res = uint (m su1) - uint (m su2)
      in if res \<noteq> 0 then res else memcmp_loop m (su1 + 1) (su2 + 1) count)"

definition memcmp :: "mem \<Rightarrow> addr \<Rightarrow> addr \<Rightarrow> u64 \<Rightarrow> int" where
  "memcmp m cs ct count = memcmp_loop m cs ct (unat count)"

fun memchr_loop :: "mem \<Rightarrow> addr \<Rightarrow> u8 \<Rightarrow> nat \<Rightarrow> addr option" where
  "memchr_loop m p c 0 = None"
| "memchr_loop m p c (Suc n) = (if c = m p then Some p else memchr_loop m (p + 1) c n)"

definition memchr :: "mem \<Rightarrow> addr \<Rightarrow> u32 \<Rightarrow> u64 \<Rightarrow> addr option" where
  "memchr m s c n = memchr_loop m s (ucast c) (unat n)"

fun copy_up :: "mem \<Rightarrow> addr \<Rightarrow> addr \<Rightarrow> nat \<Rightarrow> mem" where
  "copy_up m tmp s 0 = m"
| "copy_up m tmp s (Suc count) = copy_up (m(tmp := m s)) (tmp + 1) (s + 1) count"

fun copy_down :: "mem \<Rightarrow> addr \<Rightarrow> addr \<Rightarrow> nat \<Rightarrow> mem" where
  "copy_down m tmp s 0 = m"
| "copy_down m tmp s (Suc count) =
     (let tmp' = tmp - 1; s' = s - 1 in copy_down (m(tmp' := m s')) tmp' s' count)"

definition memmove :: "mem \<Rightarrow> addr \<Rightarrow> addr \<Rightarrow> u64 \<Rightarrow> mem" where
  "memmove m dest src count =
     (if dest \<le> src then copy_up m dest src (unat count)
      else copy_down m (dest + count) (src + count) (unat count))"

subsection \<open>Length and search\<close>

partial_function (option) strlen_loop :: "mem \<Rightarrow> addr \<Rightarrow> addr option" where
  "strlen_loop m sc = (if m sc \<noteq> 0 then strlen_loop m (sc + 1) else Some sc)"

definition strlen :: "mem \<Rightarrow> addr \<Rightarrow> u64 option" where
  "strlen m s = map_option (\<lambda>sc. sc - s) (strlen_loop m s)"

partial_function (option) strcspn_inner :: "mem \<Rightarrow> u8 \<Rightarrow> addr \<Rightarrow> bool option" where
  "strcspn_inner m c r =
     (if m r \<noteq> 0 then (if c = m r then Some True else strcspn_inner m c (r + 1)) else Some False)"

partial_function (option) strcspn_loop :: "mem \<Rightarrow> addr \<Rightarrow> addr \<Rightarrow> u64 \<Rightarrow> u64 option" where
  "strcspn_loop m p reject count =
     (if m p \<noteq> 0
      then Option.bind (strcspn_inner m (m p) reject)
             (\<lambda>hit. if hit then Some count else strcspn_loop m (p + 1) reject (count + 1))
      else Some count)"

definition strcspn :: "mem \<Rightarrow> addr \<Rightarrow> addr \<Rightarrow> u64 option" where
  "strcspn m s reject = strcspn_loop m s reject 0"

partial_function (option) strrchr_loop ::
  "mem \<Rightarrow> addr \<Rightarrow> u8 \<Rightarrow> addr option \<Rightarrow> addr option option" where
  "strrchr_loop m s c lst =
     (let lst' = (if m s = c then Some s else lst)
      in if m s \<noteq> 0 then strrchr_loop m (s + 1) c lst' else Some lst')"

definition strrchr :: "mem \<Rightarrow> addr \<Rightarrow> u32 \<Rightarrow> addr option option" where
  "strrchr m s c = strrchr_loop m s (ucast c) None"

partial_function (option) strchr_loop :: "mem \<Rightarrow> addr \<Rightarrow> u8 \<Rightarrow> addr option option" where
  "strchr_loop m s c =
     (if m s \<noteq> c then (if m s = 0 then Some None else strchr_loop m (s + 1) c) else Some (Some s))"

definition strchr :: "mem \<Rightarrow> addr \<Rightarrow> u32 \<Rightarrow> addr option option" where
  "strchr m s c = strchr_loop m s (ucast c)"

partial_function (option) strchrnul_loop :: "mem \<Rightarrow> addr \<Rightarrow> u8 \<Rightarrow> addr option" where
  "strchrnul_loop m s c =
     (if m s \<noteq> 0 \<and> m s \<noteq> c then strchrnul_loop m (s + 1) c else Some s)"

definition strchrnul :: "mem \<Rightarrow> addr \<Rightarrow> u32 \<Rightarrow> addr option" where
  "strchrnul m s c = strchrnul_loop m s (ucast c)"

fun strnlen_loop :: "mem \<Rightarrow> addr \<Rightarrow> nat \<Rightarrow> addr" where
  "strnlen_loop m sc 0 = sc"
| "strnlen_loop m sc (Suc count) = (if m sc \<noteq> 0 then strnlen_loop m (sc + 1) count else sc)"

definition strnlen :: "mem \<Rightarrow> addr \<Rightarrow> u64 \<Rightarrow> u64" where
  "strnlen m s count = strnlen_loop m s (unat count) - s"

partial_function (option) skip_spaces :: "mem \<Rightarrow> addr \<Rightarrow> addr option" where
  "skip_spaces m str = (if isspace (m str) then skip_spaces m (str + 1) else Some str)"

subsection \<open>Comparison\<close>

partial_function (option) strcmp :: "mem \<Rightarrow> addr \<Rightarrow> addr \<Rightarrow> int option" where
  "strcmp m cs ct =
     (let c1 = m cs; c2 = m ct
      in if c1 \<noteq> c2 then Some (if c1 < c2 then - 1 else 1)
         else if c1 = 0 then Some 0
         else strcmp m (cs + 1) (ct + 1))"

fun strncmp_loop :: "mem \<Rightarrow> addr \<Rightarrow> addr \<Rightarrow> nat \<Rightarrow> int" where
  "strncmp_loop m cs ct 0 = 0"
| "strncmp_loop m cs ct (Suc count) =
     (let c1 = m cs; c2 = m ct
      in if c1 \<noteq> c2 then (if c1 < c2 then - 1 else 1)
         else if c1 = 0 then 0
         else strncmp_loop m (cs + 1) (ct + 1) count)"

definition strncmp :: "mem \<Rightarrow> addr \<Rightarrow> addr \<Rightarrow> u64 \<Rightarrow> int" where
  "strncmp m cs ct count = strncmp_loop m cs ct (unat count)"

partial_function (option) strcasecmp :: "mem \<Rightarrow> addr \<Rightarrow> addr \<Rightarrow> int option" where
  "strcasecmp m s1 s2 =
     (let c1 = uint (tolower (m s1)); c2 = uint (tolower (m s2))
      in if c1 = c2 \<and> c1 \<noteq> 0 then strcasecmp m (s1 + 1) (s2 + 1) else Some (c1 - c2))"

subsection \<open>Copying and rewriting\<close>

partial_function (option) strreplace :: "mem \<Rightarrow> addr \<Rightarrow> u8 \<Rightarrow> u8 \<Rightarrow> (addr \<times> mem) option" where
  "strreplace m s old new =
     (if m s \<noteq> 0 then strreplace (if m s = old then m(s := new) else m) (s + 1) old new
      else Some (s, m))"

definition strlcpy :: "mem \<Rightarrow> addr \<Rightarrow> addr \<Rightarrow> u64 \<Rightarrow> (u64 \<times> mem) option" where
  "strlcpy m dest src sz =
     (case strlen m src of
        None \<Rightarrow> None
      | Some ret \<Rightarrow>
          if sz \<noteq> 0
          then (let len = (if ret \<ge> sz then sz - 1 else ret)
                in Some (ret, (memcpy m dest src len)(dest + len := 0)))
          else Some (ret, m))"

partial_function (option) strcpy_loop :: "mem \<Rightarrow> addr \<Rightarrow> addr \<Rightarrow> mem option" where
  "strcpy_loop m dest src =
     (let c = m src; m' = m(dest := c)
      in if c \<noteq> 0 then strcpy_loop m' (dest + 1) (src + 1) else Some m')"

definition strcpy :: "mem \<Rightarrow> addr \<Rightarrow> addr \<Rightarrow> (addr \<times> mem) option" where
  "strcpy m dest src = map_option (\<lambda>m'. (dest, m')) (strcpy_loop m dest src)"

fun strncpy_loop :: "mem \<Rightarrow> addr \<Rightarrow> addr \<Rightarrow> nat \<Rightarrow> mem" where
  "strncpy_loop m tmp src 0 = m"
| "strncpy_loop m tmp src (Suc count) =
     (let c = m src; m' = m(tmp := c)
      in strncpy_loop m' (tmp + 1) (if c \<noteq> 0 then src + 1 else src) count)"

definition strncpy :: "mem \<Rightarrow> addr \<Rightarrow> addr \<Rightarrow> u64 \<Rightarrow> mem" where
  "strncpy m dest src count = strncpy_loop m dest src (unat count)"

section \<open>Lemmas\<close>

subsection \<open>Memory areas\<close>

lemma copy_up_parallel:
  assumes "n \<le> 2 ^ 64 - 1"
    and "\<And>i j. j < i \<Longrightarrow> i < n \<Longrightarrow> tmp + of_nat j \<noteq> s + of_nat i"
  shows "copy_up m tmp s n = (\<lambda>a. if unat (a - tmp) < n then m (s + (a - tmp)) else m a)"
  using assms
proof (induction n arbitrary: m tmp s)
  case 0
  show ?case by simp
next
  case (Suc n)
  have hyp: "tmp + 1 + of_nat j \<noteq> s + 1 + of_nat i" if "j < i" "i < n" for i j
    using Suc.prems(2) [of "Suc j" "Suc i"] that by (simp add: add.assoc)
  have src: "s + of_nat i \<noteq> tmp" if "0 < i" "i < Suc n" for i
    using Suc.prems(2) [of 0 i] that by simp
  have IH: "copy_up m' (tmp + 1) (s + 1) n =
      (\<lambda>a. if unat (a - (tmp + 1)) < n then m' (s + 1 + (a - (tmp + 1))) else m' a)" for m'
    using Suc.IH [of "tmp + 1" "s + 1" m'] hyp Suc.prems(1) by simp
  show ?case
  proof
    fix a
    show "copy_up m tmp s (Suc n) a = (if unat (a - tmp) < Suc n then m (s + (a - tmp)) else m a)"
    proof (cases "a = tmp")
      case True
      have "\<not> unat (tmp - (tmp + 1)) < n" using Suc.prems(1) by simp
      then show ?thesis using True by (simp add: IH del: diff_add_eq)
    next
      case False
      have u: "unat (a - tmp) = Suc (unat (a - (tmp + 1)))" by (rule unat_minus_Suc [OF False])
      have e: "s + 1 + (a - (tmp + 1)) = s + (a - tmp)" by (simp add: algebra_simps)
      have "s + (a - tmp) \<noteq> tmp" if "unat (a - tmp) < Suc n"
        using src [of "unat (a - tmp)"] that u by simp
      then show ?thesis using False u by (simp add: IH e)
    qed
  qed
qed

lemma copy_down_parallel:
  assumes "n \<le> 2 ^ 64 - 1"
    and "\<And>i j. j < i \<Longrightarrow> i < n \<Longrightarrow> tmp + of_nat i \<noteq> s + of_nat j"
  shows "copy_down m (tmp + of_nat n) (s + of_nat n) n =
     (\<lambda>a. if unat (a - tmp) < n then m (s + (a - tmp)) else m a)"
  using assms
proof (induction n arbitrary: m)
  case 0
  show ?case by simp
next
  case (Suc n)
  have IH: "copy_down m' (tmp + of_nat n) (s + of_nat n) n =
      (\<lambda>a. if unat (a - tmp) < n then m' (s + (a - tmp)) else m' a)" for m'
    using Suc.IH [of m'] Suc.prems by simp
  have src: "s + of_nat j \<noteq> tmp + of_nat n" if "j < n" for j
    using Suc.prems(2) [of j n] that by (metis lessI)
  have n64: "unat (of_nat n :: u64) = n" using Suc.prems(1) by simp
  show ?case
  proof
    fix a
    have top: "a = tmp + of_nat n" if "unat (a - tmp) = n"
    proof -
      have "tmp + of_nat (unat (a - tmp)) = tmp + of_nat n" by (simp only: that)
      then show ?thesis by simp
    qed
    have ne: "s + (a - tmp) \<noteq> tmp + of_nat n" if "unat (a - tmp) < n"
      using src [OF that] by simp
    have step: "copy_down m (tmp + of_nat (Suc n)) (s + of_nat (Suc n)) (Suc n) =
        copy_down (m(tmp + of_nat n := m (s + of_nat n))) (tmp + of_nat n) (s + of_nat n) n"
      by (simp add: Let_def)
    show "copy_down m (tmp + of_nat (Suc n)) (s + of_nat (Suc n)) (Suc n) a =
        (if unat (a - tmp) < Suc n then m (s + (a - tmp)) else m a)"
    proof (cases "unat (a - tmp) = n")
      case True
      then show ?thesis unfolding step IH using top [OF True] by simp
    next
      case False
      then have "a \<noteq> tmp + of_nat n" using n64 by auto
      then show ?thesis unfolding step IH using False ne by (simp add: less_Suc_eq)
    qed
  qed
qed

text \<open>C33. \<^verbatim>\<open>memmove\<close> on two areas that stay inside the address space, overlapping or not, stores
  in the destination what the source held before the call and changes nothing else.\<close>

theorem memmove_correct:
  assumes "unat dest + unat count \<le> 2 ^ 64" and "unat src + unat count \<le> 2 ^ 64"
  shows "memmove m dest src count a =
     (if unat (a - dest) < unat count then m (src + (a - dest)) else m a)"
proof (cases "dest \<le> src")
  case True
  have "dest + of_nat j \<noteq> src + of_nat i" if "j < i" "i < unat count" for i j
  proof -
    have "unat (dest + of_nat j) = unat dest + j" "unat (src + of_nat i) = unat src + i"
      using that assms by (auto intro!: unat_add_no_wrap)
    moreover have "unat dest \<le> unat src" using True by (simp add: word_le_nat_alt)
    ultimately show ?thesis using that by (metis add_le_less_mono less_irrefl)
  qed
  moreover have "unat count \<le> 2 ^ 64 - 1" by (rule unat_u64_le)
  ultimately have "copy_up m dest src (unat count) =
      (\<lambda>a. if unat (a - dest) < unat count then m (src + (a - dest)) else m a)"
    by (intro copy_up_parallel)
  then show ?thesis using True by (simp add: memmove_def)
next
  case False
  have "dest + of_nat i \<noteq> src + of_nat j" if "j < i" "i < unat count" for i j
  proof -
    have "unat (dest + of_nat i) = unat dest + i" "unat (src + of_nat j) = unat src + j"
      using that assms by (auto intro!: unat_add_no_wrap)
    moreover have "unat src < unat dest" using False by (simp add: word_less_nat_alt not_le)
    ultimately show ?thesis using that by (metis add_less_mono less_irrefl)
  qed
  moreover have "unat count \<le> 2 ^ 64 - 1" by (rule unat_u64_le)
  ultimately have "copy_down m (dest + of_nat (unat count)) (src + of_nat (unat count)) (unat count) =
      (\<lambda>a. if unat (a - dest) < unat count then m (src + (a - dest)) else m a)"
    by (intro copy_down_parallel)
  then show ?thesis using False by (simp add: memmove_def)
qed

theorem memmove_correct_witness:
  "unat (101 :: u64) + unat (3 :: u64) \<le> 2 ^ 64 \<and> unat (100 :: u64) + unat (3 :: u64) \<le> 2 ^ 64
   \<and> memmove (\<lambda>a. ucast a) 101 100 3 103 = 102"
  using memmove_correct [of 101 3 100 "\<lambda>a. ucast a" 103] by simp

lemma copy_area_append:
  assumes n: "n1 + n2 \<le> unat (d - s)"
  shows "copy_area (copy_area m d s (of_nat n1)) (d + of_nat n1) (s + of_nat n1) (of_nat n2) = copy_area m d s (of_nat (n1 + n2))"
proof
  fix a
  define x e where "x = a - d" and "e = d - s"
  have e: "unat e < 2 ^ 64" "n1 + n2 \<le> unat e" using n unat_u64_less [of e] by (simp_all add: e_def)
  have u: "unat (of_nat n1 :: u64) = n1" "unat (of_nat n2 :: u64) = n2" "unat (of_nat (n1 + n2) :: u64) = n1 + n2"
    using e by (simp_all del: of_nat_add)
  have in1: "copy_area m d s (of_nat n1) b = (if unat (b - d) < n1 then m (s + (b - d)) else m b)" for b
    by (simp add: copy_area_def word_less_nat_alt u)
  have out: "unat (x - of_nat n1) < n2 \<longleftrightarrow> n1 \<le> unat x \<and> unat x < n1 + n2"
    using unat_diff_wrap [of x "of_nat n1"] u(1) e by (cases "unat x < n1") (auto simp: unat_sub word_le_nat_alt)
  have xe: "s + x - d = x - e" by (simp add: e_def)
  have far: "\<not> unat (s + x - d) < n1" if "n1 \<le> unat x" "unat x < n1 + n2" unfolding xe using that unat_diff_wrap [of x e] e by simp
  have p: "a - (d + of_nat n1) = x - of_nat n1" "s + of_nat n1 + (x - of_nat n1) = s + x" by (simp_all add: x_def)
  show "copy_area (copy_area m d s (of_nat n1)) (d + of_nat n1) (s + of_nat n1) (of_nat n2) a = copy_area m d s (of_nat (n1 + n2)) a"
    unfolding copy_area_def [of _ "d + _"] copy_area_def [of _ _ _ "of_nat (n1 + n2)"] p word_less_nat_alt u out in1 x_def [symmetric]
    using far by auto
qed

lemma copy_loop_copies:
  fixes d :: nat
  assumes body: "\<And>m t a. d \<le> unat (t - a) \<Longrightarrow> body m t a = copy_area m t a (of_nat d)"
    and "0 < n" "0 < d" "unat a1 + n * d < 2 ^ 64" "n * d \<le> unat (t6 - a1)"
  shows "copy_loop n body (of_nat d) m t6 a1 (a1 + of_nat (n * d))
    = (copy_area m t6 a1 (of_nat (n * d)), t6 + of_nat (n * d), a1 + of_nat (n * d))"
  using assms(2-)
proof (induction n arbitrary: m t6 a1)
  case (Suc n)
  have b: "body m t6 a1 = copy_area m t6 a1 (of_nat d)" using Suc.prems by (intro body) simp
  have u: "unat (a1 + of_nat d) = unat a1 + d" using Suc.prems by (intro unat_add_no_wrap) simp
  have u': "unat (a1 + of_nat (Suc n * d)) = unat a1 + Suc n * d" using Suc.prems by (intro unat_add_no_wrap) simp
  have ap: "copy_area (copy_area m t6 a1 (of_nat d)) (t6 + of_nat d) (a1 + of_nat d) (of_nat (n * d)) = copy_area m t6 a1 (of_nat (Suc n * d))"
    using copy_area_append [of d "n * d" t6 a1 m] Suc.prems by simp
  have e: "a1 + of_nat (Suc n * d) = a1 + of_nat d + of_nat (n * d)" "t6 + of_nat (Suc n * d) = t6 + of_nat d + of_nat (n * d)" by simp_all
  show ?case
  proof (cases "n = 0")
    case False
    have "a1 + of_nat d < a1 + of_nat (Suc n * d)" using False Suc.prems u u' by (simp add: word_less_nat_alt)
    then show ?thesis
      using Suc.IH [of "a1 + of_nat d" "t6 + of_nat d" "copy_area m t6 a1 (of_nat d)"] False Suc.prems u ap
      by (simp only: copy_loop.simps Let_def b if_True e) (simp del: of_nat_mult)
  qed (simp add: b)
qed simp

lemma copy_bodies:
  shows copy_128_area: "128 \<le> unat (t - a) \<Longrightarrow> copy_128 m t a = copy_area m t a (of_nat 128)"
    and copy_4_area: "copy_4 m t a = copy_area m t a (of_nat 4)"
    and copy_1_area: "copy_1 m t a = copy_area m t a (of_nat 1)"
proof -
  show "128 \<le> unat (t - a) \<Longrightarrow> copy_128 m t a = copy_area m t a (of_nat 128)"
    using copy_area_append [of 80 48 t a m] by (simp add: copy_128_def Let_def)
  have "x < 1 \<longleftrightarrow> x = 0" for x :: u64 by (simp add: word_less_nat_alt unat_eq_0)
  then show "copy_1 m t a = copy_area m t a (of_nat 1)" by (auto simp: fun_eq_iff copy_1_def copy_area_def)
qed (simp add: copy_4_def)

lemmas copy_loop_1 = copy_loop_copies [where d = 1 and body = copy_1, OF copy_1_area, simplified]
  and copy_loop_4 = copy_loop_copies [where d = 4 and body = copy_4, OF copy_4_area, simplified]
  and copy_loop_128 = copy_loop_copies [where d = 128 and body = copy_128, OF copy_128_area, simplified]

lemma copy_rest_area:
  assumes "unat a1 + unat a2 < 2 ^ 64" "a2 \<le> t6 - a1"
  shows "copy_rest m t6 a1 a2 = copy_area m t6 a1 a2"
proof (cases "a2 = 0")
  case False
  then have a2: "0 < unat a2" by (simp add: unat_gt_0)
  note le = assms(2) [unfolded word_le_nat_alt]
  show ?thesis
  proof (cases "(a1 OR t6 OR (a1 + a2)) AND 3 = 0")
    case True
    then have "a1 AND 3 = 0" "a1 + a2 AND 3 = 0" by (simp_all add: bit.conj_disj_distrib2 or_eq_0_iff)
    then have "unat a1 mod 4 = 0" "(unat a1 + unat a2) mod 4 = 0"
      using and_low(1) [of a1] and_low(1) [of "a1 + a2"] unat_add_no_wrap [of a1 "unat a2"] assms(1) by simp_all
    then obtain n where n: "unat a2 = n * 4" by (metis dvdE dvd_add_right_iff mod_0_imp_dvd mult.commute)
    then have a: "of_nat n * 4 = a2" "unat a2 div 4 = n" using unat_word_inverse [of a2] by simp_all
    show ?thesis using True False a2 le assms(1) copy_loop_4 [of n a1 t6 m] n by (simp add: copy_rest_def a Let_def)
  next
    case F: False
    then show ?thesis using copy_loop_1 [of "unat a2" a1 t6 m] assms(1) le a2 False by (simp add: copy_rest_def Let_def)
  qed
qed (simp add: copy_rest_def copy_area_def)

text \<open>The assembly is a plain copy when the source area does not reach the end of the address space and the
  destination does not start inside it.\<close>

lemma copy_blocks_area:
  assumes "unat a1 + unat a2 < 2 ^ 64" "a2 \<le> t6 - a1" "copy_blocks m t6 a1 a2 = (m', t', a', n)"
  shows "\<exists>k. t' = t6 + of_nat k \<and> a' = a1 + of_nat k \<and> m' = copy_area m t6 a1 (of_nat k) \<and> k + unat n = unat a2"
proof -
  define k where "k = unat (a2 AND NOT 127)"
  have k: "k = unat a2 div 128 * 128" using and_not_mask_nat [of 7 a2] by (simp add: k_def)
  then have kn: "k + unat (a2 AND 127) = unat a2" using and_low(3) [of a2] by simp
  show ?thesis
  proof (cases "a2 AND NOT 127 = 0")
    case True
    then have "m' = m" "t' = t6" "a' = a1" "n = a2" using assms(3) by (simp_all add: copy_blocks_def)
    then show ?thesis by (intro exI [of _ 0]) (simp add: copy_area_def)
  next
    case False
    let ?q = "unat a2 div 128"
    have "of_nat (unat (a2 AND NOT 127)) = (of_nat (?q * 128) :: u64)" using k by (simp only: k_def)
    then have e: "of_nat ?q * 128 = a2 AND NOT 127" by (simp only: unat_word_inverse) simp
    have e': "unat (a2 AND NOT 127) div 128 = ?q" using k by (simp only: k_def)
    have q: "0 < ?q" using False e by (metis mult_zero_left not_gr_zero of_nat_0)
    have "copy_loop ?q copy_128 128 m t6 a1 (a1 + (a2 AND NOT 127))
       = (copy_area m t6 a1 (a2 AND NOT 127), t6 + (a2 AND NOT 127), a1 + (a2 AND NOT 127))"
      using copy_loop_128 [of ?q a1 t6 m, unfolded e] q k kn assms(1,2) by (simp add: word_le_nat_alt)
    then have "m' = copy_area m t6 a1 (a2 AND NOT 127)" "t' = t6 + (a2 AND NOT 127)" "a' = a1 + (a2 AND NOT 127)" "n = a2 AND 127"
      using assms(3) False unfolding copy_blocks_def Let_def e' by simp_all
    then show ?thesis using kn by (intro exI [of _ k]) (simp add: k_def)
  qed
qed

lemma copy_head_area:
  assumes "unat a1 + unat a2 < 2 ^ 64" "a2 \<le> t6 - a1" "8 \<le> a2" "t6 AND 7 = a1 AND 7" "copy_head m t6 a1 a2 = (m', t', a', n)"
  shows "\<exists>k. t' = t6 + of_nat k \<and> a' = a1 + of_nat k \<and> m' = copy_area m t6 a1 (of_nat k) \<and> k + unat n = unat a2"
proof (cases "t6 AND 7 = 0")
  case True
  then have "m' = m" "t' = t6" "a' = a1" "n = a2" using assms(5) by (simp_all add: copy_head_def)
  then show ?thesis by (intro exI [of _ 0]) (simp add: copy_area_def)
next
  case False
  define k where "k = 8 - unat a1 mod 8"
  have "unat a1 mod 8 < 8" by simp
  then have k: "0 < k" "k \<le> 8" by (simp_all add: k_def)
  have "unat (a1 AND NOT 7) = unat a1 div 8 * 8" using and_not_mask_nat [of 3 a1] by simp
  then have "unat (a1 AND NOT 7) + 8 = unat a1 + k"
    using \<open>unat a1 mod 8 < 8\<close> div_mult_mod_eq [of "unat a1" 8] unfolding k_def by linarith
  then have "of_nat (unat (a1 AND NOT 7) + 8) = (of_nat (unat a1 + k) :: u64)" by (rule arg_cong)
  then have a3: "(a1 AND NOT 7) + 8 = a1 + of_nat k" by simp
  have k8: "k \<le> unat a2" using k(2) assms(3) by (simp add: word_le_nat_alt)
  have uk: "unat (of_nat k :: u64) = k" using k by simp
  have "copy_loop k copy_1 1 m t6 a1 (a1 + of_nat k) = (copy_area m t6 a1 (of_nat k), t6 + of_nat k, a1 + of_nat k)"
    using copy_loop_1 [of k a1 t6 m] k k8 assms(1,2) by (simp add: word_le_nat_alt)
  then have "m' = copy_area m t6 a1 (of_nat k)" "t' = t6 + of_nat k" "a' = a1 + of_nat k" "n = a2 - of_nat k"
    using assms(5) False unfolding copy_head_def Let_def a3 by (simp_all add: uk)
  then show ?thesis using uk k8 by (intro exI [of _ k]) (simp add: unat_sub word_le_nat_alt)
qed

lemma memcpy_area:
  assumes "unat src + unat count < 2 ^ 64" "count \<le> dest - src"
  shows "memcpy m dest src count = copy_area m dest src count"
proof (cases "count < 128 \<or> dest AND 7 \<noteq> src AND 7")
  case False
  obtain m1 t1 a1 n1 where h: "copy_head m dest src count = (m1, t1, a1, n1)" using prod_cases4 by blast
  obtain k where k: "t1 = dest + of_nat k" "a1 = src + of_nat k" "m1 = copy_area m dest src (of_nat k)" "k + unat n1 = unat count"
    using copy_head_area [OF assms _ _ h] False by (auto simp: word_le_nat_alt word_less_nat_alt)
  obtain m2 t2 a2 n2 where b: "copy_blocks m1 t1 a1 n1 = (m2, t2, a2, n2)" using prod_cases4 by blast
  have d1: "t1 - a1 = dest - src" "unat a1 = unat src + k" using k assms(1) by (simp_all add: unat_add_no_wrap)
  then obtain l where l: "t2 = t1 + of_nat l" "a2 = a1 + of_nat l" "m2 = copy_area m1 t1 a1 (of_nat l)" "l + unat n2 = unat n1"
    using copy_blocks_area [OF _ _ b] assms k(4) by (auto simp: word_le_nat_alt)
  have m2: "m2 = copy_area m dest src (of_nat (k + l))"
    using copy_area_append [of k l dest src m] assms(2) k l by (simp add: word_le_nat_alt)
  have d2: "t2 - a2 = dest - src" "unat a2 = unat src + (k + l)"
    using k l assms(1) d1 unat_add_no_wrap [of src "k + l"] by (simp_all add: add.assoc)
  have "copy_rest m2 t2 a2 n2 = copy_area m2 t2 a2 n2"
    using d2 assms k(4) l(4) by (intro copy_rest_area) (simp_all add: word_le_nat_alt)
  also have "\<dots> = copy_area m dest src count"
    using copy_area_append [of "k + l" "unat n2" dest src m] assms(2) k l by (simp add: m2 word_le_nat_alt add.assoc)
  finally show ?thesis using False by (simp add: memcpy_def h b)
qed (simp add: memcpy_def copy_rest_area [OF assms])

text \<open>C39. \<^verbatim>\<open>memcpy\<close>, the assembly with its loops over bytes, words and blocks of 128 bytes, copies the source area:
  when the source area ends before the end of the address space and the destination does not start inside
  it, every byte of the destination area is the byte that the source area had, and no other byte changes.\<close>

theorem memcpy_correct:
  assumes "unat src + unat count < 2 ^ 64" "count \<le> dest - src"
  shows "memcpy m dest src count a = (if a - dest < count then m (src + (a - dest)) else m a)"
  by (simp only: memcpy_area [OF assms] copy_area_def)

theorem memcpy_correct_witness:
  "memcpy (\<lambda>a. ucast a) 0x1003 0x3083 150 0x1010 = 0x90 \<and> memcpy (\<lambda>a. ucast a) 0x1003 0x3083 150 0x1099 = 0x99"
  using memcpy_correct [of "0x3083" 150 "0x1003" "\<lambda>a. ucast a"] by simp

subsection \<open>Length and search\<close>

lemma strlen_loop_cstr: "cstr m p xs \<Longrightarrow> strlen_loop m p = Some (p + of_nat (length xs))"
  by (induction xs arbitrary: p) (simp_all add: strlen_loop.simps add.assoc)

lemma strlen_cstr: "cstr m p xs \<Longrightarrow> strlen m p = Some (of_nat (length xs))"
  by (simp add: strlen_def strlen_loop_cstr)

text \<open>\<^verbatim>\<open>strlen\<close> returns exactly on the addresses where a string starts.\<close>

lemma strlen_loop_returns:
  assumes "strlen_loop m p = Some q"
  shows "\<exists>xs. cstr m p xs \<and> q = p + of_nat (length xs)"
proof (rule strlen_loop.raw_induct [where P = "\<lambda>m p q. \<exists>xs. cstr m p xs \<and> q = p + of_nat (length xs)", OF _ assms])
  fix f m p q
  assume IH: "\<And>m p q. f m p = Some q \<Longrightarrow> \<exists>xs. cstr m p xs \<and> q = p + of_nat (length xs)"
    and eq: "(if m p \<noteq> 0 then f m (p + 1) else Some p) = Some q"
  show "\<exists>xs. cstr m p xs \<and> q = p + of_nat (length xs)"
  proof (cases "m p = 0")
    case True
    with eq show ?thesis by (intro exI [of _ "[]"]) simp
  next
    case False
    with eq IH obtain xs where "cstr m (p + 1) xs" and "q = p + 1 + of_nat (length xs)" by fastforce
    with False show ?thesis by (intro exI [of _ "m p # xs"]) (simp add: add.assoc)
  qed
qed

lemma strcspn_inner_cstr: "cstr m r ys \<Longrightarrow> strcspn_inner m c r = Some (c \<in> set ys)"
  by (induction ys arbitrary: r) (auto simp: strcspn_inner.simps)

lemma strcspn_loop_cstr:
  assumes "cstr m p xs" and "cstr m reject ys"
  shows "strcspn_loop m p reject count =
     Some (count + of_nat (length (takeWhile (\<lambda>c. c \<notin> set ys) xs)))"
  using assms(1)
proof (induction xs arbitrary: p count)
  case Nil
  then show ?case by (simp add: strcspn_loop.simps)
next
  case (Cons x xs)
  then show ?case
    by (simp add: strcspn_loop.simps [of m p] strcspn_inner_cstr [OF assms(2)] algebra_simps)
qed

lemma strrchr_loop_cstr:
  assumes "cstr m p xs" and "c \<noteq> 0"
  shows "strrchr_loop m p c l = Some (if c \<in> set xs
     then Some (p + of_nat (length xs - Suc (length (takeWhile (\<lambda>x. x \<noteq> c) (rev xs))))) else l)"
  using assms
proof (induction xs arbitrary: p l)
  case Nil
  then show ?case by (simp add: strrchr_loop.simps)
next
  case (Cons x xs)
  show ?case
  proof (cases "c \<in> set xs")
    case True
    have "length (takeWhile (\<lambda>x. x \<noteq> c) (rev xs)) < length xs"
      using takeWhile_shorter [of c "rev xs" "\<lambda>x. x \<noteq> c"] True by simp
    then have "Suc (length xs) - Suc (length (takeWhile (\<lambda>x. x \<noteq> c) (rev xs))) =
        Suc (length xs - Suc (length (takeWhile (\<lambda>x. x \<noteq> c) (rev xs))))" by simp
    moreover have "takeWhile (\<lambda>x. x \<noteq> c) (rev xs @ [x]) = takeWhile (\<lambda>x. x \<noteq> c) (rev xs)"
      using True by (simp add: takeWhile_append1)
    ultimately show ?thesis
      using Cons True by (simp add: strrchr_loop.simps [of m p] add.assoc)
  next
    case False
    then have "takeWhile (\<lambda>x. x \<noteq> c) (rev xs @ [x]) = rev xs @ takeWhile (\<lambda>x. x \<noteq> c) [x]"
      by (intro takeWhile_append2) auto
    with False Cons show ?thesis by (auto simp: strrchr_loop.simps [of m p])
  qed
qed

lemma strnlen_loop_cstr:
  "cstr m p xs \<Longrightarrow> strnlen_loop m p n = p + of_nat (min n (length xs))"
proof (induction n arbitrary: p xs)
  case 0
  show ?case by simp
next
  case (Suc n)
  then show ?case by (cases xs) (auto simp: add.assoc)
qed

subsection \<open>Comparison\<close>

text \<open>The order \<^verbatim>\<open>strcmp\<close> computes is the lexicographic order of the byte lists: the NUL that
  ends the shorter string is below every byte of the longer one.\<close>

definition order_code :: "u8 list \<Rightarrow> u8 list \<Rightarrow> int" where
  "order_code xs ys = (if xs = ys then 0 else if xs < ys then - 1 else 1)"

lemma order_code_simps [simp]:
  "order_code [] [] = 0"
  "order_code [] (y # ys) = - 1"
  "order_code (x # xs) [] = 1"
  "order_code (x # xs) (y # ys) =
     (if x < y then - 1 else if y < x then 1 else order_code xs ys)"
  by (auto simp: order_code_def)

text \<open>C34. On two strings, \<^verbatim>\<open>strcmp\<close> returns \<open>0\<close> when they are equal and otherwise the sign of
  their lexicographic order as unsigned bytes.\<close>

theorem strcmp_lexicographic:
  assumes "cstr m p xs" and "cstr m q ys"
  shows "strcmp m p q = Some (if xs = ys then 0 else if xs < ys then - 1 else 1)"
proof -
  have "strcmp m p q = Some (order_code xs ys)"
    using assms
  proof (induction xs arbitrary: p q ys)
    case Nil
    then show ?case by (cases ys) (auto simp: strcmp.simps word_gt_0)
  next
    case (Cons x xs)
    then show ?case
      by (cases ys) (auto simp: strcmp.simps [of m p] Let_def word_gt_0 not_less)
  qed
  then show ?thesis by (simp add: order_code_def)
qed

theorem strcmp_lexicographic_witness:
  "strcmp ((\<lambda>_. 0)(10 := 98, 20 := 97, 21 := 98)) 10 20 = Some 1"
  using strcmp_lexicographic [of "(\<lambda>_. 0)(10 := 98, 20 := 97, 21 := 98)" 10 "[98]" 20 "[97, 98]"]
  by simp

lemma strncmp_loop_take:
  assumes "cstr m p xs" and "cstr m q ys"
  shows "strncmp_loop m p q n = order_code (take n xs) (take n ys)"
  using assms
proof (induction n arbitrary: p q xs ys)
  case 0
  show ?case by simp
next
  case (Suc n)
  then show ?case
    by (cases xs; cases ys) (auto simp: Let_def word_gt_0 not_less)
qed

lemma memcmp_loop_eq_0:
  "memcmp_loop m p q n = 0 \<longleftrightarrow> (\<forall>i < n. m (p + of_nat i) = m (q + of_nat i))"
proof (induction n arbitrary: p q)
  case 0
  show ?case by simp
next
  case (Suc n)
  have all_less: "(\<forall>i < Suc n. P i) \<longleftrightarrow> P 0 \<and> (\<forall>i < n. P (Suc i))" for P :: "nat \<Rightarrow> bool"
    using less_Suc_eq_0_disj by auto
  show ?case using Suc.IH [of "p + 1" "q + 1"] by (auto simp: all_less Let_def add.assoc word_uint_eq_iff)
qed

lemma memchr_loop_spec:
  "memchr_loop m p c n =
     (if \<exists>i < n. m (p + of_nat i) = c then Some (p + of_nat (LEAST i. m (p + of_nat i) = c)) else None)"
proof (induction n arbitrary: p)
  case 0
  show ?case by simp
next
  case (Suc n)
  have ex_less: "(\<exists>i < Suc n. P i) \<longleftrightarrow> P 0 \<or> (\<exists>i < n. P (Suc i))" for P :: "nat \<Rightarrow> bool"
    using less_Suc_eq_0_disj by auto
  show ?case
  proof (cases "m p = c")
    case True
    then have "(LEAST i. m (p + of_nat i) = c) = 0" by (intro Least_eq_0) simp
    with True show ?thesis by (simp add: ex_less)
  next
    case False
    have "(LEAST i. m (p + of_nat i) = c) = Suc (LEAST i. m (p + 1 + of_nat i) = c)"
      if ex: "m (p + 1 + of_nat i) = c" for i
    proof -
      have "m (p + of_nat (Suc i)) = c" using ex by (simp add: add.assoc)
      then show ?thesis using False Least_Suc [of "\<lambda>i. m (p + of_nat i) = c" "Suc i"]
        by (simp add: add.assoc)
    qed
    with False show ?thesis
      using Suc.IH [of "p + 1"] by (auto simp: ex_less add.assoc eq_commute [of c])
  qed
qed

subsection \<open>Copying and rewriting\<close>

text \<open>C35. \<^verbatim>\<open>strlcpy\<close> leaves in the destination the longest prefix of the source that fits with
  its NUL, returns the length of the whole source, and writes only inside the given size, when the source ends
  before the end of the address space and the destination does not start inside it.\<close>

theorem strlcpy_correct:
  assumes src: "cstr m src xs" and sz: "sz \<noteq> 0"
    and fits: "unat src + length xs < 2 ^ 64" and apart: "length xs \<le> unat (dest - src)"
  shows "\<exists>m'. strlcpy m dest src sz = Some (of_nat (length xs), m')
     \<and> cstr m' dest (take (unat sz - 1) xs)
     \<and> (\<forall>a. sz \<le> a - dest \<longrightarrow> m' a = m a)"
proof -
  define k where "k = min (unat sz - 1) (length xs)"
  define len :: u64 where "len = of_nat k"
  define m' where "m' = (copy_area m dest src len)(dest + len := 0)"
  have sz1: "unat (sz - 1) = unat sz - 1" using sz by (rule unat_minus_one)
  have szpos: "0 < unat sz" using sz by (simp add: unat_gt_0)
  have k64: "k < 2 ^ 64" using cstr_length [OF src] by (simp add: k_def)
  then have ulen: "unat len = k" by (simp add: len_def)
  have xs64: "unat (of_nat (length xs) :: u64) = length xs" using cstr_length [OF src] by simp
  have len: "(if of_nat (length xs) \<ge> sz then sz - 1 else of_nat (length xs)) = len"
    using ulen sz1 xs64 szpos by (auto simp: k_def word_le_nat_alt word_unat_eq_iff)
  have "memcpy m dest src len = copy_area m dest src len"
    using fits apart ulen by (intro memcpy_area) (simp_all add: k_def word_le_nat_alt)
  then have run: "strlcpy m dest src sz = Some (of_nat (length xs), m')"
    using sz len by (simp add: strlcpy_def strlen_cstr [OF src] Let_def m'_def)
  have at: "m' (dest + of_nat i) = (if i < k then m (src + of_nat i) else 0)" if "i \<le> k" for i
  proof -
    have "unat (of_nat i :: u64) = i" using that k64 by simp
    moreover have "(of_nat i :: u64) = len \<longleftrightarrow> i = k"
      unfolding len_def using that k64 by (intro of_nat64_inj) auto
    ultimately show ?thesis using that ulen by (auto simp: m'_def copy_area_def word_less_nat_alt)
  qed
  have tk: "length (take (unat sz - 1) xs) = k" by (simp add: k_def)
  have "cstr m' dest (take (unat sz - 1) xs)"
    unfolding cstr_iff tk
    using at cstr_nth [OF src] cstr_nth_nonzero [OF src] by (auto simp: k_def)
  moreover have "m' a = m a" if "sz \<le> a - dest" for a
  proof -
    have "unat len < unat sz" using ulen szpos by (simp add: k_def)
    then have "len < a - dest" using that by (simp add: word_less_nat_alt word_le_nat_alt)
    then show ?thesis by (auto simp: m'_def copy_area_def)
  qed
  ultimately show ?thesis using run by blast
qed

theorem strlcpy_correct_witness:
  "\<exists>m'. strlcpy ((\<lambda>_. 0)(20 := 104, 21 := 105, 22 := 33)) 40 20 3 = Some (3, m')
     \<and> cstr m' 40 [104, 105]"
  using strlcpy_correct [of "(\<lambda>_. 0)(20 := 104, 21 := 105, 22 := 33)" 20 "[104, 105, 33]" 3 40]
  by auto

lemma strncpy_loop_spec:
  assumes "cstr m src xs" and "n < 2 ^ 64"
    and "\<And>i j. i < n \<Longrightarrow> j \<le> length xs \<Longrightarrow> dest + of_nat i \<noteq> src + of_nat j"
  shows "strncpy_loop m dest src n =
     (\<lambda>a. if unat (a - dest) < n then (if unat (a - dest) < length xs then xs ! unat (a - dest) else 0)
          else m a)"
  using assms
proof (induction n arbitrary: m dest src xs)
  case 0
  show ?case by simp
next
  case (Suc n)
  define src' where "src' = (if m src \<noteq> 0 then src + 1 else src)"
  define m' where "m' = m(dest := m src)"
  have c: "cstr m' src' (tl xs)"
  proof -
    have keep: "m' (src + of_nat j) = m (src + of_nat j)" if "j \<le> length xs" for j
      using Suc.prems(3) [of 0 j] that by (auto simp: m'_def)
    then have "cstr m' src xs" using Suc.prems(1) cstr_cong [of xs m' src m] by blast
    then show ?thesis using keep [of 0] by (cases xs) (auto simp: src'_def)
  qed
  have apart: "dest + 1 + of_nat i \<noteq> src' + of_nat j" if "i < n" "j \<le> length (tl xs)" for i j
  proof (cases xs)
    case Nil
    then show ?thesis using Suc.prems(1) Suc.prems(3) [of "Suc i" 0] that by (simp add: src'_def add.assoc)
  next
    case (Cons x ys)
    then show ?thesis
      using Suc.prems(3) [of "Suc i" "Suc j"] Suc.prems(1) that by (simp add: src'_def add.assoc)
  qed
  have IH: "strncpy_loop m' (dest + 1) src' n =
     (\<lambda>a. if unat (a - (dest + 1)) < n
          then (if unat (a - (dest + 1)) < length (tl xs) then tl xs ! unat (a - (dest + 1)) else 0)
          else m' a)"
    using Suc.prems(2) by (intro Suc.IH [OF c _ apart]) auto
  have step: "strncpy_loop m dest src (Suc n) = strncpy_loop m' (dest + 1) src' n"
    by (simp add: Let_def src'_def m'_def)
  show ?case
  proof
    fix a
    show "strncpy_loop m dest src (Suc n) a =
      (if unat (a - dest) < Suc n then if unat (a - dest) < length xs then xs ! unat (a - dest) else 0
       else m a)"
    proof (cases "a = dest")
      case True
      have "\<not> unat (dest - (dest + 1)) < n" using Suc.prems(2) by simp
      moreover have "m src = (if 0 < length xs then xs ! 0 else 0)"
        using Suc.prems(1) by (cases xs) auto
      ultimately show ?thesis unfolding step IH using True by (simp add: m'_def)
    next
      case False
      note u = unat_minus_Suc [OF False]
      show ?thesis unfolding step IH u using False by (cases xs) (auto simp: m'_def)
    qed
  qed
qed

lemma strreplace_cstr:
  assumes "cstr m s xs" and "new \<noteq> 0"
  shows "\<exists>m'. strreplace m s old new = Some (s + of_nat (length xs), m')
     \<and> cstr m' s (map (\<lambda>c. if c = old then new else c) xs)
     \<and> (\<forall>a. length xs \<le> unat (a - s) \<longrightarrow> m' a = m a)"
  using assms(1)
proof (induction xs arbitrary: m s)
  case Nil
  then show ?case by (simp add: strreplace.simps)
next
  case (Cons x xs)
  define m1 where "m1 = (if m s = old then m(s := new) else m)"
  have len: "Suc (length xs) < 2 ^ 64" using cstr_length [OF Cons.prems] by simp
  have off: "s \<noteq> s + 1 + of_nat i" if "i \<le> length xs" for i
  proof
    assume "s = s + 1 + of_nat i"
    then have "s + of_nat (Suc i) = s + of_nat 0" by (simp add: add.assoc)
    then have "(of_nat (Suc i) :: u64) = of_nat 0" by (rule add_left_imp_eq)
    moreover have "Suc i < 2 ^ 64" using that len by simp
    ultimately show False using of_nat64_inj [of "Suc i" 0] by simp
  qed
  have tail: "cstr m (s + 1) xs" using Cons.prems by simp
  then have "cstr m1 (s + 1) xs"
    using cstr_cong [of xs m1 "s + 1" m] off by (auto simp: m1_def fun_upd_apply)
  from Cons.IH [OF this] obtain m' where
    run: "strreplace m1 (s + 1) old new = Some (s + 1 + of_nat (length xs), m')"
    and str: "cstr m' (s + 1) (map (\<lambda>c. if c = old then new else c) xs)"
    and fr: "\<And>a. length xs \<le> unat (a - (s + 1)) \<Longrightarrow> m' a = m1 a" by blast
  have "length xs \<le> unat (s - (s + 1))" using len by simp
  then have "m' s = m1 s" by (rule fr)
  then have "cstr m' s (map (\<lambda>c. if c = old then new else c) (x # xs))"
    using Cons.prems assms(2) str by (auto simp: m1_def)
  moreover have "strreplace m s old new = Some (s + of_nat (length (x # xs)), m')"
    using Cons.prems run by (simp add: strreplace.simps [of m s] m1_def add.assoc split: if_splits)
  moreover have "m' a = m a" if "length (x # xs) \<le> unat (a - s)" for a
  proof -
    have ne: "a \<noteq> s" using that by auto
    have "length xs \<le> unat (a - (s + 1))" using that unat_minus_Suc [OF ne] by simp
    from fr [OF this] ne show ?thesis by (simp add: m1_def)
  qed
  ultimately show ?case by blast
qed

end
