(* ===== verification/KBits.thy ===== *)
theory KBits
  imports Prelude
begin

unbundle bit_operations_syntax

text \<open>
  Bit searches: the binary searches \<^verbatim>\<open>__ffs\<close>, \<^verbatim>\<open>fls\<close> and \<^verbatim>\<open>__fls\<close> of \<^verbatim>\<open>src/include/log2.h\<close>, the
  bitmap scans of \<^verbatim>\<open>src/lib/find_bit.c\<close> and the bitmap operations of \<^verbatim>\<open>src/bitmap/bitmap.c\<close>. A C
  array of \<open>unsigned long\<close> is a list of words; reading or writing past its end is the value \<open>None\<close>, and so is a
  search that never returns. The bit numbers of the searches are \<open>unsigned long\<close>, so they are words of 64 bits
  and wrap around.
\<close>

section \<open>Definitions\<close>

subsection \<open>Searches in a word\<close>

text \<open>One halving step of \<^verbatim>\<open>__ffs\<close>: when the low \<open>k\<close> bits are clear, skip them.\<close>

definition ffs_step :: "nat \<Rightarrow> u64 \<times> nat \<Rightarrow> u64 \<times> nat" where
  "ffs_step k = (\<lambda>(word, num).
     if word AND mask k = 0 then (drop_bit k word, num + k) else (word, num))"

definition ffs :: "u64 \<Rightarrow> nat" where
  "ffs word =
     (let (word, num) = ffs_step 2 (ffs_step 4 (ffs_step 8 (ffs_step 16 (ffs_step 32 (word, 0)))))
      in if word AND 1 = 0 then num + 1 else num)"

text \<open>One halving step of \<^verbatim>\<open>fls\<close> and \<^verbatim>\<open>__fls\<close>: when the high \<open>k\<close> bits are clear, shift them out.
  Both are the same search, on 32 and on 64 bits.\<close>

definition fls_step :: "nat \<Rightarrow> ('a::len) word \<times> nat \<Rightarrow> 'a word \<times> nat" where
  "fls_step k = (\<lambda>(word, num).
     if word AND push_bit (LENGTH('a) - k) (- 1) = 0 then (push_bit k word, num - k)
     else (word, num))"

definition fls :: "u32 \<Rightarrow> nat" where
  "fls x =
     (if x = 0 then 0
      else snd (fls_step 1 (fls_step 2 (fls_step 4 (fls_step 8 (fls_step 16 (x, 32)))))))"

definition fls_index :: "u64 \<Rightarrow> nat" where
  "fls_index word =
     (let (word, num) = fls_step 2 (fls_step 4 (fls_step 8 (fls_step 16 (fls_step 32 (word, 63)))))
      in if word AND push_bit 63 (- 1) = 0 then num - 1 else num)"

definition fls64 :: "u64 \<Rightarrow> nat" where
  "fls64 x = (if x = 0 then 0 else fls_index x + 1)"

definition is_power_of_2 :: "u64 \<Rightarrow> bool" where
  "is_power_of_2 n \<longleftrightarrow> n \<noteq> 0 \<and> n AND (n - 1) = 0"

subsection \<open>Bitmaps\<close>

definition first_word_mask :: "nat \<Rightarrow> u64" where
  "first_word_mask start = push_bit (start mod 64) (- 1)"

definition last_word_mask :: "nat \<Rightarrow> u64" where
  "last_word_mask nbits = drop_bit ((64 - nbits mod 64) mod 64) (- 1)"

text \<open>The word the scan looks at: \<^verbatim>\<open>addr1[i]\<close>, masked by \<^verbatim>\<open>addr2[i]\<close> when there is a second
  bitmap, and inverted.\<close>

definition word_at :: "u64 list \<Rightarrow> nat \<Rightarrow> u64 option" where
  "word_at a i = (if i < length a then Some (a ! i) else None)"

definition scan_word :: "u64 list \<Rightarrow> u64 list option \<Rightarrow> u64 \<Rightarrow> nat \<Rightarrow> u64 option" where
  "scan_word addr1 addr2 invert i =
     (case word_at addr1 i of
        None \<Rightarrow> None
      | Some w \<Rightarrow>
          (case addr2 of
             None \<Rightarrow> Some (w XOR invert)
           | Some a \<Rightarrow> (case word_at a i of None \<Rightarrow> None | Some v \<Rightarrow> Some ((w AND v) XOR invert))))"

partial_function (option) find_next_loop ::
  "u64 list \<Rightarrow> u64 list option \<Rightarrow> u64 \<Rightarrow> u64 \<Rightarrow> u64 \<Rightarrow> u64 \<Rightarrow> u64 option" where
  "find_next_loop addr1 addr2 nbits invert start tmp =
     (if tmp \<noteq> 0 then Some (min (start + of_nat (ffs tmp)) nbits)
      else let start = start + 64
           in if start \<ge> nbits then Some nbits
              else case scan_word addr1 addr2 invert (unat (start div 64)) of
                     None \<Rightarrow> None
                   | Some tmp' \<Rightarrow> find_next_loop addr1 addr2 nbits invert start tmp')"

declare find_next_loop.simps [code]

definition find_next_bit_gen ::
  "u64 list \<Rightarrow> u64 list option \<Rightarrow> u64 \<Rightarrow> u64 \<Rightarrow> u64 \<Rightarrow> u64 option" where
  "find_next_bit_gen addr1 addr2 nbits start invert =
     (if start \<ge> nbits then Some nbits
      else case scan_word addr1 addr2 invert (unat (start div 64)) of
             None \<Rightarrow> None
           | Some tmp \<Rightarrow>
               find_next_loop addr1 addr2 nbits invert (start AND NOT 63)
                 (tmp AND first_word_mask (unat start)))"

definition find_next_zero_bit :: "u64 list \<Rightarrow> u64 \<Rightarrow> u64 \<Rightarrow> u64 option" where
  "find_next_zero_bit a sz offset = find_next_bit_gen a None sz offset (- 1)"

definition find_next_bit :: "u64 list \<Rightarrow> u64 \<Rightarrow> u64 \<Rightarrow> u64 option" where
  "find_next_bit a sz offset = find_next_bit_gen a None sz offset 0"

text \<open>\<^verbatim>\<open>ALIGN\<close> at the type of its first argument.\<close>

definition ALIGN32 :: "u32 \<Rightarrow> u32 \<Rightarrow> u32" where
  "ALIGN32 x a = (x + (a - 1)) AND NOT (a - 1)"

definition ALIGN64 :: "u64 \<Rightarrow> u64 \<Rightarrow> u64" where
  "ALIGN64 x a = (x + (a - 1)) AND NOT (a - 1)"

definition ALIGN_MASK :: "u64 \<Rightarrow> u64 \<Rightarrow> u64" where
  "ALIGN_MASK x msk = (x + msk) AND NOT msk"

partial_function (option) bitmap_find_next_zero_area_off ::
  "u64 list \<Rightarrow> u64 \<Rightarrow> u64 \<Rightarrow> u32 \<Rightarrow> u64 \<Rightarrow> u64 \<Rightarrow> u64 option" where
  "bitmap_find_next_zero_area_off bm sz start nr align_mask align_offset =
     Option.bind (find_next_zero_bit bm sz start) (\<lambda>index.
       let index = ALIGN_MASK (index + align_offset) align_mask - align_offset;
           end = index + ucast nr
       in if end > sz then Some end
          else Option.bind (find_next_bit bm end index) (\<lambda>i.
                 if i < end
                 then bitmap_find_next_zero_area_off bm sz (i + 1) nr align_mask align_offset
                 else Some index))"

declare bitmap_find_next_zero_area_off.simps [code]

definition bitmap_find_next_zero_area :: "u64 list \<Rightarrow> u64 \<Rightarrow> u64 \<Rightarrow> u32 \<Rightarrow> u64 \<Rightarrow> u64 option" where
  "bitmap_find_next_zero_area bm sz start nr align_mask =
     bitmap_find_next_zero_area_off bm sz start nr align_mask 0"

text \<open>\<^verbatim>\<open>*p |= mask\<close>.\<close>

definition or_at :: "u64 list \<Rightarrow> nat \<Rightarrow> u64 \<Rightarrow> u64 list option" where
  "or_at a i w = (if i < length a then Some (a[i := a ! i OR w]) else None)"

text \<open>The loop of \<^verbatim>\<open>__bitmap_set\<close> with its tail; \<open>len\<close> is a signed \<open>int\<close> as in the source. The
  shift \<open>bits_to_set\<close> is between 1 and 64 whenever the loop is entered, so the second conjunct of
  its condition always holds; it makes the recursion well founded.\<close>

function bitmap_set_loop ::
  "u64 list \<Rightarrow> nat \<Rightarrow> nat \<Rightarrow> int \<Rightarrow> nat \<Rightarrow> u64 \<Rightarrow> u64 list option" where
  "bitmap_set_loop bm p sz len bits_to_set mask_to_set =
     (if len - int bits_to_set \<ge> 0 \<and> 0 < bits_to_set
      then case or_at bm p mask_to_set of
             None \<Rightarrow> None
           | Some bm' \<Rightarrow> bitmap_set_loop bm' (p + 1) sz (len - int bits_to_set) 64 (- 1)
      else if len \<noteq> 0 then or_at bm p (mask_to_set AND last_word_mask sz)
      else Some bm)"
  by pat_completeness auto
termination
  by (relation "measure (\<lambda>(bm, p, sz, len, b, m). nat len)") auto

declare bitmap_set_loop.simps [simp del]

definition bitmap_set :: "u64 list \<Rightarrow> nat \<Rightarrow> int \<Rightarrow> u64 list option" where
  "bitmap_set bm start len =
     bitmap_set_loop bm (start div 64) (nat ((int start + len) mod 2 ^ 32)) len
       (64 - start mod 64) (first_word_mask start)"

section \<open>Searches in a word\<close>

text \<open>The invariant of the halving search: \<open>word\<close> is the input shifted down by \<open>num\<close>, the bits
  skipped were clear, and a set bit remains among the low \<open>k\<close>.\<close>

definition ffs_inv :: "u64 \<Rightarrow> nat \<Rightarrow> u64 \<times> nat \<Rightarrow> bool" where
  "ffs_inv w0 k s \<longleftrightarrow>
     fst s = drop_bit (snd s) w0 \<and> (\<forall>i < snd s. \<not> bit w0 i) \<and> (\<exists>i < k. bit (fst s) i)"

lemma and_mask_eq_0_iff: "(w :: u64) AND mask k = 0 \<longleftrightarrow> (\<forall>i < k. \<not> bit w i)"
  using bit_imp_le_length [of w] by (fastforce simp: bit_eq_iff bit_and_iff bit_mask_iff)

lemma ffs_step_inv:
  assumes "ffs_inv w0 (2 * k) s"
  shows "ffs_inv w0 k (ffs_step k s)"
proof (cases "fst s AND mask k = 0")
  case True
  then have low: "\<not> bit (fst s) i" if "i < k" for i
    using that by (simp add: and_mask_eq_0_iff)
  obtain i where i: "i < 2 * k" "bit (fst s) i" using assms by (auto simp: ffs_inv_def)
  with low have "k \<le> i" by (meson not_less)
  then have "bit (drop_bit k (fst s)) (i - k)" "i - k < k"
    using i by (auto simp: bit_drop_bit_eq)
  moreover have "\<not> bit w0 j" if "j < snd s + k" for j
  proof (cases "j < snd s")
    case False
    then have "bit (fst s) (j - snd s) = bit w0 j"
      using assms by (auto simp: ffs_inv_def bit_drop_bit_eq)
    then show ?thesis using low [of "j - snd s"] that False by auto
  qed (use assms in \<open>auto simp: ffs_inv_def\<close>)
  ultimately show ?thesis
    using assms True by (auto simp: ffs_inv_def ffs_step_def split_def ac_simps)
next
  case False
  then show ?thesis
    using assms by (auto simp: ffs_inv_def ffs_step_def split_def and_mask_eq_0_iff)
qed

lemma ffs_set_bit:
  assumes "w \<noteq> 0"
  shows "bit w (ffs w)" and "\<And>i. i < ffs w \<Longrightarrow> \<not> bit w i"
proof -
  obtain i where "bit w i" using assms by (auto simp: bit_eq_iff)
  then have "ffs_inv w (2 * 32) (w, 0)"
    using bit_imp_le_length [of w i] by (auto simp: ffs_inv_def)
  from this [THEN ffs_step_inv] have "ffs_inv w (2 * 16) (ffs_step 32 (w, 0))" by simp
  from this [THEN ffs_step_inv] have "ffs_inv w (2 * 8) (ffs_step 16 (ffs_step 32 (w, 0)))" by simp
  from this [THEN ffs_step_inv]
  have "ffs_inv w (2 * 4) (ffs_step 8 (ffs_step 16 (ffs_step 32 (w, 0))))" by simp
  from this [THEN ffs_step_inv]
  have "ffs_inv w (2 * 2) (ffs_step 4 (ffs_step 8 (ffs_step 16 (ffs_step 32 (w, 0)))))" by simp
  from this [THEN ffs_step_inv] obtain v n where
    step: "ffs_step 2 (ffs_step 4 (ffs_step 8 (ffs_step 16 (ffs_step 32 (w, 0))))) = (v, n)"
    and inv: "ffs_inv w 2 (v, n)" by (metis surj_pair)
  have v: "bit v 0 \<or> bit v 1" using inv by (auto simp: ffs_inv_def less_2_cases_iff)
  have "v AND 1 = 0 \<longleftrightarrow> \<not> bit v 0" by (simp add: and_one_eq bit_0 odd_iff_mod_2_eq_one)
  then have "ffs w = (if bit v 0 then n else n + 1)" by (simp add: ffs_def step)
  then show "bit w (ffs w)" "\<And>i. i < ffs w \<Longrightarrow> \<not> bit w i"
    using v inv by (auto simp: ffs_inv_def bit_drop_bit_eq less_Suc_eq split: if_splits)
qed

text \<open>The same for the search from the top: \<open>word\<close> is the input shifted up, and a set bit
  remains among the high \<open>k\<close>.\<close>

definition fls_inv :: "('a::len) word \<Rightarrow> nat \<Rightarrow> nat \<Rightarrow> 'a word \<times> nat \<Rightarrow> bool" where
  "fls_inv w0 base k s \<longleftrightarrow>
     (\<exists>sh. snd s + sh = base \<and> fst s = push_bit sh w0 \<and>
           (\<forall>i. LENGTH('a) \<le> i + sh \<longrightarrow> \<not> bit w0 i) \<and>
           (\<exists>i. LENGTH('a) \<le> i + k \<and> bit (fst s) i))"

text \<open>The lowest set bit splits a word.\<close>

lemma ffs_split:
  assumes "w \<noteq> 0"
  defines "h \<equiv> w AND NOT (mask (Suc (ffs w)))"
  shows "w = 2 ^ ffs w + h" and "w AND (w - 1) = h" and "2 ^ ffs w dvd unat w" and "ffs w < 64"
proof -
  let ?k = "ffs w"
  note f = ffs_set_bit [OF assms(1)]
  show k: "?k < 64" using bit_imp_le_length [OF f(1)] by simp
  have ex: "bit (2 ^ ?k :: u64) i \<longleftrightarrow> i = ?k" for i
    using k by (auto simp: bit_exp_iff possible_bit_def)
  have "w = 2 ^ ?k OR h"
    unfolding h_def
    by (rule bit_word_eqI) (use f in \<open>auto simp: bit_or_iff bit_and_iff bit_not_iff bit_mask_iff ex less_Suc_eq_le
      dest: le_neq_implies_less\<close>)
  also have "\<dots> = 2 ^ ?k + h"
    by (rule disjunctive_add_eq_or [symmetric], rule bit_word_eqI)
      (auto simp: bit_and_iff h_def bit_not_iff bit_mask_iff ex)
  finally show w: "w = 2 ^ ?k + h" .
  have "w - 1 = mask ?k + h" by (subst w) (simp add: mask_eq_exp_minus_1)
  also have "\<dots> = mask ?k OR h"
    by (rule disjunctive_add_eq_or, rule bit_word_eqI)
      (auto simp: bit_and_iff h_def bit_not_iff bit_mask_iff)
  finally have m: "w - 1 = mask ?k OR h" .
  show "w AND (w - 1) = h"
    unfolding m
    by (rule bit_word_eqI) (use f(2) in \<open>auto simp: bit_and_iff bit_or_iff h_def bit_not_iff bit_mask_iff\<close>)
  have "take_bit ?k w = 0"
    by (rule bit_word_eqI) (use f(2) in \<open>auto simp: bit_take_bit_iff\<close>)
  then have "take_bit ?k (unat w) = 0" by (simp add: unsigned_take_bit_eq [symmetric])
  then show "2 ^ ?k dvd unat w" by (simp add: take_bit_eq_0_iff)
qed

lemma is_power_of_2_iff: "is_power_of_2 n \<longleftrightarrow> (\<exists>k < 64. n = 2 ^ k)"
proof
  assume "is_power_of_2 n"
  then show "\<exists>k < 64. n = 2 ^ k"
    using ffs_split [of n] by (auto simp: is_power_of_2_def)
next
  assume "\<exists>k < 64. n = 2 ^ k"
  then obtain k where k: "k < 64" "n = 2 ^ k" by blast
  have "(2 ^ k :: u64) AND mask k = 0"
    by (rule bit_word_eqI) (auto simp: bit_and_iff bit_mask_iff bit_exp_iff)
  then show "is_power_of_2 n" using k by (auto simp: is_power_of_2_def mask_eq_exp_minus_1)
qed

lemma and_high_eq_0_iff:
  "(w :: ('a::len) word) AND push_bit n (- 1) = 0 \<longleftrightarrow> (\<forall>i \<ge> n. \<not> bit w i)"
  using bit_imp_le_length [of w]
  by (auto simp: bit_eq_iff bit_and_iff bit_not_iff bit_mask_iff) (meson leD, meson leI)

lemma fls_step_inv:
  fixes w0 :: "('a::len) word"
  assumes inv: "fls_inv w0 base m s" and m: "m = 2 * k" and base: "LENGTH('a) \<le> base + 1"
    and k: "k \<le> LENGTH('a)"
  shows "fls_inv w0 base k (fls_step k s)"
proof (cases "fst s AND push_bit (LENGTH('a) - k) (- 1) = 0")
  case True
  then have high: "\<not> bit (fst s) i" if "LENGTH('a) - k \<le> i" for i
    using that unfolding and_high_eq_0_iff by blast
  obtain sh i where sh: "snd s + sh = base" "fst s = push_bit sh w0"
      "\<And>i. LENGTH('a) \<le> i + sh \<Longrightarrow> \<not> bit w0 i"
    and i: "LENGTH('a) \<le> i + 2 * k" "bit (fst s) i"
    using inv m unfolding fls_inv_def by blast
  have i': "i < LENGTH('a) - k" using high [of i] i by force
  have "sh \<le> i" using i sh by (simp add: bit_push_bit_iff)
  then have fits: "k \<le> snd s" using i' sh(1) base by linarith
  have clear: "\<not> bit w0 j" if "LENGTH('a) \<le> j + (sh + k)" for j
  proof (cases "LENGTH('a) \<le> j + sh")
    case False
    then have "bit (fst s) (j + sh) = bit w0 j" using sh by (simp add: bit_push_bit_iff)
    then show ?thesis using high [of "j + sh"] that by simp
  qed (use sh in auto)
  have "bit (push_bit k (fst s)) (i + k)" using i i' by (auto simp: bit_push_bit_iff)
  then have "fls_inv w0 base k (push_bit k (fst s), snd s - k)"
    unfolding fls_inv_def using sh fits clear i
    by (intro exI [of _ "sh + k"]) (auto simp: push_bit_push_bit add.commute intro!: exI [of _ "i + k"])
  then show ?thesis using True by (simp add: fls_step_def split_def)
next
  case False
  then show ?thesis
    using inv k unfolding and_high_eq_0_iff fls_inv_def fls_step_def split_def le_diff_conv by auto
qed

lemma fls_inv_start:
  fixes w :: "('a::len) word"
  assumes "w \<noteq> 0"
  shows "fls_inv w base LENGTH('a) (w, base)"
proof -
  obtain i where "bit w i" using assms by (auto simp: bit_eq_iff)
  moreover have "\<not> bit w i" if "LENGTH('a) \<le> i" for i
    using that bit_imp_le_length [of w i] by linarith
  ultimately show ?thesis by (auto simp: fls_inv_def intro!: exI [of _ i])
qed

lemma fls_inv_end:
  fixes w0 :: "('a::len) word"
  assumes "fls_inv w0 base 1 s"
  shows "bit w0 (snd s + LENGTH('a) - 1 - base)" and "snd s + LENGTH('a) \<le> i + base \<Longrightarrow> \<not> bit w0 i"
    and "base < snd s + LENGTH('a)"
proof -
  obtain sh i where sh: "snd s + sh = base" "\<And>i. LENGTH('a) \<le> i + sh \<Longrightarrow> \<not> bit w0 i"
    and i: "LENGTH('a) \<le> i + 1" "bit (push_bit sh w0) i"
    using assms unfolding fls_inv_def by metis
  have i': "i = LENGTH('a) - 1" "sh \<le> i" "bit w0 (i - sh)"
    using i by (auto simp: bit_push_bit_iff)
  moreover have "i - sh = snd s + LENGTH('a) - 1 - base" using i' sh(1) by simp
  ultimately show "bit w0 (snd s + LENGTH('a) - 1 - base)" by simp
  show "base < snd s + LENGTH('a)" using i i' sh(1) by simp
  show "\<not> bit w0 j" if "snd s + LENGTH('a) \<le> j + base" for j
    using sh(1) that by (intro sh(2)) linarith
qed

lemma fls64_set_bit:
  assumes "w \<noteq> 0"
  shows "bit w (fls64 w - 1)" and "\<And>i. fls64 w \<le> i \<Longrightarrow> \<not> bit w i" and "0 < fls64 w"
proof -
  let ?s = "fls_step 2 (fls_step 4 (fls_step 8 (fls_step 16 (fls_step 32 (w, 63)))))"
  have "fls_inv w 63 1 (fls_step 1 ?s)"
    by (rule fls_step_inv fls_inv_start assms refl | simp)+
  from fls_inv_end [OF this] 
  have inv: "bit w (snd (fls_step 1 ?s))" "\<And>i. snd (fls_step 1 ?s) < i \<Longrightarrow> \<not> bit w i"
    by simp_all
  moreover have "fls_index w = snd (fls_step 1 ?s)"
    unfolding fls_index_def by (simp add: fls_step_def [of "Suc 0"] split_def Let_def)
  ultimately show "bit w (fls64 w - 1)" "\<And>i. fls64 w \<le> i \<Longrightarrow> \<not> bit w i" "0 < fls64 w"
    using assms by (auto simp: fls64_def)
qed

lemma fls_set_bit:
  assumes "w \<noteq> 0"
  shows "bit w (fls w - 1)" and "\<And>i. fls w \<le> i \<Longrightarrow> \<not> bit w i" and "0 < fls w"
proof -
  let ?s = "fls_step 1 (fls_step 2 (fls_step 4 (fls_step 8 (fls_step 16 (w, 32)))))"
  have "fls_inv w 32 1 ?s"
    by (rule fls_step_inv fls_inv_start assms refl | simp)+
  from fls_inv_end [OF this] show "bit w (fls w - 1)" "\<And>i. fls w \<le> i \<Longrightarrow> \<not> bit w i" "0 < fls w"
    using assms by (auto simp: fls_def)
qed

section \<open>Bitmap scans\<close>

text \<open>The bit \<open>i\<close> of a bitmap, and the specification of a scan: \<open>r\<close> is the first position of
  \<open>[s, n)\<close> where \<open>P\<close> holds, or \<open>n\<close> when there is none.\<close>

definition bm_bit :: "u64 list \<Rightarrow> nat \<Rightarrow> bool" where
  "bm_bit a i \<longleftrightarrow> bit (a ! (i div 64)) (i mod 64)"

definition is_first :: "(nat \<Rightarrow> bool) \<Rightarrow> nat \<Rightarrow> nat \<Rightarrow> nat \<Rightarrow> bool" where
  "is_first P s n r \<longleftrightarrow>
     r \<le> n \<and> (r < n \<longrightarrow> s \<le> r \<and> P r) \<and> (\<forall>i. s \<le> i \<and> i < r \<longrightarrow> \<not> P i)"

lemma is_first_unique:
  assumes "is_first P s n r" and "is_first P s n r'"
  shows "r = r'"
  using assms unfolding is_first_def by (metis linorder_neqE_nat order_less_le_trans)

lemma is_first_upper: "is_first P s n n \<longleftrightarrow> (\<forall>i. s \<le> i \<and> i < n \<longrightarrow> \<not> P i)"
  by (auto simp: is_first_def)

lemma next_word_index:
  fixes j q :: nat
  assumes "j < 64"
  shows "(q * 64 + 64 + j) div 64 = q + 1" and "(q * 64 + 64 + j) mod 64 = j"
proof -
  have "q * 64 + 64 + j = (q + 1) * 64 + j" by simp
  then show "(q * 64 + 64 + j) div 64 = q + 1" "(q * 64 + 64 + j) mod 64 = j"
    using assms by (simp_all only: div_mult_self3 mod_mult_self3 div_less mod_less)
qed

lemma same_word_iff: "start \<le> start div 64 * 64 + j \<longleftrightarrow> start mod 64 \<le> j" for start j :: nat
  using div_mult_mod_eq [of start 64] by linarith

lemma find_next_loop_first:
  assumes W: "\<And>k. k * 64 < unat nbits \<Longrightarrow> scan_word a1 a2 vert k = Some (W k)"
    and P: "P = (\<lambda>i. bit (W (i div 64)) (i mod 64))" and nbits: "unat nbits < 2 ^ 63"
    and "unat start mod 64 = 0" and "unat start < unat nbits" and "s < unat start + 64"
    and "\<forall>i. s \<le> i \<and> i < unat start \<longrightarrow> \<not> P i"
    and "\<forall>j < 64. bit tmp j \<longleftrightarrow> s \<le> unat start + j \<and> P (unat start + j)"
  shows "\<exists>r. find_next_loop a1 a2 nbits vert start tmp = Some r \<and> is_first P s (unat nbits) (unat r)"
  using assms(4-)
proof (induction "unat nbits - unat start" arbitrary: start tmp rule: less_induct)
  case less
  note prems = less.prems
  have plus: "unat (start + of_nat j) = unat start + j" if "j \<le> 64" for j
    using that prems(2) nbits by (intro unat_add_no_wrap) simp
  show ?case
  proof (cases "tmp = 0")
    case False
    then have f: "bit tmp (ffs tmp)" "\<And>i. i < ffs tmp \<Longrightarrow> \<not> bit tmp i" and lt: "ffs tmp < 64"
      using ffs_set_bit [of tmp] bit_imp_le_length [of tmp "ffs tmp"] by auto
    have below: "\<not> P i" if "s \<le> i" "i < unat start + ffs tmp" for i
    proof (cases "i < unat start")
      case False
      then show ?thesis using f(2) [of "i - unat start"] prems(5) that lt by auto
    qed (use prems(4) that in auto)
    have "s \<le> unat start + ffs tmp" "P (unat start + ffs tmp)" using f(1) lt prems(5) by auto
    then have "is_first P s (unat nbits) (min (unat start + ffs tmp) (unat nbits))"
      using below by (auto simp: is_first_def)
    moreover have "unat (min (start + of_nat (ffs tmp)) nbits) = min (unat start + ffs tmp) (unat nbits)"
      using plus [of "ffs tmp"] lt by (auto simp: min_def word_le_nat_alt)
    ultimately show ?thesis using False by (subst find_next_loop.simps) simp
  next
    case True
    have none: "\<not> P i" if "s \<le> i" "i < unat start + 64" for i
    proof (cases "i < unat start")
      case False
      then show ?thesis using prems(5) [rule_format, of "i - unat start"] that True by auto
    qed (use prems(4) that in auto)
    have u: "unat (start + 64) = unat start + 64" using plus [of 64] by simp
    show ?thesis
    proof (cases "start + 64 \<ge> nbits")
      case True
      then have "is_first P s (unat nbits) (unat nbits)" using none u by (auto simp: is_first_upper word_le_nat_alt)
      then show ?thesis using True \<open>tmp = 0\<close> by (subst find_next_loop.simps) simp
    next
      case False
      then have lt: "unat start + 64 < unat nbits" using u by (simp add: word_le_nat_alt)
      obtain q where q: "unat start = q * 64" using prems(1) by (metis mod_0_imp_dvd dvdE mult.commute)
      have w: "scan_word a1 a2 vert (unat ((start + 64) div 64)) = Some (W (q + 1))"
        using W [of "q + 1"] lt by (simp add: unat_div u q)
      have "\<exists>r. find_next_loop a1 a2 nbits vert (start + 64) (W (q + 1)) = Some r \<and> is_first P s (unat nbits) (unat r)"
        using prems(3) lt none u by (intro less.hyps) (auto simp: q P next_word_index)
      then show ?thesis using False \<open>tmp = 0\<close> w by (subst find_next_loop.simps) simp
    qed
  qed
qed

lemma find_next_bit_gen_first:
  assumes W: "\<And>k. k * 64 < unat nbits \<Longrightarrow> scan_word a1 a2 vert k = Some (W k)" and nbits: "unat nbits < 2 ^ 63"
  shows "\<exists>r. find_next_bit_gen a1 a2 nbits start vert = Some r
           \<and> is_first (\<lambda>i. bit (W (i div 64)) (i mod 64)) (unat start) (unat nbits) (unat r)"
proof (cases "start \<ge> nbits")
  case False
  let ?s = "unat start"
  have lt: "?s < unat nbits" using False by (simp add: word_le_nat_alt)
  then have bounds: "?s div 64 * 64 < unat nbits" "?s < ?s div 64 * 64 + 64"
    using div_mult_mod_eq [of ?s 64] mod_less_divisor [of 64 ?s] by linarith+
  define st where "st = start AND NOT 63"
  have rd: "unat st = ?s div 64 * 64" using and_not_mask_nat [of 6 start] by (simp add: st_def)
  have sw: "scan_word a1 a2 vert (unat (start div 64)) = Some (W (?s div 64))"
    using bounds W by (simp add: unat_div)
  have "\<exists>r. find_next_loop a1 a2 nbits vert st (W (?s div 64) AND first_word_mask ?s) = Some r
      \<and> is_first (\<lambda>i. bit (W (i div 64)) (i mod 64)) ?s (unat nbits) (unat r)"
    using bounds
    by (intro find_next_loop_first [OF W refl nbits])
      (auto simp: rd first_word_mask_def bit_and_iff bit_not_iff bit_mask_iff same_word_iff)
  then show ?thesis using False sw by (simp add: find_next_bit_gen_def st_def)
qed (auto simp: find_next_bit_gen_def is_first_def word_le_nat_alt)

lemma find_next_bit_first:
  assumes "unat n \<le> 64 * length a" "unat n < 2 ^ 63"
  shows "\<exists>r. find_next_bit a n s = Some r \<and> is_first (bm_bit a) (unat s) (unat n) (unat r)"
  using find_next_bit_gen_first [of n a None 0 "\<lambda>k. a ! k" s] assms
  by (fastforce simp: find_next_bit_def bm_bit_def [abs_def] scan_word_def word_at_def)

lemma find_next_zero_bit_first:
  assumes "unat n \<le> 64 * length a" "unat n < 2 ^ 63"
  shows "\<exists>r. find_next_zero_bit a n s = Some r \<and> is_first (\<lambda>i. \<not> bm_bit a i) (unat s) (unat n) (unat r)"
proof -
  have "bit (NOT (a ! (i div 64))) (i mod 64) = (\<not> bm_bit a i)" for i
    by (simp add: bm_bit_def bit_not_iff)
  then show ?thesis
    using find_next_bit_gen_first [of n a None "- 1" "\<lambda>k. NOT (a ! k)" s] assms
    by (fastforce simp: find_next_zero_bit_def scan_word_def word_at_def)
qed

section \<open>Searching for a free area\<close>

lemma ALIGN_MASK_props:
  assumes "k < 64" "unat x + 2 ^ k < 2 ^ 64"
  shows "unat x \<le> unat (ALIGN_MASK x (2 ^ k - 1))" and "2 ^ k dvd unat (ALIGN_MASK x (2 ^ k - 1))"
    and "unat (ALIGN_MASK x (2 ^ k - 1)) < unat x + 2 ^ k"
    and "unat x \<le> y \<Longrightarrow> 2 ^ k dvd y \<Longrightarrow> unat (ALIGN_MASK x (2 ^ k - 1)) \<le> y"
proof -
  let ?m = "2 ^ k :: nat"
  have eq: "unat (ALIGN_MASK x (2 ^ k - 1)) = (unat x + ?m - 1) div ?m * ?m"
    unfolding ALIGN_MASK_def by (rule align_up_nat) (use assms in simp_all)
  have "(unat x + ?m - 1) mod ?m < ?m" "0 < ?m" by simp_all
  then show "unat x \<le> unat (ALIGN_MASK x (2 ^ k - 1))" "unat (ALIGN_MASK x (2 ^ k - 1)) < unat x + ?m"
    unfolding eq using div_mult_mod_eq [of "unat x + ?m - 1" ?m] by linarith+
  show "?m dvd unat (ALIGN_MASK x (2 ^ k - 1))" unfolding eq by (rule dvd_triv_right)
  show "unat (ALIGN_MASK x (2 ^ k - 1)) \<le> y" if le: "unat x \<le> y" and dvd: "?m dvd y"
  proof -
    obtain q where q: "y = ?m * q" using dvd by (rule dvdE)
    have "(unat x + ?m - 1) div ?m \<le> (?m * q + (?m - 1)) div ?m"
      using le q \<open>0 < ?m\<close> by (intro div_le_mono) simp
    also have "\<dots> = q" using div_mult_self4 [of ?m q "?m - 1"] by simp
    finally show ?thesis unfolding eq q by (simp add: mult.commute)
  qed
qed

text \<open>\<open>area_fits\<close>: \<open>nr\<close> clear bits from \<open>i\<close> on, below \<open>sz\<close>, with \<open>i + off\<close> on a multiple of \<open>2 ^ k\<close>.\<close>

definition area_fits :: "u64 list \<Rightarrow> nat \<Rightarrow> nat \<Rightarrow> nat \<Rightarrow> nat \<Rightarrow> nat \<Rightarrow> bool" where
  "area_fits bm sz nr k off i \<longleftrightarrow>
     i + nr \<le> sz \<and> 2 ^ k dvd (i + off) \<and> (\<forall>j. i \<le> j \<and> j < i + nr \<longrightarrow> \<not> bm_bit bm j)"

definition area_result :: "u64 list \<Rightarrow> nat \<Rightarrow> nat \<Rightarrow> nat \<Rightarrow> nat \<Rightarrow> nat \<Rightarrow> nat \<Rightarrow> bool" where
  "area_result bm sz start nr k off r \<longleftrightarrow>
     (if r + nr \<le> sz then start \<le> r \<and> area_fits bm sz nr k off r \<and>
          (\<forall>i. start \<le> i \<and> i < r \<longrightarrow> \<not> area_fits bm sz nr k off i)
      else sz < r \<and> (\<forall>i \<ge> start. \<not> area_fits bm sz nr k off i))"

text \<open>One pass of the search: the candidate \<open>ix\<close>, without wrap-around.\<close>

lemma area_step:
  fixes sz off z :: u64
  assumes z: "is_first (\<lambda>i. \<not> bm_bit bm i) start (unat sz) (unat z)" and "0 < nr"
    and k: "k < 64" and room: "unat sz + unat off + 2 ^ k + nr < 2 ^ 63"
    and ix: "ix = ALIGN_MASK (z + off) (2 ^ k - 1) - off"
  shows "unat z \<le> unat ix" and "2 ^ k dvd (unat ix + unat off)" and "unat (ix + of_nat nr) = unat ix + nr"
    and "start \<le> i \<Longrightarrow> area_fits bm (unat sz) nr k (unat off) i \<Longrightarrow> unat ix \<le> i"
proof -
  have zs: "unat z \<le> unat sz" using z by (simp add: is_first_def)
  have zo: "unat (z + off) = unat z + unat off" using zs room unat_add_no_wrap [of z "unat off"] by simp
  have "unat (z + off) + 2 ^ k < 2 ^ 64" using zo zs room by simp
  note al = ALIGN_MASK_props [OF k this, unfolded zo]
  have ixo: "unat ix = unat (ALIGN_MASK (z + off) (2 ^ k - 1)) - unat off"
    unfolding ix using al(1) by (intro unat_sub) (simp add: word_le_nat_alt)
  then show "unat z \<le> unat ix" "2 ^ k dvd (unat ix + unat off)" using al(1,2) by simp_all
  show "unat (ix + of_nat nr) = unat ix + nr" using ixo al(3) zs room by (intro unat_add_no_wrap) simp
  assume i: "start \<le> i" "area_fits bm (unat sz) nr k (unat off) i"
  then have "\<not> bm_bit bm i" "i < unat sz" using \<open>0 < nr\<close> by (simp_all add: area_fits_def)
  then have "unat z \<le> i" using z i(1) unfolding is_first_def by (meson leI)
  then show "unat ix \<le> i" using al(4) [of "i + unat off"] i(2) ixo by (simp add: area_fits_def)
qed

lemma area_result_skip:
  assumes "area_result bm sz s' nr k off r" and "s \<le> s'"
    and skip: "\<And>j. s \<le> j \<Longrightarrow> area_fits bm sz nr k off j \<Longrightarrow> s' \<le> j"
  shows "area_result bm sz s nr k off r"
proof (cases "r + nr \<le> sz")
  case True
  then have r: "s' \<le> r" "area_fits bm sz nr k off r"
    and first: "\<And>i. s' \<le> i \<Longrightarrow> i < r \<Longrightarrow> \<not> area_fits bm sz nr k off i"
    using assms(1) by (simp_all add: area_result_def)
  moreover have "\<not> area_fits bm sz nr k off i" if "s \<le> i" "i < r" for i
    using first [of i] skip [of i] that by blast
  ultimately show ?thesis using True assms(2) by (simp add: area_result_def)
next
  case False
  then have "sz < r" and none: "\<And>i. s' \<le> i \<Longrightarrow> \<not> area_fits bm sz nr k off i"
    using assms(1) by (simp_all add: area_result_def)
  moreover have "\<not> area_fits bm sz nr k off i" if "s \<le> i" for i
    using none [of i] skip [of i] that by blast
  ultimately show ?thesis using False by (simp add: area_result_def)
qed

lemma area_found:
  assumes len: "unat sz \<le> 64 * length bm" and nr: "0 < nr" and k: "k < 64"
    and room: "unat sz + unat off + 2 ^ k + unat nr < 2 ^ 63"
  shows "\<exists>r. bitmap_find_next_zero_area_off bm sz start nr (2 ^ k - 1) off = Some r
           \<and> area_result bm (unat sz) (unat start) (unat nr) k (unat off) (unat r)"
proof (induction "unat sz - unat start" arbitrary: start rule: less_induct)
  case less
  let ?fits = "area_fits bm (unat sz) (unat nr) k (unat off)" and ?n = "ucast nr :: u64"
  have n: "?n = of_nat (unat nr)" "0 < unat nr" using nr by (simp_all add: unat_gt_0 word_gt_0)
  obtain z where z: "find_next_zero_bit bm sz start = Some z" "is_first (\<lambda>i. \<not> bm_bit bm i) (unat start) (unat sz) (unat z)"
    using find_next_zero_bit_first [OF len] room by force
  define ix where "ix = ALIGN_MASK (z + off) (2 ^ k - 1) - off"
  note step = area_step [OF z(2) n(2) k room ix_def, folded n(1)]
  note unf = bitmap_find_next_zero_area_off.simps [of bm sz start nr "2 ^ k - 1" off]
  show ?case
  proof (cases "ix + ?n > sz")
    case True
    then have "area_result bm (unat sz) (unat start) (unat nr) k (unat off) (unat (ix + ?n))"
      using step(3,4) by (fastforce simp: area_result_def area_fits_def word_less_nat_alt)
    then show ?thesis using True z(1) by (subst unf) (simp add: ix_def [symmetric] Let_def)
  next
    case False
    then have le: "unat ix + unat nr \<le> unat sz" using step(3) by (simp add: word_less_nat_alt)
    have zlt: "unat start \<le> unat z" using z(2) step(1) n(2) le by (auto simp: is_first_def)
    obtain i where i: "find_next_bit bm (ix + ?n) ix = Some i" "is_first (bm_bit bm) (unat ix) (unat ix + unat nr) (unat i)"
      using find_next_bit_first [of "ix + ?n" bm ix] le len room step(3) by auto
    show ?thesis
    proof (cases "i < ix + ?n")
      case True
      then have ilt: "unat i < unat ix + unat nr" using step(3) by (simp add: word_less_nat_alt)
      then have set: "unat ix \<le> unat i" "bm_bit bm (unat i)" using i(2) by (auto simp: is_first_def)
      have i1: "unat (i + 1) = unat i + 1" using ilt le room unat_add_no_wrap [of i 1] by simp
      have "unat sz - unat (i + 1) < unat sz - unat start" using zlt step(1) ilt le set(1) i1 by linarith
      from less [OF this] obtain r where r: "bitmap_find_next_zero_area_off bm sz (i + 1) nr (2 ^ k - 1) off = Some r"
          "area_result bm (unat sz) (unat i + 1) (unat nr) k (unat off) (unat r)"
        unfolding i1 by blast
      have skip: "unat i + 1 \<le> j" if "unat start \<le> j" "?fits j" for j
      proof (rule ccontr)
        assume "\<not> unat i + 1 \<le> j"
        then have "j \<le> unat i" "unat i < j + unat nr" using step(4) [OF that] ilt by simp_all
        then show False using that(2) set(2) by (simp add: area_fits_def)
      qed
      have "unat start \<le> unat i + 1" using zlt step(1) set by simp
      then have "area_result bm (unat sz) (unat start) (unat nr) k (unat off) (unat r)"
        by (rule area_result_skip [OF r(2)]) (rule skip)
      then show ?thesis using r(1) z(1) i(1) True False by (subst unf) (simp add: ix_def [symmetric] Let_def)
    next
      case no: False
      then have "\<not> unat i < unat ix + unat nr" using step(3) by (simp add: word_less_nat_alt)
      then have "?fits (unat ix)" using i(2) le step(2) by (auto simp: area_fits_def is_first_def)
      then have "area_result bm (unat sz) (unat start) (unat nr) k (unat off) (unat ix)"
        using le zlt step by (auto simp: area_result_def dest: leD)
      then show ?thesis using z(1) i(1) no False by (subst unf) (simp add: ix_def [symmetric] Let_def)
    qed
  qed
qed

section \<open>Setting a range of bits\<close>

lemma or_at_bits:
  assumes "p < length a"
  shows "or_at a p w = Some (a[p := a ! p OR w])"
    and "bm_bit (a[p := a ! p OR w]) i \<longleftrightarrow> bm_bit a i \<or> i div 64 = p \<and> bit w (i mod 64)"
  using assms by (auto simp: or_at_def bm_bit_def nth_list_update bit_or_iff)

lemma bit_first_word_mask: "bit (first_word_mask pos) (i mod 64) \<longleftrightarrow> pos mod 64 \<le> i mod 64"
  by (auto simp: first_word_mask_def bit_not_iff bit_mask_iff)

lemma bit_last_word_mask:
  assumes "e mod 64 \<noteq> 0"
  shows "bit (last_word_mask e) (i mod 64) \<longleftrightarrow> i mod 64 < e mod 64"
proof -
  have "(64 - e mod 64) mod 64 = 64 - e mod 64" using assms by simp
  then show ?thesis using mod_less_divisor [of 64 i]
    by (auto simp: last_word_mask_def bit_drop_bit_eq bit_mask_iff simp del: mod_less_divisor)
qed

lemma block_order:
  fixes p q a b :: nat
  assumes "a < 64" and "b < 64"
  shows "q = p \<and> a \<le> b \<longleftrightarrow> p * 64 + a \<le> q * 64 + b \<and> q * 64 + b < p * 64 + 64"
  using assms by (cases q p rule: linorder_cases) auto

lemma block_iff:
  fixes pos i :: nat
  shows "i div 64 = pos div 64 \<and> pos mod 64 \<le> i mod 64 \<longleftrightarrow> pos \<le> i \<and> i < pos div 64 * 64 + 64"
  using block_order [of "pos mod 64" "i mod 64" "i div 64" "pos div 64"]
  by (simp only: div_mult_mod_eq mod_less_divisor zero_less_numeral)

lemma bitmap_set_loop_bits:
  assumes "pos \<le> e" and "e \<le> 64 * length bm"
  shows "\<exists>bm'. bitmap_set_loop bm (pos div 64) e (int e - int pos) (64 - pos mod 64) (first_word_mask pos)
             = Some bm' \<and> length bm' = length bm
           \<and> (\<forall>i. bm_bit bm' i \<longleftrightarrow> bm_bit bm i \<or> pos \<le> i \<and> i < e)"
  using assms
proof (induction "e - pos" arbitrary: pos bm rule: less_induct)
  case less
  define p q nxt where "p = pos div 64" and "q = pos mod 64" and "nxt = p * 64 + 64"
  have pos: "pos = p * 64 + q" "q < 64" by (simp_all add: p_def q_def)
  have room: "nxt - pos = 64 - q" "pos < nxt" using pos by (auto simp: nxt_def)
  note unf = bitmap_set_loop.simps [of bm p e "int e - int pos" "64 - q" "first_word_mask pos"]
  show ?case
  proof (cases "nxt \<le> e")
    case True
    define bm1 where "bm1 = bm[p := bm ! p OR first_word_mask pos]"
    have plen: "p < length bm" using True less.prems(2) by (simp add: nxt_def)
    note or1 = or_at_bits [OF plen, of "first_word_mask pos"]
    have bits1: "bm_bit bm1 i \<longleftrightarrow> bm_bit bm i \<or> pos \<le> i \<and> i < nxt" for i
      using or1(2) [of i] block_iff [of i pos]
      by (simp add: bm1_def bit_first_word_mask p_def [symmetric] q_def [symmetric] nxt_def)
    have nxt: "nxt div 64 = p + 1" "nxt mod 64 = 0" by (simp_all add: nxt_def)
    have mask1: "first_word_mask nxt = - 1" by (simp add: first_word_mask_def nxt)
    have smaller: "e - nxt < e - pos" using True room(2) by linarith
    obtain bm' where bm': "bitmap_set_loop bm1 (p + 1) e (int e - int nxt) 64 (- 1) = Some bm'"
        "length bm' = length bm" "\<forall>i. bm_bit bm' i \<longleftrightarrow> bm_bit bm1 i \<or> nxt \<le> i \<and> i < e"
      using less.hyps [OF smaller True, of bm1] less.prems by (auto simp: nxt mask1 bm1_def)
    have "int e - int pos - int (64 - q) = int e - int nxt" using room by linarith
    moreover have "int e - int pos - int (64 - q) \<ge> 0" "0 < 64 - q"
      using True room by linarith+
    ultimately have "bitmap_set_loop bm p e (int e - int pos) (64 - q) (first_word_mask pos)
        = Some bm'"
      using bm'(1) or1(1) by (subst unf) (simp only: bm1_def simp_thms if_True option.case)
    moreover have "bm_bit bm' i \<longleftrightarrow> bm_bit bm i \<or> pos \<le> i \<and> i < e" for i
      unfolding bm'(3) [rule_format] bits1 using room(2) True by auto
    ultimately show ?thesis using bm'(2) by (auto simp: p_def q_def)
  next
    case False
    then have stop: "\<not> (int e - int pos - int (64 - q) \<ge> 0)" using room by linarith
    then have loop: "bitmap_set_loop bm p e (int e - int pos) (64 - q) (first_word_mask pos)
        = (if e \<noteq> pos then or_at bm p (first_word_mask pos AND last_word_mask e) else Some bm)"
      by (subst unf) (simp del: bit_and_iff)
    show ?thesis
    proof (cases "e = pos")
      case True
      then show ?thesis using loop by (auto simp: p_def [symmetric] q_def [symmetric])
    next
      case ne: False
      have e_div: "e div 64 = p"
        using False less.prems(1) pos by (intro div_nat_eqI) (auto simp: nxt_def)
      have e: "e = p * 64 + e mod 64" "e mod 64 \<noteq> 0"
        using e_div False ne less.prems(1) pos div_mult_mod_eq [of e 64] by auto
      have plen: "p < length bm" using e less.prems(2) by linarith
      let ?w = "first_word_mask pos AND last_word_mask e"
      note or1 = or_at_bits [OF plen, of ?w]
      have "i div 64 = p \<and> bit ?w (i mod 64) \<longleftrightarrow> pos \<le> i \<and> i < e" for i
      proof -
        have "i mod 64 < e mod 64 \<longleftrightarrow> i < e" if "i div 64 = p"
          using e(1) div_mult_mod_eq [of i 64] that by linarith
        moreover have "i < p * 64 + 64" if "i < e" using that False by (simp add: nxt_def)
        ultimately show ?thesis
          unfolding bit_and_iff bit_first_word_mask [of pos, folded q_def] bit_last_word_mask [OF e(2)]
          using block_iff [of i pos, folded p_def q_def] by blast
      qed
      then show ?thesis
        using loop or1 ne by (simp add: p_def [symmetric] q_def [symmetric])
    qed
  qed
qed

section \<open>Properties\<close>

text \<open>C31. \<^verbatim>\<open>bitmap_find_next_zero_area_off\<close> returns, reads only words of the bitmap, and is a first-fit search: with
  an alignment mask \<open>2 ^ k - 1\<close>, \<open>nr > 0\<close>, and size, offset, alignment and length that sum up to less than
  \<open>2 ^ 63\<close>, it returns the lowest position from \<open>start\<close> on with \<open>nr\<close> clear bits below \<open>sz\<close> and the
  required alignment, and a number above \<open>sz\<close> exactly when there is no such position.\<close>

theorem bitmap_area_first_fit:
  assumes "unat sz \<le> 64 * length bm" and "0 < nr" and "k < 64" and "unat sz + unat off + 2 ^ k + unat nr < 2 ^ 63"
  shows "\<exists>r. bitmap_find_next_zero_area_off bm sz start nr (2 ^ k - 1) off = Some r
           \<and> (if \<exists>i \<ge> unat start. area_fits bm (unat sz) (unat nr) k (unat off) i
              then unat r = (LEAST i. unat start \<le> i \<and> area_fits bm (unat sz) (unat nr) k (unat off) i) else sz < r)"
proof -
  let ?fits = "area_fits bm (unat sz) (unat nr) k (unat off)"
  obtain r where r: "bitmap_find_next_zero_area_off bm sz start nr (2 ^ k - 1) off = Some r"
      "area_result bm (unat sz) (unat start) (unat nr) k (unat off) (unat r)" using area_found [OF assms] by blast
  show ?thesis
  proof (cases "unat r + unat nr \<le> unat sz")
    case True
    then have r': "unat start \<le> unat r" "?fits (unat r)"
      and first: "\<And>i. unat start \<le> i \<Longrightarrow> i < unat r \<Longrightarrow> \<not> ?fits i"
      using r(2) by (simp_all add: area_result_def)
    have "(LEAST i. unat start \<le> i \<and> ?fits i) = unat r"
      using r' first by (intro Least_equality) (auto intro: leI)
    then show ?thesis using r(1) r' by auto
  next
    case False
    then show ?thesis using r by (auto simp: area_result_def word_less_nat_alt)
  qed
qed

theorem bitmap_area_first_fit_witness:
  "\<exists>r. bitmap_find_next_zero_area_off [7] 64 0 4 (2 ^ 2 - 1) 0 = Some r
     \<and> (if \<exists>i \<ge> unat (0 :: u64). area_fits [7] (unat (64 :: u64)) (unat (4 :: u32)) 2 (unat (0 :: u64)) i
        then unat r = (LEAST i. unat (0 :: u64) \<le> i \<and> area_fits [7] (unat (64 :: u64)) (unat (4 :: u32)) 2 (unat (0 :: u64)) i)
        else 64 < r)"
  by (rule bitmap_area_first_fit) simp_all

text \<open>C32. \<^verbatim>\<open>__bitmap_set\<close> on a range inside the bitmap sets exactly the bits of the range and keeps
  every other bit, whatever the position of the two ends in their words.\<close>

theorem bitmap_set_exact:
  assumes "start + len \<le> 64 * length bm" and "start + len < 2 ^ 32"
  shows "\<exists>bm'. bitmap_set bm start (int len) = Some bm' \<and> length bm' = length bm
           \<and> (\<forall>i. bm_bit bm' i \<longleftrightarrow> bm_bit bm i \<or> start \<le> i \<and> i < start + len)"
proof -
  have "int (start + len) < 2 ^ 32" using assms(2) by (metis of_nat_less_numeral_power_cancel_iff)
  then have "nat ((int start + int len) mod 2 ^ 32) = start + len" by simp
  moreover have "int (start + len) - int start = int len" by simp
  ultimately show ?thesis
    using bitmap_set_loop_bits [of start "start + len" bm] assms(1)
    unfolding bitmap_set_def by (simp only: le_add1 simp_thms)
qed

theorem bitmap_set_exact_witness:
  "\<exists>bm'. bitmap_set [0, 0, 0] 60 (int 70) = Some bm' \<and> length bm' = length [0, 0, 0 :: u64]
     \<and> (\<forall>i. bm_bit bm' i \<longleftrightarrow> bm_bit [0, 0, 0] i \<or> 60 \<le> i \<and> i < 60 + 70)"
  by (rule bitmap_set_exact) simp_all

end
