(* ===== verification/UserString.thy ===== *)
theory UserString
  imports KString KBits
begin

text \<open>
  Strings in user memory: the word-at-a-time zero search of \<^verbatim>\<open>src/include/word-at-a-time.h\<close>, the
  limit check \<^verbatim>\<open>access_ok\<close> of \<^verbatim>\<open>src/include/uaccess.h\<close>, and \<^verbatim>\<open>strncpy_from_user\<close> and
  \<^verbatim>\<open>strnlen_user\<close> of \<^verbatim>\<open>src/lib/string.c\<close>. The routines read eight bytes at a time (\<^verbatim>\<open>ld\<close>, little
  endian) and find the first zero byte of a word by arithmetic. User and kernel memory are one
  address space, as they are while \<^verbatim>\<open>SR_SUM\<close> is set; \<open>seg\<close> is the current address limit
  \<^verbatim>\<open>get_fs().seg\<close>.
\<close>

section \<open>Definitions\<close>

subsection \<open>Machine words in memory\<close>

primrec read_bytes :: "nat \<Rightarrow> mem \<Rightarrow> addr \<Rightarrow> u64" where
  "read_bytes 0 m a = 0"
| "read_bytes (Suc k) m a = (ucast :: u8 \<Rightarrow> u64) (m a) OR push_bit 8 (read_bytes k m (a + 1))"

definition read64 :: "mem \<Rightarrow> addr \<Rightarrow> u64" where
  "read64 m a = read_bytes 8 m a"

definition byte_of :: "u64 \<Rightarrow> nat \<Rightarrow> u8" where
  "byte_of w i = (ucast :: u64 \<Rightarrow> u8) (drop_bit (8 * i) w)"

definition write64 :: "mem \<Rightarrow> addr \<Rightarrow> u64 \<Rightarrow> mem" where
  "write64 m a w = (\<lambda>x. if x - a < 8 then byte_of w (unat (x - a)) else m x)"

subsection \<open>Word at a time\<close>

definition REPEAT_BYTE :: "u64 \<Rightarrow> u64" where
  "REPEAT_BYTE x = ((- 1) div 0xff) * x"

record word_at_a_time =
  one_bits :: u64
  high_bits :: u64

definition WORD_AT_A_TIME_CONSTANTS :: word_at_a_time where
  "WORD_AT_A_TIME_CONSTANTS = \<lparr>one_bits = REPEAT_BYTE 0x01, high_bits = REPEAT_BYTE 0x80\<rparr>"

definition has_zero :: "u64 \<Rightarrow> word_at_a_time \<Rightarrow> u64" where
  "has_zero val c = ((val - one_bits c) AND NOT val) AND high_bits c"

definition prep_zero_mask :: "u64 \<Rightarrow> u64 \<Rightarrow> word_at_a_time \<Rightarrow> u64" where
  "prep_zero_mask val bits c = bits"

definition create_zero_mask :: "u64 \<Rightarrow> u64" where
  "create_zero_mask bits = drop_bit 7 ((bits - 1) AND NOT bits)"

definition find_zero :: "u64 \<Rightarrow> u64" where
  "find_zero msk = of_nat (fls64 msk div 8)"

definition aligned_byte_mask :: "u64 \<Rightarrow> u64" where
  "aligned_byte_mask n = push_bit (unat (8 * n)) 1 - 1"

subsection \<open>User accesses\<close>

definition access_ok :: "u64 \<Rightarrow> addr \<Rightarrow> u64 \<Rightarrow> bool" where
  "access_ok seg a sz \<longleftrightarrow> sz \<le> seg \<and> a \<le> seg - sz"

text \<open>The loop of \<^verbatim>\<open>do_strncpy_from_user\<close> and the \<^verbatim>\<open>panic\<close> that follows it.\<close>

function do_strncpy_loop :: "mem \<Rightarrow> addr \<Rightarrow> addr \<Rightarrow> u64 \<Rightarrow> u64 \<Rightarrow> (mem \<times> u64) outcome" where
  "do_strncpy_loop m dst src res mx =
     (if mx \<ge> 8
      then let c = read64 m (src + res);
               m' = write64 m (dst + res) c;
               data = has_zero c WORD_AT_A_TIME_CONSTANTS
           in if data \<noteq> 0
              then let data = prep_zero_mask c data WORD_AT_A_TIME_CONSTANTS;
                       data = create_zero_mask data
                   in Inr (m', res + find_zero data)
              else do_strncpy_loop m' dst src (res + 8) (mx - 8)
      else Inl Panic)"
  by pat_completeness auto
termination
  by (relation "measure (\<lambda>(m, dst, src, res, mx). unat mx)")
    (auto simp: unat_sub word_le_nat_alt)

declare do_strncpy_loop.simps [simp del]

definition do_strncpy_from_user :: "mem \<Rightarrow> addr \<Rightarrow> addr \<Rightarrow> u64 \<Rightarrow> u64 \<Rightarrow> (mem \<times> u64) outcome" where
  "do_strncpy_from_user m dst src count mx = do_strncpy_loop m dst src 0 mx"

definition strncpy_from_user ::
  "u64 \<Rightarrow> mem \<Rightarrow> addr \<Rightarrow> addr \<Rightarrow> u64 \<Rightarrow> (mem \<times> (errno + u64)) outcome" where
  "strncpy_from_user seg m dst src count =
     (if sint count \<le> 0 then Inr (m, Inr 0)
      else if src < seg
      then let mx = seg - src;
               mx = (if mx > count then count else mx)
           in if access_ok seg src mx
              then obind (do_strncpy_from_user m dst src count mx) (\<lambda>(m', r). Inr (m', Inr r))
              else Inr (m, Inl EFAULT)
      else Inr (m, Inl EFAULT))"

text \<open>The loop of \<^verbatim>\<open>do_strnlen_user\<close>. The result is \<open>Inl\<close> of the final \<open>res\<close> when the loop breaks at
  the limit, and \<open>Inr\<close> of the returned length otherwise.\<close>

function do_strnlen_loop :: "mem \<Rightarrow> addr \<Rightarrow> u64 \<Rightarrow> u64 \<Rightarrow> u64 \<Rightarrow> u64 \<Rightarrow> u64 + u64" where
  "do_strnlen_loop m src align c res mx =
     (let data = has_zero c WORD_AT_A_TIME_CONSTANTS
      in if data \<noteq> 0
         then let data = prep_zero_mask c data WORD_AT_A_TIME_CONSTANTS;
                  data = create_zero_mask data
              in Inr (res + find_zero data + 1 - align)
         else let res = res + 8
              in if mx \<le> 8 then Inl res
                 else do_strnlen_loop m src align (read64 m (src + res)) res (mx - 8))"
  by pat_completeness auto
termination
  by (relation "measure (\<lambda>(m, src, align, c, res, mx). unat mx)")
    (auto simp: unat_sub word_le_nat_alt)

declare do_strnlen_loop.simps [simp del]

definition do_strnlen_user :: "mem \<Rightarrow> addr \<Rightarrow> u64 \<Rightarrow> u64 \<Rightarrow> u64" where
  "do_strnlen_user m src count mx =
     (let align = 7 AND src;
          src = src - align;
          mx = mx + align;
          c = read64 m src OR aligned_byte_mask align
      in case do_strnlen_loop m src align c 0 mx of
           Inr r \<Rightarrow> r
         | Inl res \<Rightarrow> (let res = res - align in if res \<ge> count then count + 1 else 0))"

definition strnlen_user :: "u64 \<Rightarrow> mem \<Rightarrow> addr \<Rightarrow> u64 \<Rightarrow> u64" where
  "strnlen_user seg m str count =
     (if sint count \<le> 0 then 0
      else if str < seg
      then let mx = seg - str;
               mx = (if mx > count then count else mx)
           in if access_ok seg str mx then do_strnlen_user m str count mx else 0
      else 0)"

section \<open>Bytes of a word\<close>

lemma bit_byte_of: "bit (byte_of w i) n \<longleftrightarrow> n < 8 \<and> bit w (8 * i + n)"
  by (simp add: byte_of_def bit_ucast_iff bit_drop_bit_eq)

lemma bit_read_bytes:
  "bit (read_bytes k m a) n \<longleftrightarrow> n < 64 \<and> n < 8 * k \<and> bit (m (a + of_nat (n div 8))) (n mod 8)"
proof (induction k arbitrary: a n)
  case (Suc k)
  show ?case
  proof (cases "n < 8")
    case True
    then show ?thesis by (simp add: bit_or_iff bit_ucast_iff bit_push_bit_iff)
  next
    case False
    then obtain j where j: "n = j + 8" by (metis add.commute le_Suc_ex not_less)
    have "\<not> bit ((ucast :: u8 \<Rightarrow> u64) (m a)) n" using False by (auto simp: bit_ucast_iff dest: bit_imp_le_length)
    moreover have "(j + 8) div 8 = Suc (j div 8)" by simp
    ultimately show ?thesis
      using Suc [of "a + 1" j] by (auto simp: bit_or_iff bit_push_bit_iff j ac_simps)
  qed
qed simp

lemma byte_of_read64:
  assumes "i < 8"
  shows "byte_of (read64 m a) i = m (a + of_nat i)"
proof (rule bit_word_eqI)
  fix n assume "n < LENGTH(8)"
  then have "(8 * i + n) div 8 = i" "(8 * i + n) mod 8 = n" "8 * i + n < 64" using assms by auto
  then show "bit (byte_of (read64 m a) i) n \<longleftrightarrow> bit (m (a + of_nat i)) n"
    using \<open>n < LENGTH(8)\<close> by (simp add: bit_byte_of read64_def bit_read_bytes)
qed

section \<open>The zero-byte search\<close>

abbreviation ones :: u64 where "ones \<equiv> 0x0101010101010101"
abbreviation highs :: u64 where "highs \<equiv> 0x8080808080808080"

lemma waat_constants: "one_bits WORD_AT_A_TIME_CONSTANTS = ones" "high_bits WORD_AT_A_TIME_CONSTANTS = highs"
  by (simp_all add: WORD_AT_A_TIME_CONSTANTS_def REPEAT_BYTE_def)

lemma byte_cases:
  fixes k :: nat
  assumes "k < 8"
  obtains "k = 0" | "k = 1" | "k = 2" | "k = 3" | "k = 4" | "k = 5" | "k = 6" | "k = 7"
  using assms by linarith

lemma uint_byte_of: "uint (byte_of w k) = (uint w div 2 ^ (8 * k)) mod 256"
proof -
  have "uint (byte_of w k) = take_bit 8 (uint (drop_bit (8 * k) w))"
    by (simp add: byte_of_def unsigned_ucast_eq)
  also have "\<dots> = take_bit 8 (drop_bit (8 * k) (uint w))" by (simp add: unsigned_drop_bit_eq bintr_uint)
  finally show ?thesis by (simp add: take_bit_eq_mod drop_bit_eq_div)
qed

lemma ones_byte: "k < 8 \<Longrightarrow> (0x0101010101010101 :: int) div 2 ^ (8 * k) mod 256 = 1"
  by (erule byte_cases) simp_all

lemma low_part_step: "(x :: int) mod 2 ^ (8 * Suc k) = x mod 2 ^ (8 * k) + 2 ^ (8 * k) * (x div 2 ^ (8 * k) mod 256)"
  using mod_mult2_eq' [of x "2 ^ (8 * k)" 256] by (simp add: power_add mult.commute add.commute)

lemma no_borrow:
  assumes "k \<le> 8" and "\<And>i. i < k \<Longrightarrow> byte_of c i \<noteq> 0"
  shows "(0x0101010101010101 :: int) mod 2 ^ (8 * k) \<le> uint c mod 2 ^ (8 * k)"
  using assms
proof (induction k)
  case (Suc k)
  have "byte_of c k \<noteq> 0" using Suc.prems by simp
  then have "1 \<le> uint c div 2 ^ (8 * k) mod 256"
    using uint_byte_of [of c k] uint_0_iff [of "byte_of c k"] uint_ge_0 [of "byte_of c k"] by linarith
  then have "(2 :: int) ^ (8 * k) * 1 \<le> 2 ^ (8 * k) * (uint c div 2 ^ (8 * k) mod 256)"
    by (intro mult_left_mono) auto
  moreover have "(0x0101010101010101 :: int) mod 2 ^ (8 * k) \<le> uint c mod 2 ^ (8 * k)"
    using Suc by simp
  ultimately show ?case
    unfolding low_part_step ones_byte [OF Suc_le_lessD [OF Suc.prems(1)]] by (rule add_mono [rotated])
qed simp

lemma byte_of_minus_ones:
  assumes k: "k < 8" and nz: "\<And>i. i < k \<Longrightarrow> byte_of c i \<noteq> 0"
  shows "byte_of (c - ones) k = byte_of c k - 1"
proof -
  define P C Q :: int where "P = 2 ^ (8 * k)" and "C = uint c" and "Q = 0x0101010101010101"
  have P: "0 < P" by (simp add: P_def)
  have "Q mod P \<le> C mod P" using no_borrow [of k c] k nz by (simp add: P_def C_def Q_def)
  moreover have "C mod P < P" "0 \<le> Q mod P" using P by simp_all
  moreover have "C - Q = P * (C div P - Q div P) + (C mod P - Q mod P)"
    using div_mult_mod_eq [of C P] div_mult_mod_eq [of Q P] by (simp add: algebra_simps)
  ultimately have quot: "(C - Q) div P = C div P - Q div P"
    by (intro int_div_pos_eq [where r = "C mod P - Q mod P"]) linarith+
  have "uint (c - ones) = take_bit 64 (C - Q)" by (simp add: uint_word_arith_bintrs C_def Q_def)
  then have "uint (byte_of (c - ones) k) = take_bit 8 (drop_bit (8 * k) (take_bit 64 (C - Q)))"
    by (simp add: uint_byte_of take_bit_eq_mod [of 8] drop_bit_eq_div)
  also have "\<dots> = take_bit 8 (drop_bit (8 * k) (C - Q))"
    using k by (auto intro!: bit_eqI simp: bit_take_bit_iff bit_drop_bit_eq)
  also have "\<dots> = (C div P - Q div P) mod 256"
    by (simp add: take_bit_eq_mod drop_bit_eq_div P_def [symmetric] quot)
  also have "\<dots> = (C div P mod 256 - Q div P mod 256) mod 256" by (simp add: mod_simps)
  also have "\<dots> = (uint (byte_of c k) - 1) mod 256"
    using ones_byte [OF k] by (simp add: uint_byte_of C_def P_def Q_def)
  also have "\<dots> = uint (byte_of c k - 1)" by (simp add: uint_word_ariths)
  finally show ?thesis by (simp add: word_uint_eq_iff)
qed

lemma bit_highs: "n < 64 \<Longrightarrow> bit highs n \<longleftrightarrow> n mod 8 = 7"
proof -
  assume "n < 64"
  moreover have "\<forall>n \<in> set [0..<64]. bit highs n \<longleftrightarrow> n mod 8 = 7" by code_simp
  ultimately show ?thesis using \<open>n < 64\<close> by simp
qed

lemma has_zero_bit:
  "bit (has_zero c WORD_AT_A_TIME_CONSTANTS) n \<longleftrightarrow>
     n < 64 \<and> n mod 8 = 7 \<and> bit (byte_of (c - ones) (n div 8)) 7 \<and> \<not> bit (byte_of c (n div 8)) 7"
proof (cases "n < 64 \<and> n mod 8 = 7")
  case True
  then have n: "8 * (n div 8) + 7 = n" using mult_div_mod_eq [of 8 n] by simp
  show ?thesis
    using True bit_highs [of n]
    by (auto simp: has_zero_def waat_constants bit_and_iff bit_not_iff bit_byte_of n)
next
  case False
  then show ?thesis
    using bit_imp_le_length [of "has_zero c WORD_AT_A_TIME_CONSTANTS" n] bit_highs [of n]
    by (auto simp: has_zero_def waat_constants bit_and_iff)
qed

lemma bit7_iff: "bit (x :: u8) 7 \<longleftrightarrow> 128 \<le> unat x"
proof -
  have "bit x 7 \<longleftrightarrow> bit (unat x) 7" by (simp add: bit_unsigned_iff)
  also have "\<dots> \<longleftrightarrow> odd (unat x div 2 ^ 7)" by (simp only: bit_iff_odd)
  also have "\<dots> \<longleftrightarrow> 128 \<le> unat x"
  proof (cases "128 \<le> unat x")
    case True
    then have "unat x div 2 ^ 7 = 1" using unsigned_less [of x] by (intro div_nat_eqI) simp_all
    then show ?thesis using True by simp
  qed simp
  finally show ?thesis .
qed

lemma bit7_minus_one: "b \<noteq> 0 \<Longrightarrow> bit (b - 1 :: u8) 7 \<Longrightarrow> bit b 7"
  by (simp add: bit7_iff unat_minus_one)

text \<open>The mask of \<^verbatim>\<open>has_zero\<close> is zero exactly when no byte is; its lowest bit is the top bit of the
  first zero byte. Bytes above it may be flagged wrongly, which does no harm.\<close>

lemma has_zero_none:
  assumes "\<And>i. i < 8 \<Longrightarrow> byte_of c i \<noteq> 0"
  shows "has_zero c WORD_AT_A_TIME_CONSTANTS = 0"
proof (rule bit_word_eqI)
  fix n assume "n < LENGTH(64)"
  then have lt: "n div 8 < 8" by auto
  then have "byte_of (c - ones) (n div 8) = byte_of c (n div 8) - 1"
    using assms by (intro byte_of_minus_ones) auto
  then show "bit (has_zero c WORD_AT_A_TIME_CONSTANTS) n \<longleftrightarrow> bit 0 n"
    using bit7_minus_one [of "byte_of c (n div 8)"] assms [OF lt] by (auto simp: has_zero_bit)
qed

lemma has_zero_first:
  assumes j: "j < 8" and z: "byte_of c j = 0" and nz: "\<And>i. i < j \<Longrightarrow> byte_of c i \<noteq> 0"
  shows "bit (has_zero c WORD_AT_A_TIME_CONSTANTS) (8 * j + 7)"
    and "\<And>n. n < 8 * j + 7 \<Longrightarrow> \<not> bit (has_zero c WORD_AT_A_TIME_CONSTANTS) n"
proof -
  have div: "(8 * j + 7) div 8 = j" "(8 * j + 7) mod 8 = 7" by simp_all
  have "byte_of (c - ones) j = - 1" using byte_of_minus_ones [OF j nz] z by simp
  then show "bit (has_zero c WORD_AT_A_TIME_CONSTANTS) (8 * j + 7)"
    using j z unfolding has_zero_bit div by simp
  fix n assume n: "n < 8 * j + 7"
  show "\<not> bit (has_zero c WORD_AT_A_TIME_CONSTANTS) n"
  proof (cases "n mod 8 = 7")
    case True
    then have lt: "n div 8 < j" using n mult_div_mod_eq [of 8 n] by linarith
    then have "byte_of (c - ones) (n div 8) = byte_of c (n div 8) - 1"
      using nz j by (intro byte_of_minus_ones) auto
    then show ?thesis using bit7_minus_one [of "byte_of c (n div 8)"] nz [OF lt] by (auto simp: has_zero_bit)
  qed (simp add: has_zero_bit)
qed

lemma create_zero_mask_lowest:
  fixes w :: u64
  assumes "bit w k" and "\<And>n. n < k \<Longrightarrow> \<not> bit w n"
  shows "(w - 1) AND NOT w = mask k"
proof -
  have k: "k < 64" using bit_imp_le_length [OF assms(1)] by simp
  define v where "v = w AND NOT (push_bit k 1)"
  have "v AND push_bit k 1 = 0" by (auto simp: v_def bit_eq_iff bit_and_iff bit_not_iff)
  then have "v + push_bit k 1 = v OR push_bit k 1" by (rule disjunctive_add_eq_or)
  also have "\<dots> = w"
    using assms(1) k
    by (intro bit_word_eqI) (auto simp: v_def bit_and_iff bit_or_iff bit_not_iff bit_exp_iff)
  finally have "w - 1 = v + mask k" by (auto simp: mask_eq_exp_minus_1 push_bit_eq_mult)
  moreover have "v AND mask k = 0"
    using assms(2) by (auto simp: v_def bit_eq_iff bit_and_iff bit_mask_iff)
  ultimately have "w - 1 = v OR mask k" by (simp add: disjunctive_add_eq_or)
  then show ?thesis
    using assms by (auto simp: v_def bit_eq_iff bit_and_iff bit_or_iff bit_not_iff bit_mask_iff)
qed

lemma find_zero_mask:
  assumes "j < 8"
  shows "find_zero (mask (8 * j)) = of_nat j"
proof -
  have "fls64 (mask (8 * j)) = 8 * j"
  proof (cases "j = 0")
    case True
    then show ?thesis by (simp add: fls64_def)
  next
    case False
    let ?w = "mask (8 * j) :: u64"
    have b: "bit ?w n \<longleftrightarrow> n < 8 * j" for n using assms by (auto simp: bit_mask_iff)
    have nz: "?w \<noteq> 0" using b [of 0] False by auto
    note f = fls64_set_bit [OF nz, unfolded b]
    show ?thesis using f(1) f(2) [of "fls64 ?w"] f(3) by linarith
  qed
  then show ?thesis by (simp add: find_zero_def)
qed

text \<open>What the loops use: the search over one word returns the index of its first zero byte.\<close>

lemma zero_search:
  assumes "j < 8" and "byte_of c j = 0" and "\<And>i. i < j \<Longrightarrow> byte_of c i \<noteq> 0"
  shows "has_zero c WORD_AT_A_TIME_CONSTANTS \<noteq> 0"
    and "find_zero (create_zero_mask (has_zero c WORD_AT_A_TIME_CONSTANTS)) = of_nat j"
proof -
  note first = has_zero_first [OF assms]
  show "has_zero c WORD_AT_A_TIME_CONSTANTS \<noteq> 0" using first(1) by auto
  have "create_zero_mask (has_zero c WORD_AT_A_TIME_CONSTANTS) = drop_bit 7 (mask (8 * j + 7))"
    unfolding create_zero_mask_def
    by (rule arg_cong [OF create_zero_mask_lowest]) (use first in auto)
  also have "\<dots> = mask (8 * j)"
    using assms(1) by (intro bit_word_eqI) (auto simp: bit_drop_bit_eq bit_mask_iff)
  finally show "find_zero (create_zero_mask (has_zero c WORD_AT_A_TIME_CONSTANTS)) = of_nat j"
    using find_zero_mask [OF assms(1)] by simp
qed

section \<open>Copying a user string\<close>

text \<open>The bytes the loop copies: whole words, up to and including the one that holds the NUL.\<close>

definition word_span :: "nat \<Rightarrow> nat" where
  "word_span n = 8 * (n div 8) + 8"

lemma write64_extends:
  assumes lim: "k + 8 < 2 ^ 64"
    and c: "\<And>j. j < 8 \<Longrightarrow> byte_of c j = m (src + of_nat (k + j))"
  shows "write64 (copy_area m dst src (of_nat k)) (dst + of_nat k) c
       = copy_area m dst src (of_nat (k + 8))"
proof
  fix x
  define d where "d = unat (x - dst)"
  have d64: "d < 2 ^ 64" using unsigned_less [of "x - dst"] by (simp add: d_def)
  have x: "x - dst = of_nat d" by (simp add: d_def)
  have lt: "of_nat d < (of_nat n :: u64) \<longleftrightarrow> d < n" if "n < 2 ^ 64" for n
    using that d64 by (simp add: word_less_nat_alt)
  show "write64 (copy_area m dst src (of_nat k)) (dst + of_nat k) c x
      = copy_area m dst src (of_nat (k + 8)) x"
  proof (cases "d < k")
    case True
    have "x - (dst + of_nat k) = of_nat d - of_nat k" by (simp add: algebra_simps flip: x)
    also have "\<dots> = of_nat (2 ^ 64 - (k - d))"
      using True lim of_nat64_wrap by (simp add: of_nat_diff)
    finally have "unat (x - (dst + of_nat k)) = 2 ^ 64 - (k - d)"
      using True lim by (simp only:) (rule unat_of_nat64, simp)
    then have "\<not> x - (dst + of_nat k) < 8" using True lim by (simp add: word_less_nat_alt)
    moreover have "x - dst < of_nat k" "x - dst < of_nat (k + 8)"
      unfolding x using True lim by (simp_all only: lt)
    ultimately show ?thesis by (simp only: write64_def copy_area_def if_False if_True)
  next
    case False
    have e: "x - (dst + of_nat k) = of_nat (d - k)"
      using False by (simp add: algebra_simps of_nat_diff flip: x)
    have u: "unat (x - (dst + of_nat k)) = d - k" unfolding e using d64 by simp
    have "\<not> x - dst < of_nat k" unfolding x using lt [of "k"] False lim by simp
    moreover have "x - dst < of_nat (k + 8) \<longleftrightarrow> d - k < 8"
      unfolding x using lt [of "k + 8"] False lim by auto
    moreover have "x - (dst + of_nat k) < 8 \<longleftrightarrow> d - k < 8" using u by (simp add: word_less_nat_alt)
    moreover have "byte_of c (d - k) = m (src + (x - dst))" if "d - k < 8"
      using c [OF that] False by (simp add: x)
    ultimately show ?thesis by (auto simp: write64_def copy_area_def u)
  qed
qed

lemma read_source_word:
  assumes j: "j < 8" and lim: "8 * i + 8 < 2 ^ 64"
    and apart: "\<And>d. d < 8 * i \<Longrightarrow> src + of_nat (8 * i + j) \<noteq> dst + of_nat d"
  shows "byte_of (read64 (copy_area m dst src (of_nat (8 * i))) (src + of_nat (8 * i))) j
       = m (src + of_nat (8 * i + j))"
proof -
  let ?x = "src + of_nat (8 * i) + of_nat j"
  have "\<not> ?x - dst < of_nat (8 * i)"
  proof
    assume a: "?x - dst < of_nat (8 * i)"
    define d where "d = unat (?x - dst)"
    have "d < 8 * i" using a lim by (simp add: d_def word_less_nat_alt del: of_nat_mult)
    moreover have "src + of_nat (8 * i + j) = dst + of_nat d" by (simp add: d_def)
    ultimately show False using apart by blast
  qed
  then show ?thesis using byte_of_read64 [OF j] by (simp add: copy_area_def add.assoc)
qed

lemma do_strncpy_loop_run:
  assumes str: "cstr m src s" and lim: "word_span (length s) < 2 ^ 64"
    and apart: "\<And>i j. i < word_span (length s) \<Longrightarrow> j < word_span (length s) \<Longrightarrow>
                  src + of_nat i \<noteq> dst + of_nat j"
    and i: "i \<le> length s div 8"
  shows "do_strncpy_loop (copy_area m dst src (of_nat (8 * i))) dst src (of_nat (8 * i)) mx =
     (if word_span (length s) - 8 * i \<le> unat mx
      then Inr (copy_area m dst src (of_nat (word_span (length s))), of_nat (length s)) else Inl Panic)"
  using i
proof (induction "length s div 8 - i" arbitrary: i mx rule: less_induct)
  case less
  define n q m' c where "n = length s" and "q = n div 8" and "m' = copy_area m dst src (of_nat (8 * i))"
    and "c = read64 m' (src + of_nat (8 * i))"
  have q: "8 * q \<le> n" "n < 8 * q + 8" "i \<le> q" and span: "word_span n = 8 * q + 8"
    using less.prems by (auto simp: q_def n_def word_span_def)
  have lim': "8 * i + 8 < 2 ^ 64" using lim q by (simp add: span n_def [symmetric])
  have byte: "byte_of c j = m (src + of_nat (8 * i + j))" if j: "j < 8" for j
    unfolding c_def m'_def
  proof (rule read_source_word [OF j lim'])
    show "src + of_nat (8 * i + j) \<noteq> dst + of_nat d" if "d < 8 * i" for d
      using q that j by (intro apart) (auto simp: span n_def [symmetric])
  qed
  have wr: "write64 m' (dst + of_nat (8 * i)) c = copy_area m dst src (of_nat (8 * i + 8))"
    unfolding m'_def by (rule write64_extends [OF lim' byte])
  note unf = do_strncpy_loop.simps [of m' dst src "of_nat (8 * i)" mx]
  have need: "word_span n - 8 * i = 8 * (q - i) + 8" using q by (simp add: span)
  show ?case
  proof (cases "8 \<le> unat mx")
    case False
    then have "do_strncpy_loop m' dst src (of_nat (8 * i)) mx = Inl Panic"
      by (subst unf) (simp add: word_le_nat_alt)
    then show ?thesis using False need by (simp add: m'_def n_def)
  next
    case True
    then have ge: "8 \<le> mx" by (simp add: word_le_nat_alt)
    show ?thesis
    proof (cases "i = q")
      case fin: True
      have z: "n - 8 * q < 8" "byte_of c (n - 8 * q) = 0"
        using byte [of "n - 8 * q"] cstr_end [OF str] q fin by (auto simp: n_def simp flip: of_nat_add)
      have nz: "byte_of c j \<noteq> 0" if "j < n - 8 * q" for j
        using byte [of j] cstr_nth_nonzero [OF str, of "8 * i + j"] that q fin by (auto simp: n_def simp flip: of_nat_add of_nat_mult)
      note search = zero_search [OF z nz]
      have "of_nat (8 * i) + of_nat (n - 8 * q) = (of_nat n :: u64)"
        using q fin by (simp flip: of_nat_add)
      then have "do_strncpy_loop m' dst src (of_nat (8 * i)) mx
          = Inr (copy_area m dst src (of_nat (8 * i + 8)), of_nat n)"
        using search ge by (subst unf) (simp only: c_def [symmetric] wr Let_def prep_zero_mask_def if_True simp_thms)
      then show ?thesis using True need fin by (simp add: m'_def n_def [symmetric] span)
    next
      case more: False
      have "byte_of c j \<noteq> 0" if "j < 8" for j
        using byte [OF that] cstr_nth_nonzero [OF str, of "8 * i + j"] that q more by (simp add: n_def)
      then have none: "has_zero c WORD_AT_A_TIME_CONSTANTS = 0" by (rule has_zero_none)
      have nxt: "of_nat (8 * i) + 8 = (of_nat (8 * Suc i) :: u64)" "8 * i + 8 = 8 * Suc i" by simp_all
      have "do_strncpy_loop m' dst src (of_nat (8 * i)) mx
          = do_strncpy_loop (copy_area m dst src (of_nat (8 * Suc i))) dst src (of_nat (8 * Suc i)) (mx - 8)"
        using none ge by (subst unf) (simp only: c_def [symmetric] wr nxt Let_def if_True simp_thms if_False)
      also have "\<dots> = (if word_span n - 8 * Suc i \<le> unat (mx - 8)
          then Inr (copy_area m dst src (of_nat (word_span n)), of_nat n) else Inl Panic)"
        unfolding n_def using q more by (intro less.hyps) (auto simp: q_def n_def)
      also have "word_span n - 8 * Suc i \<le> unat (mx - 8) \<longleftrightarrow> word_span n - 8 * i \<le> unat mx"
        using True ge q more by (auto simp: span unat_sub)
      finally show ?thesis by (simp add: m'_def n_def)
    qed
  qed
qed

section \<open>Measuring a user string\<close>

text \<open>The scan starts at the word boundary \<open>a\<close> below the string; \<open>n\<close> is the distance from there to
  the NUL. After \<open>i\<close> words the bytes of the current word are known to be non-zero before the NUL.\<close>

lemma do_strnlen_loop_run:
  assumes nz: "\<And>k. 8 * i + 8 \<le> k \<Longrightarrow> k < n \<Longrightarrow> m (a + of_nat k) \<noteq> 0"
    and z: "m (a + of_nat n) = 0"
    and cnz: "\<And>j. j < 8 \<Longrightarrow> 8 * i + j < n \<Longrightarrow> byte_of c j \<noteq> 0"
    and cz: "\<And>j. j < 8 \<Longrightarrow> 8 * i + j = n \<Longrightarrow> byte_of c j = 0"
    and "8 * i \<le> n" and "0 < unat mx"
  shows "do_strnlen_loop m a align c (of_nat (8 * i)) mx =
     (if n < 8 * i + 8 * ((unat mx + 7) div 8) then Inr (of_nat n + 1 - align)
      else Inl (of_nat (8 * i + 8 * ((unat mx + 7) div 8))))"
  using assms
proof (induction "unat mx" arbitrary: i c mx rule: less_induct)
  case less
  note unf = do_strnlen_loop.simps [of m a align c "of_nat (8 * i)" mx]
  have one: "1 \<le> (unat mx + 7) div 8" using less.prems(6) by simp
  show ?case
  proof (cases "n < 8 * i + 8")
    case True
    have "has_zero c WORD_AT_A_TIME_CONSTANTS \<noteq> 0"
      "find_zero (create_zero_mask (has_zero c WORD_AT_A_TIME_CONSTANTS)) = of_nat (n - 8 * i)"
      using zero_search [of "n - 8 * i" c] less.prems(3,4,5) True by auto
    moreover have "of_nat (8 * i) + of_nat (n - 8 * i) = (of_nat n :: u64)"
      using less.prems(5) by (simp flip: of_nat_add)
    ultimately have "do_strnlen_loop m a align c (of_nat (8 * i)) mx = Inr (of_nat n + 1 - align)"
      by (subst unf) (simp only: Let_def prep_zero_mask_def if_True simp_thms)
    then show ?thesis using True one by simp
  next
    case False
    then have none: "has_zero c WORD_AT_A_TIME_CONSTANTS = 0"
      using less.prems(3) by (intro has_zero_none) auto
    have nxt: "of_nat (8 * i) + 8 = (of_nat (8 * Suc i) :: u64)" by simp
    show ?thesis
    proof (cases "mx \<le> 8")
      case True
      then have "(unat mx + 7) div 8 = 1"
        using less.prems(6) by (intro div_nat_eqI) (auto simp: word_le_nat_alt)
      moreover have "do_strnlen_loop m a align c (of_nat (8 * i)) mx = Inl (of_nat (8 * Suc i))"
        using none True by (subst unf) (simp only: Let_def nxt if_True if_False simp_thms)
      ultimately show ?thesis using False by simp
    next
      case more: False
      then have mx: "unat (mx - 8) = unat mx - 8" "8 < unat mx"
        by (auto simp: word_le_nat_alt unat_sub)
      then have blocks: "8 * i + 8 * ((unat mx + 7) div 8) = 8 * Suc i + 8 * ((unat (mx - 8) + 7) div 8)"
        using div_add_self2 [of 8 "unat mx - 8 + 7"] by (simp add: add.commute)
      let ?c = "read64 m (a + of_nat (8 * Suc i))"
      have byte: "byte_of ?c j = m (a + of_nat (8 * Suc i + j))" if "j < 8" for j
        using byte_of_read64 [OF that] by (simp add: add.assoc)
      have "do_strnlen_loop m a align c (of_nat (8 * i)) mx
          = do_strnlen_loop m a align ?c (of_nat (8 * Suc i)) (mx - 8)"
        using none more by (subst unf) (simp only: Let_def nxt if_False simp_thms)
      also have "\<dots> = (if n < 8 * i + 8 * ((unat mx + 7) div 8) then Inr (of_nat n + 1 - align)
          else Inl (of_nat (8 * i + 8 * ((unat mx + 7) div 8))))"
        unfolding blocks
      proof (rule less.hyps)
        show "byte_of ?c j \<noteq> 0" if "j < 8" "8 * Suc i + j < n" for j
          unfolding byte [OF that(1)] using that by (intro less.prems(1)) auto
        show "byte_of ?c j = 0" if "j < 8" "8 * Suc i + j = n" for j
          unfolding byte [OF that(1)] that(2) by (rule less.prems(2))
      qed (use False mx less.prems(1,2) in auto)
      finally show ?thesis .
    qed
  qed
qed

lemma align_less: "unat (7 AND (w :: u64)) < 8"
proof -
  have "7 AND w = take_bit 3 w" by (simp add: take_bit_eq_mask mask_eq_exp_minus_1 and.commute)
  then show ?thesis using take_bit_nat_less_exp [of 3 "unat w"] by (simp add: unsigned_take_bit_eq)
qed

lemma aligned_byte_mask_eq:
  assumes "unat al < 8"
  shows "aligned_byte_mask al = mask (8 * unat al)"
proof -
  have "unat (8 * al) = 8 * unat al" using assms by (simp add: unat_word_ariths)
  then show ?thesis by (simp add: aligned_byte_mask_def mask_eq_exp_minus_1 push_bit_eq_mult)
qed

lemma byte_of_or_mask:
  assumes "al \<le> 8"
  shows "j < al \<Longrightarrow> byte_of (w OR mask (8 * al)) j = - 1"
    and "al \<le> j \<Longrightarrow> byte_of (w OR mask (8 * al)) j = byte_of w j"
  using assms by (auto intro!: bit_word_eqI simp: bit_byte_of bit_or_iff bit_mask_iff)

lemma do_strnlen_user_eq:
  assumes str: "cstr m src s" and al: "al = unat (7 AND src)" and mx: "0 < unat mx" "unat mx + 15 < 2 ^ 64"
    and lim: "lim = 8 * ((unat mx + al + 7) div 8)"
  shows "do_strnlen_user m src count mx =
     (if al + length s < lim then of_nat (length s) + 1
      else if count \<le> of_nat (lim - al) then count + 1 else 0)"
proof -
  define A a c where "A = 7 AND src" and "a = src - A" and "c = read64 m a OR aligned_byte_mask A"
  have al8: "al < 8" "of_nat al = A" "unat A = al" using align_less by (simp_all add: al A_def)
  have mx': "unat (mx + A) = unat mx + al"
    using mx(2) al8 unat_add_no_wrap [of mx al] by simp
  have pos: "a + of_nat k = src + of_nat (k - al)" if "al \<le> k" for k
    using that by (simp add: a_def of_nat_diff al8(2))
  have byte: "byte_of c j = (if j < al then - 1 else m (a + of_nat j))" if "j < 8" for j
    using byte_of_or_mask [of al j "read64 m a"] byte_of_read64 [OF that, of m a] al8
    by (simp add: c_def aligned_byte_mask_eq)
  have end_pos: "m (a + of_nat (al + length s)) = 0"
    using cstr_end [OF str] by (subst pos) simp_all
  have run: "do_strnlen_loop m a A c (of_nat (8 * 0)) (mx + A) =
     (if al + length s < 8 * 0 + 8 * ((unat (mx + A) + 7) div 8)
      then Inr (of_nat (al + length s) + 1 - A)
      else Inl (of_nat (8 * 0 + 8 * ((unat (mx + A) + 7) div 8))))"
  proof (rule do_strnlen_loop_run)
    show "m (a + of_nat k) \<noteq> 0" if "8 * 0 + 8 \<le> k" "k < al + length s" for k
      using that al8 cstr_nth_nonzero [OF str, of "k - al"] by (subst pos) simp_all
    show "byte_of c j \<noteq> 0" if "j < 8" "8 * 0 + j < al + length s" for j
      using that cstr_nth_nonzero [OF str, of "j - al"] pos [of j] by (simp add: byte del: of_nat_diff)
    show "byte_of c j = 0" if "j < 8" "8 * 0 + j = al + length s" for j
      using that end_pos by (simp add: byte del: of_nat_add)
  qed (use mx mx' end_pos in auto)
  have total: "8 * 0 + 8 * ((unat (mx + A) + 7) div 8) = lim" by (simp add: mx' lim)
  have len: "of_nat (al + length s) + 1 - A = of_nat (length s) + 1" by (simp add: al8(2))
  have "al \<le> lim" using mx al8 by (simp add: lim)
  then have sub: "of_nat lim - A = (of_nat (lim - al) :: u64)" by (simp add: of_nat_diff al8(2))
  show ?thesis
    using run [unfolded total len]
    unfolding do_strnlen_user_def Let_def A_def [symmetric] a_def [symmetric] c_def [symmetric]
    by (simp add: sub del: of_nat_diff)
qed

lemma positive_long:
  fixes w :: u64
  assumes "0 < sint w"
  shows "0 < unat w" and "unat w < 2 ^ 63"
proof -
  show "0 < unat w" using assms by (cases "w = 0") (simp_all add: unat_gt_0)
  have "\<not> bit w 63" using assms bit_last_iff [of w] by simp
  then have "\<not> bit (unat w) 63" by (simp add: bit_unsigned_iff)
  then have even: "even (unat w div 2 ^ 63)" by (simp only: bit_iff_odd) simp
  show "unat w < 2 ^ 63"
  proof (rule ccontr)
    assume "\<not> unat w < 2 ^ 63"
    then have "unat w div 2 ^ 63 = 1" using unat_u64_less [of w] by (intro div_nat_eqI) simp_all
    then show False using even by simp
  qed
qed

lemma access_ok_prefix:
  assumes "src < seg" and "mx \<le> seg - src"
  shows "access_ok seg src mx"
proof -
  have "unat mx \<le> unat seg - unat src" "unat src < unat seg"
    using assms by (auto simp: word_le_nat_alt word_less_nat_alt unat_sub less_imp_le)
  then have "mx \<le> seg" "unat (seg - mx) = unat seg - unat mx"
    by (auto simp: word_le_nat_alt intro!: unat_sub)
  then show ?thesis
    using \<open>unat mx \<le> _\<close> \<open>unat src < _\<close> by (simp add: access_ok_def word_le_nat_alt)
qed

lemma copy_area_cstr:
  assumes "cstr m src s" and "length s < unat n"
  shows "cstr (copy_area m dst src n) dst s"
proof -
  have "copy_area m dst src n (dst + of_nat i) = m (src + of_nat i)" if "i \<le> length s" for i
    using that assms(2) unat_u64_less [of n] by (simp add: copy_area_def word_less_nat_alt)
  then show ?thesis using assms(1) by (simp add: cstr_iff)
qed

section \<open>Properties\<close>

text \<open>C29. \<^verbatim>\<open>strncpy_from_user\<close> on a user string \<open>s\<close> below the address limit: when the whole words up to
  the one with the NUL fit into the limit, it returns the length of \<open>s\<close>, leaves \<open>s\<close> at \<open>dst\<close> and
  changes no byte at or beyond \<open>dst + count\<close>; otherwise it panics, where the comment of
  \<^verbatim>\<open>do_strncpy_from_user\<close> promises the value \<open>count\<close> or \<^verbatim>\<open>-EFAULT\<close>. The word arithmetic that looks for
  the NUL therefore never misses it and never reports one that is not there.\<close>

theorem strncpy_from_user_correct:
  assumes str: "cstr m src s" and lim: "word_span (length s) < 2 ^ 64"
    and apart: "\<forall>i j. i < word_span (length s) \<and> j < word_span (length s) \<longrightarrow>
                  src + of_nat i \<noteq> dst + of_nat j"
    and count: "0 < sint count" and seg: "src < seg"
  shows "if word_span (length s) \<le> unat (min count (seg - src))
         then \<exists>m'. strncpy_from_user seg m dst src count = Inr (m', Inr (of_nat (length s)))
                \<and> cstr m' dst s \<and> (\<forall>x. count \<le> x - dst \<longrightarrow> m' x = m x)
         else strncpy_from_user seg m dst src count = Inl Panic"
proof -
  define mx where "mx = min count (seg - src)"
  have mx: "(if count < seg - src then count else seg - src) = mx" by (auto simp: mx_def min_def)
  have mx_le: "unat mx \<le> unat count" unfolding word_le_nat_alt [symmetric] by (simp add: mx_def)
  have ok: "access_ok seg src mx" using seg by (intro access_ok_prefix) (simp_all add: mx_def)
  have "copy_area m dst src (of_nat (8 * 0)) = m" by (simp add: copy_area_def)
  then have run: "do_strncpy_from_user m dst src count mx =
      (if word_span (length s) \<le> unat mx
       then Inr (copy_area m dst src (of_nat (word_span (length s))), of_nat (length s)) else Inl Panic)"
    using do_strncpy_loop_run [OF str lim, of dst 0 mx] apart by (simp add: do_strncpy_from_user_def)
  have eq: "strncpy_from_user seg m dst src count =
      obind (do_strncpy_from_user m dst src count mx) (\<lambda>(m', r). Inr (m', Inr r))"
    using count seg ok by (simp add: strncpy_from_user_def Let_def mx)
  show ?thesis
  proof (cases "word_span (length s) \<le> unat mx")
    case True
    let ?w = "of_nat (word_span (length s)) :: u64" and ?m = "copy_area m dst src (of_nat (word_span (length s)))"
    have w: "unat ?w = word_span (length s)" using lim by simp
    then have le: "?w \<le> count"
      using True le_trans [of "word_span (length s)" "unat mx" "unat count"] mx_le
      by (simp add: word_le_nat_alt)
    have "cstr ?m dst s" using w by (intro copy_area_cstr [OF str]) (simp add: word_span_def)
    moreover have "?m x = m x" if "count \<le> x - dst" for x
      using that le by (auto simp: copy_area_def dest: order.trans [THEN leD])
    ultimately show ?thesis using True run eq by (simp add: mx_def)
  qed (use run eq in \<open>simp add: mx_def\<close>)
qed

theorem strncpy_from_user_correct_witness:
  "let m = (\<lambda>a. if a = 0 then 65 else 0) :: mem
   in strncpy_from_user 4096 m 64 0 5 = Inl Panic
      \<and> (\<exists>m'. strncpy_from_user 4096 m 64 0 8 = Inr (m', Inr 1) \<and> cstr m' 64 [65])"
proof -
  let ?m = "(\<lambda>a. if a = 0 then 65 else 0) :: mem"
  have apart: "\<forall>i j. i < word_span (length [65 :: u8]) \<and> j < word_span (length [65 :: u8]) \<longrightarrow>
      0 + of_nat i \<noteq> 64 + (of_nat j :: u64)"
  proof (intro allI impI)
    fix i j assume "i < word_span (length [65 :: u8]) \<and> j < word_span (length [65 :: u8])"
    then have "i < 8" "j < 8" by (simp_all add: word_span_def)
    then have "(of_nat i :: u64) \<noteq> of_nat (64 + j)" by (subst of_nat64_inj) auto
    then show "0 + of_nat i \<noteq> 64 + (of_nat j :: u64)" by simp
  qed
  have str: "cstr ?m 0 [65]" by simp
  note use = strncpy_from_user_correct [OF str _ apart]
  show ?thesis
    using use [of 5 4096] use [of 8 4096] by (auto simp: word_span_def)
qed

text \<open>C30. \<^verbatim>\<open>strnlen_user\<close> keeps its contract: for a user string that lies below the address limit
  as far as \<open>count\<close> reaches, it returns the size including the NUL when that is at most \<open>count\<close>, and a
  number greater than \<open>count\<close> when the string is longer.\<close>

theorem strnlen_user_correct:
  assumes str: "cstr m src s" and count: "0 < sint count" and seg: "src < seg" "count \<le> seg - src"
    and len: "length s + 1 < 2 ^ 64"
  shows "if length s < unat count
         then strnlen_user seg m src count = of_nat (length s) + 1
         else count < strnlen_user seg m src count"
proof -
  define al lim where "al = unat (7 AND src)" and "lim = 8 * ((unat count + al + 7) div 8)"
  have al8: "al < 8" by (simp add: al_def align_less)
  have c: "0 < unat count" "unat count < 2 ^ 63"
    using positive_long [OF count] by simp_all
  have lim: "unat count + al \<le> lim" "lim < 2 ^ 64"
    using c al8 by (auto simp: lim_def)
  have eq: "strnlen_user seg m src count = (if al + length s < lim then of_nat (length s) + 1
      else if count \<le> of_nat (lim - al) then count + 1 else 0)"
    using count seg access_ok_prefix [OF seg] do_strnlen_user_eq [OF str al_def, of count lim count] c
    by (simp add: strnlen_user_def Let_def lim_def not_less)
  have "unat (of_nat (lim - al) :: u64) = lim - al" using lim by (intro unat_of_nat64) simp
  then have big: "count \<le> of_nat (lim - al)" using lim by (simp add: word_le_nat_alt del: of_nat_diff)
  have succ: "unat (count + 1) = unat count + 1" using c unat_add_no_wrap [of count 1] by simp
  have size: "unat (of_nat (length s) + 1 :: u64) = length s + 1"
    using len unat_of_nat64 [of "length s + 1"] by (simp add: add.commute)
  show ?thesis
    using eq big succ size lim by (auto simp: word_less_nat_alt)
qed

theorem strnlen_user_correct_witness:
  "strnlen_user 4096 (\<lambda>a. if a = 0 then 65 else 0) 0 3 = 2"
  using strnlen_user_correct [of "\<lambda>a. if a = 0 then 65 else 0" 0 "[65]" 3 4096] by simp

end
