(* ===== verification/KMemset.thy ===== *)
theory KMemset
  imports KString
begin

text \<open>
  The assembly of \<^verbatim>\<open>src/startup/memset.S\<close>, with its registers, and that it has the effect of \<^const>\<open>memset\<close>: bytes up to
  the next double word, double words in a loop of 32 stores that is entered in the middle, and the last bytes.
\<close>

unbundle bit_operations_syntax

section \<open>The routine\<close>

definition sb :: "mem \<Rightarrow> addr \<Rightarrow> u64 \<Rightarrow> mem" where
  "sb m a w = m(a := ucast w)"

definition sd :: "mem \<Rightarrow> addr \<Rightarrow> u64 \<Rightarrow> mem" where
  "sd m a w = (\<lambda>x. if x - a < 8 then ucast (drop_bit (8 * unat (x - a)) w) else m x)"

text \<open>The loops at label 1 and label 5; the first argument is the distance to \<^verbatim>\<open>a3\<close>, after which the branch falls
  through.\<close>

primrec sb_loop :: "nat \<Rightarrow> mem \<Rightarrow> addr \<Rightarrow> u64 \<Rightarrow> addr \<Rightarrow> mem \<times> addr" where
  "sb_loop 0 m t0 a1 a3 = (m, t0)"
| "sb_loop (Suc n) m t0 a1 a3 =
     (let m = sb m t0 a1; t0 = t0 + 1 in if t0 < a3 then sb_loop n m t0 a1 a3 else (m, t0))"

text \<open>The value in all bytes of the register.\<close>

definition broadcast :: "u64 \<Rightarrow> u64" where
  "broadcast a1 = (let a1 = a1 AND 0xff; a1 = push_bit 8 a1 OR a1; a1 = push_bit 16 a1 OR a1 in push_bit 32 a1 OR a1)"

text \<open>The stores from number \<open>j\<close> on, and the loop at label 3 entered at the store \<open>j\<close>.\<close>

definition sd_row :: "nat \<Rightarrow> mem \<Rightarrow> addr \<Rightarrow> u64 \<Rightarrow> mem" where
  "sd_row j m t0 a1 = fold (\<lambda>i m. sd m (t0 + of_nat (8 * i)) a1) [j..<32] m"

primrec sd_loop :: "nat \<Rightarrow> nat \<Rightarrow> mem \<Rightarrow> addr \<Rightarrow> u64 \<Rightarrow> addr \<Rightarrow> mem \<times> addr" where
  "sd_loop 0 j m t0 a1 a3 = (m, t0)"
| "sd_loop (Suc n) j m t0 a1 a3 =
     (let m = sd_row j m t0 a1; t0 = t0 + 256 in if t0 < a3 then sd_loop n 0 m t0 a1 a3 else (m, t0))"

definition set_head :: "mem \<Rightarrow> addr \<Rightarrow> u64 \<Rightarrow> u64 \<Rightarrow> mem \<times> addr \<times> u64" where
  "set_head m t0 a1 a2 =
     (let a3 = (t0 + 7) AND NOT 7
      in if a3 = t0 then (m, t0, a2)
         else let a4 = a3 - t0; (m, t0) = sb_loop (unat a4) m t0 a1 a3 in (m, t0, a2 - a4))"

text \<open>The jump into the loop skips \<open>a4 / 2\<close> bytes of instructions of four bytes each.\<close>

definition set_words :: "mem \<Rightarrow> addr \<Rightarrow> u64 \<Rightarrow> u64 \<Rightarrow> mem \<times> addr \<times> u64" where
  "set_words m t0 a1 a2 =
     (let n = a2 AND NOT 7; a3 = t0 + n; a4 = n AND 248;
          (m, t0) = (if a4 = 0 then sd_loop (unat n div 256) 0 m t0 a1 a3
                     else let a4 = - a4 + 256 in sd_loop ((unat n + unat a4) div 256) (unat (drop_bit 1 a4) div 4) m (t0 - a4) a1 a3)
      in (m, t0, a2 AND 7))"

definition set_rest :: "mem \<Rightarrow> addr \<Rightarrow> u64 \<Rightarrow> u64 \<Rightarrow> mem" where
  "set_rest m t0 a1 a2 = (if a2 = 0 then m else fst (sb_loop (unat a2) m t0 a1 (t0 + a2)))"

definition memset_asm :: "mem \<Rightarrow> addr \<Rightarrow> u32 \<Rightarrow> u64 \<Rightarrow> mem" where
  "memset_asm m s c count =
     (let a1 = scast c
      in if count < 16 then set_rest m s a1 count
         else let (m, t0, a2) = set_head m s a1 count;
                  a1 = broadcast a1;
                  (m, t0, a2) = set_words m t0 a1 a2
              in set_rest m t0 a1 a2)"

section \<open>Filled areas\<close>

definition fill_area :: "mem \<Rightarrow> addr \<Rightarrow> u8 \<Rightarrow> nat \<Rightarrow> mem" where
  "fill_area m t c n = (\<lambda>a. if unat (a - t) < n then c else m a)"

lemma fill_area_0 [simp]: "fill_area m t c 0 = m"
  by (simp add: fill_area_def)

lemma fill_area_append:
  assumes "n1 + n2 < 2 ^ 64"
  shows "fill_area (fill_area m t c n1) (t + of_nat n1) c n2 = fill_area m t c (n1 + n2)"
proof
  fix a
  define x where "x = a - t"
  have u: "unat (of_nat n1 :: u64) = n1" using assms by simp
  have "unat (x - of_nat n1) < n2 \<longleftrightarrow> n1 \<le> unat x \<and> unat x < n1 + n2"
    using unat_diff_wrap [of x "of_nat n1"] u assms by (cases "unat x < n1") (auto simp: unat_sub word_le_nat_alt)
  moreover have "a - (t + of_nat n1) = x - of_nat n1" by (simp add: x_def)
  ultimately show "fill_area (fill_area m t c n1) (t + of_nat n1) c n2 a = fill_area m t c (n1 + n2) a"
    unfolding fill_area_def by (simp only: x_def [symmetric]) auto
qed

lemma mod_8_minus: "8 * k \<le> n \<Longrightarrow> (n - 8 * k) mod 8 = n mod (8 :: nat)"
  by (metis le_add_diff_inverse2 mod_mult_self2)

lemma bit_broadcast: "n < 64 \<Longrightarrow> bit (broadcast w) n \<longleftrightarrow> bit w (n mod 8)"
proof -
  note m = mod_8_minus [of 2, simplified] mod_8_minus [of 4, simplified]
  define a where "a = w AND 0xff"
  define b where "b = push_bit 8 a OR a"
  define c where "c = push_bit 16 b OR b"
  have "a = w AND mask 8" by (simp add: a_def mask_eq_exp_minus_1)
  then have a: "bit a n \<longleftrightarrow> n < 8 \<and> bit w n" for n by (auto simp: bit_simps)
  have b: "bit b n \<longleftrightarrow> n < 16 \<and> bit w (n mod 8)" for n
    by (cases "n < 8") (auto simp: b_def bit_simps a le_mod_geq not_less)
  have c: "bit c n \<longleftrightarrow> n < 32 \<and> bit w (n mod 8)" for n
    using m(1) [of n] by (cases "n < 16") (auto simp: c_def bit_simps b)
  have e: "broadcast w = push_bit 32 c OR c" by (simp only: broadcast_def Let_def a_def b_def c_def)
  assume "n < 64"
  then show ?thesis unfolding e using m(2) [of n] by (cases "n < 32") (auto simp: bit_simps c)
qed

lemma broadcast_bytes: "i < 8 \<Longrightarrow> ucast (drop_bit (8 * i) (broadcast w)) = (ucast w :: u8)"
proof (rule bit_word_eqI)
  fix n assume "i < 8" "n < LENGTH(8)"
  moreover from this have "(8 * i + n) mod 8 = n" by simp
  ultimately show "bit (ucast (drop_bit (8 * i) (broadcast w)) :: u8) n \<longleftrightarrow> bit (ucast w :: u8) n"
    using bit_broadcast [of "8 * i + n" w] by (simp add: bit_simps)
qed

lemma sd_broadcast: "sd m a (broadcast w) = fill_area m a (ucast w) 8"
  by (rule ext) (simp add: sd_def fill_area_def word_less_nat_alt broadcast_bytes)

lemma sb_fill: "sb m a w = fill_area m a (ucast w) 1"
  by (auto simp: sb_def fill_area_def fun_eq_iff unat_eq_0)

lemma ucast_broadcast: "(ucast (broadcast w) :: u8) = ucast w"
  using broadcast_bytes [of 0 w] by simp

section \<open>The loops\<close>

lemma sb_loop_fill:
  assumes "0 < n" "unat t0 + n < 2 ^ 64"
  shows "sb_loop n m t0 w (t0 + of_nat n) = (fill_area m t0 (ucast w) n, t0 + of_nat n)"
  using assms
proof (induction n arbitrary: m t0)
  case (Suc n)
  have u: "unat (t0 + 1) = unat t0 + 1" "unat (t0 + of_nat (Suc n)) = unat t0 + Suc n"
    using unat_add_no_wrap [of t0 1] unat_add_no_wrap [OF Suc.prems(2)] Suc.prems(2) by simp_all
  have ap: "fill_area (fill_area m t0 (ucast w) 1) (t0 + 1) (ucast w) n = fill_area m t0 (ucast w) (Suc n)"
    using fill_area_append [of 1 n m t0 "ucast w"] Suc.prems(2) by simp
  show ?case
  proof (cases "n = 0")
    case False
    then have lt: "t0 + 1 < t0 + of_nat (Suc n)" unfolding word_less_nat_alt u by simp
    show ?thesis using Suc.IH [of "t0 + 1" "fill_area m t0 (ucast w) 1"] False Suc.prems(2) u(1) lt ap
      by (simp add: sb_fill add.assoc)
  qed (simp add: sb_fill)
qed simp

lemma sd_row_fill:
  assumes "j \<le> 32"
  shows "sd_row j m t0 (broadcast w) = fill_area m (t0 + of_nat (8 * j)) (ucast w) (256 - 8 * j)"
proof -
  have "fold (\<lambda>i m. sd m (t0 + of_nat (8 * i)) (broadcast w)) [j..<j + k] m = fill_area m (t0 + of_nat (8 * j)) (ucast w) (8 * k)"
    if "j + k \<le> 32" for k using that
  proof (induction k)
    case (Suc k)
    have "fill_area (fill_area m (t0 + of_nat (8 * j)) (ucast w) (8 * k)) (t0 + of_nat (8 * j) + of_nat (8 * k)) (ucast w) 8
      = fill_area m (t0 + of_nat (8 * j)) (ucast w) (8 * k + 8)" using Suc.prems by (intro fill_area_append) simp
    moreover have "t0 + of_nat (8 * (j + k)) = t0 + of_nat (8 * j) + of_nat (8 * k)" by (simp add: algebra_simps)
    ultimately show ?case using Suc by (simp add: sd_broadcast ac_simps del: of_nat_mult of_nat_add)
  qed simp
  from this [of "32 - j"] show ?thesis using assms by (simp add: sd_row_def diff_mult_distrib2)
qed

lemma sd_loop_fill:
  assumes "0 < n" "j < 32" "t = t0 + of_nat (8 * j)" "unat t + (256 * n - 8 * j) < 2 ^ 64"
  shows "sd_loop n j m t0 (broadcast w) (t + of_nat (256 * n - 8 * j))
    = (fill_area m t (ucast w) (256 * n - 8 * j), t + of_nat (256 * n - 8 * j))"
  using assms
proof (induction n arbitrary: m t0 t j)
  case (Suc n)
  define l where "l = 256 - 8 * j"
  have l: "256 * Suc n - 8 * j = l + 256 * n" "0 < l" using Suc.prems(2) by (simp_all add: l_def)
  have "t0 + 256 = t0 + of_nat (8 * j + l)" using Suc.prems(2) by (simp add: l_def)
  then have t1: "t0 + 256 = t + of_nat l" using Suc.prems(3) by simp
  have row: "sd_row j m t0 (broadcast w) = fill_area m t (ucast w) l" using sd_row_fill [of j m t0 w] Suc.prems(2,3) by (simp add: l_def)
  note fit = Suc.prems(4) [unfolded l(1)]
  have u: "unat (t + of_nat l) = unat t + l" "unat (t + of_nat (l + 256 * n)) = unat t + (l + 256 * n)"
    using fit by (intro unat_add_no_wrap; simp)+
  have ap: "fill_area (fill_area m t (ucast w) l) (t + of_nat l) (ucast w) (256 * n) = fill_area m t (ucast w) (l + 256 * n)"
    using fit by (intro fill_area_append) simp
  have e: "t + of_nat (l + 256 * n) = t + of_nat l + of_nat (256 * n)" by (simp add: add.assoc)
  show ?case unfolding l(1)
  proof (cases "n = 0")
    case False
    have lt: "t + of_nat l < t + of_nat (l + 256 * n)" using False l(2) unfolding word_less_nat_alt u by simp
    have "unat (t + of_nat l) + (256 * n - 8 * 0) < 2 ^ 64" using fit u(1) by simp
    with Suc.IH [of 0 "t + of_nat l" "t + of_nat l" "fill_area m t (ucast w) l"] False
    have "sd_loop n 0 (fill_area m t (ucast w) l) (t + of_nat l) (broadcast w) (t + of_nat (l + 256 * n))
      = (fill_area m t (ucast w) (l + 256 * n), t + of_nat (l + 256 * n))"
      unfolding e by (simp add: ap del: of_nat_mult)
    then show "sd_loop (Suc n) j m t0 (broadcast w) (t + of_nat (l + 256 * n)) = (fill_area m t (ucast w) (l + 256 * n), t + of_nat (l + 256 * n))"
      using lt by (simp add: Let_def row t1 del: of_nat_add of_nat_mult)
  next
    case True
    then show "sd_loop (Suc n) j m t0 (broadcast w) (t + of_nat (l + 256 * n)) = (fill_area m t (ucast w) (l + 256 * n), t + of_nat (l + 256 * n))"
      by (simp add: Let_def row t1)
  qed
qed simp

section \<open>The parts of the routine\<close>

lemma set_rest_fill:
  assumes "unat t0 + unat a2 < 2 ^ 64"
  shows "set_rest m t0 w a2 = fill_area m t0 (ucast w) (unat a2)"
  using sb_loop_fill [of "unat a2" t0 m w] assms by (auto simp: set_rest_def unat_gt_0)

lemma and_not_7: "unat ((x :: u64) AND NOT 7) = unat x div 8 * 8"
  using and_not_mask_nat [of 3 x] by simp

lemma set_head_fill:
  assumes "unat t0 + unat a2 < 2 ^ 64" "8 \<le> unat a2"
  shows "\<exists>k. set_head m t0 w a2 = (fill_area m t0 (ucast w) k, t0 + of_nat k, a2 - of_nat k) \<and> k < 8"
proof -
  define a3 where "a3 = (t0 + 7) AND NOT 7"
  define k where "k = (unat t0 + 7) div 8 * 8 - unat t0"
  have "unat (t0 + 7) = unat t0 + 7" using unat_add_no_wrap [of t0 7] assms by simp
  then have "unat a3 = (unat t0 + 7) div 8 * 8" unfolding a3_def and_not_7 by simp
  moreover have "unat t0 \<le> (unat t0 + 7) div 8 * 8" "(unat t0 + 7) div 8 * 8 \<le> unat t0 + 7" by linarith+
  ultimately have k: "unat a3 = unat t0 + k" "k < 8" by (simp_all add: k_def)
  have "unat (t0 + of_nat k) = unat t0 + k" using k(2) assms by (intro unat_add_no_wrap) simp
  then have a3: "a3 = t0 + of_nat k" using k(1) by (simp add: word_unat_eq_iff)
  have d: "unat (a3 - t0) = k" using k(2) by (simp add: a3)
  have "set_head m t0 w a2 = (fill_area m t0 (ucast w) k, t0 + of_nat k, a2 - of_nat k)"
  proof (cases "k = 0")
    case True
    then show ?thesis unfolding set_head_def a3_def [symmetric] by (simp add: a3)
  next
    case False
    then have "a3 \<noteq> t0" using k(1) by auto
    then show ?thesis using sb_loop_fill [of k t0 m w] False k(2) assms d
      unfolding set_head_def a3_def [symmetric] Let_def by (simp add: a3)
  qed
  then show ?thesis using k(2) by blast
qed

lemma set_words_fill:
  assumes "unat t0 + unat a2 < 2 ^ 64" "8 \<le> unat a2"
  defines "n \<equiv> unat a2 div 8 * 8"
  shows "set_words m t0 (broadcast w) a2 = (fill_area m t0 (ucast w) n, t0 + of_nat n, a2 AND 7)"
proof -
  define N where "N = a2 AND NOT 7"
  define r where "r = N AND 248"
  have N: "unat N = n" "N = of_nat n" using and_not_7 [of a2] unat_word_inverse [of N] by (simp_all add: N_def n_def)
  have "0 < n" "n \<le> unat a2" using assms(2) by (simp_all add: n_def)
  have n8: "n mod 8 = 0" by (simp add: n_def)
  have fit: "unat t0 + n < 2 ^ 64" using assms(1) \<open>n \<le> unat a2\<close> by linarith
  have "r = (N AND (2 ^ 8 - 1)) AND NOT 7" by (simp add: r_def and.assoc)
  then have "unat r = n mod 2 ^ 8 div 8 * 8" by (simp only: and_not_7 and_mask_nat N(1))
  then have r: "unat r = n mod 256" using n8 by (simp add: mod_mod_cancel dvd_div_mult_self mod_0_imp_dvd dvd_mod)
  show ?thesis
  proof (cases "r = 0")
    case True
    then have q: "n = 256 * (n div 256)" "0 < n div 256" using r \<open>0 < n\<close> by auto
    show ?thesis using sd_loop_fill [of "n div 256" 0 t0 t0 m w] q fit True
      unfolding set_words_def N_def [symmetric] Let_def r_def [symmetric] by (simp add: N)
  next
    case False
    define o4 where "o4 = - r + 256"
    define j where "j = 32 - n mod 256 div 8"
    have rr: "0 < n mod 256" "n mod 256 < 256" using False r by (simp_all add: unat_gt_0 [symmetric])
    have "n mod 256 mod 8 = 0" using n8 by (simp add: mod_mod_cancel)
    then have j: "8 * j = 256 - n mod 256" "j < 32" using rr by (auto simp: j_def)
    have "o4 = 256 - r" by (simp add: o4_def)
    moreover have "unat (256 - r) = unat (256 :: u64) - unat r" using rr r by (subst unat_sub) (simp_all add: word_le_nat_alt)
    ultimately have o4: "unat o4 = 8 * j" using r j(1) by simp
    have "x = q * 256 + y \<Longrightarrow> y < 256 \<Longrightarrow> x + (256 - y) = (q + 1) * 256" for x q y :: nat by simp
    from this [OF div_mult_mod_eq [symmetric] rr(2)] have "n + (256 - n mod 256) = (n div 256 + 1) * 256" .
    then have rounds: "(unat N + unat o4) div 256 = n div 256 + 1" unfolding N(1) o4 j(1) by simp
    have entry: "unat (drop_bit 1 o4) div 4 = j" unfolding unat_drop_bit_eq o4 by (simp add: drop_bit_eq_div)
    have len: "256 * (n div 256 + 1) - 8 * j = n" using j rr div_mult_mod_eq [of n 256] by simp
    have t: "t0 = t0 - o4 + of_nat (8 * j)" using unat_word_inverse [of o4] o4 by simp
    show ?thesis using sd_loop_fill [OF _ j(2) t, of "n div 256 + 1" m w, unfolded len] fit False
      unfolding set_words_def N_def [symmetric] Let_def r_def [symmetric] o4_def [symmetric] rounds entry by (simp add: N(2))
  qed
qed

section \<open>The effect of the routine\<close>

text \<open>C40. The assembly of \<^verbatim>\<open>memset\<close>, with its computed jump into the middle of the loop of 32 double-word stores, has the
  effect the C code relies on: when the area ends before the end of the address space, exactly the bytes of the
  area become the low byte of the value.\<close>

theorem memset_asm_correct:
  assumes "unat s + unat count < 2 ^ 64"
  shows "memset_asm m s c count = memset m s c count"
proof -
  let ?w = "scast c :: u64"
  have w: "(ucast ?w :: u8) = ucast c" by (rule bit_word_eqI) (simp add: bit_simps)
  have whole: "memset m s c count = fill_area m s (ucast c) (unat count)" by (simp add: memset_def fill_area_def word_less_nat_alt)
  show ?thesis
  proof (cases "count < 16")
    case True
    then show ?thesis using set_rest_fill [OF assms, of m ?w] by (simp add: memset_asm_def w whole)
  next
    case False
    then have c: "16 \<le> unat count" by (simp add: word_less_nat_alt)
    obtain k where k: "set_head m s ?w count = (fill_area m s (ucast c) k, s + of_nat k, count - of_nat k)" "k < 8"
      using set_head_fill [OF assms, of m ?w] c w by auto
    have u: "unat (s + of_nat k) = unat s + k" "unat (count - of_nat k) = unat count - k"
      using k(2) c assms by (simp_all add: unat_add_no_wrap unat_sub word_le_nat_alt)
    define l where "l = (unat count - k) div 8 * 8"
    have l: "l + unat ((count - of_nat k) AND 7) = unat count - k" by (simp add: and_low u l_def)
    have sw: "set_words (fill_area m s (ucast c) k) (s + of_nat k) (broadcast ?w) (count - of_nat k)
      = (fill_area m s (ucast c) (k + l), s + of_nat (k + l), (count - of_nat k) AND 7)"
      using set_words_fill [of "s + of_nat k" "count - of_nat k" "fill_area m s (ucast c) k" ?w] u k(2) c assms l
        fill_area_append [of k l m s "ucast c"] by (simp add: l_def [symmetric] w add.assoc)
    have "unat (s + of_nat (k + l)) = unat s + (k + l)" using l k(2) c assms by (intro unat_add_no_wrap) simp
    moreover have "k + l + unat ((count - of_nat k) AND 7) = unat count" using l k(2) c by simp
    ultimately have "set_rest (fill_area m s (ucast c) (k + l)) (s + of_nat (k + l)) (broadcast ?w) ((count - of_nat k) AND 7)
      = fill_area m s (ucast c) (unat count)"
      using set_rest_fill [of "s + of_nat (k + l)" "(count - of_nat k) AND 7" "fill_area m s (ucast c) (k + l)" "broadcast ?w"] assms
        fill_area_append [of "k + l" "unat ((count - of_nat k) AND 7)" m s "ucast c"] by (simp add: ucast_broadcast w)
    then show ?thesis using False by (simp only: memset_asm_def Let_def k(1) sw whole if_False prod.case)
  qed
qed

theorem memset_asm_correct_witness:
  "memset_asm (\<lambda>_. 1) 0x1003 0 300 = memset (\<lambda>_. 1) 0x1003 0 300 \<and> memset_asm (\<lambda>_. 1) 0x1003 0 300 0x112e = 0
     \<and> memset_asm (\<lambda>_. 1) 0x1003 0 300 0x112f = 1"
proof -
  have "unat (0x1003 :: addr) + unat (300 :: u64) < 2 ^ 64" by simp
  then have e: "memset_asm (\<lambda>_. 1) 0x1003 0 300 = memset (\<lambda>_. 1) 0x1003 0 300" by (rule memset_asm_correct)
  show ?thesis unfolding e by (simp add: memset_def)
qed

end
