(* ===== verification/Vsprintf.thy ===== *)
theory Vsprintf
  imports KString KBits
begin

text \<open>
  Formatted output and number parsing: \<^verbatim>\<open>src/lib/vsprintf.c\<close>. The output side writes into a
  buffer of memory through \<^verbatim>\<open>if (buf < end) *buf = c; ++buf\<close>, so it counts every character and stores
  only those that fit. A \<open>va_list\<close> is the list of 64-bit argument slots of the RISC-V calling
  convention; reading past its end is the fault \<^const>\<open>OutOfBounds\<close>. The two messages of
  \<^verbatim>\<open>check_pointer_msg\<close> live at the addresses given by \<open>rodata\<close>.
\<close>

section \<open>Definitions\<close>

subsection \<open>Output specifications\<close>

datatype format_type =
    FORMAT_TYPE_NONE | FORMAT_TYPE_WIDTH | FORMAT_TYPE_PRECISION | FORMAT_TYPE_CHAR
  | FORMAT_TYPE_STR | FORMAT_TYPE_PTR | FORMAT_TYPE_PERCENT_CHAR | FORMAT_TYPE_INVALID
  | FORMAT_TYPE_LONG_LONG | FORMAT_TYPE_ULONG | FORMAT_TYPE_LONG | FORMAT_TYPE_UBYTE
  | FORMAT_TYPE_BYTE | FORMAT_TYPE_USHORT | FORMAT_TYPE_SHORT | FORMAT_TYPE_UINT
  | FORMAT_TYPE_INT | FORMAT_TYPE_SIZE_T | FORMAT_TYPE_PTRDIFF

record printf_spec =
  ftype :: format_type
  field_width :: int
  flags :: u8
  base :: nat
  precision :: int

definition SIGN :: u8 where "SIGN = 1"
definition SMALL :: u8 where "SMALL = 32"

definition hex_asc_upper :: "u8 list" where
  "hex_asc_upper = [48, 49, 50, 51, 52, 53, 54, 55, 56, 57, 65, 66, 67, 68, 69, 70]"

record rodata =
  null_msg :: addr
  efault_msg :: addr

definition IS_ERR_VALUE :: "addr \<Rightarrow> bool" where
  "IS_ERR_VALUE x \<longleftrightarrow> x \<ge> - 4095"

definition check_pointer_msg :: "rodata \<Rightarrow> addr \<Rightarrow> addr option" where
  "check_pointer_msg ro ptr =
     (if ptr = 0 then Some (null_msg ro)
      else if ptr < 4096 \<or> IS_ERR_VALUE ptr then Some (efault_msg ro)
      else None)"

subsection \<open>Conversions\<close>

text \<open>\<^verbatim>\<open>if (buf < end) *buf = c; ++buf;\<close>\<close>

definition emit :: "addr \<Rightarrow> u8 \<Rightarrow> mem \<times> addr \<Rightarrow> mem \<times> addr" where
  "emit lim c = (\<lambda>(m, buf). (if buf < lim then m(buf := c) else m, buf + 1))"

function string_loop :: "addr \<Rightarrow> addr \<Rightarrow> u32 \<Rightarrow> mem \<times> addr \<Rightarrow> mem \<times> addr" where
  "string_loop lim s n (m, buf) =
     (if n = 0 then (m, buf)
      else if m s = 0 then (m, buf)
      else string_loop lim (s + 1) (n - 1) (emit lim (m s) (m, buf)))"
  by pat_completeness auto
termination
  by (relation "measure (\<lambda>(lim, s, n, st). unat n)") (auto simp: unat_minus_one unat_gt_0)

declare string_loop.simps [simp del]

definition string_nocheck :: "addr \<Rightarrow> addr \<Rightarrow> printf_spec \<Rightarrow> mem \<times> addr \<Rightarrow> mem \<times> addr" where
  "string_nocheck lim s spec = string_loop lim s (word_of_int (precision spec))"

definition check_pointer ::
  "rodata \<Rightarrow> addr \<Rightarrow> addr \<Rightarrow> printf_spec \<Rightarrow> mem \<times> addr \<Rightarrow> (mem \<times> addr) \<times> errno option" where
  "check_pointer ro lim ptr spec st =
     (case check_pointer_msg ro ptr of
        Some err_msg \<Rightarrow> (string_nocheck lim err_msg spec st, Some EFAULT)
      | None \<Rightarrow> (st, None))"

definition string_conv :: "rodata \<Rightarrow> addr \<Rightarrow> addr \<Rightarrow> printf_spec \<Rightarrow> mem \<times> addr \<Rightarrow> mem \<times> addr" where
  "string_conv ro lim s spec st =
     (case check_pointer ro lim s spec st of
        (st', Some _) \<Rightarrow> st'
      | (st', None) \<Rightarrow> string_nocheck lim s spec st')"

text \<open>The digits in the order they are stored into \<^verbatim>\<open>tmp\<close>, least significant first.\<close>

function pow2_digits :: "bool \<Rightarrow> u64 \<Rightarrow> u8 list" where
  "pow2_digits hex num =
     hex_asc_upper ! (unat ((ucast num :: u8) AND (if hex then 15 else 7)))
     # (let num' = drop_bit (if hex then 4 else 3) num
        in if num' \<noteq> 0 then pow2_digits hex num' else [])"
  by pat_completeness auto
termination
proof (relation "measure (\<lambda>(hex, num). unat num)", simp)
  fix hex and num num' :: u64
  assume "num' = drop_bit (if hex then 4 else 3) num" and "num' \<noteq> 0"
  then show "((hex, num'), (hex, num)) \<in> measure (\<lambda>(hex, num). unat num)"
    by (cases "num = 0") (auto simp: unat_drop_bit_eq drop_bit_eq_div unat_div unat_gt_0 intro!: div_less_dividend)
qed

function dec_digits :: "u64 \<Rightarrow> u8 list" where
  "dec_digits num =
     hex_asc_upper ! (unat (num mod 10))
     # (let num' = num div 10 in if num' \<noteq> 0 then dec_digits num' else [])"
  by pat_completeness auto
termination
proof (relation "measure unat", simp)
  fix num num' :: u64
  assume "num' = num div 10" and "num' \<noteq> 0"
  then show "(num', num) \<in> measure unat"
    by (cases "num = 0") (auto simp: unat_div unat_gt_0 intro!: div_less_dividend)
qed

declare pow2_digits.simps [simp del] dec_digits.simps [simp del]

text \<open>\<^verbatim>\<open>while (--i >= 0)\<close>: the stored digits, last first. Storing more than \<^verbatim>\<open>sizeof tmp\<close> digits is
  the fault \<^const>\<open>OutOfBounds\<close>.\<close>

definition put_tmp :: "addr \<Rightarrow> u8 list \<Rightarrow> mem \<times> addr \<Rightarrow> (mem \<times> addr) outcome" where
  "put_tmp lim tmp st =
     (if length tmp > 24 then Inl OutOfBounds else Inr (fold (emit lim) (rev tmp) st))"

definition number :: "addr \<Rightarrow> u64 \<Rightarrow> printf_spec \<Rightarrow> mem \<times> addr \<Rightarrow> (mem \<times> addr) outcome" where
  "number lim num spec st =
     (if base spec = 16 \<or> base spec = 8 then put_tmp lim (pow2_digits (base spec = 16) num) st
      else if base spec = 10
      then (let neg = flags spec AND SIGN \<noteq> 0 \<and> sint num < 0;
                num = (if neg then - num else num);
                st = (if neg then emit lim 45 st else st)
            in put_tmp lim (dec_digits num) st)
      else Inl Bug)"

definition pointer_string :: "addr \<Rightarrow> addr \<Rightarrow> printf_spec \<Rightarrow> mem \<times> addr \<Rightarrow> (mem \<times> addr) outcome" where
  "pointer_string lim ptr spec st = number lim ptr (spec\<lparr>base := 16, flags := flags spec OR SMALL\<rparr>) st"

definition ptr_to_id :: "addr \<Rightarrow> addr \<Rightarrow> printf_spec \<Rightarrow> mem \<times> addr \<Rightarrow> (mem \<times> addr) outcome" where
  "ptr_to_id lim ptr spec st =
     (if ptr = 0 \<or> IS_ERR_VALUE ptr then pointer_string lim ptr spec st
      else pointer_string lim ptr spec st)"

definition pointer :: "addr \<Rightarrow> addr \<Rightarrow> addr \<Rightarrow> printf_spec \<Rightarrow> mem \<times> addr \<Rightarrow> (mem \<times> addr) outcome" where
  "pointer fmt lim ptr spec st = ptr_to_id lim ptr spec st"

subsection \<open>Format strings\<close>

partial_function (option) scan_percent :: "mem \<Rightarrow> addr \<Rightarrow> addr option" where
  "scan_percent m fmt =
     (if m fmt \<noteq> 0 \<and> m fmt \<noteq> 37 then scan_percent m (fmt + 1) else Some fmt)"

text \<open>The \<^verbatim>\<open>switch\<close> on the conversion character, with the type it stores for a number and the early
  returns of \<open>%c\<close>, \<open>%s\<close> and \<open>%p\<close>. An unknown character is the failed \<^verbatim>\<open>BUG_ON\<close>.\<close>

definition conversion :: "u8 \<Rightarrow> bool \<Rightarrow> printf_spec \<Rightarrow> printf_spec outcome" where
  "conversion c long spec =
     (let num = (\<lambda>spec. Inr (spec\<lparr>ftype :=
                    (if long then FORMAT_TYPE_ULONG
                     else if flags spec AND SIGN \<noteq> 0 then FORMAT_TYPE_INT else FORMAT_TYPE_UINT)\<rparr>))
      in if c = 99 then Inr (spec\<lparr>ftype := FORMAT_TYPE_CHAR\<rparr>)
         else if c = 115 then Inr (spec\<lparr>ftype := FORMAT_TYPE_STR\<rparr>)
         else if c = 112 then Inr (spec\<lparr>ftype := FORMAT_TYPE_PTR\<rparr>)
         else if c = 111 then num (spec\<lparr>base := 8\<rparr>)
         else if c = 88 \<or> c = 120 then num (spec\<lparr>base := 16\<rparr>)
         else if c = 100 \<or> c = 105 then num (spec\<lparr>flags := flags spec OR SIGN\<rparr>)
         else if c = 117 then num spec
         else Inl Bug)"

text \<open>The number of characters read is an \<open>int\<close>: a 32-bit word, sign-extended when it is added to
  a pointer.\<close>

definition format_decode :: "mem \<Rightarrow> addr \<Rightarrow> printf_spec \<Rightarrow> (u32 \<times> printf_spec) outcome option" where
  "format_decode m fmt spec =
     (let spec = spec\<lparr>ftype := FORMAT_TYPE_NONE\<rparr>; start = fmt
      in Option.bind (scan_percent m fmt) (\<lambda>fmt.
           if fmt \<noteq> start \<or> m fmt = 0 then Some (Inr (ucast (fmt - start), spec))
           else let fmt = fmt + 1;
                    spec = spec\<lparr>precision := - 1\<rparr>;
                    long = (m fmt = 108);
                    fmt = (if long then fmt + 1 else fmt);
                    spec = spec\<lparr>base := 10\<rparr>
                in Some (obind (conversion (m fmt) long spec) (\<lambda>spec.
                     Inr (ucast (fmt + 1 - start), spec)))))"

text \<open>The body of the loop of \<^verbatim>\<open>vsnprintf\<close> after \<^verbatim>\<open>format_decode\<close>: one literal chunk or one conversion.
  \<open>INT\<close> arguments are sign-extended, \<open>UINT\<close> arguments zero-extended to 64 bits.\<close>

definition format_item ::
  "rodata \<Rightarrow> addr \<Rightarrow> addr \<Rightarrow> addr \<Rightarrow> u32 \<Rightarrow> printf_spec \<Rightarrow> mem \<times> addr \<Rightarrow> u64 list \<Rightarrow>
   ((mem \<times> addr) \<times> u64 list) outcome" where
  "format_item ro lim old_fmt fmt rd spec st args =
     (case ftype spec of
        FORMAT_TYPE_NONE \<Rightarrow>
          (let (m, str) = st; rd = scast rd;
               m = (if str < lim
                    then memcpy m str old_fmt (if sint rd > sint (lim - str) then lim - str else rd)
                    else m)
           in Inr ((m, str + rd), args))
      | t \<Rightarrow>
          (case args of
             [] \<Rightarrow> (if t \<in> {FORMAT_TYPE_CHAR, FORMAT_TYPE_STR, FORMAT_TYPE_PTR, FORMAT_TYPE_ULONG,
                           FORMAT_TYPE_LONG, FORMAT_TYPE_INT, FORMAT_TYPE_UINT}
                    then Inl OutOfBounds else Inl Bug)
           | arg # args \<Rightarrow>
               map_sum id (\<lambda>st. (st, args))
                 (case t of
                    FORMAT_TYPE_CHAR \<Rightarrow> Inr (emit lim (ucast arg) st)
                  | FORMAT_TYPE_STR \<Rightarrow> Inr (string_conv ro lim arg spec st)
                  | FORMAT_TYPE_PTR \<Rightarrow> pointer fmt lim arg spec st
                  | FORMAT_TYPE_ULONG \<Rightarrow> number lim arg spec st
                  | FORMAT_TYPE_LONG \<Rightarrow> number lim arg spec st
                  | FORMAT_TYPE_INT \<Rightarrow> number lim (scast (ucast arg :: u32)) spec st
                  | FORMAT_TYPE_UINT \<Rightarrow> number lim (ucast (ucast arg :: u32)) spec st
                  | _ \<Rightarrow> Inl Bug)))"

partial_function (option) vsnprintf_loop ::
  "rodata \<Rightarrow> addr \<Rightarrow> addr \<Rightarrow> printf_spec \<Rightarrow> mem \<times> addr \<Rightarrow> u64 list \<Rightarrow> (mem \<times> addr) outcome option" where
  "vsnprintf_loop ro lim fmt spec st args =
     (if fst st fmt = 0 then Some (Inr st)
      else Option.bind (format_decode (fst st) fmt spec) (\<lambda>r.
             case r of
               Inl e \<Rightarrow> Some (Inl e)
             | Inr (rd, spec) \<Rightarrow>
                 (case format_item ro lim fmt (fmt + scast rd) rd spec st args of
                    Inl e \<Rightarrow> Some (Inl e)
                  | Inr (st, args) \<Rightarrow> vsnprintf_loop ro lim (fmt + scast rd) spec st args)))"

definition spec0 :: printf_spec where
  "spec0 = \<lparr>ftype = FORMAT_TYPE_NONE, field_width = 0, flags = 0, base = 0, precision = 0\<rparr>"

definition vsnprintf :: "rodata \<Rightarrow> mem \<Rightarrow> addr \<Rightarrow> u64 \<Rightarrow> addr \<Rightarrow> u64 list \<Rightarrow> (mem \<times> u32) outcome option" where
  "vsnprintf ro m buf sz fmt args =
     map_option (\<lambda>r. obind r (\<lambda>(m, str).
         let lim = buf + sz;
             m = (if sz > 0 then (if str < lim then m(str := 0) else m(lim - 1 := 0)) else m)
         in Inr (m, ucast (str - buf))))
       (vsnprintf_loop ro (buf + sz) fmt spec0 (m, buf) args)"

definition sprintf :: "rodata \<Rightarrow> mem \<Rightarrow> addr \<Rightarrow> addr \<Rightarrow> u64 list \<Rightarrow> (mem \<times> u32) outcome option" where
  "sprintf ro m buf fmt args = vsnprintf ro m buf 0x7fffffff fmt args"

definition vscnprintf :: "rodata \<Rightarrow> mem \<Rightarrow> addr \<Rightarrow> u64 \<Rightarrow> addr \<Rightarrow> u64 list \<Rightarrow> (mem \<times> u32) outcome option" where
  "vscnprintf ro m buf sz fmt args =
     map_option (\<lambda>r. obind r (\<lambda>(m, i).
         Inr (m, if scast i < sz then i else if sz \<noteq> 0 then ucast (sz - 1) else 0)))
       (vsnprintf ro m buf sz fmt args)"

definition snprintf :: "rodata \<Rightarrow> mem \<Rightarrow> addr \<Rightarrow> u64 \<Rightarrow> addr \<Rightarrow> u64 list \<Rightarrow> (mem \<times> u32) outcome option" where
  "snprintf ro m buf sz fmt args = vsnprintf ro m buf sz fmt args"

definition scnprintf :: "rodata \<Rightarrow> mem \<Rightarrow> addr \<Rightarrow> u64 \<Rightarrow> addr \<Rightarrow> u64 list \<Rightarrow> (mem \<times> u32) outcome option" where
  "scnprintf ro m buf sz fmt args = vscnprintf ro m buf sz fmt args"

subsection \<open>Parsing numbers\<close>

definition tolower_fast :: "u8 \<Rightarrow> u8" where
  "tolower_fast c = c OR 0x20"

definition parse_integer_fixup_radix :: "mem \<Rightarrow> addr \<Rightarrow> u32 \<Rightarrow> addr \<times> u32" where
  "parse_integer_fixup_radix m s bse =
     (let bse = (if bse = 0
                 then (if m s = 48
                       then (if tolower_fast (m (s + 1)) = 120 \<and> isxdigit (m (s + 2)) then 16 else 8)
                       else 10)
                 else bse);
          s = (if bse = 16 \<and> m s = 48 \<and> tolower_fast (m (s + 1)) = 120 then s + 2 else s)
      in (s, bse))"

text \<open>The digit value of a character, or \<open>None\<close> for the \<^verbatim>\<open>break\<close>.\<close>

definition digit_val :: "u8 \<Rightarrow> u32 option" where
  "digit_val c =
     (let c = ucast c :: u32; lc = c OR 0x20
      in if 48 \<le> c \<and> c \<le> 57 then Some (c - 48)
         else if 97 \<le> lc \<and> lc \<le> 102 then Some (lc - 97 + 10)
         else None)"

partial_function (option) parse_integer_loop ::
  "mem \<Rightarrow> addr \<Rightarrow> u32 \<Rightarrow> u64 \<Rightarrow> u32 \<Rightarrow> (u64 \<times> u32) outcome option" where
  "parse_integer_loop m s bse res rv =
     (case digit_val (m s) of
        None \<Rightarrow> Some (Inr (res, rv))
      | Some val \<Rightarrow>
          (if val \<ge> bse then Some (Inr (res, rv))
           else if res AND push_bit 60 (- 1) \<noteq> 0 then Some (Inl Panic)
           else parse_integer_loop m (s + 1) bse (res * ucast bse + ucast val) (rv + 1)))"

definition parse_integer :: "mem \<Rightarrow> addr \<Rightarrow> u32 \<Rightarrow> (u64 \<times> u32) outcome option" where
  "parse_integer m s bse = parse_integer_loop m s bse 0 0"

text \<open>The result and the end pointer. \<^verbatim>\<open>KSTRTOX_OVERFLOW\<close> is bit 31.\<close>

definition simple_strtoull :: "mem \<Rightarrow> addr \<Rightarrow> u32 \<Rightarrow> (u64 \<times> addr) outcome option" where
  "simple_strtoull m cp bse =
     (let (cp, bse) = parse_integer_fixup_radix m cp bse
      in map_option (\<lambda>r. obind r (\<lambda>(result, rv).
             Inr (result, cp + ucast (rv AND NOT (push_bit 31 1)))))
           (parse_integer m cp bse))"

definition simple_strtoul :: "mem \<Rightarrow> addr \<Rightarrow> u32 \<Rightarrow> (u64 \<times> addr) outcome option" where
  "simple_strtoul m cp bse = simple_strtoull m cp bse"

section \<open>The output buffer\<close>

text \<open>\<open>blit m buf n out\<close>: memory \<open>m\<close> with the first \<open>n\<close> characters of \<open>out\<close> at \<open>buf\<close>. This is what any
  run of \<^const>\<open>emit\<close> leaves behind.\<close>

definition blit :: "mem \<Rightarrow> addr \<Rightarrow> nat \<Rightarrow> u8 list \<Rightarrow> mem" where
  "blit m buf n out =
     (\<lambda>a. if unat (a - buf) < n \<and> unat (a - buf) < length out then out ! unat (a - buf) else m a)"

lemma blit_Nil [simp]: "blit m buf n [] = m"
  by (simp add: blit_def)

lemma blit_outside: "n \<le> unat (a - buf) \<Longrightarrow> blit m buf n out a = m a"
  by (simp add: blit_def)

text \<open>A buffer of \<open>n\<close> bytes that does not wrap around the address space and has room, in the address
  space, for \<open>k\<close> characters.\<close>

definition buffer_ok :: "addr \<Rightarrow> u64 \<Rightarrow> nat \<Rightarrow> bool" where
  "buffer_ok buf sz k \<longleftrightarrow>
     unat sz < 2 ^ 63 \<and> unat buf + unat sz < 2 ^ 64 \<and> unat buf + k < 2 ^ 64"

lemma below_limit_iff:
  assumes "buffer_ok buf sz k" and "j \<le> k"
  shows "buf + of_nat j < buf + sz \<longleftrightarrow> j < unat sz"
  using assms unat_add_no_wrap [of buf j] unat_add_no_wrap [of buf "unat sz"]
  by (simp add: buffer_ok_def word_less_nat_alt)

lemma emit_blit:
  assumes ok: "buffer_ok buf sz k" and len: "length out < k"
  shows "emit (buf + sz) c (blit m buf (unat sz) out, buf + of_nat (length out))
       = (blit m buf (unat sz) (out @ [c]), buf + of_nat (length (out @ [c])))"
proof -
  have k64: "k < 2 ^ 64" using ok by (simp add: buffer_ok_def)
  have "(if buf + of_nat (length out) < buf + sz
         then (blit m buf (unat sz) out)(buf + of_nat (length out) := c)
         else blit m buf (unat sz) out) a = blit m buf (unat sz) (out @ [c]) a" for a
  proof (cases "a = buf + of_nat (length out)")
    case True
    then have "unat (a - buf) = length out" using len k64 by simp
    then show ?thesis
      using True below_limit_iff [OF ok, of "length out"] len by (simp add: blit_def)
  next
    case False
    then have "unat (a - buf) \<noteq> length out" by (metis add_of_nat_unat)
    then show ?thesis using False by (auto simp: blit_def nth_append less_Suc_eq)
  qed
  then show ?thesis by (auto simp: emit_def add.assoc)
qed

lemma fold_emit_blit:
  assumes "buffer_ok buf sz k" and "length out + length cs \<le> k"
  shows "fold (emit (buf + sz)) cs (blit m buf (unat sz) out, buf + of_nat (length out))
       = (blit m buf (unat sz) (out @ cs), buf + of_nat (length (out @ cs)))"
  using assms
proof (induction cs arbitrary: out)
  case (Cons c cs)
  then have "emit (buf + sz) c (blit m buf (unat sz) out, buf + of_nat (length out))
      = (blit m buf (unat sz) (out @ [c]), buf + of_nat (length (out @ [c])))"
    by (intro emit_blit) auto
  then show ?case using Cons.IH [of "out @ [c]"] Cons.prems by simp
qed simp

text \<open>A string that lies outside the buffer and does not reach the end of the address space.\<close>

definition outside :: "addr \<Rightarrow> u64 \<Rightarrow> addr \<Rightarrow> nat \<Rightarrow> bool" where
  "outside buf sz p n \<longleftrightarrow> unat p + n < 2 ^ 64 \<and> (\<forall>i \<le> n. sz \<le> p + of_nat i - buf)"

lemma outside_blit:
  "outside buf sz p n \<Longrightarrow> i \<le> n \<Longrightarrow> blit m buf (unat sz) out (p + of_nat i) = m (p + of_nat i)"
  by (simp add: outside_def blit_outside word_le_nat_alt)

lemma outside_drop:
  assumes "outside buf sz p n" and "k \<le> n"
  shows "outside buf sz (p + of_nat k) (n - k)"
  unfolding outside_def
proof (intro conjI allI impI)
  show "unat (p + of_nat k) + (n - k) < 2 ^ 64" using assms by (simp add: outside_def unat_add_no_wrap)
  fix i assume "i \<le> n - k"
  then have "sz \<le> p + of_nat (k + i) - buf" using assms by (simp only: outside_def)
  then show "sz \<le> p + of_nat k + of_nat i - buf" by (simp add: add.assoc)
qed

lemma outside_step: "outside buf sz p (Suc n) \<Longrightarrow> outside buf sz (p + 1) n"
  using outside_drop [of buf sz p "Suc n" 1] by simp

lemma string_loop_blit:
  assumes "cstr m s cs" and "outside buf sz s (length cs)" and "length cs < unat n"
    and "buffer_ok buf sz k" and "length out + length cs \<le> k"
  shows "string_loop (buf + sz) s n (blit m buf (unat sz) out, buf + of_nat (length out))
       = (blit m buf (unat sz) (out @ cs), buf + of_nat (length (out @ cs)))"
  using assms
proof (induction cs arbitrary: s n out)
  case Nil
  then show ?case using outside_blit [of buf sz s 0 0 m out]
    by (subst string_loop.simps) (auto simp: unat_gt_0)
next
  case (Cons c cs)
  have n: "n \<noteq> 0" using Cons.prems(3) by auto
  note n1 = unat_minus_one [OF n]
  have here: "blit m buf (unat sz) out s = c"
    using outside_blit [OF Cons.prems(2), of 0] Cons.prems(1) by simp
  have "string_loop (buf + sz) s n (blit m buf (unat sz) out, buf + of_nat (length out))
      = string_loop (buf + sz) (s + 1) (n - 1)
          (emit (buf + sz) c (blit m buf (unat sz) out, buf + of_nat (length out)))"
    using n here Cons.prems(1) by (subst string_loop.simps) simp
  also have "emit (buf + sz) c (blit m buf (unat sz) out, buf + of_nat (length out))
      = (blit m buf (unat sz) (out @ [c]), buf + of_nat (length (out @ [c])))"
    using Cons.prems(4,5) by (intro emit_blit) auto
  also have "string_loop (buf + sz) (s + 1) (n - 1) \<dots>
      = (blit m buf (unat sz) ((out @ [c]) @ cs), buf + of_nat (length ((out @ [c]) @ cs)))"
    using Cons.prems n1 by (intro Cons.IH) (auto intro: outside_step)
  finally show ?case by simp
qed

section \<open>Digits\<close>

text \<open>The positional representation, most significant digit first.\<close>

fun radix :: "nat \<Rightarrow> nat \<Rightarrow> nat list" where
  "radix b n = (if n < b \<or> b < 2 then [n] else radix b (n div b) @ [n mod b])"

declare radix.simps [simp del]

definition digit_chars :: "nat list \<Rightarrow> u8 list" where
  "digit_chars ds = map (\<lambda>d. hex_asc_upper ! d) ds"

definition radix_value :: "nat \<Rightarrow> nat list \<Rightarrow> nat" where
  "radix_value b ds = foldl (\<lambda>v d. v * b + d) 0 ds"

lemma radix_value_radix: "2 \<le> b \<Longrightarrow> radix_value b (radix b n) = n"
proof (induction b n rule: radix.induct)
  case (1 b n)
  then show ?case
  proof (cases "n < b")
    case False
    then have "radix_value b (radix b (n div b)) = n div b" using 1 by simp
    then show ?thesis using False 1(2) by (subst radix.simps) (simp add: radix_value_def)
  qed (simp add: radix.simps [of b n] radix_value_def)
qed

lemma radix_digits: "2 \<le> b \<Longrightarrow> d \<in> set (radix b n) \<Longrightarrow> d < b"
proof (induction b n rule: radix.induct)
  case (1 b n)
  then show ?case
    by (cases "n < b") (auto simp: radix.simps [of b n])
qed

lemma radix_length: "2 \<le> b \<Longrightarrow> n < b ^ k \<Longrightarrow> 0 < k \<Longrightarrow> length (radix b n) \<le> k"
proof (induction b n arbitrary: k rule: radix.induct)
  case (1 b n)
  show ?case
  proof (cases "n < b")
    case False
    obtain k' where k': "k = Suc k'" using 1(4) gr0_implies_Suc by blast
    have "k' \<noteq> 0" using 1(3) False k' by (intro notI) simp
    with k' have k: "k = Suc k'" "0 < k'" by simp_all
    have "n div b < b ^ k'" using 1(3) k by (simp add: less_mult_imp_div_less mult.commute)
    then have "length (radix b (n div b)) \<le> k'" using 1(1) False 1(2) k by simp
    then show ?thesis using False 1(2) k by (subst radix.simps) simp
  qed (use 1(4) in \<open>simp add: radix.simps [of b n]\<close>)
qed

lemma low_digit:
  fixes num :: u64
  shows "unat ((ucast num :: u8) AND 15) = unat num mod 16"
    and "unat ((ucast num :: u8) AND 7) = unat num mod 8"
proof -
  have m: "(15 :: u8) = mask 4" "(7 :: u8) = mask 3" by (simp_all add: mask_eq_exp_minus_1)
  have masked: "w AND mask k = take_bit k w" for w :: u8 and k by (simp only: take_bit_eq_mask)
  have u: "unat (ucast num :: u8) = unat num mod 2 ^ 8"
    by (simp add: unsigned_ucast_eq take_bit_eq_mod)
  show "unat ((ucast num :: u8) AND 15) = unat num mod 16" "unat ((ucast num :: u8) AND 7) = unat num mod 8"
    unfolding m masked unsigned_take_bit_eq u by (simp_all add: take_bit_eq_mod mod_mod_cancel)
qed

lemma pow2_digits_radix:
  "pow2_digits hex num = rev (digit_chars (radix (if hex then 16 else 8) (unat num)))"
proof (induction hex num rule: pow2_digits.induct)
  case (1 hex num)
  let ?b = "if hex then 16 else 8 :: nat"
  define num' where "num' = drop_bit (if hex then 4 else 3) num"
  have u: "unat num' = unat num div ?b" by (simp only: num'_def unat_drop_bit_eq) (simp add: drop_bit_eq_div)
  have low: "unat ((ucast num :: u8) AND (if hex then 15 else 7)) = unat num mod ?b"
    by (simp add: low_digit)
  have z: "num' = 0 \<longleftrightarrow> unat num < ?b" using u unat_eq_zero [of num'] by (auto simp: div_eq_0_iff)
  show ?case
  proof (cases "num' = 0")
    case True
    then show ?thesis using z low
      by (subst pow2_digits.simps, subst radix.simps) (simp add: num'_def [symmetric] Let_def digit_chars_def)
  next
    case False
    then have "pow2_digits hex num' = rev (digit_chars (radix ?b (unat num div ?b)))"
      using 1 [of num'] by (simp add: num'_def [symmetric] u)
    then show ?thesis using z low False
      by (subst pow2_digits.simps, subst radix.simps) (simp add: num'_def [symmetric] Let_def digit_chars_def)
  qed
qed

lemma dec_digits_radix: "dec_digits num = rev (digit_chars (radix 10 (unat num)))"
proof (induction num rule: dec_digits.induct)
  case (1 num)
  have u: "unat (num div 10) = unat num div 10" "unat (num mod 10) = unat num mod 10"
    by (simp_all add: unat_div unat_mod)
  have z: "num div 10 = 0 \<longleftrightarrow> unat num < 10" using u(1) unat_eq_zero [of "num div 10"] by (auto simp: div_eq_0_iff)
  show ?case
    using 1 u z by (subst dec_digits.simps, subst radix.simps) (auto simp: Let_def digit_chars_def)
qed

lemma radix_length_u64:
  assumes "8 \<le> b"
  shows "length (radix b (unat (num :: u64))) \<le> 22"
proof -
  have "(2 :: nat) ^ 64 \<le> 8 ^ 22" by simp
  also have "\<dots> \<le> b ^ 22" using assms by (rule power_mono) simp
  finally have "unat num < b ^ 22" using unat_u64_less [of num] by linarith
  then show ?thesis using assms by (intro radix_length) simp_all
qed

lemma hex_asc_upper_nonzero: "d < 16 \<Longrightarrow> hex_asc_upper ! d \<noteq> 0"
proof -
  have "\<forall>x \<in> set hex_asc_upper. x \<noteq> 0" "length hex_asc_upper = 16" by (simp_all add: hex_asc_upper_def)
  then show "d < 16 \<Longrightarrow> hex_asc_upper ! d \<noteq> 0" by (metis nth_mem)
qed

lemma put_tmp_radix:
  assumes "8 \<le> b"
  shows "put_tmp lim (rev (digit_chars (radix b (unat num)))) st
       = Inr (fold (emit lim) (digit_chars (radix b (unat (num :: u64)))) st)"
  using radix_length_u64 [OF assms, of num] by (simp add: put_tmp_def digit_chars_def)

text \<open>The text of a number: what \<^verbatim>\<open>number\<close> prints, a minus sign only for a signed decimal.\<close>

definition num_text :: "bool \<Rightarrow> nat \<Rightarrow> u64 \<Rightarrow> u8 list" where
  "num_text sg b num =
     (if b = 10 \<and> sg \<and> sint num < 0 then 45 # digit_chars (radix 10 (unat (- num)))
      else digit_chars (radix b (unat num)))"

lemma number_text:
  assumes "base spec \<in> {8, 10, 16}"
  shows "number lim num spec st
       = Inr (fold (emit lim) (num_text (flags spec AND SIGN \<noteq> 0) (base spec) num) st)"
  using assms
  by (auto simp: number_def num_text_def pow2_digits_radix dec_digits_radix put_tmp_radix Let_def)

section \<open>What a format string prints\<close>

text \<open>The specification of \<^verbatim>\<open>vsnprintf\<close>: the characters a format string stands for, one format
  character at a time and without any buffer. \<open>txt p\<close> is the string at the pointer \<open>p\<close>. The flag \<open>sg\<close>
  says that a signed conversion has occurred: the code never clears \<^verbatim>\<open>SIGN\<close> again. \<open>None\<close> stands for a
  format the code rejects with \<^verbatim>\<open>BUG_ON\<close> or for missing arguments.\<close>

fun conv_char :: "u8 list \<Rightarrow> (bool \<times> u8 \<times> u8 list) option" where
  "conv_char [] = None"
| "conv_char (c # fs) =
     (if c = 108 then (case fs of [] \<Rightarrow> None | k # rest \<Rightarrow> Some (True, k, rest))
      else Some (False, c, fs))"

lemma conv_char_shorter: "conv_char fs = Some (l, k, rest) \<Longrightarrow> length rest < length fs"
  by (cases fs) (auto split: if_splits list.splits)

definition str_text :: "(addr \<Rightarrow> u8 list option) \<Rightarrow> addr \<Rightarrow> u8 list option" where
  "str_text txt p =
     (if p = 0 then Some [40, 110, 117, 108, 108, 41]
      else if p < 4096 \<or> IS_ERR_VALUE p then Some [40, 101, 102, 97, 117, 108, 116, 41]
      else txt p)"

text \<open>The number a conversion takes from its argument slot: all of it with \<open>l\<close>, and its low half
  extended by sign or by zeros without.\<close>

definition arg_num :: "bool \<Rightarrow> bool \<Rightarrow> u64 \<Rightarrow> u64" where
  "arg_num l sg arg =
     (if l then arg else if sg then scast (ucast arg :: u32) else ucast (ucast arg :: u32))"

definition conv_text ::
  "(addr \<Rightarrow> u8 list option) \<Rightarrow> bool \<Rightarrow> bool \<Rightarrow> u8 \<Rightarrow> u64 \<Rightarrow> (u8 list \<times> bool) option" where
  "conv_text txt sg l k arg =
     (let sg' = (sg \<or> k = 100 \<or> k = 105); num = arg_num l sg' arg
      in if k = 99 then Some ([ucast arg], sg)
         else if k = 115 then map_option (\<lambda>t. (t, sg)) (str_text txt arg)
         else if k = 112 then Some (num_text sg 16 arg, sg)
         else if k = 111 then Some (num_text sg 8 num, sg)
         else if k = 88 \<or> k = 120 then Some (num_text sg 16 num, sg)
         else if k = 100 \<or> k = 105 \<or> k = 117 then Some (num_text sg' 10 num, sg')
         else None)"

function render :: "(addr \<Rightarrow> u8 list option) \<Rightarrow> bool \<Rightarrow> u8 list \<Rightarrow> u64 list \<Rightarrow> u8 list option" where
  "render txt sg [] args = Some []"
| "render txt sg (c # fs) args =
     (if c \<noteq> 37 then map_option (Cons c) (render txt sg fs args)
      else case conv_char fs of
             None \<Rightarrow> None
           | Some (l, k, rest) \<Rightarrow>
               (case args of
                  [] \<Rightarrow> None
                | arg # args' \<Rightarrow>
                    (case conv_text txt sg l k arg of
                       None \<Rightarrow> None
                     | Some (t, sg') \<Rightarrow> map_option (append t) (render txt sg' rest args'))))"
  by pat_completeness auto
termination
  by (relation "measure (\<lambda>(txt, sg, fs, args). length fs)") (auto dest: conv_char_shorter)

text \<open>The strings the call may read lie outside the buffer and are where \<open>txt\<close> and \<open>ro\<close> say.\<close>

definition strings_ok :: "rodata \<Rightarrow> mem \<Rightarrow> addr \<Rightarrow> u64 \<Rightarrow> (addr \<Rightarrow> u8 list option) \<Rightarrow> bool" where
  "strings_ok ro m buf sz txt \<longleftrightarrow>
     (let fine = (\<lambda>p t. cstr m p t \<and> outside buf sz p (length t) \<and> length t < 2 ^ 32 - 1)
      in fine (null_msg ro) [40, 110, 117, 108, 108, 41]
       \<and> fine (efault_msg ro) [40, 101, 102, 97, 117, 108, 116, 41]
       \<and> (\<forall>p t. txt p = Some t \<longrightarrow> fine p t))"

lemma string_conv_blit:
  assumes ok: "strings_ok ro m buf sz txt" and tx: "str_text txt p = Some t"
    and prec: "precision spec = - 1" and buf: "buffer_ok buf sz k" "length out + length t \<le> k"
  shows "string_conv ro (buf + sz) p spec (blit m buf (unat sz) out, buf + of_nat (length out))
       = (blit m buf (unat sz) (out @ t), buf + of_nat (length (out @ t)))"
proof -
  define q where "q = (case check_pointer_msg ro p of Some e \<Rightarrow> e | None \<Rightarrow> p)"
  have "cstr m q t" "outside buf sz q (length t)" "length t < 2 ^ 32 - 1"
    using ok tx by (auto simp: strings_ok_def q_def check_pointer_msg_def str_text_def Let_def split: if_splits)
  moreover have "unat (- 1 :: u32) = 2 ^ 32 - 1"
    by (simp add: unsigned_minus_1_eq_mask mask_eq_exp_minus_1)
  ultimately have "string_nocheck (buf + sz) q spec (blit m buf (unat sz) out, buf + of_nat (length out))
      = (blit m buf (unat sz) (out @ t), buf + of_nat (length (out @ t)))"
    using buf unfolding string_nocheck_def prec by (intro string_loop_blit) auto
  then show ?thesis
    by (auto simp: string_conv_def check_pointer_def q_def split: option.splits)
qed

lemma flags_sign: "(f OR SIGN) AND SIGN \<noteq> (0 :: u8)"
proof
  assume "(f OR SIGN) AND SIGN = 0"
  then have "bit ((f OR SIGN) AND SIGN) 0 = bit (0 :: u8) 0" by simp
  then show False by (simp add: bit_and_iff bit_or_iff SIGN_def)
qed

lemma format_number:
  assumes "ftype spec = (if l then FORMAT_TYPE_ULONG else if sg then FORMAT_TYPE_INT else FORMAT_TYPE_UINT)"
    and "base spec \<in> {8, 10, 16}" and "(flags spec AND SIGN \<noteq> 0) = sg"
  shows "format_item ro lim old fmt rd spec st (arg # args)
     = Inr (fold (emit lim) (num_text sg (base spec) (arg_num l sg arg)) st, args)"
  using assms by (cases l; cases sg) (simp_all add: format_item_def number_text arg_num_def)

lemma conv_text_cases:
  assumes "conv_text txt sg l k arg = Some (t, sg')"
  obtains (char) "k = 99" "t = [ucast arg]" "sg' = sg"
  | (str) "k = 115" "str_text txt arg = Some t" "sg' = sg"
  | (ptr) "k = 112" "t = num_text sg 16 arg" "sg' = sg"
  | (num) b where
      "k = 111 \<and> b = 8 \<or> (k = 88 \<or> k = 120) \<and> b = 16 \<or> (k = 100 \<or> k = 105 \<or> k = 117) \<and> b = 10"
      "sg' = (sg \<or> k = 100 \<or> k = 105)"
      "t = num_text sg' b (arg_num l sg' arg)"
proof -
  consider "k = 99" | "k = 115" | "k = 112" | "k = 111" | "k = 88 \<or> k = 120" | "k = 100 \<or> k = 105 \<or> k = 117"
    using assms unfolding conv_text_def Let_def by (metis option.distinct(1))
  then show thesis
  proof cases
    case 1
    then show thesis using assms by (intro char) (auto simp: conv_text_def)
  next
    case 2
    then show thesis using assms by (intro str) (auto simp: conv_text_def)
  next
    case 3
    then show thesis using assms by (intro ptr) (auto simp: conv_text_def)
  next
    case 4
    then show thesis using assms by (intro num [of 8]) (auto simp: conv_text_def)
  next
    case 5
    then show thesis using assms by (intro num [of 16]) (auto simp: conv_text_def)
  next
    case 6
    then show thesis using assms by (intro num [of 10]) (auto simp: conv_text_def)
  qed
qed

lemma conversion_number:
  assumes "base spec = 10"
    and "k = 111 \<and> b = 8 \<or> (k = 88 \<or> k = 120) \<and> b = 16 \<or> (k = 100 \<or> k = 105 \<or> k = 117) \<and> b = 10"
  shows "\<exists>spec'. conversion k l spec = Inr spec' \<and> base spec' = b
     \<and> (flags spec' AND SIGN \<noteq> 0) = (flags spec AND SIGN \<noteq> 0 \<or> k = 100 \<or> k = 105)
     \<and> ftype spec' = (if l then FORMAT_TYPE_ULONG
                      else if flags spec AND SIGN \<noteq> 0 \<or> k = 100 \<or> k = 105 then FORMAT_TYPE_INT
                      else FORMAT_TYPE_UINT)"
  using assms(2) flags_sign [of "flags spec"] assms(1)
  by (elim disjE conjE) (simp_all add: conversion_def)

text \<open>One conversion: decoding its character and formatting its argument appends exactly the text
  the specification gives.\<close>

lemma conversion_item:
  assumes ok: "strings_ok ro m buf sz txt"
    and conv: "conv_text txt (flags spec AND SIGN \<noteq> 0) l k arg = Some (t, sg')"
    and spec: "precision spec = - 1" "base spec = 10"
    and buf: "buffer_ok buf sz n" "length out + length t \<le> n"
  shows "\<exists>spec'. conversion k l spec = Inr spec' \<and> (flags spec' AND SIGN \<noteq> 0) = sg'
     \<and> format_item ro (buf + sz) old fmt rd spec'
          (blit m buf (unat sz) out, buf + of_nat (length out)) (arg # args)
        = Inr ((blit m buf (unat sz) (out @ t), buf + of_nat (length (out @ t))), args)"
proof -
  let ?st = "(blit m buf (unat sz) out, buf + of_nat (length out))"
  let ?st' = "(blit m buf (unat sz) (out @ t), buf + of_nat (length (out @ t)))"
  have fold: "fold (emit (buf + sz)) t ?st = ?st'" by (rule fold_emit_blit [OF buf])
  have str_item: "string_conv ro (buf + sz) arg (spec\<lparr>ftype := FORMAT_TYPE_STR\<rparr>) ?st = ?st'"
    if "str_text txt arg = Some t"
    using spec by (intro string_conv_blit [OF ok that _ buf]) simp
  have num_conv: ?thesis
    if "conversion k l spec = Inr spec'" "base spec' = b" "b \<in> {8, 10, 16}" "(flags spec' AND SIGN \<noteq> 0) = sg'"
      "ftype spec' = (if l then FORMAT_TYPE_ULONG else if sg' then FORMAT_TYPE_INT else FORMAT_TYPE_UINT)"
      "t = num_text sg' b (arg_num l sg' arg)"
    for spec' b
    using that format_number [of spec' l sg' ro "buf + sz" old fmt rd ?st arg args] fold by simp
  show ?thesis
    using conv
  proof (cases rule: conv_text_cases)
    case char
    then show ?thesis using fold by (simp add: conversion_def format_item_def)
  next
    case str
    then show ?thesis using str_item by (simp add: conversion_def format_item_def)
  next
    case ptr
    then show ?thesis using fold
      by (simp add: conversion_def format_item_def number_text pointer_def ptr_to_id_def
          pointer_string_def num_text_def)
  next
    case (num b)
    then obtain spec' where "conversion k l spec = Inr spec'" "base spec' = b" "(flags spec' AND SIGN \<noteq> 0) = sg'"
      "ftype spec' = (if l then FORMAT_TYPE_ULONG else if sg' then FORMAT_TYPE_INT else FORMAT_TYPE_UINT)"
      using conversion_number [OF spec(2) num(1), of l] by blast
    then show ?thesis using num by (intro num_conv [of spec' b]) auto
  qed
qed

section \<open>The formatting loop\<close>

lemma scan_percent_cstr:
  "cstr m f fs \<Longrightarrow> scan_percent m f = Some (f + of_nat (length (takeWhile (\<lambda>c. c \<noteq> 37) fs)))"
proof (induction fs arbitrary: f)
  case Nil
  then show ?case by (subst scan_percent.simps) simp
next
  case (Cons c fs)
  then show ?case by (subst scan_percent.simps) (auto simp: add.assoc)
qed

lemma sint_of_nat_small:
  assumes "n < 2 ^ 63"
  shows "sint (of_nat n :: u64) = int n"
proof -
  have "uint (of_nat n :: u64) = int n" using assms by (simp add: unsigned_of_nat take_bit_nat_eq_self)
  then show ?thesis using assms by (simp add: sint_uint signed_take_bit_int_eq_self)
qed

lemma read_count:
  assumes "n < 2 ^ 31"
  shows "scast (ucast (of_nat n :: u64) :: u32) = (of_nat n :: u64)"
proof -
  have "uint (ucast (of_nat n :: u64) :: u32) = int n"
    using assms by (simp add: unsigned_ucast_eq unsigned_of_nat take_bit_nat_eq_self take_bit_int_eq_self)
  then have "sint (ucast (of_nat n :: u64) :: u32) = int n"
    using assms by (simp add: sint_uint signed_take_bit_int_eq_self)
  then show ?thesis by (metis of_int_of_nat_eq of_int_sint)
qed

lemma copy_area_blit:
  assumes ok: "buffer_ok buf sz k" and room: "length out < unat sz"
    and lit: "\<And>i. i < length lit \<Longrightarrow> m (f + of_nat i) = lit ! i" and out: "outside buf sz f (length lit)"
  shows "copy_area (blit m buf (unat sz) out) (buf + of_nat (length out)) f
           (of_nat (min (length lit) (unat sz - length out)))
       = blit m buf (unat sz) (out @ lit)"
proof
  fix a
  define d c where "d = unat (a - buf)" and "c = min (length lit) (unat sz - length out)"
  have sz: "unat sz < 2 ^ 63" using ok by (simp add: buffer_ok_def)
  have d64: "d < 2 ^ 64" and a: "a - buf = of_nat d" using unat_u64_less [of "a - buf"] by (simp_all add: d_def)
  have c: "c < 2 ^ 63" "unat (of_nat c :: u64) = c" using sz room by (auto simp: c_def intro!: unat_of_nat64)
  have off: "a - (buf + of_nat (length out)) = of_nat d - of_nat (length out)" by (simp add: a [symmetric])
  show "copy_area (blit m buf (unat sz) out) (buf + of_nat (length out)) f (of_nat c) a
      = blit m buf (unat sz) (out @ lit) a"
  proof (cases "d < length out")
    case True
    have "of_nat d - of_nat (length out) = (of_nat (2 ^ 64 - (length out - d)) :: u64)"
      using True sz room of_nat64_wrap by (simp add: of_nat_diff)
    then have "unat (a - (buf + of_nat (length out))) = 2 ^ 64 - (length out - d)"
      unfolding off using True by (simp only:) (rule unat_of_nat64, simp)
    then have "\<not> a - (buf + of_nat (length out)) < of_nat c"
      using c room sz by (simp add: word_less_nat_alt)
    then show ?thesis using True by (simp add: copy_area_def blit_def d_def nth_append)
  next
    case False
    then have off': "a - (buf + of_nat (length out)) = of_nat (d - length out)"
      unfolding off by (simp add: of_nat_diff)
    have lt: "a - (buf + of_nat (length out)) < of_nat c \<longleftrightarrow> d - length out < c"
      unfolding off' using c d64 by (simp add: word_less_nat_alt del: of_nat_diff)
    have hit: "d - length out < c \<longleftrightarrow> d < unat sz \<and> d < length (out @ lit)" using False by (auto simp: c_def)
    show ?thesis
    proof (cases "d - length out < c")
      case True
      then have "copy_area (blit m buf (unat sz) out) (buf + of_nat (length out)) f (of_nat c) a
          = blit m buf (unat sz) out (f + of_nat (d - length out))"
        using lt by (simp only: copy_area_def if_True off')
      also have "\<dots> = lit ! (d - length out)"
        using True outside_blit [OF out, of "d - length out"] lit [of "d - length out"] by (simp add: c_def del: of_nat_diff)
      finally show ?thesis using True hit False by (simp add: blit_def nth_append d_def [symmetric])
    next
      case no: False
      then show ?thesis using lt hit False by (auto simp: copy_area_def blit_def d_def [symmetric])
    qed
  qed
qed

lemma memcpy_blit:
  assumes ok: "buffer_ok buf sz k" and room: "length out < unat sz"
    and lit: "\<And>i. i < length lit \<Longrightarrow> m (f + of_nat i) = lit ! i" and out: "outside buf sz f (length lit)"
  shows "memcpy (blit m buf (unat sz) out) (buf + of_nat (length out)) f
           (of_nat (min (length lit) (unat sz - length out)))
       = blit m buf (unat sz) (out @ lit)"
proof -
  define c where "c = min (length lit) (unat sz - length out)"
  have sz: "unat sz < 2 ^ 63" using ok by (simp add: buffer_ok_def)
  have c: "unat (of_nat c :: u64) = c" "c \<le> length lit" using sz by (auto simp: c_def intro!: unat_of_nat64)
  let ?e = "buf + of_nat (length out) - f"
  have "c \<le> unat ?e"
  proof (rule ccontr)
    assume "\<not> c \<le> unat ?e"
    then have "sz \<le> f + of_nat (unat ?e) - buf" using out c(2) by (simp only: outside_def)
    then show False using room sz by (simp add: word_le_nat_alt)
  qed
  moreover have "unat f + c < 2 ^ 64" using out c(2) by (simp add: outside_def)
  ultimately have "memcpy (blit m buf (unat sz) out) (buf + of_nat (length out)) f (of_nat c)
      = copy_area (blit m buf (unat sz) out) (buf + of_nat (length out)) f (of_nat c)"
    by (intro memcpy_area) (simp_all add: word_le_nat_alt c(1))
  then show ?thesis using copy_area_blit [OF ok room lit out] by (simp add: c_def)
qed

lemma render_literal:
  "37 \<notin> set lit \<Longrightarrow> render txt sg (lit @ rest) args = map_option (append lit) (render txt sg rest args)"
  by (induction lit) (cases "render txt sg rest args"; auto)+

lemma cstr_blit:
  assumes "cstr m p cs" and "outside buf sz p (length cs)"
  shows "cstr (blit m buf (unat sz) out) p cs"
  using assms outside_blit [OF assms(2)] by (simp add: cstr_iff)

text \<open>A literal chunk: \<^verbatim>\<open>format_decode\<close> stops before the next percent sign and the chunk is copied.\<close>

lemma literal_item:
  assumes str: "cstr m f (lit @ rest)" "outside buf sz f (length (lit @ rest))" "length lit < 2 ^ 31"
    and lit: "lit \<noteq> []" "37 \<notin> set lit" "rest = [] \<or> hd rest = 37"
    and ok: "buffer_ok buf sz k"
  shows "format_decode (blit m buf (unat sz) out) f spec
       = Some (Inr (ucast (of_nat (length lit) :: u64), spec\<lparr>ftype := FORMAT_TYPE_NONE\<rparr>))"
    and "length out + length lit \<le> k \<Longrightarrow>
      format_item ro (buf + sz) f fmt (ucast (of_nat (length lit) :: u64))
         (spec\<lparr>ftype := FORMAT_TYPE_NONE\<rparr>) (blit m buf (unat sz) out, buf + of_nat (length out)) args
       = Inr ((blit m buf (unat sz) (out @ lit), buf + of_nat (length (out @ lit))), args)"
proof -
  have no: "x \<noteq> 37" if "x \<in> set lit" for x using lit(2) that by blast
  have "takeWhile (\<lambda>c. c \<noteq> 37) (lit @ rest) = lit"
    using lit(3) no by (cases rest) (auto simp: takeWhile_append2 [where P = "\<lambda>c. c \<noteq> 37"])
  then have scan: "scan_percent (blit m buf (unat sz) out) f = Some (f + of_nat (length lit))"
    using scan_percent_cstr [OF cstr_blit [OF str(1,2)]] by simp
  have "(of_nat (length lit) :: u64) \<noteq> of_nat 0"
    using lit(1) str(3) by (subst of_nat64_inj) simp_all
  then show "format_decode (blit m buf (unat sz) out) f spec
      = Some (Inr (ucast (of_nat (length lit) :: u64), spec\<lparr>ftype := FORMAT_TYPE_NONE\<rparr>))"
    using scan by (simp add: format_decode_def Let_def)
  assume len: "length out + length lit \<le> k"
  have out: "outside buf sz f (length lit)" using str(2) by (auto simp: outside_def)
  have chars: "m (f + of_nat i) = lit ! i" if "i < length lit" for i
    using cstr_nth [OF str(1), of i] that by (simp add: nth_append)
  have sz: "unat sz < 2 ^ 63" using ok by (simp add: buffer_ok_def)
  let ?str = "buf + of_nat (length out)" and ?n = "of_nat (length lit) :: u64"
  have below: "?str < buf + sz \<longleftrightarrow> length out < unat sz" using len by (intro below_limit_iff [OF ok]) simp
  have copy: "(if sint (buf + sz - ?str) < sint ?n then buf + sz - ?str else ?n)
      = of_nat (min (length lit) (unat sz - length out))" if "length out < unat sz"
  proof -
    have e: "buf + sz - ?str = of_nat (unat sz - length out)" using that by (simp add: of_nat_diff)
    have "sint (buf + sz - ?str) = int (unat sz - length out)"
      unfolding e using sz by (intro sint_of_nat_small) simp
    moreover have "sint ?n = int (length lit)" using str(3) by (intro sint_of_nat_small) simp
    ultimately show ?thesis using e by (auto simp: min_def)
  qed
  have "(if ?str < buf + sz
      then memcpy (blit m buf (unat sz) out) ?str f
             (if sint ?n > sint (buf + sz - ?str) then buf + sz - ?str else ?n)
      else blit m buf (unat sz) out) = blit m buf (unat sz) (out @ lit)"
  proof (cases "length out < unat sz")
    case True
    then show ?thesis using below copy memcpy_blit [OF ok True chars out] by simp
  next
    case False
    then show ?thesis using below by (auto simp: blit_def nth_append)
  qed
  then show "format_item ro (buf + sz) f fmt (ucast ?n) (spec\<lparr>ftype := FORMAT_TYPE_NONE\<rparr>)
      (blit m buf (unat sz) out, ?str) args
      = Inr ((blit m buf (unat sz) (out @ lit), buf + of_nat (length (out @ lit))), args)"
    using str(3) by (simp add: format_item_def read_count Let_def add.assoc)
qed

text \<open>A conversion: \<^verbatim>\<open>format_decode\<close> reads the percent sign, an optional \<open>l\<close> and the conversion
  character.\<close>

lemma decode_conversion:
  assumes str: "cstr M f (37 # fs)" and conv: "conv_char fs = Some (l, k, rest)"
    and n: "n = (if l then 3 else 2)"
  shows "format_decode M f spec = Some (obind (conversion k l
           (spec\<lparr>ftype := FORMAT_TYPE_NONE, precision := - 1, base := 10\<rparr>)) (\<lambda>spec. Inr (n, spec)))"
    and "cstr M (f + scast n) rest" and "length (37 # fs) = unat n + length rest"
proof -
  have scan: "scan_percent M f = Some f" using scan_percent_cstr [OF str] by simp
  obtain c fs' where fs: "fs = c # fs'" using conv by (cases fs) auto
  show "format_decode M f spec = Some (obind (conversion k l
           (spec\<lparr>ftype := FORMAT_TYPE_NONE, precision := - 1, base := 10\<rparr>)) (\<lambda>spec. Inr (n, spec)))"
    "cstr M (f + scast n) rest" "length (37 # fs) = unat n + length rest"
    using conv str scan n fs
    by (auto simp: format_decode_def Let_def add.assoc split: if_splits list.splits)
qed

lemma vsnprintf_loop_render:
  assumes ok: "strings_ok ro m buf sz txt" "buffer_ok buf sz k"
    and "cstr m f fs" "outside buf sz f (length fs)" "length fs < 2 ^ 31"
    and "render txt (flags spec AND SIGN \<noteq> 0) fs args = Some txts" "length out + length txts \<le> k"
  shows "vsnprintf_loop ro (buf + sz) f spec (blit m buf (unat sz) out, buf + of_nat (length out)) args
       = Some (Inr (blit m buf (unat sz) (out @ txts), buf + of_nat (length (out @ txts))))"
  using assms(3-)
proof (induction fs arbitrary: f spec args txts out rule: length_induct)
  case (1 fs)
  let ?M = "blit m buf (unat sz) out" and ?str = "buf + of_nat (length out)"
  have M: "cstr ?M f fs" by (rule cstr_blit [OF 1(2,3)])
  define lit rest where "lit = takeWhile (\<lambda>c. c \<noteq> 37) fs" and "rest = dropWhile (\<lambda>c. c \<noteq> 37) fs"
  have fs: "fs = lit @ rest" by (simp add: lit_def rest_def)
  have lit: "37 \<notin> set lit" "rest = [] \<or> hd rest = 37"
    using hd_dropWhile [of "\<lambda>c. c \<noteq> 37" fs] by (auto simp: lit_def rest_def dest: set_takeWhileD)
  consider "fs = []" | "lit \<noteq> []" | fs' where "fs = 37 # fs'"
    using fs lit(2) by (cases rest) auto
  then show ?case
  proof cases
    case 1
    then show ?thesis using 1 M \<open>render _ _ fs args = _\<close> by (subst vsnprintf_loop.simps) simp
  next
    case 2
    have nz: "?M f \<noteq> 0" using M fs 2 by (cases lit) auto
    obtain txts' where txts': "render txt (flags spec AND SIGN \<noteq> 0) rest args = Some txts'" "txts = lit @ txts'"
      using 1(5) lit(1) unfolding fs by (auto simp: render_literal)
    have len: "length lit < 2 ^ 31" using 1(4) fs by simp
    note item = literal_item [OF 1(2,3) [unfolded fs] len 2 lit ok(2)]
    have "vsnprintf_loop ro (buf + sz) f spec (?M, ?str) args
        = vsnprintf_loop ro (buf + sz) (f + of_nat (length lit)) (spec\<lparr>ftype := FORMAT_TYPE_NONE\<rparr>)
            (blit m buf (unat sz) (out @ lit), buf + of_nat (length (out @ lit))) args"
      using nz item 1(6) txts'(2) by (subst vsnprintf_loop.simps) (simp add: read_count [OF len])
    also have "\<dots> = Some (Inr (blit m buf (unat sz) ((out @ lit) @ txts'), buf + of_nat (length ((out @ lit) @ txts'))))"
      using 1(2-6) 2 txts' fs outside_drop [OF 1(3), of "length lit"] cstr_suffix [of m f lit rest]
      by (intro 1(1) [rule_format]) auto
    finally show ?thesis by (simp add: txts'(2))
  next
    case 3
    obtain l c rst arg args' t sg' txts' where
      conv: "conv_char fs' = Some (l, c, rst)" and args: "args = arg # args'"
      and t: "conv_text txt (flags spec AND SIGN \<noteq> 0) l c arg = Some (t, sg')"
      and rst: "render txt sg' rst args' = Some txts'" and txts: "txts = t @ txts'"
      using 1(5) 3 by (auto split: option.splits list.splits prod.splits)
    define n where "n = (if l then 3 else 2 :: u32)"
    note dec = decode_conversion [OF M [unfolded 3] conv n_def]
      and pos = decode_conversion(2,3) [OF 1(2) [unfolded 3] conv n_def]
    have n: "scast n = (of_nat (unat n) :: u64)" by (simp add: n_def)
    obtain spec' where spec': "conversion c l (spec\<lparr>ftype := FORMAT_TYPE_NONE, precision := - 1, base := 10\<rparr>) = Inr spec'"
        "(flags spec' AND SIGN \<noteq> 0) = sg'"
        "format_item ro (buf + sz) f (f + scast n) n spec' (?M, ?str) args
          = Inr ((blit m buf (unat sz) (out @ t), buf + of_nat (length (out @ t))), args')"
      using conversion_item [OF ok(1), where spec = "spec\<lparr>ftype := FORMAT_TYPE_NONE, precision := - 1, base := 10\<rparr>"
          and l = l and k = c and arg = arg and t = t and sg' = sg', OF _ _ _ ok(2)] t 1(6) txts args by force
    have "?M f \<noteq> 0" using M 3 by auto
    then have "vsnprintf_loop ro (buf + sz) f spec (?M, ?str) args
        = vsnprintf_loop ro (buf + sz) (f + scast n) spec'
            (blit m buf (unat sz) (out @ t), buf + of_nat (length (out @ t))) args'"
      using dec(1) spec' by (subst vsnprintf_loop.simps) simp
    also have "\<dots> = Some (Inr (blit m buf (unat sz) ((out @ t) @ txts'), buf + of_nat (length ((out @ t) @ txts'))))"
      using 1(3-6) 3 pos rst spec'(2) txts outside_drop [OF 1(3), of "unat n"]
      by (intro 1(1) [rule_format]) (auto simp: n_def)
    finally show ?thesis by (simp add: txts)
  qed
qed

lemma outside_above:
  assumes "unat buf + unat sz \<le> unat p" and "unat p + n < 2 ^ 64"
  shows "outside buf sz p n"
  unfolding outside_def
proof (intro conjI allI impI)
  show "unat p + n < 2 ^ 64" by (rule assms(2))
  fix i assume i: "i \<le> n"
  then have u: "unat (p + of_nat i) = unat p + i" using assms(2) by (intro unat_add_no_wrap) simp
  then have "unat (p + of_nat i - buf) = unat p + i - unat buf"
    using assms(1) by (subst unat_sub) (auto simp: word_le_nat_alt)
  then show "sz \<le> p + of_nat i - buf" using assms(1) by (simp add: word_le_nat_alt)
qed

text \<open>The terminating NUL: after the text when it fits, in the last byte of the buffer otherwise.\<close>

lemma blit_terminate:
  assumes ok: "buffer_ok buf sz (length out + 1)" and sz: "0 < unat sz"
  shows "(let str = buf + of_nat (length out); lim = buf + sz; m' = blit m buf (unat sz) out
          in if str < lim then m'(str := 0) else m'(lim - 1 := 0))
       = blit m buf (unat sz) (take (unat sz - 1) out @ [0])"
proof (cases "length out < unat sz")
  case True
  then have "(blit m buf (unat sz) out)(buf + of_nat (length out) := 0) = blit m buf (unat sz) (out @ [0])"
    using emit_blit [OF ok, of out 0 m] below_limit_iff [OF ok, of "length out"] by (simp add: emit_def)
  then show ?thesis using True below_limit_iff [OF ok, of "length out"] by (simp add: Let_def)
next
  case False
  have last: "buf + sz - 1 = buf + of_nat (unat sz - 1)" using sz by (simp add: of_nat_diff algebra_simps)
  have "((blit m buf (unat sz) out)(buf + of_nat (unat sz - 1) := 0)) a
      = blit m buf (unat sz) (take (unat sz - 1) out @ [0]) a" for a
  proof (cases "a = buf + of_nat (unat sz - 1)")
    case True
    then have "unat (a - buf) = unat sz - 1" using unat_u64_less [of sz] by (simp del: of_nat_diff)
    then show ?thesis using True False sz by (simp add: blit_def nth_append del: of_nat_diff)
  next
    case ne: False
    then have "unat (a - buf) \<noteq> unat sz - 1" by (metis add_of_nat_unat)
    then show ?thesis using ne False sz by (auto simp: blit_def nth_append less_Suc_eq)
  qed
  then have "(blit m buf (unat sz) out)(buf + sz - 1 := 0) = blit m buf (unat sz) (take (unat sz - 1) out @ [0])"
    unfolding last by blast
  then show ?thesis using False below_limit_iff [OF ok, of "length out"] by (simp add: Let_def)
qed

section \<open>Parsing what was printed\<close>

lemma digit_val_hex: "d < 16 \<Longrightarrow> digit_val (hex_asc_upper ! d) = Some (of_nat d)"
proof -
  assume "d < 16"
  moreover have "\<forall>d \<in> set [0..<16]. digit_val (hex_asc_upper ! d) = Some (of_nat d)" by code_simp
  ultimately show ?thesis by simp
qed

lemma high_bits_iff: "(w :: u64) AND push_bit 60 (- 1) = 0 \<longleftrightarrow> unat w < 2 ^ 60"
proof -
  have "drop_bit 60 w = 0 \<longleftrightarrow> (\<forall>i \<ge> 60. \<not> bit w i)"
  proof
    show "\<forall>i \<ge> 60. \<not> bit w i" if "drop_bit 60 w = 0"
    proof (intro allI impI)
      fix i :: nat assume "60 \<le> i"
      then have "bit w i = bit (drop_bit 60 w) (i - 60)" by (simp add: bit_drop_bit_eq)
      then show "\<not> bit w i" using that by simp
    qed
    show "drop_bit 60 w = 0" if "\<forall>i \<ge> 60. \<not> bit w i"
      using that by (intro bit_word_eqI) (simp add: bit_drop_bit_eq)
  qed
  then have "w AND push_bit 60 (- 1) = 0 \<longleftrightarrow> drop_bit 60 w = 0"
    by (simp only: and_high_eq_0_iff)
  also have "\<dots> \<longleftrightarrow> unat (drop_bit 60 w) = 0" by (simp add: unat_eq_zero)
  also have "\<dots> \<longleftrightarrow> unat w < 2 ^ 60" by (simp only: unat_drop_bit_eq) (simp add: drop_bit_eq_div div_eq_0_iff)
  finally show ?thesis .
qed

lemma foldl_digits_mono: "1 \<le> b \<Longrightarrow> v \<le> foldl (\<lambda>v d. v * b + d) v ds" for b v :: nat
proof (induction ds arbitrary: v)
  case (Cons d ds)
  have "v \<le> v * b" using Cons.prems by (cases b) simp_all
  then have "v \<le> v * b + d" by (rule trans_le_add1)
  also have "\<dots> \<le> foldl (\<lambda>v d. v * b + d) v (d # ds)"
    using Cons.IH [OF Cons.prems, of "v * b + d"] by simp
  finally show ?case .
qed simp

text \<open>The text of the digits \<open>ds\<close> in base \<open>b\<close> at \<open>s\<close>, followed by a character that is no digit of \<open>b\<close>.\<close>

definition digits_at :: "mem \<Rightarrow> addr \<Rightarrow> nat \<Rightarrow> nat list \<Rightarrow> bool" where
  "digits_at m s b ds \<longleftrightarrow>
     (\<forall>i < length ds. ds ! i < b \<and> m (s + of_nat i) = hex_asc_upper ! (ds ! i))
     \<and> (case digit_val (m (s + of_nat (length ds))) of None \<Rightarrow> True | Some v \<Rightarrow> of_nat b \<le> v)"

lemma digits_at_Cons:
  "digits_at m s b (d # ds) \<longleftrightarrow> d < b \<and> m s = hex_asc_upper ! d \<and> digits_at m (s + 1) b ds"
proof -
  have "(\<forall>i < Suc n. P i) \<longleftrightarrow> P 0 \<and> (\<forall>i < n. P (Suc i))" for P n
    using less_Suc_eq_0_disj by auto
  then show ?thesis by (auto simp: digits_at_def add.assoc)
qed

lemma parse_integer_loop_digits:
  assumes "digits_at m s b ds" and b: "2 \<le> b" "b \<le> 16" and "v < 2 ^ 64"
  shows "parse_integer_loop m s (of_nat b) (of_nat v) rv =
     Some (if ds = [] \<or> foldl (\<lambda>v d. v * b + d) v (butlast ds) < 2 ^ 60
           then Inr (of_nat (foldl (\<lambda>v d. v * b + d) v ds), rv + of_nat (length ds)) else Inl Panic)"
  using assms(1,4)
proof (induction ds arbitrary: s v rv)
  case Nil
  then show ?case
    by (subst parse_integer_loop.simps) (auto simp: digits_at_def split: option.splits)
next
  case (Cons d ds)
  have d: "d < b" "m s = hex_asc_upper ! d" "digits_at m (s + 1) b ds"
    using Cons.prems(1) by (simp_all add: digits_at_Cons)
  have val: "digit_val (m s) = Some (of_nat d)" using d b by (simp add: digit_val_hex)
  have small: "unat (of_nat x :: u32) = x" if "x \<le> 16" for x
    using that by (simp add: unsigned_of_nat take_bit_nat_eq_self)
  have lt: "\<not> (of_nat b :: u32) \<le> of_nat d" using d(1) b by (simp add: word_le_nat_alt small)
  have cast: "(ucast (of_nat x :: u32) :: u64) = of_nat x" if "x \<le> 16" for x
    using that by (simp add: word_unat_eq_iff unsigned_ucast_eq unsigned_of_nat take_bit_nat_eq_self)
  have high: "(of_nat v :: u64) AND push_bit 60 (- 1) = 0 \<longleftrightarrow> v < 2 ^ 60"
    using high_bits_iff [of "of_nat v"] Cons.prems(2) by simp
  show ?case
  proof (cases "v < 2 ^ 60")
    case True
    have "v * b + d < 2 ^ 64"
    proof -
      have "v * b \<le> (2 ^ 60 - 1) * 16" using True b by (intro mult_le_mono) auto
      then show ?thesis using d(1) b by simp
    qed
    then have IH: "parse_integer_loop m (s + 1) (of_nat b) (of_nat (v * b + d)) (rv + 1) =
     Some (if ds = [] \<or> foldl (\<lambda>v d. v * b + d) (v * b + d) (butlast ds) < 2 ^ 60
           then Inr (of_nat (foldl (\<lambda>v d. v * b + d) (v * b + d) ds), rv + 1 + of_nat (length ds)) else Inl Panic)"
      by (rule Cons.IH [OF d(3)])
    have "parse_integer_loop m s (of_nat b) (of_nat v) rv
        = parse_integer_loop m (s + 1) (of_nat b) (of_nat (v * b + d)) (rv + 1)"
      using val lt high True cast d(1) b by (subst parse_integer_loop.simps) (simp del: push_bit_minus_one)
    then show ?thesis using IH True by (cases "ds = []") (simp_all add: add.assoc add.commute)
  next
    case False
    then have "parse_integer_loop m s (of_nat b) (of_nat v) rv = Some (Inl Panic)"
      using val lt high by (subst parse_integer_loop.simps) (simp del: push_bit_minus_one)
    moreover have "\<not> foldl (\<lambda>v d. v * b + d) v (butlast (d # ds)) < 2 ^ 60"
      using foldl_digits_mono [of b v "butlast (d # ds)"] False b by linarith
    ultimately show ?thesis by simp
  qed
qed

lemma hex_digit_not_x: "d < 16 \<Longrightarrow> tolower_fast (hex_asc_upper ! d) \<noteq> 120"
proof -
  assume "d < 16"
  moreover have "\<forall>d \<in> set [0..<16]. tolower_fast (hex_asc_upper ! d) \<noteq> 120" by code_simp
  ultimately show ?thesis by simp
qed

lemma cstr_digits_at:
  assumes "cstr m s (digit_chars ds)" and "\<And>d. d \<in> set ds \<Longrightarrow> d < b"
  shows "digits_at m s b ds"
proof -
  have "digit_val 0 = None" by code_simp
  then show ?thesis using assms by (auto simp: digits_at_def cstr_iff digit_chars_def)
qed

lemma fixup_no_prefix:
  assumes b: "b \<in> {8, 10, 16}" and str: "cstr m s (digit_chars ds)" "\<And>d. d \<in> set ds \<Longrightarrow> d < 16" "ds \<noteq> []"
  shows "parse_integer_fixup_radix m s (of_nat b) = (s, of_nat b)"
proof -
  have "tolower_fast (m (s + 1)) \<noteq> 120"
  proof (cases "length ds = 1")
    case True
    then have "m (s + 1) = 0" using cstr_end [OF str(1)] by (simp add: digit_chars_def)
    then show ?thesis by (simp add: tolower_fast_def)
  next
    case False
    then have "1 < length ds" using str(3) by (cases ds) auto
    then have "m (s + 1) = hex_asc_upper ! (ds ! 1)" "ds ! 1 < 16"
      using cstr_nth [OF str(1), of 1] str(2) [of "ds ! 1"] by (simp_all add: digit_chars_def)
    then show ?thesis using hex_digit_not_x by simp
  qed
  then show ?thesis using b by (auto simp: parse_integer_fixup_radix_def)
qed

lemma small_count:
  assumes "n < 2 ^ 31"
  shows "(ucast ((of_nat n :: u32) AND NOT (push_bit 31 1)) :: u64) = of_nat n"
proof -
  have u: "unat (of_nat n :: u32) = n" using assms by (simp add: unsigned_of_nat take_bit_nat_eq_self)
  have "bit (of_nat n :: u32) 31 \<longleftrightarrow> bit (unat (of_nat n :: u32)) 31" by (simp add: bit_unsigned_iff)
  also have "\<dots> \<longleftrightarrow> odd (n div 2 ^ 31)" unfolding u by (rule bit_iff_odd)
  finally have no: "\<not> bit (of_nat n :: u32) 31" using assms by simp
  have "(of_nat n :: u32) AND NOT (push_bit 31 1) = of_nat n"
  proof (rule bit_word_eqI)
    fix i assume "i < LENGTH(32)"
    moreover have "bit (push_bit 31 (1 :: u32)) i \<longleftrightarrow> i = 31" if "i < 32"
      using that unfolding bit_push_bit_iff bit_1_iff by auto
    ultimately show "bit ((of_nat n :: u32) AND NOT (push_bit 31 1)) i \<longleftrightarrow> bit (of_nat n :: u32) i"
      unfolding bit_and_iff bit_not_iff using no by auto
  qed
  then show ?thesis using u assms by (simp add: word_unat_eq_iff unsigned_ucast_eq take_bit_nat_eq_self)
qed

section \<open>Properties\<close>

text \<open>C27. \<^verbatim>\<open>vsnprintf\<close> implements the format specification: for a format string that \<^const>\<open>render\<close>
  accepts with text \<open>out\<close>, the call returns the length of \<open>out\<close>, leaves in the buffer as much of \<open>out\<close> as
  fits before a NUL, and changes no byte outside the buffer. \<^const>\<open>render\<close> is what the code prints: pointers come
  out in upper case although \<^verbatim>\<open>pointer_string\<close> asks for \<^verbatim>\<open>SMALL\<close>, which the source documents as lower case and
  \<^verbatim>\<open>number\<close> never reads, and after one signed conversion every later decimal number is printed as signed, because
  \<^verbatim>\<open>format_decode\<close> never clears \<^verbatim>\<open>SIGN\<close>.\<close>

theorem vsnprintf_refines_render:
  assumes "strings_ok ro m buf sz txt" and "buffer_ok buf sz (length out + 1)"
    and "cstr m f fs" and "outside buf sz f (length fs)" and "length fs < 2 ^ 31"
    and "render txt False fs args = Some out" and "length out < 2 ^ 31"
  shows "vsnprintf ro m buf sz f args =
     Some (Inr (if sz = 0 then m else blit m buf (unat sz) (take (unat sz - 1) out @ [0]),
                of_nat (length out)))"
proof -
  have "vsnprintf_loop ro (buf + sz) f spec0 (blit m buf (unat sz) [], buf + of_nat (length ([] :: u8 list))) args
      = Some (Inr (blit m buf (unat sz) ([] @ out), buf + of_nat (length ([] @ out))))"
    using assms by (intro vsnprintf_loop_render [where k = "length out + 1"]) (simp_all add: spec0_def)
  then have loop: "vsnprintf_loop ro (buf + sz) f spec0 (m, buf) args
      = Some (Inr (blit m buf (unat sz) out, buf + of_nat (length out)))" by simp
  have "(ucast (of_nat (length out) :: u64) :: u32) = of_nat (length out)"
    using assms(7) by (simp add: word_unat_eq_iff unsigned_ucast_eq unsigned_of_nat take_bit_nat_eq_self)
  then show ?thesis
    using blit_terminate [OF assms(2), of m] unfolding vsnprintf_def loop
    by (cases "sz = 0") (simp_all add: Let_def blit_def [of m buf 0] unat_gt_0 word_gt_0)
qed

text \<open>The memory of the example: the format string \<open>%d\<close> at 1000, the two messages at 2000 and 3000.\<close>

definition demo_mem :: mem where
  "demo_mem = (\<lambda>_. 0)
     (1000 := 37, 1001 := 100,
      2000 := 40, 2001 := 110, 2002 := 117, 2003 := 108, 2004 := 108, 2005 := 41,
      3000 := 40, 3001 := 101, 3002 := 102, 3003 := 97, 3004 := 117, 3005 := 108, 3006 := 116, 3007 := 41)"

lemma demo_strings:
  "strings_ok \<lparr>null_msg = 2000, efault_msg = 3000\<rparr> demo_mem 100 3 (\<lambda>_. None)"
  by (auto simp: strings_ok_def demo_mem_def intro!: outside_above)

theorem vsnprintf_refines_render_witness:
  "vsnprintf \<lparr>null_msg = 2000, efault_msg = 3000\<rparr> demo_mem 100 3 1000 [- 42] =
     Some (Inr (blit demo_mem 100 3 [45, 52, 0], 3))"
proof -
  have digits: "digit_chars (radix 10 42) = [52, 50]"
    by (simp add: radix.simps digit_chars_def hex_asc_upper_def)
  have "arg_num False True (- 42) = - 42" by (simp add: arg_num_def)
  then have out: "render (\<lambda>_. None) False [37, 100] [- 42] = Some [45, 52, 50]"
    using digits by (simp add: conv_text_def num_text_def)
  have fmt: "cstr demo_mem 1000 [37, 100]" by (simp add: demo_mem_def)
  show ?thesis
    using vsnprintf_refines_render [OF demo_strings _ fmt _ _ out]
    by (simp add: buffer_ok_def outside_above)
qed

lemma strtoull_num_text:
  assumes "b \<in> {8, 10, 16}" and str: "cstr m s (num_text False b num)"
  shows "simple_strtoull m s (of_nat b) =
     Some (if unat num div b < 2 ^ 60 then Inr (num, s + of_nat (length (num_text False b num)))
           else Inl Panic)"
proof -
  let ?ds = "radix b (unat num)"
  have b: "2 \<le> b" "b \<le> 16" "8 \<le> b" using assms(1) by auto
  have str': "cstr m s (digit_chars ?ds)" and len: "length (num_text False b num) = length ?ds"
    using str by (simp_all add: num_text_def digit_chars_def)
  have ne: "?ds \<noteq> []" by (subst radix.simps) simp
  have dig: "d < b" if "d \<in> set ?ds" for d using radix_digits [OF b(1) that] .
  have "foldl (\<lambda>v d. v * b + d) 0 (butlast ?ds) = unat num div b"
  proof (cases "unat num < b")
    case False
    then have "butlast ?ds = radix b (unat num div b)" using b by (subst radix.simps) simp
    then show ?thesis using radix_value_radix [of b "unat num div b"] b by (simp add: radix_value_def)
  qed (simp add: radix.simps [of b "unat num"])
  moreover have "foldl (\<lambda>v d. v * b + d) 0 ?ds = unat num"
    using radix_value_radix [of b "unat num"] b by (simp add: radix_value_def)
  ultimately have parse: "parse_integer m s (of_nat b) =
      Some (if unat num div b < 2 ^ 60 then Inr (num, of_nat (length ?ds)) else Inl Panic)"
    using parse_integer_loop_digits [OF cstr_digits_at [OF str' dig] b(1,2), of 0 0] ne
    by (simp add: parse_integer_def)
  have "d < 16" if "d \<in> set ?ds" for d using dig [OF that] b(2) by simp
  then have fixup: "parse_integer_fixup_radix m s (of_nat b) = (s, of_nat b)"
    using fixup_no_prefix [OF assms(1) str' _ ne] by simp
  have "(ucast ((of_nat (length ?ds) :: u32) AND NOT (push_bit 31 1)) :: u64) = of_nat (length ?ds)"
    using radix_length_u64 [OF b(3), of num] by (intro small_count) simp
  then show ?thesis using parse fixup len by (simp add: simple_strtoull_def)
qed

lemma cstr_after_number:
  assumes spec: "base spec \<in> {8, 10, 16}" "flags spec AND SIGN = 0" and ok: "buffer_ok buf sz 24" "24 \<le> unat sz"
  shows "\<exists>m' t. number (buf + sz) num spec (m, buf) = Inr (m', buf + of_nat (length t))
    \<and> t = num_text False (base spec) num \<and> cstr (m'(buf + of_nat (length t) := 0)) buf t"
proof -
  define t where "t = num_text False (base spec) num"
  have t: "t = digit_chars (radix (base spec) (unat num))" by (simp add: t_def num_text_def)
  have b: "2 \<le> base spec" "8 \<le> base spec" "base spec \<le> 16" using spec(1) by auto
  have len: "length t \<le> 22" using radix_length_u64 [OF b(2), of num] by (simp add: t digit_chars_def)
  have nz: "t ! i \<noteq> 0" if "i < length t" for i
  proof -
    have "radix (base spec) (unat num) ! i \<in> set (radix (base spec) (unat num))" using that by (simp add: t digit_chars_def)
    then have "radix (base spec) (unat num) ! i < 16" using radix_digits [OF b(1)] b(3) by (meson less_le_trans)
    then show ?thesis using that hex_asc_upper_nonzero by (simp add: t digit_chars_def)
  qed
  have "number (buf + sz) num spec (m, buf) = Inr (blit m buf (unat sz) t, buf + of_nat (length t))"
    using fold_emit_blit [OF ok(1), of "[]" t m] len spec by (simp add: number_text t_def)
  moreover have "(buf + of_nat i = buf + of_nat (length t)) = (i = length t)" if "i \<le> length t" for i
    using that len of_nat64_inj [of i "length t"] by simp
  then have "cstr ((blit m buf (unat sz) t)(buf + of_nat (length t) := 0)) buf t"
    using nz len ok(2) by (auto simp: cstr_iff blit_def)
  ultimately show ?thesis using t_def by blast
qed

text \<open>C28. Printing and parsing are inverse: after \<^verbatim>\<open>number\<close> has printed \<open>num\<close> in base 8, 10 or 16 without sign into a
  buffer with room for 24 characters, and a NUL is stored behind the digits, \<^verbatim>\<open>simple_strtoull\<close> with that base
  returns \<open>num\<close> and the address behind the digits, provided \<open>num div b < 2 ^ 60\<close>. For every larger number it
  panics, although the number fits into 64 bits and the comment of \<^verbatim>\<open>_parse_integer\<close> promises a result with an
  overflow bit.\<close>

theorem strtoull_number_roundtrip:
  assumes "base spec \<in> {8, 10, 16}" "flags spec AND SIGN = 0" "buffer_ok buf sz 24" "24 \<le> unat sz"
  shows "\<exists>m' p. number (buf + sz) num spec (m, buf) = Inr (m', p)
     \<and> simple_strtoull (m'(p := 0)) buf (of_nat (base spec)) =
         Some (if unat num div base spec < 2 ^ 60 then Inr (num, p) else Inl Panic)"
proof -
  obtain m' t where "number (buf + sz) num spec (m, buf) = Inr (m', buf + of_nat (length t))"
    "t = num_text False (base spec) num" "cstr (m'(buf + of_nat (length t) := 0)) buf t"
    using cstr_after_number [OF assms] by blast
  then show ?thesis using strtoull_num_text [OF assms(1), of "m'(buf + of_nat (length t) := 0)" buf num] by auto
qed

theorem strtoull_number_roundtrip_witness:
  "\<exists>m' p. number (100 + 32) 42 (spec0\<lparr>base := 10\<rparr>) (demo_mem, 100) = Inr (m', p)
     \<and> simple_strtoull (m'(p := 0)) 100 10 = Some (Inr (42, p))"
  using strtoull_number_roundtrip [of "spec0\<lparr>base := 10\<rparr>" 100 32 42 demo_mem]
  by (simp add: spec0_def buffer_ok_def)

end
