(* ===== verification/Interfaces.thy ===== *)
theory Interfaces
  imports Prelude
begin

text \<open>
  The contracts between components. \<open>range_store\<close> is what a table of address ranges promises to the
  code that fills it; \<open>allocator\<close> is what an allocator promises to its callers: what it hands out was
  available and is not available afterwards; \<open>node_queue\<close> is what the linked lists promise to code that
  queues nodes; \<open>index_map\<close> is what an index tree promises to the tables kept in it; \<open>object_heap\<close> is
  what an object allocator promises to the users of its objects. The lemmas in the locales are proved
  from these laws alone; the theories of the components that provide the operations interpret them.
\<close>

section \<open>Tables of ranges\<close>

locale range_store =
  fixes invar :: "'s \<Rightarrow> bool"
    and ranges :: "'s \<Rightarrow> 'u set"
    and span :: "'r \<Rightarrow> 'u set"
    and add :: "'s \<Rightarrow> 'r \<Rightarrow> 's outcome"
  assumes add_ok: "invar s \<Longrightarrow> add s r = Inr s' \<Longrightarrow> invar s' \<and> ranges s' = ranges s \<union> span r"
begin

primrec add_all :: "'s \<Rightarrow> 'r list \<Rightarrow> 's outcome" where
  "add_all s [] = Inr s"
| "add_all s (r # rs) = obind (add s r) (\<lambda>s'. add_all s' rs)"

lemma add_all_ok:
  "invar s \<Longrightarrow> add_all s rs = Inr s' \<Longrightarrow> invar s' \<and> ranges s' = ranges s \<union> (\<Union>r \<in> set rs. span r)"
proof (induction rs arbitrary: s)
  case (Cons r rs)
  obtain s1 where s1: "add s r = Inr s1" "add_all s1 rs = Inr s'"
    using Cons.prems(2) by (cases "add s r") auto
  have "invar s1" and "ranges s1 = ranges s \<union> span r" using add_ok [OF Cons.prems(1) s1(1)] by auto
  then show ?case using Cons.IH [OF _ s1(2)] by auto
qed simp

text \<open>The order in which ranges are announced does not matter.\<close>

lemma add_all_perm:
  assumes "invar s" and "add_all s rs = Inr s1" and "add_all s rs' = Inr s2" and "set rs = set rs'"
  shows "ranges s1 = ranges s2"
  using add_all_ok [OF assms(1,2)] add_all_ok [OF assms(1,3)] assms(4) by simp

end

section \<open>Allocators\<close>

locale allocator =
  fixes invar :: "'s \<Rightarrow> bool"
    and avail :: "'s \<Rightarrow> 'u set"
    and chunk :: "'r \<Rightarrow> 'h \<Rightarrow> 'u set"
    and alloc :: "'s \<Rightarrow> 'r \<Rightarrow> ('s \<times> 'h) option"
  assumes alloc_ok:
    "invar s \<Longrightarrow> alloc s r = Some (s', h) \<Longrightarrow>
       invar s' \<and> chunk r h \<subseteq> avail s \<and> avail s' = avail s - chunk r h"
begin

text \<open>A run of allocations, with what each one returned.\<close>

inductive allocs :: "'s \<Rightarrow> ('r \<times> 'h) list \<Rightarrow> 's \<Rightarrow> bool" where
  allocs_Nil: "allocs s [] s"
| allocs_Cons: "alloc s r = Some (s1, h) \<Longrightarrow> allocs s1 out s' \<Longrightarrow> allocs s ((r, h) # out) s'"

lemma allocs_avail:
  "allocs s out s' \<Longrightarrow> invar s \<Longrightarrow>
     invar s' \<and> (\<Union>(r, h) \<in> set out. chunk r h) \<subseteq> avail s
     \<and> avail s' = avail s - (\<Union>(r, h) \<in> set out. chunk r h)"
proof (induction rule: allocs.induct)
  case (allocs_Cons s r s1 h out s')
  have "invar s1" "chunk r h \<subseteq> avail s" "avail s1 = avail s - chunk r h"
    using alloc_ok [OF allocs_Cons.prems allocs_Cons.hyps(1)] by auto
  then show ?case using allocs_Cons.IH by auto
qed simp

text \<open>No two allocations of a run overlap.\<close>

lemma allocs_disjoint:
  "allocs s out s' \<Longrightarrow> invar s \<Longrightarrow> i < j \<Longrightarrow> j < length out \<Longrightarrow>
     case_prod chunk (out ! i) \<inter> case_prod chunk (out ! j) = {}"
proof (induction arbitrary: i j rule: allocs.induct)
  case (allocs_Cons s r s1 h out s')
  have s1: "invar s1" "avail s1 = avail s - chunk r h"
    using alloc_ok [OF allocs_Cons.prems(1) allocs_Cons.hyps(1)] by auto
  obtain j' where j: "j = Suc j'" "j' < length out" using allocs_Cons.prems by (cases j) auto
  show ?case
  proof (cases i)
    case 0
    have "case_prod chunk (out ! j') \<subseteq> avail s1"
      using allocs_avail [OF allocs_Cons.hyps(2) s1(1)] j(2) by (force simp: in_set_conv_nth)
    then show ?thesis using 0 j s1(2) by auto
  next
    case (Suc i')
    then show ?thesis using allocs_Cons.IH [OF s1(1), of i' j'] allocs_Cons.prems j by simp
  qed
qed simp

end

section \<open>Queues of nodes\<close>

locale node_queue =
  fixes rep :: "'h \<Rightarrow> 'n \<Rightarrow> 'n list \<Rightarrow> bool"
    and add_tail :: "'n \<Rightarrow> 'n \<Rightarrow> 'h \<Rightarrow> 'h"
    and del :: "'n \<Rightarrow> 'h \<Rightarrow> 'h"
    and first :: "'n \<Rightarrow> 'h \<Rightarrow> 'n option"
  assumes rep_add_tail: "rep h head xs \<Longrightarrow> n \<notin> set xs \<Longrightarrow> n \<noteq> head \<Longrightarrow> rep (add_tail n head h) head (xs @ [n])"
    and rep_del: "rep h head (n # xs) \<Longrightarrow> rep (del n h) head xs"
    and rep_first: "rep h head xs \<Longrightarrow> first head h = (case xs of [] \<Rightarrow> None | x # _ \<Rightarrow> Some x)"
begin

primrec add_tails :: "'n list \<Rightarrow> 'n \<Rightarrow> 'h \<Rightarrow> 'h" where
  "add_tails [] head h = h"
| "add_tails (n # ns) head h = add_tails ns head (add_tail n head h)"

text \<open>Take the first node off the queue, at most \<open>k\<close> times.\<close>

primrec drain :: "nat \<Rightarrow> 'n \<Rightarrow> 'h \<Rightarrow> 'n list \<times> 'h" where
  "drain 0 head h = ([], h)"
| "drain (Suc k) head h =
     (case first head h of
        None \<Rightarrow> ([], h)
      | Some n \<Rightarrow> let (ns, h') = drain k head (del n h) in (n # ns, h'))"

lemma rep_add_tails:
  "rep h head xs \<Longrightarrow> distinct (xs @ ns) \<Longrightarrow> head \<notin> set ns \<Longrightarrow> rep (add_tails ns head h) head (xs @ ns)"
proof (induction ns arbitrary: xs h)
  case (Cons n ns)
  have "rep (add_tail n head h) head (xs @ [n])" using Cons.prems by (intro rep_add_tail) auto
  from Cons.IH [OF this] show ?case using Cons.prems by simp
qed simp

lemma drain_take:
  "rep h head xs \<Longrightarrow> fst (drain k head h) = take k xs \<and> rep (snd (drain k head h)) head (drop k xs)"
proof (induction k arbitrary: xs h)
  case (Suc k)
  then show ?case
    using Suc.IH [OF rep_del] rep_first [OF Suc.prems]
    by (cases xs) (auto simp: split_def)
qed simp

text \<open>Nodes leave the queue in the order in which they entered it.\<close>

lemma fifo:
  assumes "rep h head []" and "distinct ns" and "head \<notin> set ns"
  shows "fst (drain (length ns) head (add_tails ns head h)) = ns"
  using drain_take [OF rep_add_tails [OF assms(1), of ns]] assms(2,3) by simp

end

section \<open>Maps from indices\<close>

locale index_map =
  fixes invar :: "'s \<Rightarrow> bool"
    and get :: "'s \<Rightarrow> 'k \<Rightarrow> 'v"
    and okv :: "'v \<Rightarrow> bool"
    and put :: "'s \<Rightarrow> 'k \<Rightarrow> 'v \<Rightarrow> 's option"
  assumes put_ok: "invar s \<Longrightarrow> okv v \<Longrightarrow> put s k v = Some s' \<Longrightarrow> invar s' \<and> get s' = (get s)(k := v)"
begin

primrec puts :: "'s \<Rightarrow> ('k \<times> 'v) list \<Rightarrow> 's option" where
  "puts s [] = Some s"
| "puts s (kv # kvs) = Option.bind (put s (fst kv) (snd kv)) (\<lambda>s'. puts s' kvs)"

text \<open>An index holds what was stored there last.\<close>

lemma puts_ok:
  "invar s \<Longrightarrow> \<forall>kv\<in>set kvs. okv (snd kv) \<Longrightarrow> puts s kvs = Some s' \<Longrightarrow>
     invar s' \<and> (\<forall>k. get s' k = (case map_of (rev kvs) k of None \<Rightarrow> get s k | Some v \<Rightarrow> v))"
proof (induction kvs arbitrary: s)
  case (Cons kv kvs)
  obtain s1 where s1: "put s (fst kv) (snd kv) = Some s1" "puts s1 kvs = Some s'"
    using Cons.prems(3) by (cases "put s (fst kv) (snd kv)") auto
  have "invar s1" "get s1 = (get s)(fst kv := snd kv)" using put_ok [OF Cons.prems(1) _ s1(1)] Cons.prems(2) by auto
  then show ?case using Cons.IH [OF _ _ s1(2)] Cons.prems(2) by (auto simp: map_add_def split: option.splits)
qed simp

text \<open>Stores to different indices commute.\<close>

lemma puts_distinct:
  assumes "invar s" "\<forall>kv\<in>set kvs. okv (snd kv)" "distinct (map fst kvs)" "puts s kvs = Some s'" "kv \<in> set kvs"
  shows "get s' (fst kv) = snd kv"
proof -
  have "map_of (rev kvs) (fst kv) = Some (snd kv)"
    using assms(3,5) by (intro map_of_is_SomeI) (auto simp: rev_map [symmetric])
  then show ?thesis using puts_ok [OF assms(1,2,4)] by simp
qed

end

section \<open>Heaps of objects\<close>

text \<open>
  The requests to a heap of objects and what they do to the contents of the live objects: an
  allocation adds an object that was not live, with any contents; a free removes one; a write changes
  one element of one object.
\<close>

datatype ('r, 'x, 'b) heap_op = Take 'r | Drop 'x | Poke 'x nat 'b

inductive heap_spec :: "('x \<rightharpoonup> 'b list) \<Rightarrow> ('r, 'x, 'b) heap_op \<Rightarrow> ('x \<rightharpoonup> 'b list) \<Rightarrow> bool" where
  spec_take: "h x = None \<Longrightarrow> heap_spec h (Take r) (h(x \<mapsto> bs))"
| spec_drop: "h x = Some bs \<Longrightarrow> heap_spec h (Drop x) (h(x := None))"
| spec_poke: "h x = Some bs \<Longrightarrow> j < length bs \<Longrightarrow> heap_spec h (Poke x j v) (h(x \<mapsto> bs[j := v]))"

inductive heap_specs :: "('x \<rightharpoonup> 'b list) \<Rightarrow> ('r, 'x, 'b) heap_op list \<Rightarrow> ('x \<rightharpoonup> 'b list) \<Rightarrow> bool" where
  specs_Nil: "heap_specs h [] h"
| specs_Cons: "heap_spec h op h1 \<Longrightarrow> heap_specs h1 ops h' \<Longrightarrow> heap_specs h (op # ops) h'"

inductive_cases heap_specs_ConsE: "heap_specs h (op # ops) h'"

locale object_heap =
  fixes invar :: "'s \<Rightarrow> bool"
    and live :: "'s \<Rightarrow> 'x set"
    and content :: "'s \<Rightarrow> 'x \<Rightarrow> 'b list"
    and alloc :: "'s \<Rightarrow> 'r \<Rightarrow> ('s \<times> 'x) option"
    and free :: "'s \<Rightarrow> 'x \<Rightarrow> 's option"
    and poke :: "'s \<Rightarrow> 'x \<Rightarrow> nat \<Rightarrow> 'b \<Rightarrow> 's"
  assumes take_ok: "invar s \<Longrightarrow> alloc s r = Some (s', x) \<Longrightarrow>
      invar s' \<and> x \<notin> live s \<and> live s' = insert x (live s) \<and> (\<forall>y \<in> live s. content s' y = content s y)"
    and drop_ok: "invar s \<Longrightarrow> x \<in> live s \<Longrightarrow>
      \<exists>s'. free s x = Some s' \<and> invar s' \<and> live s' = live s - {x} \<and> (\<forall>y \<in> live s'. content s' y = content s y)"
    and poke_ok: "invar s \<Longrightarrow> x \<in> live s \<Longrightarrow> j < length (content s x) \<Longrightarrow>
      invar (poke s x j v) \<and> live (poke s x j v) = live s
      \<and> (\<forall>y \<in> live s. content (poke s x j v) y = (if y = x then (content s x)[j := v] else content s y))"
begin

definition view :: "'s \<Rightarrow> 'x \<rightharpoonup> 'b list" where
  "view s = (\<lambda>x. if x \<in> live s then Some (content s x) else None)"

primrec do_op :: "('r, 'x, 'b) heap_op \<Rightarrow> 's \<Rightarrow> 's option" where
  "do_op (Take r) s = map_option fst (alloc s r)"
| "do_op (Drop x) s = (if x \<in> live s then free s x else None)"
| "do_op (Poke x j v) s = (if x \<in> live s \<and> j < length (content s x) then Some (poke s x j v) else None)"

primrec do_ops :: "('r, 'x, 'b) heap_op list \<Rightarrow> 's \<Rightarrow> 's option" where
  "do_ops [] s = Some s"
| "do_ops (op # ops) s = Option.bind (do_op op s) (do_ops ops)"

lemma do_op_refines:
  assumes inv: "invar s" and run: "do_op op s = Some s'"
  shows "invar s' \<and> heap_spec (view s) op (view s')"
proof (cases op)
  case (Take r)
  then obtain x where x: "alloc s r = Some (s', x)" using run by (auto simp: map_option_case split: option.splits)
  note ok = take_ok [OF inv x]
  have "view s' = (view s)(x \<mapsto> content s' x)" using ok by (auto simp: view_def fun_eq_iff)
  then show ?thesis using ok Take spec_take [of "view s" x r "content s' x"] by (simp add: view_def)
next
  case (Drop x)
  then have x: "x \<in> live s" "free s x = Some s'" using run by (auto split: if_splits)
  note ok = drop_ok [OF inv x(1)]
  have "view s' = (view s)(x := None)" using ok x(2) by (auto simp: view_def fun_eq_iff)
  then show ?thesis using ok x Drop spec_drop [of "view s" x "content s x"] by (auto simp: view_def)
next
  case (Poke x j v)
  then have x: "x \<in> live s" "j < length (content s x)" "s' = poke s x j v" using run by (auto split: if_splits)
  note ok = poke_ok [OF inv x(1,2), of v]
  have "view s' = (view s)(x \<mapsto> (content s x)[j := v])" using ok x by (auto simp: view_def fun_eq_iff)
  then show ?thesis using ok x Poke spec_poke [of "view s" x "content s x" j v] by (simp add: view_def)
qed

text \<open>Every run of requests is a run of the specification on the contents of the live objects.\<close>

lemma do_ops_refines:
  "invar s \<Longrightarrow> do_ops ops s = Some s' \<Longrightarrow> invar s' \<and> heap_specs (view s) ops (view s')"
proof (induction ops arbitrary: s)
  case (Cons op ops)
  obtain s1 where s1: "do_op op s = Some s1" "do_ops ops s1 = Some s'" using Cons.prems(2) by (cases "do_op op s") auto
  note st = do_op_refines [OF Cons.prems(1) s1(1)]
  show ?case using Cons.IH [OF _ s1(2)] st specs_Cons by blast
qed (simp add: specs_Nil)

end

lemma heap_specs_keep:
  assumes "heap_specs h ops h'" "h x = Some bs" "\<forall>op \<in> set ops. op \<noteq> Drop x \<and> (\<forall>j v. op \<noteq> Poke x j v)"
  shows "h' x = Some bs"
  using assms
proof (induction rule: heap_specs.induct)
  case (specs_Cons h op h1 ops h')
  have "h1 x = Some bs" using specs_Cons.hyps(1) specs_Cons.prems by (cases rule: heap_spec.cases) auto
  then show ?case using specs_Cons.IH specs_Cons.prems(2) by simp
qed

end
