(* ===== verification/KList.thy ===== *)
theory KList
  imports Interfaces
begin

text \<open>
  The intrusive lists of \<^verbatim>\<open>src/include/list.h\<close>: the circular doubly linked \<^verbatim>\<open>struct list_head\<close> and the
  hash lists \<^verbatim>\<open>struct hlist_head\<close>/\<^verbatim>\<open>hlist_node\<close>. A node is its address; the link fields of all nodes are
  functions of the address, and every assignment of the source is one update in the source's order, so
  aliasing (a list of one element, a head that is its own neighbour) is the source's. The lemmas show
  that each operation is the corresponding operation on the list of nodes and leaves the other lists
  alone. The other theories use lists of nodes on the strength of this.
\<close>

section \<open>Definitions\<close>

subsection \<open>Doubly linked lists\<close>

record list_heap =
  prev :: "addr \<Rightarrow> addr"
  nxt :: "addr \<Rightarrow> addr"

definition set_nxt :: "addr \<Rightarrow> addr \<Rightarrow> list_heap \<Rightarrow> list_heap" where
  "set_nxt p q h = h\<lparr>nxt := (nxt h)(p := q)\<rparr>"

definition set_prev :: "addr \<Rightarrow> addr \<Rightarrow> list_heap \<Rightarrow> list_heap" where
  "set_prev p q h = h\<lparr>prev := (prev h)(p := q)\<rparr>"

definition INIT_LIST_HEAD :: "addr \<Rightarrow> list_heap \<Rightarrow> list_heap" where
  "INIT_LIST_HEAD list h = set_prev list list (set_nxt list list h)"

definition list_add_between :: "addr \<Rightarrow> addr \<Rightarrow> addr \<Rightarrow> list_heap \<Rightarrow> list_heap" where
  "list_add_between new pre nex h =
     set_nxt pre new (set_prev new pre (set_nxt new nex (set_prev nex new h)))"

definition list_add :: "addr \<Rightarrow> addr \<Rightarrow> list_heap \<Rightarrow> list_heap" where
  "list_add new head h = list_add_between new head (nxt h head) h"

definition list_add_tail :: "addr \<Rightarrow> addr \<Rightarrow> list_heap \<Rightarrow> list_heap" where
  "list_add_tail new head h = list_add_between new (prev h head) head h"

definition list_del_between :: "addr \<Rightarrow> addr \<Rightarrow> list_heap \<Rightarrow> list_heap" where
  "list_del_between pre nex h = set_nxt pre nex (set_prev nex pre h)"

definition list_del_entry :: "addr \<Rightarrow> list_heap \<Rightarrow> list_heap" where
  "list_del_entry entry h = list_del_between (prev h entry) (nxt h entry) h"

definition list_del_init :: "addr \<Rightarrow> list_heap \<Rightarrow> list_heap" where
  "list_del_init entry h = INIT_LIST_HEAD entry (list_del_entry entry h)"

definition list_del :: "addr \<Rightarrow> list_heap \<Rightarrow> list_heap" where
  "list_del entry h = set_prev entry 0 (set_nxt entry 0 (list_del_entry entry h))"

definition list_empty :: "addr \<Rightarrow> list_heap \<Rightarrow> bool" where
  "list_empty head h \<longleftrightarrow> nxt h head = head"

definition list_empty_careful :: "addr \<Rightarrow> list_heap \<Rightarrow> bool" where
  "list_empty_careful head h \<longleftrightarrow> (let next = nxt h head in next = head \<and> next = prev h head)"

definition list_first_entry_or_null :: "addr \<Rightarrow> list_heap \<Rightarrow> addr option" where
  "list_first_entry_or_null head h = (let pos = nxt h head in if pos \<noteq> head then Some pos else None)"

definition list_splice_between :: "addr \<Rightarrow> addr \<Rightarrow> addr \<Rightarrow> list_heap \<Rightarrow> list_heap" where
  "list_splice_between list pre nex h =
     (let first = nxt h list; last = prev h list;
          h = set_prev first pre h; h = set_nxt pre first h;
          h = set_nxt last nex h
      in set_prev nex last h)"

definition list_splice :: "addr \<Rightarrow> addr \<Rightarrow> list_heap \<Rightarrow> list_heap" where
  "list_splice list head h =
     (if \<not> list_empty list h then list_splice_between list head (nxt h head) h else h)"

definition list_replace :: "addr \<Rightarrow> addr \<Rightarrow> list_heap \<Rightarrow> list_heap" where
  "list_replace old new h =
     (let h = set_nxt new (nxt h old) h; h = set_prev (nxt h new) new h;
          h = set_prev new (prev h old) h
      in set_nxt (prev h new) new h)"

definition list_replace_init :: "addr \<Rightarrow> addr \<Rightarrow> list_heap \<Rightarrow> list_heap" where
  "list_replace_init old new h = INIT_LIST_HEAD old (list_replace old new h)"

text \<open>\<^verbatim>\<open>list_for_each_entry\<close>: the nodes the loop visits.\<close>

partial_function (option) list_walk :: "addr \<Rightarrow> list_heap \<Rightarrow> addr \<Rightarrow> addr list option" where
  "list_walk head h pos =
     (if pos = head then Some []
      else Option.bind (list_walk head h (nxt h pos)) (\<lambda>xs. Some (pos # xs)))"

definition list_for_each :: "addr \<Rightarrow> list_heap \<Rightarrow> addr list option" where
  "list_for_each head h = list_walk head h (nxt h head)"

subsection \<open>Hash lists\<close>

text \<open>A \<^verbatim>\<open>struct hlist_node **\<close> points to the \<^verbatim>\<open>first\<close> field of a head or to the \<^verbatim>\<open>next\<close> field of a node.\<close>

datatype slot = First addr | Next addr

record hlist_heap =
  cell :: "slot \<Rightarrow> addr"
  pprev :: "addr \<Rightarrow> slot option"

definition INIT_HLIST_HEAD :: "addr \<Rightarrow> hlist_heap \<Rightarrow> hlist_heap" where
  "INIT_HLIST_HEAD p h = h\<lparr>cell := (cell h)(First p := 0)\<rparr>"

definition INIT_HLIST_NODE :: "addr \<Rightarrow> hlist_heap \<Rightarrow> hlist_heap" where
  "INIT_HLIST_NODE n h = h\<lparr>cell := (cell h)(Next n := 0), pprev := (pprev h)(n := None)\<rparr>"

definition hlist_empty :: "addr \<Rightarrow> hlist_heap \<Rightarrow> bool" where
  "hlist_empty p h \<longleftrightarrow> cell h (First p) = 0"

definition hlist_unhashed :: "addr \<Rightarrow> hlist_heap \<Rightarrow> bool" where
  "hlist_unhashed n h \<longleftrightarrow> pprev h n = None"

definition hlist_add_head :: "addr \<Rightarrow> addr \<Rightarrow> hlist_heap \<Rightarrow> hlist_heap" where
  "hlist_add_head n p h =
     (let first = cell h (First p);
          h = h\<lparr>cell := (cell h)(Next n := first)\<rparr>;
          h = (if first \<noteq> 0 then h\<lparr>pprev := (pprev h)(first := Some (Next n))\<rparr> else h);
          h = h\<lparr>cell := (cell h)(First p := n)\<rparr>
      in h\<lparr>pprev := (pprev h)(n := Some (First p))\<rparr>)"

definition hlist_del_raw :: "addr \<Rightarrow> hlist_heap \<Rightarrow> hlist_heap outcome" where
  "hlist_del_raw n h =
     (let next = cell h (Next n)
      in case pprev h n of
           None \<Rightarrow> Inl NullDeref
         | Some pp \<Rightarrow>
             let h = h\<lparr>cell := (cell h)(pp := next)\<rparr>
             in Inr (if next \<noteq> 0 then h\<lparr>pprev := (pprev h)(next := Some pp)\<rparr> else h))"

definition hlist_del_init :: "addr \<Rightarrow> hlist_heap \<Rightarrow> hlist_heap outcome" where
  "hlist_del_init n h =
     (if \<not> hlist_unhashed n h then obind (hlist_del_raw n h) (\<lambda>h. Inr (INIT_HLIST_NODE n h)) else Inr h)"

text \<open>\<^verbatim>\<open>hlist_for_each_entry\<close>: the nodes the loop visits.\<close>

partial_function (option) hlist_walk :: "hlist_heap \<Rightarrow> addr \<Rightarrow> addr list option" where
  "hlist_walk h pos =
     (if pos = 0 then Some []
      else Option.bind (hlist_walk h (cell h (Next pos))) (\<lambda>xs. Some (pos # xs)))"

definition hlist_for_each :: "addr \<Rightarrow> hlist_heap \<Rightarrow> addr list option" where
  "hlist_for_each p h = hlist_walk h (cell h (First p))"

section \<open>The list a head stands for\<close>

lemmas link_defs [simp] = set_nxt_def set_prev_def

text \<open>\<open>seg h a xs b\<close>: the links lead from \<open>a\<close> through \<open>xs\<close> to \<open>b\<close> and back.\<close>

fun seg :: "list_heap \<Rightarrow> addr \<Rightarrow> addr list \<Rightarrow> addr \<Rightarrow> bool" where
  "seg h a [] b \<longleftrightarrow> nxt h a = b \<and> prev h b = a"
| "seg h a (x # xs) b \<longleftrightarrow> nxt h a = x \<and> prev h x = a \<and> seg h x xs b"

definition dlist :: "list_heap \<Rightarrow> addr \<Rightarrow> addr list \<Rightarrow> bool" where
  "dlist h head xs \<longleftrightarrow> distinct (head # xs) \<and> seg h head xs head"

lemma seg_append: "seg h a (xs @ x # ys) b \<longleftrightarrow> seg h a xs x \<and> seg h x ys b"
  by (induction xs arbitrary: a) auto

lemma seg_cong:
  assumes "\<forall>x \<in> set (a # xs). nxt h' x = nxt h x" and "\<forall>x \<in> set (xs @ [b]). prev h' x = prev h x"
  shows "seg h' a xs b \<longleftrightarrow> seg h a xs b"
  using assms by (induction xs arbitrary: a) auto

lemma seg_nxt: "seg h a xs b \<Longrightarrow> nxt h a = hd (xs @ [b])"
  by (cases xs) auto

lemma seg_prev: "seg h a xs b \<Longrightarrow> prev h b = last (a # xs)"
  by (induction xs arbitrary: a) auto

text \<open>Writes to other fields do not matter.\<close>

lemma seg_set_nxt [simp]: "p \<notin> set (a # xs) \<Longrightarrow> seg (h\<lparr>nxt := (nxt h)(p := q)\<rparr>) a xs b \<longleftrightarrow> seg h a xs b"
  by (rule seg_cong) auto

lemma seg_set_prev [simp]: "p \<notin> set (xs @ [b]) \<Longrightarrow> seg (h\<lparr>prev := (prev h)(p := q)\<rparr>) a xs b \<longleftrightarrow> seg h a xs b"
  by (rule seg_cong) auto

text \<open>Redirecting the last and the first link of a segment.\<close>

lemma seg_end:
  assumes "seg h a xs b" and "\<forall>x \<in> set (butlast (a # xs)). nxt h' x = nxt h x"
    and "\<forall>x \<in> set xs. prev h' x = prev h x" and "nxt h' (last (a # xs)) = c" and "prev h' c = last (a # xs)"
  shows "seg h' a xs c"
  using assms by (induction xs arbitrary: a) auto

lemma seg_start:
  assumes "seg h a xs b" and "\<forall>x \<in> set xs. nxt h' x = nxt h x"
    and "\<forall>x \<in> set (tl (xs @ [b])). prev h' x = prev h x"
    and "nxt h' c = hd (xs @ [b])" and "prev h' (hd (xs @ [b])) = c"
  shows "seg h' c xs b"
proof (cases xs)
  case (Cons y ys)
  then have "seg h' y ys b \<longleftrightarrow> seg h y ys b" using assms(2,3) by (intro seg_cong) auto
  then show ?thesis using assms(1,4,5) Cons by simp
qed (use assms in simp)

lemma dlist_split:
  assumes "dlist h head (xs @ ys)"
  shows "seg h head xs (hd (ys @ [head]))" and "seg h (last (head # xs)) ys head"
proof -
  have s: "seg h head (xs @ ys) head" using assms by (simp add: dlist_def)
  show "seg h head xs (hd (ys @ [head]))" using s by (cases ys) (auto simp: seg_append)
  show "seg h (last (head # xs)) ys head"
  proof (cases xs rule: rev_cases)
    case (snoc zs z)
    then show ?thesis using s by (simp add: seg_append)
  qed (use s in simp)
qed

lemma ring_ends:
  assumes "distinct (head # xs @ ys)"
  shows "last (head # xs) \<in> set (head # xs)" and "hd (ys @ [head]) \<in> set (ys @ [head])"
    and "last (head # xs) \<notin> set ys" and "hd (ys @ [head]) \<notin> set xs"
    and "last (head # xs) \<notin> set (butlast (head # xs))" and "hd (ys @ [head]) \<notin> set (tl (ys @ [head]))"
proof -
  show "last (head # xs) \<in> set (head # xs)" by (rule last_in_set) simp
  show "hd (ys @ [head]) \<in> set (ys @ [head])" by (rule hd_in_set) simp
  show "last (head # xs) \<notin> set ys" "last (head # xs) \<notin> set (butlast (head # xs))"
    using assms by (cases xs rule: rev_cases; auto)+
  show "hd (ys @ [head]) \<notin> set xs" "hd (ys @ [head]) \<notin> set (tl (ys @ [head]))"
    using assms by (cases ys; auto)+
qed

lemma dlist_insert:
  assumes d: "dlist h head (xs @ ys)" and new: "new \<notin> set (head # xs @ ys)"
    and p: "p = last (head # xs)" and n: "n = hd (ys @ [head])"
  shows "dlist (list_add_between new p n h) head (xs @ new # ys)"
proof -
  let ?h = "list_add_between new p n h"
  have dist: "distinct (head # xs @ ys)" using d by (simp add: dlist_def)
  note ends = ring_ends [OF dist, folded p n]
  have ne: "new \<noteq> p" "new \<noteq> n" using ends(1,2) new by auto
  have f: "nxt ?h = (nxt h)(new := n, p := new)" "prev ?h = (prev h)(n := new, new := p)"
    using ne by (auto simp: list_add_between_def)
  have "seg ?h head xs new"
  proof (rule seg_end [OF dlist_split(1) [OF d]])
    show "\<forall>x \<in> set (butlast (head # xs)). nxt ?h x = nxt h x"
      using ends(5) new by (auto simp: f dest: in_set_butlastD)
    show "\<forall>x \<in> set xs. prev ?h x = prev h x" using ends(4) new by (auto simp: f)
    show "nxt ?h (last (head # xs)) = new" by (simp only: p [symmetric] f fun_upd_same)
    show "prev ?h new = last (head # xs)" by (simp only: p [symmetric] f fun_upd_same)
  qed
  moreover have "seg ?h new ys head"
  proof (rule seg_start [OF dlist_split(2) [OF d]])
    show "\<forall>x \<in> set ys. nxt ?h x = nxt h x" using ends(3) new by (auto simp: f)
    show "\<forall>x \<in> set (tl (ys @ [head])). prev ?h x = prev h x"
      using ends(6) new by (cases ys) (auto simp: f)
    show "nxt ?h new = hd (ys @ [head])" unfolding n [symmetric] f using ne by simp
    show "prev ?h (hd (ys @ [head])) = new" unfolding n [symmetric] f using ne by simp
  qed
  ultimately show ?thesis using dist new by (auto simp: dlist_def seg_append)
qed

lemma dlist_remove:
  assumes d: "dlist h head (xs @ x # ys)"
  shows "dlist (list_del_entry x h) head (xs @ ys)"
proof -
  define p n where p: "p = last (head # xs)" and n: "n = hd (ys @ [head])"
  let ?h = "list_del_entry x h"
  have dist: "distinct (head # xs @ ys)" using d by (simp add: dlist_def)
  note ends = ring_ends [OF dist, folded p n]
  have s: "seg h head xs x" "seg h x ys head" using d by (simp_all add: dlist_def seg_append)
  have "prev h x = p" "nxt h x = n" using seg_prev [OF s(1)] seg_nxt [OF s(2)] by (simp_all add: p n)
  then have f: "nxt ?h = (nxt h)(p := n)" "prev ?h = (prev h)(n := p)"
    by (simp_all add: list_del_entry_def list_del_between_def)
  have l: "seg ?h head xs n"
  proof (rule seg_end [OF s(1)])
    show "\<forall>z \<in> set (butlast (head # xs)). nxt ?h z = nxt h z" using ends(5) by (auto simp: f)
    show "\<forall>z \<in> set xs. prev ?h z = prev h z" using ends(4) by (auto simp: f)
  qed (simp_all only: f p [symmetric] fun_upd_same)
  have r: "seg ?h p ys head"
  proof (rule seg_start [OF s(2)])
    show "\<forall>z \<in> set ys. nxt ?h z = nxt h z" using ends(3) by (auto simp: f)
    show "\<forall>z \<in> set (tl (ys @ [head])). prev ?h z = prev h z" using ends(6) by (auto simp: f)
  qed (simp_all only: f n [symmetric] fun_upd_same)
  have "seg ?h head (xs @ ys) head"
  proof (cases ys)
    case Nil
    then show ?thesis using l n by simp
  next
    case (Cons y zs)
    then show ?thesis using l r n by (simp add: seg_append)
  qed
  then show ?thesis using dist by (simp add: dlist_def)
qed

text \<open>A list none of whose links is written stays.\<close>

definition touches :: "list_heap \<Rightarrow> list_heap \<Rightarrow> addr set" where
  "touches h h' = {x. nxt h' x \<noteq> nxt h x \<or> prev h' x \<noteq> prev h x}"

lemma dlist_frame: "dlist h head xs \<Longrightarrow> set (head # xs) \<inter> touches h h' = {} \<Longrightarrow> dlist h' head xs"
  unfolding dlist_def touches_def by (subst seg_cong [of head xs h' h head]) auto

lemma dlist_init: "dlist (INIT_LIST_HEAD head h) head []"
  by (simp add: INIT_LIST_HEAD_def dlist_def)

lemma dlist_ends:
  assumes "dlist h head xs"
  shows "nxt h head = hd (xs @ [head])" and "prev h head = last (head # xs)"
  using assms seg_nxt seg_prev by (simp_all add: dlist_def)

lemma dlist_empty: "dlist h head xs \<Longrightarrow> list_empty head h \<longleftrightarrow> xs = []"
  by (cases xs) (auto simp: list_empty_def dlist_def)

lemma dlist_first:
  "dlist h head xs \<Longrightarrow> list_first_entry_or_null head h = (case xs of [] \<Rightarrow> None | x # _ \<Rightarrow> Some x)"
  by (cases xs) (auto simp: list_first_entry_or_null_def dlist_def)

lemma dlist_add: "dlist h head xs \<Longrightarrow> new \<notin> set (head # xs) \<Longrightarrow> dlist (list_add new head h) head (new # xs)"
  using dlist_insert [of h head "[]" xs new] dlist_ends(1) by (simp add: list_add_def)

lemma dlist_add_tail:
  "dlist h head xs \<Longrightarrow> new \<notin> set (head # xs) \<Longrightarrow> dlist (list_add_tail new head h) head (xs @ [new])"
  using dlist_insert [of h head xs "[]" new] dlist_ends(2) by (simp add: list_add_tail_def)

lemma dlist_del:
  assumes "dlist h head (xs @ x # ys)"
  shows "dlist (list_del x h) head (xs @ ys)" and "dlist (list_del_init x h) head (xs @ ys)"
    and "dlist (list_del_init x h) x []"
proof -
  have d: "dlist (list_del_entry x h) head (xs @ ys)" by (rule dlist_remove [OF assms])
  have x: "x \<notin> set (head # xs @ ys)" using assms by (auto simp: dlist_def)
  show "dlist (list_del x h) head (xs @ ys)" "dlist (list_del_init x h) head (xs @ ys)"
    using x by (auto intro!: dlist_frame [OF d] simp: touches_def list_del_def list_del_init_def INIT_LIST_HEAD_def
        split: if_splits)
  show "dlist (list_del_init x h) x []" by (simp add: list_del_init_def dlist_init)
qed

text \<open>Splicing moves all entries of one list to the front of another.\<close>

lemma dlist_splice:
  assumes l: "dlist h list xs" and d: "dlist h head ys" and dis: "set (list # xs) \<inter> set (head # ys) = {}"
  shows "dlist (list_splice list head h) head (xs @ ys)"
proof (cases "xs = []")
  case True
  then show ?thesis using d dlist_empty [OF l] by (simp add: list_splice_def)
next
  case False
  define f e n where "f = hd xs" and "e = last xs" and "n = hd (ys @ [head])"
  let ?h = "list_splice list head h"
  have ends: "nxt h list = f" "prev h list = e" "nxt h head = n"
    using dlist_ends [OF l] dlist_ends(1) [OF d] False by (simp_all add: f_def e_def n_def)
  have mem: "f \<in> set xs" "e \<in> set xs" "n \<in> set (head # ys)"
    using False by (auto simp: f_def e_def n_def hd_append)
  have dist: "distinct xs" "distinct ys" "head \<notin> set ys" using l d by (auto simp: dlist_def)
  have h: "nxt ?h = (nxt h)(head := f, e := n)" "prev ?h = (prev h)(f := head, n := e)"
    using dlist_empty [OF l] False ends by (simp_all add: list_splice_def list_splice_between_def Let_def)
  obtain zs where xs: "xs = f # zs" using False by (cases xs) (auto simp: f_def)
  have "seg h f zs list" using l xs by (simp add: dlist_def)
  then have "seg ?h f zs n"
  proof (rule seg_end)
    have "e \<notin> set (butlast (f # zs))" using dist(1) xs by (cases zs rule: rev_cases) (auto simp: e_def)
    then show "\<forall>x \<in> set (butlast (f # zs)). nxt ?h x = nxt h x"
      using dis xs by (auto simp: h dest: in_set_butlastD)
    show "\<forall>x \<in> set zs. prev ?h x = prev h x" using dis mem dist(1) xs by (auto simp: h)
    show "nxt ?h (last (f # zs)) = n" "prev ?h n = last (f # zs)" using xs by (simp_all add: h e_def)
  qed
  then have left: "seg ?h head xs n" using dis mem xs by (auto simp: h)
  have right: "seg ?h e ys head"
  proof (rule seg_start)
    show "seg h head ys head" using d by (simp add: dlist_def)
    show "\<forall>x \<in> set ys. nxt ?h x = nxt h x" using dis mem dist(3) by (auto simp: h)
    show "\<forall>x \<in> set (tl (ys @ [head])). prev ?h x = prev h x"
      using dis mem(1) dist(2,3) by (cases ys) (auto simp: h n_def)
    show "nxt ?h e = hd (ys @ [head])" "prev ?h (hd (ys @ [head])) = e"
      using mem dis by (auto simp: h n_def [symmetric])
  qed
  have "seg ?h head (xs @ ys) head"
  proof (cases ys)
    case Nil
    then show ?thesis using left by (simp add: n_def)
  next
    case (Cons y ws)
    then show ?thesis using left right by (simp add: n_def seg_append)
  qed
  then show ?thesis using dist dis by (auto simp: dlist_def)
qed

lemma dlist_replace:
  assumes d: "dlist h head (xs @ old # ys)" and new: "new \<notin> set (head # xs @ old # ys)"
  shows "dlist (list_replace old new h) head (xs @ new # ys)"
proof -
  define p n where p: "p = last (head # xs)" and n: "n = hd (ys @ [head])"
  let ?h = "list_replace old new h"
  have dist: "distinct (head # xs @ ys)" using d by (simp add: dlist_def)
  note ends = ring_ends [OF dist, folded p n]
  have s: "seg h head xs old" "seg h old ys head" using d by (simp_all add: dlist_def seg_append)
  have "prev h old = p" "nxt h old = n" using seg_prev [OF s(1)] seg_nxt [OF s(2)] by (simp_all add: p n)
  moreover have old: "old \<notin> set (head # xs @ ys)" using d by (auto simp: dlist_def)
  moreover have ne: "new \<noteq> p" "new \<noteq> n" "new \<noteq> old" "old \<noteq> n" using ends(1,2) new old by auto
  ultimately have f: "nxt ?h = (nxt h)(new := n, p := new)" "prev ?h = (prev h)(n := new, new := p)"
    by (auto simp: list_replace_def Let_def fun_upd_twist)
  have "seg ?h head xs new"
  proof (rule seg_end [OF s(1)])
    show "\<forall>x \<in> set (butlast (head # xs)). nxt ?h x = nxt h x"
      using ends(5) new by (auto simp: f dest: in_set_butlastD)
    show "\<forall>x \<in> set xs. prev ?h x = prev h x" using ends(4) new by (auto simp: f)
    show "nxt ?h (last (head # xs)) = new" by (simp only: p [symmetric] f fun_upd_same)
    show "prev ?h new = last (head # xs)" by (simp only: p [symmetric] f fun_upd_same)
  qed
  moreover have "seg ?h new ys head"
  proof (rule seg_start [OF s(2)])
    show "\<forall>x \<in> set ys. nxt ?h x = nxt h x" using ends(3) new by (auto simp: f)
    show "\<forall>x \<in> set (tl (ys @ [head])). prev ?h x = prev h x"
      using ends(6) new by (cases ys) (auto simp: f)
    show "nxt ?h new = hd (ys @ [head])" unfolding n [symmetric] f using ne by simp
    show "prev ?h (hd (ys @ [head])) = new" unfolding n [symmetric] f using ne by simp
  qed
  ultimately show ?thesis using dist new by (auto simp: dlist_def seg_append)
qed

text \<open>Iteration visits the entries in order and ends.\<close>

lemma seg_walk: "seg h a xs head \<Longrightarrow> head \<notin> set xs \<Longrightarrow> list_walk head h (nxt h a) = Some xs"
proof (induction xs arbitrary: a)
  case Nil
  then show ?case by (subst list_walk.simps) simp
next
  case (Cons x xs)
  then show ?case by (subst list_walk.simps) auto
qed

lemma dlist_for_each: "dlist h head xs \<Longrightarrow> list_for_each head h = Some xs"
  by (auto simp: list_for_each_def dlist_def intro: seg_walk)

section \<open>Hash lists\<close>

text \<open>The chain that starts in a slot.\<close>

fun hchain :: "hlist_heap \<Rightarrow> slot \<Rightarrow> addr list \<Rightarrow> bool" where
  "hchain h s [] \<longleftrightarrow> cell h s = 0"
| "hchain h s (x # xs) \<longleftrightarrow> x \<noteq> 0 \<and> cell h s = x \<and> pprev h x = Some s \<and> hchain h (Next x) xs"

definition hlist :: "hlist_heap \<Rightarrow> addr \<Rightarrow> addr list \<Rightarrow> bool" where
  "hlist h p xs \<longleftrightarrow> distinct xs \<and> hchain h (First p) xs"

lemma hchain_cong:
  assumes "\<forall>t \<in> insert s (Next ` set xs). cell h' t = cell h t" and "\<forall>x \<in> set xs. pprev h' x = pprev h x"
  shows "hchain h' s xs \<longleftrightarrow> hchain h s xs"
  using assms by (induction xs arbitrary: s) auto

lemma hchain_nonzero: "hchain h s xs \<Longrightarrow> 0 \<notin> set xs"
  by (induction xs arbitrary: s) auto

lemma hlist_empty_iff: "hlist h p xs \<Longrightarrow> hlist_empty p h \<longleftrightarrow> xs = []"
  by (cases xs) (auto simp: hlist_def hlist_empty_def)

lemma hlist_add:
  assumes "hlist h p xs" and "n \<notin> set xs" and "n \<noteq> 0"
  shows "hlist (hlist_add_head n p h) p (n # xs)"
proof (cases xs)
  case Nil
  then show ?thesis using assms by (simp add: hlist_def hlist_add_head_def Let_def)
next
  case (Cons y ys)
  have "hchain (hlist_add_head n p h) (Next y) ys \<longleftrightarrow> hchain h (Next y) ys"
    using assms Cons by (intro hchain_cong) (auto simp: hlist_add_head_def Let_def hlist_def)
  then show ?thesis using assms Cons by (auto simp: hlist_def hlist_add_head_def Let_def)
qed

text \<open>Unlinking an entry of a chain.\<close>

lemma hchain_del:
  assumes "hchain h s (xs @ n # ys)" and "distinct (xs @ n # ys)" and "s \<notin> Next ` set (xs @ n # ys)"
  shows "\<exists>h'. hlist_del_raw n h = Inr h' \<and> hchain h' s (xs @ ys)
           \<and> (\<forall>t. t \<notin> insert s (Next ` set (xs @ n # ys)) \<longrightarrow> cell h' t = cell h t)
           \<and> (\<forall>z. z \<notin> set (xs @ n # ys) \<longrightarrow> pprev h' z = pprev h z)"
  using assms
proof (induction xs arbitrary: s)
  case Nil
  define h' where "h' = (let h1 = h\<lparr>cell := (cell h)(s := cell h (Next n))\<rparr>
     in if cell h (Next n) \<noteq> 0 then h1\<lparr>pprev := (pprev h1)(cell h (Next n) := Some s)\<rparr> else h1)"
  have del: "hlist_del_raw n h = Inr h'" using Nil.prems(1) by (simp add: hlist_del_raw_def h'_def Let_def)
  show ?case
  proof (cases ys)
    case Nil
    then show ?thesis using del \<open>hchain h s ([] @ n # ys)\<close> by (auto simp: h'_def)
  next
    case (Cons y zs)
    have n: "cell h (Next n) = y" "y \<noteq> 0" using Nil.prems(1) Cons by simp_all
    have "hchain h' (Next y) zs \<longleftrightarrow> hchain h (Next y) zs"
      using Nil.prems(2,3) Cons n by (intro hchain_cong) (auto simp: h'_def Let_def)
    then show ?thesis using del Nil.prems Cons n by (auto simp: h'_def Let_def)
  qed
next
  case (Cons x xs)
  have "hchain h (Next x) (xs @ n # ys)" "distinct (xs @ n # ys)" "Next x \<notin> Next ` set (xs @ n # ys)"
    using Cons.prems by auto
  from Cons.IH [OF this] obtain h' where h': "hlist_del_raw n h = Inr h'" "hchain h' (Next x) (xs @ ys)"
      "\<forall>t. t \<notin> insert (Next x) (Next ` set (xs @ n # ys)) \<longrightarrow> cell h' t = cell h t"
      "\<forall>z. z \<notin> set (xs @ n # ys) \<longrightarrow> pprev h' z = pprev h z" by blast
  have "cell h' s = cell h s" "pprev h' x = pprev h x" using h'(3,4) Cons.prems by auto
  then show ?case using h' Cons.prems by auto
qed

lemma hlist_del:
  assumes "hlist h p (xs @ n # ys)"
  shows "\<exists>h'. hlist_del_init n h = Inr h' \<and> hlist h' p (xs @ ys) \<and> hlist_unhashed n h'"
proof -
  have dist: "distinct (xs @ n # ys)" and ch: "hchain h (First p) (xs @ n # ys)" using assms by (auto simp: hlist_def)
  obtain h1 where h1: "hlist_del_raw n h = Inr h1" "hchain h1 (First p) (xs @ ys)"
    using hchain_del [OF ch dist] by auto
  then have "\<not> hlist_unhashed n h" by (auto simp: hlist_unhashed_def hlist_del_raw_def Let_def split: option.splits)
  moreover have "hchain (INIT_HLIST_NODE n h1) (First p) (xs @ ys)"
    using h1(2) dist by (subst hchain_cong [where h = h1]) (auto simp: INIT_HLIST_NODE_def)
  ultimately show ?thesis
    using h1(1) dist by (simp add: hlist_del_init_def hlist_def) (simp add: hlist_unhashed_def INIT_HLIST_NODE_def)
qed

lemma hlist_for_each_ok:
  assumes "hlist h p xs"
  shows "hlist_for_each p h = Some xs"
proof -
  have "hchain h s xs \<Longrightarrow> hlist_walk h (cell h s) = Some xs" for s
  proof (induction xs arbitrary: s)
    case Nil
    then show ?case by (subst hlist_walk.simps) simp
  next
    case (Cons x xs)
    then show ?case by (subst hlist_walk.simps) simp
  qed
  then show ?thesis using assms by (simp add: hlist_for_each_def hlist_def)
qed

section \<open>Lists as queues\<close>

text \<open>A queue served from the front: an interface law the list of a head satisfies.\<close>

interpretation ring_queue: node_queue dlist list_add_tail list_del list_first_entry_or_null
proof
  show "dlist h head xs \<Longrightarrow> n \<notin> set xs \<Longrightarrow> n \<noteq> head \<Longrightarrow> dlist (list_add_tail n head h) head (xs @ [n])" for h head xs n
    using dlist_add_tail by simp
  show "dlist h head (n # xs) \<Longrightarrow> dlist (list_del n h) head xs" for h head n xs
    using dlist_del(1) [of h head "[]" n xs] by simp
  show "dlist h head xs \<Longrightarrow> list_first_entry_or_null head h = (case xs of [] \<Rightarrow> None | x # _ \<Rightarrow> Some x)" for h head xs
    by (rule dlist_first)
qed

section \<open>Properties\<close>

text \<open>The operations a client applies to one list, on the heap and on the sequence of its nodes.\<close>

datatype list_op = Add addr | AddTail addr | Del addr | DelInit addr | Replace addr addr

fun heap_op :: "addr \<Rightarrow> list_op \<Rightarrow> list_heap \<Rightarrow> list_heap" where
  "heap_op head (Add n) h = list_add n head h"
| "heap_op head (AddTail n) h = list_add_tail n head h"
| "heap_op head (Del n) h = list_del n h"
| "heap_op head (DelInit n) h = list_del_init n h"
| "heap_op head (Replace old new) h = list_replace old new h"

fun seq_op :: "list_op \<Rightarrow> addr list \<Rightarrow> addr list" where
  "seq_op (Add n) xs = n # xs"
| "seq_op (AddTail n) xs = xs @ [n]"
| "seq_op (Del n) xs = remove1 n xs"
| "seq_op (DelInit n) xs = remove1 n xs"
| "seq_op (Replace old new) xs = map (\<lambda>x. if x = old then new else x) xs"

text \<open>What the source asks of a caller: a node that is added is on no list, one that is removed is on
  this list. \<open>R\<close> holds the nodes of the other lists.\<close>

fun op_ok :: "addr \<Rightarrow> addr set \<Rightarrow> list_op \<Rightarrow> addr list \<Rightarrow> bool" where
  "op_ok head R (Add n) xs \<longleftrightarrow> n \<notin> set (head # xs) \<and> n \<notin> R"
| "op_ok head R (AddTail n) xs \<longleftrightarrow> n \<notin> set (head # xs) \<and> n \<notin> R"
| "op_ok head R (Del n) xs \<longleftrightarrow> n \<in> set xs"
| "op_ok head R (DelInit n) xs \<longleftrightarrow> n \<in> set xs"
| "op_ok head R (Replace old new) xs \<longleftrightarrow> old \<in> set xs \<and> new \<notin> set (head # xs) \<and> new \<notin> R"

fun ops_ok :: "addr \<Rightarrow> addr set \<Rightarrow> list_op list \<Rightarrow> addr list \<Rightarrow> bool" where
  "ops_ok head R [] xs \<longleftrightarrow> True"
| "ops_ok head R (p # ps) xs \<longleftrightarrow> op_ok head R p xs \<and> ops_ok head R ps (seq_op p xs)"

lemma replace_split:
  assumes "distinct (xs @ old # ys)"
  shows "map (\<lambda>x. if x = old then new else x) (xs @ old # ys) = xs @ new # ys"
proof -
  have "map (\<lambda>x. if x = old then new else x) zs = zs" if "old \<notin> set zs" for zs
    using that by (induction zs) auto
  then show ?thesis using assms by simp
qed

lemma remove1_split:
  assumes "n \<in> set xs"
  obtains as bs where "xs = as @ n # bs" and "remove1 n xs = as @ bs"
  using split_list_first [OF assms] that by (metis remove1_append remove1.simps(2))

lemma heap_op_seq:
  assumes d: "dlist h head xs" and ok: "op_ok head R p xs"
  shows "dlist (heap_op head p h) head (seq_op p xs)"
proof (cases p)
  case (Replace old new)
  then obtain as bs where as: "xs = as @ old # bs" using ok split_list by fastforce
  then have "seq_op p xs = as @ new # bs"
    using d Replace replace_split [of as old bs new] by (simp add: dlist_def)
  then show ?thesis using dlist_replace [of h head as old bs new] d ok as Replace by simp
next
  case (Del n)
  then obtain as bs where "xs = as @ n # bs" "remove1 n xs = as @ bs" using ok by (auto elim: remove1_split)
  then show ?thesis using dlist_del(1) d Del by simp
next
  case (DelInit n)
  then obtain as bs where "xs = as @ n # bs" "remove1 n xs = as @ bs" using ok by (auto elim: remove1_split)
  then show ?thesis using dlist_del(2) d DelInit by simp
qed (use d ok dlist_add dlist_add_tail in auto)

lemma dlist_near:
  assumes d: "dlist h head xs" and "a \<in> set (head # xs)"
  shows "nxt h a \<in> set (head # xs)" and "prev h a \<in> set (head # xs)"
proof -
  consider "a = head" | as bs where "xs = as @ a # bs" using assms(2) split_list by fastforce
  then have "nxt h a \<in> set (head # xs) \<and> prev h a \<in> set (head # xs)"
  proof cases
    case 1
    then show ?thesis using dlist_ends [OF d] by (cases xs) auto
  next
    case 2
    then have s: "seg h head as a" "seg h a bs head" using d by (simp_all add: dlist_def seg_append)
    have "hd (bs @ [head]) \<in> set (bs @ [head])" "last (head # as) \<in> set (head # as)"
      by (rule hd_in_set, simp, rule last_in_set, simp)
    then show ?thesis using seg_nxt [OF s(2)] seg_prev [OF s(1)] 2 by auto
  qed
  then show "nxt h a \<in> set (head # xs)" "prev h a \<in> set (head # xs)" by auto
qed

text \<open>An operation writes only to the links of nodes of the list.\<close>

lemma touches_writes:
  "touches h (set_nxt p q h') \<subseteq> insert p (touches h h')" "touches h (set_prev p q h') \<subseteq> insert p (touches h h')"
  "touches h h = {}"
  by (auto simp: touches_def split: if_splits)

lemma touches_add: "touches h (list_add_between new pre nex h) \<subseteq> {new, pre, nex}"
  by (auto simp: touches_def list_add_between_def split: if_splits)

lemma touches_del: "touches h (list_del_entry x h) \<subseteq> {prev h x, nxt h x}"
  by (auto simp: touches_def list_del_entry_def list_del_between_def split: if_splits)

lemma touches_replace: "old \<noteq> new \<Longrightarrow> touches h (list_replace old new h) \<subseteq> {new, prev h old, nxt h old}"
  by (auto simp: touches_def list_replace_def Let_def split: if_splits)

lemma heap_op_frame:
  assumes d: "dlist h head xs" and ok: "op_ok head R p xs" and R: "set (head # xs) \<inter> R = {}"
  shows "touches h (heap_op head p h) \<inter> R = {}" and "set (head # seq_op p xs) \<inter> R = {}"
proof -
  note near = dlist_near [OF d]
  show "touches h (heap_op head p h) \<inter> R = {}"
  proof (cases p)
    case (Add n)
    then show ?thesis using touches_add [of h n head "nxt h head"] near [of head] ok R by (auto simp: list_add_def)
  next
    case (AddTail n)
    then show ?thesis using touches_add [of h n "prev h head" head] near [of head] ok R by (auto simp: list_add_tail_def)
  next
    case (Del n)
    then have "touches h (heap_op head p h) \<subseteq> {n, prev h n, nxt h n}"
      using touches_del [of h n] touches_writes [of h] unfolding list_del_def heap_op.simps Del by blast
    then show ?thesis using near [of n] ok R Del by auto
  next
    case (DelInit n)
    then have "touches h (heap_op head p h) \<subseteq> {n, prev h n, nxt h n}"
      using touches_del [of h n] touches_writes [of h]
      unfolding list_del_init_def INIT_LIST_HEAD_def heap_op.simps DelInit by blast
    then show ?thesis using near [of n] ok R DelInit by auto
  next
    case (Replace old new)
    then have "old \<in> set xs" "new \<notin> R" "old \<noteq> new" using ok by auto
    then have "touches h (heap_op head p h) \<subseteq> {new, prev h old, nxt h old}" "{prev h old, nxt h old} \<inter> R = {}"
      using touches_replace [of old new h] near [of old] R Replace by (simp, fastforce)
    then show ?thesis using \<open>new \<notin> R\<close> by blast
  qed
  show "set (head # seq_op p xs) \<inter> R = {}"
    using ok R set_remove1_subset by (cases p) (fastforce split: if_splits)+
qed

lemma heap_ops_seq:
  assumes "dlist h head xs" and "ops_ok head R ps xs" and "set (head # xs) \<inter> R = {}"
  shows "dlist (fold (heap_op head) ps h) head (fold seq_op ps xs)"
    and "dlist h other ys \<Longrightarrow> set (other # ys) \<subseteq> R \<Longrightarrow> dlist (fold (heap_op head) ps h) other ys"
  using assms
proof (induction ps arbitrary: h xs)
  case (Cons p ps)
  have ok: "op_ok head R p xs" "ops_ok head R ps (seq_op p xs)" if "ops_ok head R (p # ps) xs" for xs
    using that by auto
  { case 1
    then show ?case
      using Cons.IH(1) [OF heap_op_seq [OF 1(1) ok(1) [OF 1(2)]] ok(2) [OF 1(2)]]
        heap_op_frame(2) [OF 1(1) ok(1) [OF 1(2)] 1(3)] by simp }
  { case 2
    have "dlist (heap_op head p h) other ys"
      using dlist_frame [OF 2(1)] heap_op_frame(1) [OF 2(3) ok(1) [OF 2(4)] 2(5)] 2(2) by blast
    then show ?case
      using Cons.IH(2) [OF _ 2(2) heap_op_seq [OF 2(3) ok(1) [OF 2(4)]] ok(2) [OF 2(4)]]
        heap_op_frame(2) [OF 2(3) ok(1) [OF 2(4)] 2(5)] by simp }
qed simp_all

text \<open>C36. The operations of \<^verbatim>\<open>list.h\<close> implement sequences: after any series of additions at either
  end, removals and replacements that respects the source's rules, iterating over the head terminates
  and visits exactly the nodes of the sequence to which the same operations were applied, and every
  other list in memory is as before.\<close>

theorem list_ops_refine:
  assumes "dlist h head xs" and "set (head # xs) \<inter> R = {}" and "ops_ok head R ps xs"
  defines "h' \<equiv> fold (heap_op head) ps h"
  shows "list_for_each head h' = Some (fold seq_op ps xs) \<and> dlist h' head (fold seq_op ps xs)
    \<and> (\<forall>other ys. set (other # ys) \<subseteq> R \<longrightarrow> dlist h other ys \<longrightarrow> dlist h' other ys)"
  using heap_ops_seq [OF assms(1,3,2)] dlist_for_each unfolding h'_def by blast

theorem list_ops_refine_witness:
  "list_for_each 1 (fold (heap_op 1) [Add 2, AddTail 3, Add 4, Replace 2 5, Del 4]
     (INIT_LIST_HEAD 1 \<lparr>prev = \<lambda>_. 0, nxt = \<lambda>_. 0\<rparr>)) = Some [5, 3]"
  using list_ops_refine [OF dlist_init, of 1 "{}" "[Add 2, AddTail 3, Add 4, Replace 2 5, Del 4]"] by simp

lemma splice_touches:
  assumes l: "dlist h list xs" and d: "dlist h head ys"
  shows "touches h (list_splice list head h) \<subseteq> set (list # xs) \<union> set (head # ys)"
proof -
  have "touches h (list_splice list head h) \<subseteq> {nxt h list, prev h list, head, nxt h head}"
    by (auto simp: touches_def list_splice_def list_splice_between_def Let_def split: if_splits)
  then show ?thesis using dlist_near [OF l, of list] dlist_near [OF d, of head] by auto
qed

text \<open>C37. Splicing (\<^verbatim>\<open>list_splice\<close>) puts the nodes of one list, in order, before those of another list
  with other nodes: the result is a well-linked list in both directions, the iteration over it visits
  both, and every list without a node of the two is as before.\<close>

theorem list_splice_concat:
  assumes "dlist h list xs" and "dlist h head ys" and "set (list # xs) \<inter> set (head # ys) = {}"
  defines "h' \<equiv> list_splice list head h"
  shows "dlist h' head (xs @ ys) \<and> list_for_each head h' = Some (xs @ ys)
    \<and> (\<forall>other zs. set (other # zs) \<inter> (set (list # xs) \<union> set (head # ys)) = {} \<longrightarrow> dlist h other zs \<longrightarrow> dlist h' other zs)"
proof (intro conjI allI impI)
  show "dlist h' head (xs @ ys)" unfolding h'_def by (rule dlist_splice [OF assms(1-3)])
  then show "list_for_each head h' = Some (xs @ ys)" by (rule dlist_for_each)
  show "dlist h' other zs" if "set (other # zs) \<inter> (set (list # xs) \<union> set (head # ys)) = {}" "dlist h other zs" for other zs
    using dlist_frame [OF that(2), of h'] splice_touches [OF assms(1,2), folded h'_def] that(1) by blast
qed

theorem list_splice_concat_witness:
  "list_for_each 1 (list_splice 9 1 (list_add 8 9 (list_add 2 1
     (INIT_LIST_HEAD 9 (INIT_LIST_HEAD 1 \<lparr>prev = \<lambda>_. 0, nxt = \<lambda>_. 0\<rparr>))))) = Some [8, 2]"
  by (rule list_splice_concat [of _ 9 "[8]" 1 "[2]", simplified, THEN conjunct2, THEN conjunct1])
    (simp_all add: dlist_def list_add_def list_add_between_def INIT_LIST_HEAD_def)

text \<open>Series of operations on the bucket of a hash table.\<close>

datatype hlist_op = HAdd addr | HDel addr

fun bucket_op :: "addr \<Rightarrow> hlist_op \<Rightarrow> hlist_heap \<Rightarrow> hlist_heap outcome" where
  "bucket_op p (HAdd n) h = Inr (hlist_add_head n p h)"
| "bucket_op p (HDel n) h = hlist_del_init n h"

fun bucket_seq :: "hlist_op \<Rightarrow> addr list \<Rightarrow> addr list" where
  "bucket_seq (HAdd n) xs = n # xs"
| "bucket_seq (HDel n) xs = remove1 n xs"

fun bucket_ok :: "hlist_op list \<Rightarrow> addr list \<Rightarrow> bool" where
  "bucket_ok [] xs \<longleftrightarrow> True"
| "bucket_ok (HAdd n # ps) xs \<longleftrightarrow> n \<noteq> 0 \<and> n \<notin> set xs \<and> bucket_ok ps (n # xs)"
| "bucket_ok (HDel n # ps) xs \<longleftrightarrow> n \<in> set xs \<and> bucket_ok ps (remove1 n xs)"

primrec bucket_run :: "addr \<Rightarrow> hlist_op list \<Rightarrow> hlist_heap \<Rightarrow> hlist_heap outcome" where
  "bucket_run p [] h = Inr h"
| "bucket_run p (b # bs) h = obind (bucket_op p b h) (bucket_run p bs)"

lemma bucket_op_seq:
  assumes "hlist h p xs" "bucket_ok (b # bs) xs"
  shows "\<exists>h'. bucket_op p b h = Inr h' \<and> hlist h' p (bucket_seq b xs) \<and> bucket_ok bs (bucket_seq b xs)"
proof (cases b)
  case (HDel n)
  then obtain as cs where "xs = as @ n # cs" "remove1 n xs = as @ cs" using assms(2) by (auto elim: remove1_split)
  then show ?thesis using hlist_del [of h p as n cs] assms HDel by auto
qed (use assms hlist_add in auto)

text \<open>C38. The hash list of a bucket: for every series of additions of nodes that are not on the list and
  removals (\<^verbatim>\<open>hlist_del_init\<close>) of nodes that are, no operation goes wrong, the chain stays linked forwards and
  backwards (each node points back to the field that points to it), and the iteration visits exactly the
  nodes of the sequence to which the same operations were applied, the added nodes in front.\<close>

theorem hlist_ops_correct:
  assumes "hlist h p xs" and "bucket_ok bs xs"
  shows "\<exists>h'. bucket_run p bs h = Inr h' \<and> hlist h' p (fold bucket_seq bs xs)
     \<and> hlist_for_each p h' = Some (fold bucket_seq bs xs)"
  using assms
proof (induction bs arbitrary: h xs)
  case (Cons b bs)
  then show ?case using bucket_op_seq [OF Cons.prems] by fastforce
qed (simp add: hlist_for_each_ok)

theorem hlist_ops_correct_witness:
  "\<exists>h'. bucket_run 1 [HAdd 2, HAdd 3, HAdd 4, HDel 3] \<lparr>cell = \<lambda>_. 0, pprev = \<lambda>_. None\<rparr> = Inr h'
     \<and> hlist h' 1 [4, 2] \<and> hlist_for_each 1 h' = Some [4, 2]"
  using hlist_ops_correct [of "\<lparr>cell = \<lambda>_. 0, pprev = \<lambda>_. None\<rparr>" 1 "[]" "[HAdd 2, HAdd 3, HAdd 4, HDel 3]"]
  by (simp add: hlist_def)

end
