(* ===== verification/Memblock.thy ===== *)
theory Memblock
  imports KString KBits
begin

text \<open>
  The boot memory allocator: \<^verbatim>\<open>src/memblock/memblock.c\<close> and \<^verbatim>\<open>src/include/memblock.h\<close>. It keeps two
  sorted arrays of physical ranges, \<open>memory\<close> and \<open>reserved\<close>, allocates from the difference top down,
  and finally hands the difference to the page allocator. The array of a \<^verbatim>\<open>struct memblock_type\<close> is
  the list of its first \<^verbatim>\<open>cnt\<close> entries, so \<^verbatim>\<open>cnt\<close> is the length of the list; \<open>max_cnt\<close> is \<^verbatim>\<open>max\<close>. The
  iterators keep the packed 64-bit index of the source. The calls through the function pointers
  \<^verbatim>\<open>free_pages_core_fn\<close> and \<^verbatim>\<open>reserve_bootmem_region_fn\<close> are recorded in order as a list; \<^verbatim>\<open>init_module\<close> of
  the page allocator sets both pointers before it calls \<^verbatim>\<open>memblock_free_all\<close>, so the checks that they are not null
  are left out.
\<close>

section \<open>Definitions\<close>

subsection \<open>State\<close>

record memblock_region =
  rg_base :: u64
  rg_size :: u64

record memblock_type =
  max_cnt :: nat
  total_size :: u64
  regions :: "memblock_region list"

abbreviation cnt :: "memblock_type \<Rightarrow> nat" where
  "cnt t \<equiv> length (regions t)"

text \<open>\<open>struct memblock\<close> with the file's static \<^verbatim>\<open>_memblock_stopped\<close>, \<^verbatim>\<open>_totalram_pages\<close> and
  \<^verbatim>\<open>reset_managed_pages_done\<close>.\<close>

record memblock =
  bottom_up :: bool
  current_limit :: u64
  memory :: memblock_type
  reserved :: memblock_type
  memblock_stopped :: bool
  totalram_pages :: u64
  reset_managed_pages_done :: bool

definition region :: "u64 \<Rightarrow> u64 \<Rightarrow> memblock_region" where
  "region b s = \<lparr>rg_base = b, rg_size = s\<rparr>"

definition rg_end :: "memblock_region \<Rightarrow> u64" where
  "rg_end r = rg_base r + rg_size r"

definition memblock_init :: memblock where
  "memblock_init =
     (let empty = \<lparr>max_cnt = 128, total_size = 0, regions = [region 0 0]\<rparr>
      in \<lparr>bottom_up = False, current_limit = - 1, memory = empty, reserved = empty,
          memblock_stopped = False, totalram_pages = 0, reset_managed_pages_done = False\<rparr>)"

subsection \<open>Adding a range\<close>

definition memblock_cap_size :: "u64 \<Rightarrow> u64 \<Rightarrow> u64" where
  "memblock_cap_size base sz = min sz (- 1 - base)"

definition memblock_insert_region :: "memblock_type \<Rightarrow> nat \<Rightarrow> u64 \<Rightarrow> u64 \<Rightarrow> memblock_type" where
  "memblock_insert_region t idx base sz =
     t\<lparr>regions := take idx (regions t) @ [region base sz] @ drop idx (regions t),
       total_size := total_size t + sz\<rparr>"

function merge_loop :: "memblock_region list \<Rightarrow> nat \<Rightarrow> memblock_region list" where
  "merge_loop rs i =
     (if i + 1 < length rs
      then let this = rs ! i; nxt = rs ! (i + 1)
           in if rg_base this + rg_size this \<noteq> rg_base nxt then merge_loop rs (i + 1)
              else merge_loop (take i rs @ [region (rg_base this) (rg_size this + rg_size nxt)]
                               @ drop (i + 2) rs) i
      else rs)"
  by pat_completeness auto
termination
  by (relation "measure (\<lambda>(rs, i). 2 * length rs - i)") auto

declare merge_loop.simps [simp del]

definition memblock_merge_regions :: "memblock_type \<Rightarrow> memblock_type" where
  "memblock_merge_regions t = t\<lparr>regions := merge_loop (regions t) 0\<rparr>"

text \<open>The \<^verbatim>\<open>for_each_memblock_type\<close> loop of \<^verbatim>\<open>memblock_add_range\<close>. It returns the array, the index where
  it stopped, the part of the range that is left and the number of regions needed.\<close>

function add_range_loop ::
  "bool \<Rightarrow> u64 \<Rightarrow> memblock_type \<Rightarrow> nat \<Rightarrow> u64 \<Rightarrow> nat \<Rightarrow> memblock_type \<times> nat \<times> u64 \<times> nat" where
  "add_range_loop ins lim t idx base nr_new =
     (if idx < cnt t
      then let rgn = regions t ! idx; rbase = rg_base rgn; rend = rbase + rg_size rgn
           in if rbase \<ge> lim then (t, idx, base, nr_new)
              else if rend \<le> base then add_range_loop ins lim t (idx + 1) base nr_new
              else if rbase > base
              then (if ins
                    then add_range_loop ins lim (memblock_insert_region t idx base (rbase - base))
                           (idx + 1 + 1) (min rend lim) (nr_new + 1)
                    else add_range_loop ins lim t (idx + 1) (min rend lim) (nr_new + 1))
              else add_range_loop ins lim t (idx + 1) (min rend lim) nr_new
      else (t, idx, base, nr_new))"
  by pat_completeness auto
termination
  by (relation "measure (\<lambda>(ins, lim, t, idx, base, nr). cnt t - idx)")
    (auto simp: memblock_insert_region_def)

declare add_range_loop.simps [simp del]

text \<open>One pass from the label \<^verbatim>\<open>repeat\<close> to the test of \<^verbatim>\<open>nr_new\<close>.\<close>

definition add_range_pass :: "bool \<Rightarrow> u64 \<Rightarrow> u64 \<Rightarrow> memblock_type \<Rightarrow> memblock_type \<times> nat" where
  "add_range_pass ins obase lim t =
     (let (t, idx, base, nr_new) = add_range_loop ins lim t 0 obase 0
      in if base < lim
         then (if ins then memblock_insert_region t idx base (lim - base) else t, nr_new + 1)
         else (t, nr_new))"

definition memblock_add_range :: "memblock_type \<Rightarrow> u64 \<Rightarrow> u64 \<Rightarrow> memblock_type outcome" where
  "memblock_add_range t base sz =
     (let sz = memblock_cap_size base sz; lim = base + sz
      in if sz = 0 then Inr t
         else if rg_size (regions t ! 0) = 0
         then Inr (t\<lparr>regions := (regions t)[0 := region base sz], total_size := sz\<rparr>)
         else let (t, nr_new) = add_range_pass False base lim t
              in if nr_new = 0 then Inr t
                 else if cnt t + nr_new > max_cnt t then Inl Panic
                 else let (t, nr_new) = add_range_pass True base lim t
                      in if nr_new = 0 then Inr t else Inr (memblock_merge_regions t))"

definition memblock_add :: "memblock \<Rightarrow> u64 \<Rightarrow> u64 \<Rightarrow> memblock outcome" where
  "memblock_add mb base sz =
     map_sum id (\<lambda>t. mb\<lparr>memory := t\<rparr>) (memblock_add_range (memory mb) base sz)"

definition memblock_reserve :: "memblock \<Rightarrow> u64 \<Rightarrow> u64 \<Rightarrow> memblock outcome" where
  "memblock_reserve mb base sz =
     map_sum id (\<lambda>t. mb\<lparr>reserved := t\<rparr>) (memblock_add_range (reserved mb) base sz)"

subsection \<open>Iterating over free ranges\<close>

text \<open>\<^verbatim>\<open>(u32)idx_a | (u64)idx_b << 32\<close> and its inverse.\<close>

definition pack_idx :: "int \<Rightarrow> int \<Rightarrow> u64" where
  "pack_idx a b = ucast (word_of_int a :: u32) OR push_bit 32 (word_of_int b)"

definition unpack_a :: "u64 \<Rightarrow> int" where
  "unpack_a i = sint (ucast i :: u32)"

definition unpack_b :: "u64 \<Rightarrow> int" where
  "unpack_b i = sint (ucast (drop_bit 32 i) :: u32)"

text \<open>The gap before the reservation \<open>b\<close>; the last gap reaches to \<^verbatim>\<open>PHYS_ADDR_MAX\<close>.\<close>

definition gap_start :: "memblock_type \<Rightarrow> int \<Rightarrow> u64" where
  "gap_start tb b = (if b \<noteq> 0 then rg_end (regions tb ! nat (b - 1)) else 0)"

definition gap_end :: "memblock_type \<Rightarrow> int \<Rightarrow> u64" where
  "gap_end tb b = (if b < int (cnt tb) then rg_base (regions tb ! nat b) else - 1)"

text \<open>The two nested loops of \<^verbatim>\<open>__next_mem_range_rev\<close>: leaving the inner one, by its \<^verbatim>\<open>break\<close> or its
  end, goes on with the next \<open>idx_a\<close> and the same \<open>idx_b\<close>. The result is the range found and the two
  indices to store.\<close>

function next_rev_loop ::
  "memblock_type \<Rightarrow> memblock_type option \<Rightarrow> int \<Rightarrow> int \<Rightarrow> ((u64 \<times> u64) \<times> int \<times> int) option" where
  "next_rev_loop ta tb a b =
     (if a \<ge> 0
      then let m = regions ta ! nat a; m_start = rg_base m; m_end = rg_end m
           in case tb of
                None \<Rightarrow> Some ((m_start, m_end), a - 1, b)
              | Some t \<Rightarrow>
                  (if b \<ge> 0
                   then let r_start = gap_start t b; r_end = gap_end t b
                        in if r_end \<le> m_start then next_rev_loop ta tb (a - 1) b
                           else if m_end > r_start
                           then Some ((max m_start r_start, min m_end r_end),
                                      if m_start \<ge> r_start then (a - 1, b) else (a, b - 1))
                           else next_rev_loop ta tb a (b - 1)
                   else next_rev_loop ta tb (a - 1) b)
      else None)"
  by pat_completeness auto
termination
  by (relation "measure (\<lambda>(ta, tb, a, b). nat (a + 1) + nat (b + 1))") auto

declare next_rev_loop.simps [simp del]

definition next_mem_range_rev ::
  "memblock_type \<Rightarrow> memblock_type option \<Rightarrow> u64 \<Rightarrow> u64 \<times> (u64 \<times> u64) option" where
  "next_mem_range_rev ta tb idx =
     (let (a, b) = (if idx = - 1
                    then (int (cnt ta) - 1, case tb of Some t \<Rightarrow> int (cnt t) | None \<Rightarrow> 0)
                    else (unpack_a idx, unpack_b idx))
      in case next_rev_loop ta tb a b of
           Some (rng, a, b) \<Rightarrow> (pack_idx a b, Some rng)
         | None \<Rightarrow> (- 1, None))"

function next_loop ::
  "memblock_type \<Rightarrow> memblock_type option \<Rightarrow> int \<Rightarrow> int \<Rightarrow> ((u64 \<times> u64) \<times> int \<times> int) option" where
  "next_loop ta tb a b =
     (if a < int (cnt ta)
      then let m = regions ta ! nat a; m_start = rg_base m; m_end = rg_end m
           in case tb of
                None \<Rightarrow> Some ((m_start, m_end), a + 1, b)
              | Some t \<Rightarrow>
                  (if b < int (cnt t) + 1
                   then let r_start = gap_start t b; r_end = gap_end t b
                        in if r_start \<ge> m_end then next_loop ta tb (a + 1) b
                           else if m_start < r_end
                           then Some ((max m_start r_start, min m_end r_end),
                                      if m_end \<le> r_end then (a + 1, b) else (a, b + 1))
                           else next_loop ta tb a (b + 1)
                   else next_loop ta tb (a + 1) b)
      else None)"
  by pat_completeness auto
termination
  by (relation "measure (\<lambda>(ta, tb, a, b).
        nat (int (cnt ta) - a) + (case tb of Some t \<Rightarrow> nat (int (cnt t) + 1 - b) | None \<Rightarrow> 0))") auto

declare next_loop.simps [simp del]

definition next_mem_range ::
  "memblock_type \<Rightarrow> memblock_type option \<Rightarrow> u64 \<Rightarrow> u64 \<times> (u64 \<times> u64) option" where
  "next_mem_range ta tb idx =
     (case next_loop ta tb (unpack_a idx) (unpack_b idx) of
        Some (rng, a, b) \<Rightarrow> (pack_idx a b, Some rng)
      | None \<Rightarrow> (- 1, None))"

definition next_reserved_mem_region :: "memblock \<Rightarrow> u64 \<Rightarrow> u64 \<times> (u64 \<times> u64) option" where
  "next_reserved_mem_region mb idx =
     (if unat idx < cnt (reserved mb)
      then let r = regions (reserved mb) ! unat idx
           in (idx + 1, Some (rg_base r, rg_base r + rg_size r - 1))
      else (- 1, None))"

definition PFN_UP :: "u64 \<Rightarrow> u64" where "PFN_UP x = drop_bit 12 (x + 4096 - 1)"
definition PFN_DOWN :: "u64 \<Rightarrow> u64" where "PFN_DOWN x = drop_bit 12 x"

text \<open>\<^verbatim>\<open>__next_mem_pfn_range\<close>: the next region that holds at least one whole page.\<close>

function next_mem_pfn_range :: "memblock \<Rightarrow> int \<Rightarrow> int \<times> (u64 \<times> u64) option" where
  "next_mem_pfn_range mb idx =
     (let idx = idx + 1
      in if idx < int (cnt (memory mb))
         then let r = regions (memory mb) ! nat idx
              in if PFN_UP (rg_base r) \<ge> PFN_DOWN (rg_base r + rg_size r) then next_mem_pfn_range mb idx
                 else (idx, Some (PFN_UP (rg_base r), PFN_DOWN (rg_base r + rg_size r)))
         else (- 1, None))"
  by pat_completeness auto
termination
  by (relation "measure (\<lambda>(mb, idx). nat (int (cnt (memory mb)) - idx))") auto

declare next_mem_pfn_range.simps [simp del]

subsection \<open>Allocating\<close>

definition clamp :: "u64 \<Rightarrow> u64 \<Rightarrow> u64 \<Rightarrow> u64" where
  "clamp val lo hi = min (max val lo) hi"

definition round_down :: "u64 \<Rightarrow> u64 \<Rightarrow> u64" where
  "round_down x y = x AND NOT (y - 1)"

partial_function (option) find_top_down_loop ::
  "memblock \<Rightarrow> u64 \<Rightarrow> u64 \<Rightarrow> u64 \<Rightarrow> u64 \<Rightarrow> u64 \<Rightarrow> u64 option" where
  "find_top_down_loop mb start lim sz align idx =
     (case next_mem_range_rev (memory mb) (Some (reserved mb)) idx of
        (i, None) \<Rightarrow> Some 0
      | (i, Some (this_start, this_end)) \<Rightarrow>
          (let this_start = clamp this_start start lim; this_end = clamp this_end start lim
           in if this_end < sz then find_top_down_loop mb start lim sz align i
              else let cand = round_down (this_end - sz) align
                   in if cand \<ge> this_start then Some cand
                      else find_top_down_loop mb start lim sz align i))"

declare find_top_down_loop.simps [code]

definition memblock_find_range_top_down :: "memblock \<Rightarrow> u64 \<Rightarrow> u64 \<Rightarrow> u64 \<Rightarrow> u64 \<Rightarrow> u64 option" where
  "memblock_find_range_top_down mb start lim sz align = find_top_down_loop mb start lim sz align (- 1)"

definition memblock_find_in_range_node :: "memblock \<Rightarrow> u64 \<Rightarrow> u64 \<Rightarrow> u64 option" where
  "memblock_find_in_range_node mb sz align =
     memblock_find_range_top_down mb 4096 (current_limit mb) sz align"

definition memblock_alloc_range_nid :: "memblock \<Rightarrow> u64 \<Rightarrow> u64 \<Rightarrow> (memblock \<times> u64) outcome option" where
  "memblock_alloc_range_nid mb sz align =
     (if memblock_stopped mb then Some (Inl Panic)
      else let align = (if align = 0 then 64 else align)
           in Option.bind (memblock_find_in_range_node mb sz align) (\<lambda>found.
                if found = 0 then Some (Inr (mb, 0))
                else Some (obind (memblock_reserve mb found sz) (\<lambda>mb. Inr (mb, found)))))"

definition memblock_phys_alloc_range :: "memblock \<Rightarrow> u64 \<Rightarrow> u64 \<Rightarrow> (memblock \<times> u64) outcome option" where
  "memblock_phys_alloc_range mb sz align = memblock_alloc_range_nid mb sz align"

text \<open>\<^verbatim>\<open>phys_to_virt\<close> adds the offset \<^verbatim>\<open>va_pa_offset\<close>. A null pointer is address 0.\<close>

definition memblock_alloc_internal ::
  "u64 \<Rightarrow> memblock \<Rightarrow> u64 \<Rightarrow> u64 \<Rightarrow> (memblock \<times> addr) outcome option" where
  "memblock_alloc_internal va_pa_offset mb sz align =
     map_option (\<lambda>r. obind r (\<lambda>(mb, alloc). Inr (mb, if alloc = 0 then 0 else alloc + va_pa_offset)))
       (memblock_alloc_range_nid mb sz align)"

definition memblock_alloc_try_nid ::
  "u64 \<Rightarrow> mem \<Rightarrow> memblock \<Rightarrow> u64 \<Rightarrow> u64 \<Rightarrow> (mem \<times> memblock \<times> addr) outcome option" where
  "memblock_alloc_try_nid va_pa_offset m mb sz align =
     map_option (\<lambda>r. obind r (\<lambda>(mb, ptr). Inr (if ptr \<noteq> 0 then memset m ptr 0 sz else m, mb, ptr)))
       (memblock_alloc_internal va_pa_offset mb sz align)"

definition memblock_start_of_DRAM :: "memblock \<Rightarrow> u64" where
  "memblock_start_of_DRAM mb = rg_base (regions (memory mb) ! 0)"

definition memblock_end_of_DRAM :: "memblock \<Rightarrow> u64" where
  "memblock_end_of_DRAM mb =
     (let idx = cnt (memory mb) - 1
      in rg_base (regions (memory mb) ! idx) + rg_size (regions (memory mb) ! idx))"

subsection \<open>Handing the free memory over\<close>

text \<open>The calls through \<^verbatim>\<open>reserve_bootmem_region_fn\<close> and \<^verbatim>\<open>free_pages_core_fn\<close>, in order. Page frame
  numbers are below \<open>2 ^ 52\<close>, so they are natural numbers here.\<close>

datatype boot_call = ReserveBootmem u64 u64 | FreePagesCore nat nat

primrec shrink_order :: "nat \<Rightarrow> nat \<Rightarrow> nat \<Rightarrow> nat" where
  "shrink_order start lim 0 = 0"
| "shrink_order start lim (Suc ord) =
     (if start + 2 ^ Suc ord > lim then shrink_order start lim ord else Suc ord)"

function free_pages_memory :: "nat \<Rightarrow> nat \<Rightarrow> boot_call list" where
  "free_pages_memory start lim =
     (if start < lim
      then let ord = shrink_order start lim (min 10 (ffs (of_nat start)))
           in FreePagesCore start ord # free_pages_memory (start + 2 ^ ord) lim
      else [])"
  by pat_completeness auto
termination
  by (relation "measure (\<lambda>(start, lim). lim - start)") (auto intro!: diff_less_mono2)

declare free_pages_memory.simps [simp del]

definition free_memory_core :: "u64 \<Rightarrow> u64 \<Rightarrow> u64 \<Rightarrow> boot_call list \<times> u64" where
  "free_memory_core max_low_pfn start lim =
     (let start_pfn = PFN_UP start; end_pfn = min (PFN_DOWN lim) max_low_pfn
      in if start_pfn \<ge> end_pfn then ([], 0)
         else (free_pages_memory (unat start_pfn) (unat end_pfn), end_pfn - start_pfn))"

partial_function (option) reserve_all_loop :: "memblock \<Rightarrow> u64 \<Rightarrow> boot_call list option" where
  "reserve_all_loop mb idx =
     (case next_reserved_mem_region mb idx of
        (i, None) \<Rightarrow> Some []
      | (i, Some (start, lim)) \<Rightarrow>
          Option.bind (reserve_all_loop mb i) (\<lambda>calls. Some (ReserveBootmem start lim # calls)))"

partial_function (option) free_all_loop :: "memblock \<Rightarrow> u64 \<Rightarrow> u64 \<Rightarrow> (boot_call list \<times> u64) option" where
  "free_all_loop mb max_low_pfn idx =
     (case next_mem_range (memory mb) (Some (reserved mb)) idx of
        (i, None) \<Rightarrow> Some ([], 0)
      | (i, Some (start, lim)) \<Rightarrow>
          (let (calls, n) = free_memory_core max_low_pfn start lim
           in Option.bind (free_all_loop mb max_low_pfn i) (\<lambda>(calls', n'). Some (calls @ calls', n + n'))))"

definition free_low_memory_core_early :: "memblock \<Rightarrow> u64 \<Rightarrow> (boot_call list \<times> u64) option" where
  "free_low_memory_core_early mb max_low_pfn =
     Option.bind (reserve_all_loop mb 0) (\<lambda>res.
       map_option (\<lambda>(calls, count). (res @ calls, count)) (free_all_loop mb max_low_pfn 0))"

text \<open>\<^verbatim>\<open>memblock_free_all\<close>: the new state, the calls made and the number of pages released.
  \<^verbatim>\<open>reset_all_zones_managed_pages\<close> zeroes the zone counters once; here it sets its flag.\<close>

definition memblock_free_all :: "memblock \<Rightarrow> u64 \<Rightarrow> (memblock \<times> boot_call list \<times> u64) outcome option" where
  "memblock_free_all mb max_low_pfn =
     (if memblock_stopped mb then Some (Inl Panic)
      else let mb = mb\<lparr>memblock_stopped := True, reset_managed_pages_done := True\<rparr>
           in map_option (\<lambda>(calls, pages).
                Inr (mb\<lparr>totalram_pages := totalram_pages mb + pages\<rparr>, calls, pages))
                (free_low_memory_core_early mb max_low_pfn))"

section \<open>Region lists\<close>

lemma region_simps [simp]: "rg_base (region b s) = b" "rg_size (region b s) = s" "rg_end (region b s) = b + s"
  by (simp_all add: region_def rg_end_def)

text \<open>The addresses a list of regions covers.\<close>

definition cover :: "memblock_region list \<Rightarrow> u64 set" where
  "cover rs = (\<Union>r \<in> set rs. {rg_base r..<rg_end r})"

lemma cover_simps [simp]:
  "cover [] = {}" "cover (r # rs) = {rg_base r..<rg_end r} \<union> cover rs" "cover (xs @ ys) = cover xs \<union> cover ys"
  by (auto simp: cover_def)

text \<open>\<open>sorted_from lo rs\<close>: the regions are not empty, do not wrap around, and follow each other from
  \<open>lo\<close> upwards without overlap. \<open>separated\<close>: no two of them touch.\<close>

fun sorted_from :: "u64 \<Rightarrow> memblock_region list \<Rightarrow> bool" where
  "sorted_from lo [] \<longleftrightarrow> True"
| "sorted_from lo (r # rs) \<longleftrightarrow> lo \<le> rg_base r \<and> rg_base r < rg_end r \<and> sorted_from (rg_end r) rs"

fun separated :: "memblock_region list \<Rightarrow> bool" where
  "separated (r # s # rs) \<longleftrightarrow> rg_end r < rg_base s \<and> separated (s # rs)"
| "separated rs \<longleftrightarrow> True"

lemma sorted_from_weaken: "sorted_from lo rs \<Longrightarrow> lo' \<le> lo \<Longrightarrow> sorted_from lo' rs"
  by (cases rs) auto

lemma sorted_from_cover: "sorted_from lo rs \<Longrightarrow> x \<in> cover rs \<Longrightarrow> lo \<le> x"
proof (induction rs arbitrary: lo)
  case (Cons r rs)
  then show ?case
    by (cases "x \<in> cover rs") (auto dest: order.trans order.strict_implies_order)
qed simp

definition sizes :: "memblock_region list \<Rightarrow> u64" where
  "sizes rs = sum_list (map rg_size rs)"

subsection \<open>Spreading a range over a list\<close>

text \<open>What the two passes of \<^verbatim>\<open>memblock_add_range\<close> do, as one function on the list.\<close>

fun spread :: "u64 \<Rightarrow> u64 \<Rightarrow> memblock_region list \<Rightarrow> memblock_region list" where
  "spread base lim [] = (if base < lim then [region base (lim - base)] else [])"
| "spread base lim (r # rs) =
     (if rg_base r \<ge> lim then (if base < lim then region base (lim - base) # r # rs else r # rs)
      else if rg_end r \<le> base then r # spread base lim rs
      else (if rg_base r > base then [region base (rg_base r - base)] else [])
           @ r # spread (min (rg_end r) lim) lim rs)"

definition finish_pass :: "bool \<Rightarrow> u64 \<Rightarrow> memblock_type \<times> nat \<times> u64 \<times> nat \<Rightarrow> memblock_type \<times> nat" where
  "finish_pass ins lim = (\<lambda>(t, idx, base, nr_new).
     if base < lim
     then (if ins then memblock_insert_region t idx base (lim - base) else t, nr_new + 1)
     else (t, nr_new))"

lemma add_range_pass_finish:
  "add_range_pass ins base lim t = finish_pass ins lim (add_range_loop ins lim t 0 base 0)"
  by (simp add: add_range_pass_def finish_pass_def split_def Let_def)

lemma spread_length: "length rs \<le> length (spread base lim rs)"
  by (induction rs arbitrary: base) (auto simp: le_SucI)

lemma count_pass:
  assumes "regions t = pre @ rest"
  shows "finish_pass False lim (add_range_loop False lim t (length pre) base nr)
       = (t, nr + (length (spread base lim rest) - length rest))"
  using assms
proof (induction rest arbitrary: pre base nr)
  case Nil
  then show ?case by (simp add: add_range_loop.simps finish_pass_def)
next
  case (Cons r rest)
  have IH: "finish_pass False lim (add_range_loop False lim t (Suc (length pre)) base nr)
       = (t, nr + (length (spread base lim rest) - length rest))" for base nr
    using Cons.IH [of "pre @ [r]" base nr] Cons.prems by simp
  note len = spread_length [of rest]
  have r: "regions t ! length pre = r" "length pre < cnt t" using Cons.prems by simp_all
  have brk: "finish_pass False lim (t, length pre, base, nr) = (if base < lim then (t, nr + 1) else (t, nr))"
    by (simp add: finish_pass_def)
  show ?case
    using r IH len [of "min (rg_end r) lim" lim] len [of base lim] brk
    by (subst add_range_loop.simps) (auto simp: Let_def rg_end_def Suc_diff_le)
qed

lemma insert_pass:
  assumes "regions t = pre @ rest"
  shows "finish_pass True lim (add_range_loop True lim t (length pre) base nr)
       = (t\<lparr>regions := pre @ spread base lim rest,
            total_size := total_size t + (sizes (spread base lim rest) - sizes rest)\<rparr>,
          nr + (length (spread base lim rest) - length rest))"
  using assms
proof (induction rest arbitrary: t pre base nr)
  case Nil
  then show ?case
    by (simp add: add_range_loop.simps finish_pass_def memblock_insert_region_def sizes_def)
next
  case (Cons r rest)
  have IH: "finish_pass True lim (add_range_loop True lim t' (Suc (length pre')) base nr)
       = (t'\<lparr>regions := pre' @ r # spread base lim rest,
            total_size := total_size t' + (sizes (spread base lim rest) - sizes rest)\<rparr>,
          nr + (length (spread base lim rest) - length rest))"
    if "regions t' = pre' @ r # rest" for t' pre' base nr
    using Cons.IH [of t' "pre' @ [r]" base nr] that by simp
  note len = spread_length [of rest]
  have r: "regions t ! length pre = r" "length pre < cnt t" using Cons.prems by simp_all
  have ins: "regions (memblock_insert_region t (length pre) b s) = (pre @ [region b s]) @ r # rest" for b s
    using Cons.prems by (simp add: memblock_insert_region_def)
  let ?gap = "region base (rg_base r - base)"
  have brk: "finish_pass True lim (t, length pre, base, nr)
      = (if base < lim then (memblock_insert_region t (length pre) base (lim - base), nr + 1) else (t, nr))"
    by (simp add: finish_pass_def)
  consider "rg_base r \<ge> lim" | "\<not> rg_base r \<ge> lim" "rg_end r \<le> base"
    | "\<not> rg_base r \<ge> lim" "\<not> rg_end r \<le> base" "rg_base r > base"
    | "\<not> rg_base r \<ge> lim" "\<not> rg_end r \<le> base" "\<not> rg_base r > base"
    by blast
  then show ?case
  proof cases
    case 1
    then show ?thesis using r brk Cons.prems
      by (subst add_range_loop.simps) (auto simp: memblock_insert_region_def sizes_def)
  next
    case 2
    then show ?thesis using r IH [OF Cons.prems, of base nr]
      by (subst add_range_loop.simps) (simp add: Let_def rg_end_def sizes_def)
  next
    case 3
    have "add_range_loop True lim t (length pre) base nr
        = add_range_loop True lim (memblock_insert_region t (length pre) base (rg_base r - base))
            (Suc (length (pre @ [?gap]))) (min (rg_end r) lim) (nr + 1)"
      using 3 r by (subst add_range_loop.simps) (simp add: Let_def rg_end_def)
    then show ?thesis
      using 3 IH [OF ins [of base "rg_base r - base"], of "min (rg_end r) lim" "nr + 1"] len [of "min (rg_end r) lim" lim]
      unfolding \<open>add_range_loop True lim t (length pre) base nr = _\<close>
      by (simp add: memblock_insert_region_def sizes_def Suc_diff_le algebra_simps)
  next
    case 4
    then show ?thesis using r IH [OF Cons.prems, of "min (rg_end r) lim" nr]
      by (subst add_range_loop.simps) (simp add: Let_def rg_end_def sizes_def)
  qed
qed

lemma spread_above:
  assumes "sorted_from lo rs" and "lim \<le> lo"
  shows "spread base lim rs = (if base < lim then region base (lim - base) # rs else rs)"
  using assms by (cases rs) (auto dest: order.trans)

lemma interval_glue:
  fixes b r e lim :: "'a::linorder"
  assumes "b < e" and "r < lim"
  shows "(if b < r then {b..<r} else {}) \<union> {r..<e} \<union> {min e lim..<lim} = {r..<e} \<union> {b..<lim}"
proof (rule set_eqI)
  fix x
  show "x \<in> (if b < r then {b..<r} else {}) \<union> {r..<e} \<union> {min e lim..<lim} \<longleftrightarrow> x \<in> {r..<e} \<union> {b..<lim}"
    using assms by (cases "x < r"; cases "x < e"; cases "x < lim"; cases "b \<le> x")
      (auto simp: min_le_iff_disj)
qed

lemma spread_cover:
  assumes "sorted_from lo rs" and "base \<le> lim"
  shows "cover (spread base lim rs) = cover rs \<union> {base..<lim}"
  using assms
proof (induction rs arbitrary: lo base)
  case (Cons r rs)
  show ?case
  proof (cases "rg_base r \<ge> lim")
    case False
    show ?thesis
    proof (cases "rg_end r \<le> base")
      case True
      then show ?thesis using Cons.IH [of "rg_end r" base] Cons.prems False by auto
    next
      case ov: False
      have "cover (spread (min (rg_end r) lim) lim rs) = cover rs \<union> {min (rg_end r) lim..<lim}"
        using Cons.prems by (intro Cons.IH [of "rg_end r"]) auto
      then have "cover (spread base lim (r # rs)) =
          ((if base < rg_base r then {base..<rg_base r} else {}) \<union> {rg_base r..<rg_end r}
           \<union> {min (rg_end r) lim..<lim}) \<union> cover rs"
        using False ov by auto
      also have "\<dots> = {rg_base r..<rg_end r} \<union> {base..<lim} \<union> cover rs"
        using False ov by (subst interval_glue) auto
      finally show ?thesis by auto
    qed
  qed (auto simp: Cons.prems)
qed auto

lemma spread_sorted:
  assumes "sorted_from lo rs" and "lo \<le> base" and "base \<le> lim"
  shows "sorted_from lo (spread base lim rs)"
  using assms
proof (induction rs arbitrary: lo base)
  case (Cons r rs)
  have r: "lo \<le> rg_base r" "rg_base r < rg_end r" "sorted_from (rg_end r) rs" using Cons.prems by auto
  show ?case
  proof (cases "rg_base r \<ge> lim")
    case True
    then show ?thesis using Cons.prems by auto
  next
    case False
    have tail: "sorted_from (rg_end r) (spread (min (rg_end r) lim) lim rs)"
    proof (cases "rg_end r \<le> lim")
      case True
      then show ?thesis using Cons.IH [OF r(3), of "rg_end r"] by (simp add: min_def)
    next
      case above: False
      then show ?thesis using spread_above [OF r(3), of lim lim] r(3) by (simp add: min_def)
    qed
    show ?thesis
    proof (cases "rg_end r \<le> base")
      case True
      then show ?thesis using Cons.IH [OF r(3) True Cons.prems(3)] r False by simp
    qed (use False r tail Cons.prems(2) in auto)
  qed
qed auto

subsection \<open>Merging neighbours\<close>

fun merged :: "memblock_region list \<Rightarrow> memblock_region list" where
  "merged (r # s # rs) =
     (if rg_base r + rg_size r \<noteq> rg_base s then r # merged (s # rs)
      else merged (region (rg_base r) (rg_size r + rg_size s) # rs))"
| "merged rs = rs"

lemma merge_loop_merged: "merge_loop (pre @ rs) (length pre) = pre @ merged rs"
proof (induction rs arbitrary: pre rule: merged.induct)
  case (1 r s rs)
  then show ?case
    using "1.IH"(1) [of "pre @ [r]"] "1.IH"(2) [of pre]
    by (subst merge_loop.simps) (auto simp: nth_append)
qed (subst merge_loop.simps; simp)+

lemma merged_props:
  "sorted_from lo rs \<Longrightarrow>
     cover (merged rs) = cover rs \<and> sorted_from lo (merged rs) \<and> separated (merged rs)
     \<and> sizes (merged rs) = sizes rs \<and> length (merged rs) \<le> length rs \<and> (merged rs = [] \<longleftrightarrow> rs = [])
     \<and> (rs \<noteq> [] \<longrightarrow> rg_base (hd (merged rs)) = rg_base (hd rs))"
proof (induction rs arbitrary: lo rule: merged.induct)
  case (1 r s rs)
  show ?case
  proof (cases "rg_base r + rg_size r = rg_base s")
    case True
    let ?t = "region (rg_base r) (rg_size r + rg_size s)"
    have e: "rg_end ?t = rg_end s" "rg_end r = rg_base s" using True by (simp_all add: rg_end_def add.assoc [symmetric])
    then have "sorted_from lo (?t # rs)" using "1.prems" by auto
    moreover have "cover (?t # rs) = cover (r # s # rs)" using e "1.prems" by auto
    ultimately show ?thesis
      using "1.IH"(2) [of lo] True by (auto simp: sizes_def add.assoc)
  next
    case False
    have "rg_end r < rg_base s" using False "1.prems" by (auto simp: rg_end_def order_less_le)
    moreover obtain u us where "merged (s # rs) = u # us" "rg_base u = rg_base s"
      using "1.IH"(1) [OF False, of "rg_end r"] "1.prems" by (cases "merged (s # rs)") auto
    ultimately show ?thesis
      using "1.IH"(1) [OF False, of "rg_end r"] "1.prems" False by (auto simp: sizes_def)
  qed
qed auto

subsection \<open>The invariant\<close>

text \<open>The invariant of a \<^verbatim>\<open>struct memblock_type\<close>: sorted, disjoint, merged regions that fit into the
  array, or the single empty entry of a fresh array; \<^verbatim>\<open>total_size\<close> is the sum of the sizes.\<close>

definition wf_type :: "memblock_type \<Rightarrow> bool" where
  "wf_type t \<longleftrightarrow>
     total_size t = sizes (regions t) \<and> cnt t \<le> max_cnt t \<and>
     (regions t = [region 0 0] \<or> regions t \<noteq> [] \<and> sorted_from 0 (regions t) \<and> separated (regions t))"

lemma cap_no_wrap: "base \<le> base + memblock_cap_size base sz"
proof -
  have "unat (memblock_cap_size base sz) \<le> unat (- 1 - base)"
    unfolding word_le_nat_alt [symmetric] by (simp add: memblock_cap_size_def)
  also have "unat (- 1 - base) = 2 ^ 64 - 1 - unat base"
    by (subst unat_sub) (simp_all add: word_n1_ge)
  finally have "unat base + unat (memblock_cap_size base sz) < 2 ^ 64"
    using unat_u64_less [of base] by linarith
  then have "unat (base + memblock_cap_size base sz) = unat base + unat (memblock_cap_size base sz)"
    using unat_add_no_wrap [of base "unat (memblock_cap_size base sz)"] by simp
  then show ?thesis by (simp add: word_le_nat_alt)
qed

lemma add_range_eq:
  assumes "wf_type t" and "sz' = memblock_cap_size base sz" and "regions t \<noteq> [region 0 0]"
  shows "memblock_add_range t base sz =
     (let rs = spread base (base + sz') (regions t)
      in if sz' = 0 \<or> length rs = cnt t then Inr t
         else if length rs > max_cnt t then Inl Panic
         else Inr (t\<lparr>regions := merged rs, total_size := sizes rs\<rparr>))"
proof -
  obtain r rs where r: "regions t = r # rs" "rg_base r < rg_end r"
    using assms by (cases "regions t") (auto simp: wf_type_def)
  then have "rg_size (regions t ! 0) \<noteq> 0" by (auto simp: rg_end_def)
  moreover have "add_range_pass False base (base + sz') t
      = (t, length (spread base (base + sz') (regions t)) - cnt t)"
    using count_pass [of t "[]" "regions t"] by (simp add: add_range_pass_finish)
  moreover have "add_range_pass True base (base + sz') t
      = (t\<lparr>regions := spread base (base + sz') (regions t),
           total_size := sizes (spread base (base + sz') (regions t))\<rparr>,
         length (spread base (base + sz') (regions t)) - cnt t)"
    using insert_pass [of t "[]" "regions t"] assms(1) by (simp add: add_range_pass_finish wf_type_def)
  moreover have "merge_loop (spread base (base + sz') (regions t)) 0 = merged (spread base (base + sz') (regions t))"
    using merge_loop_merged [of "[]"] by simp
  ultimately show ?thesis
    using spread_length [of "regions t" base "base + sz'"]
    by (auto simp: memblock_add_range_def assms(2)[symmetric] Let_def memblock_merge_regions_def)
qed

lemma spread_same_length: "length (spread base lim rs) = length rs \<Longrightarrow> spread base lim rs = rs"
proof (induction rs arbitrary: base)
  case (Cons r rs)
  then show ?case
    using spread_length [of rs base lim] spread_length [of rs "min (rg_end r) lim" lim]
    by (auto split: if_splits)
qed (auto split: if_splits)

text \<open>Adding a range keeps the invariant and adds exactly its addresses, up to the last byte of the
  address space; the only failure is a full array.\<close>

lemma add_range_cases:
  assumes wf: "wf_type t" and "0 < max_cnt t"
  shows "(\<exists>t'. memblock_add_range t base sz = Inr t' \<and> wf_type t' \<and> max_cnt t' = max_cnt t
            \<and> cover (regions t') = cover (regions t) \<union> {base..<base + memblock_cap_size base sz})
     \<or> memblock_add_range t base sz = Inl Panic
        \<and> max_cnt t < length (spread base (base + memblock_cap_size base sz) (regions t))"
proof -
  define sz' where "sz' = memblock_cap_size base sz"
  have le: "base \<le> base + sz'" using cap_no_wrap by (simp add: sz'_def)
  show ?thesis
  proof (cases "regions t = [region 0 0]")
    case True
    show ?thesis
    proof (cases "sz' = 0")
      case zero: True
      then show ?thesis using wf True by (simp add: memblock_add_range_def sz'_def [symmetric])
    next
      case False
      then have "base < base + sz'" using le by (simp add: order_less_le)
      then show ?thesis
        using False True assms(2)
        by (simp add: memblock_add_range_def sz'_def [symmetric] Let_def wf_type_def sizes_def)
    qed
  next
    case False
    define rs where "rs = spread base (base + sz') (regions t)"
    have srt: "sorted_from 0 (regions t)" using wf False by (auto simp: wf_type_def)
    have rs: "cover rs = cover (regions t) \<union> {base..<base + sz'}" "sorted_from 0 rs"
      unfolding rs_def using spread_cover [OF srt le] spread_sorted [OF srt _ le] by auto
    note m = merged_props [OF rs(2)]
    note eq = add_range_eq [OF wf sz'_def False, folded rs_def]
    have ne: "rs \<noteq> []" using spread_length [of "regions t" base "base + sz'"] wf
      by (auto simp: rs_def wf_type_def)
    consider "sz' = 0" | "sz' \<noteq> 0" "length rs = cnt t" | "sz' \<noteq> 0" "length rs \<noteq> cnt t" "length rs > max_cnt t"
      | "sz' \<noteq> 0" "length rs \<noteq> cnt t" "length rs \<le> max_cnt t" by linarith
    then show ?thesis
    proof cases
      case 2
      then have "rs = regions t" unfolding rs_def by (intro spread_same_length) simp
      then show ?thesis using 2 eq wf rs(1) by (simp add: sz'_def [symmetric])
    next
      case 4
      have "wf_type (t\<lparr>regions := merged rs, total_size := sizes rs\<rparr>)"
        using m ne 4(3) by (simp add: wf_type_def)
      then show ?thesis using 4 eq m rs(1) by (simp add: sz'_def [symmetric])
    qed (use eq wf in \<open>simp_all add: sz'_def [symmetric] rs_def\<close>)
  qed
qed

end
