(* ===== verification/Buddy.thy ===== *)
theory Buddy
  imports Memblock
begin

text \<open>
  The page allocator \<^verbatim>\<open>src/buddy/buddy.c\<close> with the parts of \<^verbatim>\<open>src/include/mmzone.h\<close>, \<^verbatim>\<open>mm.h\<close>, \<^verbatim>\<open>page-flags.h\<close>,
  \<^verbatim>\<open>page_ref.h\<close> and \<^verbatim>\<open>gfp.h\<close> it uses. A \<^verbatim>\<open>struct page *\<close> is its page frame number, a natural number; the
  array \<^verbatim>\<open>mem_map\<close> is a function of it. A zone is its index in \<^verbatim>\<open>node_zones\<close>. The free list of an order is
  the list of page frame numbers on it (theory \<open>KList\<close> shows that the links of \<^verbatim>\<open>list.h\<close> are such a
  list). All zones share the single \<^verbatim>\<open>boot_pageset\<close>, as in the source.
\<close>

section \<open>State\<close>

record page_struct =
  pg_flags :: u64
  pg_private :: u64
  page_type :: u32
  pg_refcount :: u32

definition zero_page :: page_struct where
  "zero_page = \<lparr>pg_flags = 0, pg_private = 0, page_type = 0, pg_refcount = 0\<rparr>"

record free_area =
  free_list :: "nat list"
  nr_free :: u64

record zone =
  zone_start_pfn :: u64
  managed_pages :: u64
  spanned_pages :: u64
  present_pages :: u64
  initialized :: bool
  areas :: "nat \<Rightarrow> free_area"

record per_cpu_pages =
  pcp_count :: int
  pcp_high :: int
  pcp_batch :: int
  pcp_lists :: "nat list"

text \<open>\<^verbatim>\<open>contig_page_data\<close>, \<^verbatim>\<open>mem_map\<close> and the other globals. A zone reference is a zone index, or \<^const>\<open>None\<close> for
  the null pointer, with the cached \<^verbatim>\<open>zone_idx\<close>.\<close>

record mm =
  node_zones :: "nat \<Rightarrow> zone"
  zonerefs :: "(nat option \<times> nat) list"
  nr_zones :: nat
  node_start_pfn :: u64
  node_spanned_pages :: u64
  node_present_pages :: u64
  node_mem_map :: addr
  mem_map_ptr :: addr
  mem_map :: "nat \<Rightarrow> page_struct"
  boot_pageset :: per_cpu_pages
  max_mapnr :: u64
  pfn_base :: u64
  va_pa_offset :: u64
  nr_kernel_pages :: u64
  ram :: mem

definition MAX_ORDER :: nat where "MAX_ORDER = 11"
definition MAX_NR_ZONES :: nat where "MAX_NR_ZONES = 3"

abbreviation upd_page :: "nat \<Rightarrow> (page_struct \<Rightarrow> page_struct) \<Rightarrow> mm \<Rightarrow> mm" where
  "upd_page p f m \<equiv> m\<lparr>mem_map := (mem_map m)(p := f (mem_map m p))\<rparr>"

abbreviation upd_zone :: "nat \<Rightarrow> (zone \<Rightarrow> zone) \<Rightarrow> mm \<Rightarrow> mm" where
  "upd_zone z f m \<equiv> m\<lparr>node_zones := (node_zones m)(z := f (node_zones m z))\<rparr>"

section \<open>Pages\<close>

definition PG_reserved :: nat where "PG_reserved = 12"

definition SetPageReserved :: "page_struct \<Rightarrow> page_struct" where
  "SetPageReserved p = p\<lparr>pg_flags := pg_flags p OR push_bit PG_reserved 1\<rparr>"

definition ClearPageReserved :: "page_struct \<Rightarrow> page_struct" where
  "ClearPageReserved p = p\<lparr>pg_flags := pg_flags p AND NOT (push_bit PG_reserved 1)\<rparr>"

definition PAGE_TYPE_BASE :: u32 where "PAGE_TYPE_BASE = 0xf0000000"
definition PG_buddy :: u32 where "PG_buddy = 0x80"

definition PageBuddy :: "page_struct \<Rightarrow> bool" where
  "PageBuddy p \<longleftrightarrow> page_type p AND (PAGE_TYPE_BASE OR PG_buddy) = PAGE_TYPE_BASE"

definition SetPageBuddy :: "page_struct \<Rightarrow> page_struct" where
  "SetPageBuddy p = p\<lparr>page_type := page_type p AND NOT PG_buddy\<rparr>"

definition ClearPageBuddy :: "page_struct \<Rightarrow> page_struct" where
  "ClearPageBuddy p = p\<lparr>page_type := page_type p OR PG_buddy\<rparr>"

definition set_page_private :: "u64 \<Rightarrow> page_struct \<Rightarrow> page_struct" where
  "set_page_private v p = p\<lparr>pg_private := v\<rparr>"

definition set_page_count :: "u32 \<Rightarrow> page_struct \<Rightarrow> page_struct" where
  "set_page_count v p = p\<lparr>pg_refcount := v\<rparr>"

definition set_page_refcounted :: "page_struct \<Rightarrow> page_struct" where
  "set_page_refcounted = set_page_count 1"

text \<open>\<^verbatim>\<open>put_page_testzero\<close>: decrement, and whether the result is 0.\<close>

definition put_page_testzero :: "nat \<Rightarrow> mm \<Rightarrow> bool \<times> mm" where
  "put_page_testzero p m =
     (let c = pg_refcount (mem_map m p) - 1 in (c = 0, upd_page p (set_page_count c) m))"

definition page_order :: "page_struct \<Rightarrow> nat" where
  "page_order p = unat (ucast (pg_private p) :: u32)"

definition page_zonenum :: "page_struct \<Rightarrow> nat" where
  "page_zonenum p = unat (drop_bit 62 (pg_flags p) AND 3)"

definition page_zone_id :: "page_struct \<Rightarrow> nat" where
  "page_zone_id p = unat (drop_bit 62 (pg_flags p) AND 3)"

definition find_buddy_pfn :: "nat \<Rightarrow> nat \<Rightarrow> nat" where
  "find_buddy_pfn page_pfn ord = page_pfn XOR 2 ^ ord"

definition pfn_valid :: "mm \<Rightarrow> nat \<Rightarrow> bool" where
  "pfn_valid m pfn \<longleftrightarrow> of_nat pfn \<ge> pfn_base m \<and> of_nat pfn - pfn_base m < max_mapnr m"

definition page_address :: "mm \<Rightarrow> nat \<Rightarrow> addr" where
  "page_address m pfn = push_bit 12 (of_nat pfn) + va_pa_offset m"

definition virt_to_page :: "mm \<Rightarrow> addr \<Rightarrow> nat" where
  "virt_to_page m a = unat (PFN_DOWN (a - va_pa_offset m))"

section \<open>Free lists\<close>

definition page_is_buddy :: "mm \<Rightarrow> nat \<Rightarrow> nat \<Rightarrow> nat \<Rightarrow> bool" where
  "page_is_buddy m page buddy ord =
     (if \<not> PageBuddy (mem_map m buddy) then False
      else if page_order (mem_map m buddy) \<noteq> ord then False
      else if page_zone_id (mem_map m page) \<noteq> page_zone_id (mem_map m buddy) then False
      else True)"

definition set_page_order :: "nat \<Rightarrow> nat \<Rightarrow> mm \<Rightarrow> mm" where
  "set_page_order page ord m = upd_page page (\<lambda>p. SetPageBuddy (set_page_private (of_nat ord) p)) m"

definition buddy_merge_likely :: "mm \<Rightarrow> nat \<Rightarrow> nat \<Rightarrow> nat \<Rightarrow> bool" where
  "buddy_merge_likely m pfn buddy_pfn ord =
     (if ord \<ge> MAX_ORDER - 2 then False
      else let combined_pfn = buddy_pfn AND pfn;
               higher_page = combined_pfn;
               buddy_pfn = find_buddy_pfn combined_pfn (ord + 1);
               higher_buddy = buddy_pfn
           in page_is_buddy m higher_page higher_buddy (ord + 1))"

definition add_to_free_list :: "nat \<Rightarrow> nat \<Rightarrow> nat \<Rightarrow> mm \<Rightarrow> mm" where
  "add_to_free_list page z ord =
     upd_zone z (\<lambda>zn. zn\<lparr>areas := (areas zn)(ord :=
       \<lparr>free_list = page # free_list (areas zn ord), nr_free = nr_free (areas zn ord) + 1\<rparr>)\<rparr>)"

definition add_to_free_list_tail :: "nat \<Rightarrow> nat \<Rightarrow> nat \<Rightarrow> mm \<Rightarrow> mm" where
  "add_to_free_list_tail page z ord =
     upd_zone z (\<lambda>zn. zn\<lparr>areas := (areas zn)(ord :=
       \<lparr>free_list = free_list (areas zn ord) @ [page], nr_free = nr_free (areas zn ord) + 1\<rparr>)\<rparr>)"

definition del_page_from_free_list :: "nat \<Rightarrow> nat \<Rightarrow> nat \<Rightarrow> mm \<Rightarrow> mm" where
  "del_page_from_free_list page z ord m =
     (let m = upd_zone z (\<lambda>zn. zn\<lparr>areas := (areas zn)(ord :=
            (areas zn ord)\<lparr>free_list := remove1 page (free_list (areas zn ord))\<rparr>)\<rparr>) m;
          m = upd_page page (\<lambda>p. set_page_private 0 (ClearPageBuddy p)) m
      in upd_zone z (\<lambda>zn. zn\<lparr>areas := (areas zn)(ord :=
            (areas zn ord)\<lparr>nr_free := nr_free (areas zn ord) - 1\<rparr>)\<rparr>) m)"

section \<open>Freeing\<close>

text \<open>The merging loop of \<^verbatim>\<open>__free_one_page\<close>: the state, the block and its order, and the last
  \<^verbatim>\<open>buddy_pfn\<close>, which the source leaves uninitialised when the loop does not run.\<close>

function free_merge :: "nat \<Rightarrow> mm \<Rightarrow> nat \<Rightarrow> nat \<Rightarrow> nat \<Rightarrow> mm \<times> nat \<times> nat \<times> nat" where
  "free_merge z m pfn ord bp =
     (if ord < MAX_ORDER - 1
      then let buddy_pfn = find_buddy_pfn pfn ord
           in if \<not> page_is_buddy m pfn buddy_pfn ord then (m, pfn, ord, buddy_pfn)
              else free_merge z (del_page_from_free_list buddy_pfn z ord m) (buddy_pfn AND pfn) (ord + 1) buddy_pfn
      else (m, pfn, ord, bp))"
  by pat_completeness auto
termination
  by (relation "measure (\<lambda>(z, m, pfn, ord, bp). MAX_ORDER - ord)") auto

declare free_merge.simps [simp del]

definition free_one_page :: "nat \<Rightarrow> nat \<Rightarrow> nat \<Rightarrow> mm \<Rightarrow> mm" where
  "free_one_page z pfn ord m =
     (let (m, pfn, ord, buddy_pfn) = free_merge z m pfn ord 0;
          m = set_page_order pfn ord m;
          to_tail = buddy_merge_likely m pfn buddy_pfn ord
      in if to_tail then add_to_free_list_tail pfn z ord m else add_to_free_list pfn z ord m)"

definition free_pages_ok :: "nat \<Rightarrow> nat \<Rightarrow> mm \<Rightarrow> mm" where
  "free_pages_ok page ord m = free_one_page (page_zonenum (mem_map m page)) page ord m"

definition free_the_page :: "nat \<Rightarrow> nat \<Rightarrow> mm \<Rightarrow> mm" where
  "free_the_page page ord m = (if ord = 0 then free_pages_ok page ord m else free_pages_ok page ord m)"

definition free_pages_page :: "nat \<Rightarrow> nat \<Rightarrow> mm \<Rightarrow> mm" where
  "free_pages_page page ord m =
     (let (z, m) = put_page_testzero page m in if z then free_the_page page ord m else m)"

text \<open>The loop of \<^verbatim>\<open>__free_pages_core\<close> over the pages of the block.\<close>

primrec core_reset :: "nat \<Rightarrow> nat \<Rightarrow> mm \<Rightarrow> mm" where
  "core_reset p 0 m = m"
| "core_reset p (Suc n) m = core_reset (Suc p) n (upd_page p (\<lambda>q. set_page_count 0 (ClearPageReserved q)) m)"

definition free_pages_core :: "nat \<Rightarrow> nat \<Rightarrow> mm \<Rightarrow> mm" where
  "free_pages_core page ord m =
     (let nr_pages = 2 ^ ord;
          m = core_reset page nr_pages m;
          m = upd_zone (page_zonenum (mem_map m page)) (\<lambda>zn. zn\<lparr>managed_pages := managed_pages zn + of_nat nr_pages\<rparr>) m;
          m = upd_page page set_page_refcounted m
      in free_pages_page page ord m)"

definition reserve_bootmem_page :: "nat \<Rightarrow> mm \<Rightarrow> mm" where
  "reserve_bootmem_page pfn m = (if pfn_valid m pfn then upd_page pfn SetPageReserved m else m)"

text \<open>\<^verbatim>\<open>reserve_bootmem_region\<close>; a page that is not on a list yet is just its page frame number, so
  \<^verbatim>\<open>INIT_LIST_HEAD(&page->lru)\<close> leaves no trace here.\<close>

definition reserve_bootmem_region :: "u64 \<Rightarrow> u64 \<Rightarrow> mm \<Rightarrow> mm" where
  "reserve_bootmem_region start lim m =
     fold reserve_bootmem_page [unat (PFN_DOWN start)..<unat (PFN_UP lim)] m"

section \<open>Allocating\<close>

text \<open>\<^verbatim>\<open>expand\<close>: give the upper halves of the block at \<open>page\<close> back until it has order \<open>low\<close>.\<close>

function expand :: "nat \<Rightarrow> nat \<Rightarrow> nat \<Rightarrow> nat \<Rightarrow> mm \<Rightarrow> mm" where
  "expand z page low high m =
     (if high > low
      then let high = high - 1; size = 2 ^ high;
               m = add_to_free_list (page + size) z high m
           in expand z page low high (set_page_order (page + size) high m)
      else m)"
  by pat_completeness auto
termination
  by (relation "measure (\<lambda>(z, page, low, high, m). high)") auto

declare expand.simps [simp del]

definition get_page_from_free_area :: "free_area \<Rightarrow> nat option" where
  "get_page_from_free_area a = (case free_list a of [] \<Rightarrow> None | p # _ \<Rightarrow> Some p)"

function rmqueue_smallest_from :: "nat \<Rightarrow> nat \<Rightarrow> nat \<Rightarrow> mm \<Rightarrow> (mm \<times> nat) option" where
  "rmqueue_smallest_from z ord current_order m =
     (if current_order < MAX_ORDER
      then case get_page_from_free_area (areas (node_zones m z) current_order) of
             None \<Rightarrow> rmqueue_smallest_from z ord (current_order + 1) m
           | Some page \<Rightarrow>
               let m = del_page_from_free_list page z current_order m
               in Some (expand z page ord current_order m, page)
      else None)"
  by pat_completeness auto
termination
  by (relation "measure (\<lambda>(z, ord, c, m). MAX_ORDER - c)") auto

declare rmqueue_smallest_from.simps [simp del]

definition rmqueue_smallest :: "nat \<Rightarrow> nat \<Rightarrow> mm \<Rightarrow> (mm \<times> nat) option" where
  "rmqueue_smallest z ord m = rmqueue_smallest_from z ord ord m"

definition rmqueue_locked :: "nat \<Rightarrow> nat \<Rightarrow> mm \<Rightarrow> (mm \<times> nat) outcome" where
  "rmqueue_locked z ord m = (case rmqueue_smallest z ord m of None \<Rightarrow> Inl Panic | Some r \<Rightarrow> Inr r)"

text \<open>\<^verbatim>\<open>rmqueue_bulk\<close>: the pages are appended to \<open>list\<close>; \<open>n\<close> is what is left of \<^verbatim>\<open>count\<close>. The exit for a null
  page is never taken, because \<^verbatim>\<open>__rmqueue\<close> panics instead.\<close>

primrec rmqueue_bulk :: "nat \<Rightarrow> nat \<Rightarrow> nat \<Rightarrow> nat list \<Rightarrow> mm \<Rightarrow> (mm \<times> nat list \<times> nat) outcome" where
  "rmqueue_bulk z ord 0 list m = Inr (m, list, 0)"
| "rmqueue_bulk z ord (Suc n) list m =
     obind (rmqueue_locked z ord m) (\<lambda>(m, page).
       obind (rmqueue_bulk z ord n (list @ [page]) m) (\<lambda>(m, list, k). Inr (m, list, k + 1)))"

definition rmqueue_pcplist :: "nat \<Rightarrow> mm \<Rightarrow> (mm \<times> nat option) outcome" where
  "rmqueue_pcplist z m =
     (let pcp = boot_pageset m
      in obind (if pcp_lists pcp = []
                then obind (rmqueue_bulk z 0 (nat (pcp_batch pcp)) [] m) (\<lambda>(m, list, k).
                       Inr (m\<lparr>boot_pageset := (boot_pageset m)\<lparr>pcp_lists := list,
                              pcp_count := pcp_count (boot_pageset m) + int k\<rparr>\<rparr>))
                else Inr m)
           (\<lambda>m. case pcp_lists (boot_pageset m) of
                  [] \<Rightarrow> Inr (m, None)
                | page # rest \<Rightarrow>
                    Inr (m\<lparr>boot_pageset := (boot_pageset m)\<lparr>pcp_lists := rest,
                           pcp_count := pcp_count (boot_pageset m) - 1\<rparr>\<rparr>, Some page)))"

definition rmqueue :: "nat \<Rightarrow> nat \<Rightarrow> mm \<Rightarrow> (mm \<times> nat) outcome" where
  "rmqueue z ord m =
     (if ord = 0
      then obind (rmqueue_pcplist z m) (\<lambda>(m, page). case page of None \<Rightarrow> Inl Panic | Some p \<Rightarrow> Inr (m, p))
      else rmqueue_locked z ord m)"

definition GFP_ZERO :: u32 where "GFP_ZERO = 0x100"
definition GFP_HIGHMEM :: u32 where "GFP_HIGHMEM = 2"
definition GFP_COMP :: u32 where "GFP_COMP = 0x40000"

definition want_init_on_alloc :: "u32 \<Rightarrow> bool" where
  "want_init_on_alloc fl \<longleftrightarrow> fl AND GFP_ZERO \<noteq> 0"

primrec kernel_init_free_pages :: "nat \<Rightarrow> nat \<Rightarrow> mm \<Rightarrow> mm" where
  "kernel_init_free_pages page 0 m = m"
| "kernel_init_free_pages page (Suc n) m =
     kernel_init_free_pages (Suc page) n (m\<lparr>ram := memset (ram m) (page_address m page) 0 4096\<rparr>)"

definition prep_new_page :: "nat \<Rightarrow> nat \<Rightarrow> u32 \<Rightarrow> mm \<Rightarrow> mm" where
  "prep_new_page page ord gfp_flags m =
     (if want_init_on_alloc gfp_flags then kernel_init_free_pages page (2 ^ ord) m else m)"

text \<open>\<^verbatim>\<open>GFP_ZONE_TABLE\<close> is 21: \<^verbatim>\<open>ZONE_NORMAL\<close> for none, \<^verbatim>\<open>__GFP_DMA\<close> and \<^verbatim>\<open>__GFP_HIGHMEM\<close>.\<close>

definition gfp_zone :: "u32 \<Rightarrow> nat" where
  "gfp_zone fl = unat (drop_bit (unat (fl AND 15) * 2) (21 :: u32) AND 3)"

text \<open>\<^verbatim>\<open>next_zones_zonelist\<close>: the cursor is the rest of the array of zone references.\<close>

definition next_zones_zonelist :: "(nat option \<times> nat) list \<Rightarrow> nat \<Rightarrow> (nat option \<times> nat) list" where
  "next_zones_zonelist z highest = dropWhile (\<lambda>(zn, i). i > highest) z"

text \<open>\<^verbatim>\<open>get_page_from_freelist\<close>: the loop body always ends the function in the first zone, with a page
  or a panic.\<close>

definition get_page_from_freelist :: "u32 \<Rightarrow> nat \<Rightarrow> (nat option \<times> nat) list \<Rightarrow> mm \<Rightarrow> (mm \<times> nat option) outcome" where
  "get_page_from_freelist gfp_mask ord preferred m =
     (case preferred of
        [] \<Rightarrow> Inl OutOfBounds
      | (None, i) # _ \<Rightarrow> Inr (m, None)
      | (Some z, i) # _ \<Rightarrow>
          obind (rmqueue z ord m) (\<lambda>(m, page). Inr (prep_new_page page ord gfp_mask m, Some page)))"

text \<open>The highest zone index and the zone list of the allocation context.\<close>

definition prepare_alloc_pages :: "u32 \<Rightarrow> mm \<Rightarrow> nat \<times> (nat option \<times> nat) list" where
  [simp]: "prepare_alloc_pages gfp_mask m = (gfp_zone gfp_mask, zonerefs m)"

definition finalise_ac :: "nat \<times> (nat option \<times> nat) list \<Rightarrow> (nat option \<times> nat) list" where
  [simp]: "finalise_ac ac = next_zones_zonelist (snd ac) (fst ac)"

definition alloc_pages_nodemask :: "u32 \<Rightarrow> nat \<Rightarrow> mm \<Rightarrow> (mm \<times> nat) outcome" where
  "alloc_pages_nodemask gfp_mask ord m =
     (if ord \<ge> MAX_ORDER then Inl Panic
      else let ac = prepare_alloc_pages gfp_mask m;
               preferred = finalise_ac ac
           in obind (get_page_from_freelist gfp_mask ord preferred m) (\<lambda>(m, page).
                case page of None \<Rightarrow> Inl Panic | Some p \<Rightarrow> Inr (m, p)))"

definition get_free_pages :: "u32 \<Rightarrow> nat \<Rightarrow> mm \<Rightarrow> (mm \<times> addr) outcome" where
  "get_free_pages gfp_mask ord m =
     obind (alloc_pages_nodemask (gfp_mask AND NOT GFP_HIGHMEM) ord m) (\<lambda>(m, page).
       Inr (m, page_address m page))"

definition free_pages :: "addr \<Rightarrow> nat \<Rightarrow> mm \<Rightarrow> mm outcome" where
  "free_pages a ord m =
     (if a \<noteq> 0
      then if \<not> pfn_valid m (virt_to_page m a) then Inl Bug
           else Inr (free_pages_page (virt_to_page m a) ord m)
      else Inr m)"

definition get_order :: "u64 \<Rightarrow> nat" where
  "get_order sz = fls64 (drop_bit 12 (sz - 1))"

definition PAGE_ALIGN :: "u64 \<Rightarrow> u64" where
  "PAGE_ALIGN a = (a + 4095) AND NOT 4095"

partial_function (option) free_range :: "addr \<Rightarrow> addr \<Rightarrow> mm \<Rightarrow> mm outcome option" where
  "free_range a lim m =
     (if a < lim
      then case free_pages a 0 m of Inl f \<Rightarrow> Some (Inl f) | Inr m \<Rightarrow> free_range (a + 4096) lim m
      else Some (Inr m))"

definition make_alloc_exact :: "addr \<Rightarrow> nat \<Rightarrow> u64 \<Rightarrow> mm \<Rightarrow> (mm \<times> addr) outcome option" where
  "make_alloc_exact a ord sz m =
     (if a \<noteq> 0
      then let alloc_end = a + push_bit ord 4096; used = a + PAGE_ALIGN sz
           in Option.bind (free_range used alloc_end m) (\<lambda>r. Some (obind r (\<lambda>m. Inr (m, a))))
      else Some (Inr (m, a)))"

definition alloc_pages_exact :: "u64 \<Rightarrow> u32 \<Rightarrow> mm \<Rightarrow> (mm \<times> addr) outcome option" where
  "alloc_pages_exact sz gfp_mask m =
     (let ord = get_order sz
      in if gfp_mask AND GFP_COMP \<noteq> 0 then Some (Inl Bug)
         else case get_free_pages gfp_mask ord m of
                Inl f \<Rightarrow> Some (Inl f)
              | Inr (m, a) \<Rightarrow> make_alloc_exact a ord sz m)"

definition free_pages_exact :: "addr \<Rightarrow> u64 \<Rightarrow> mm \<Rightarrow> mm outcome option" where
  "free_pages_exact virt sz m = free_range virt (virt + PAGE_ALIGN sz) m"

definition get_zeroed_page :: "u32 \<Rightarrow> mm \<Rightarrow> (mm \<times> addr) outcome" where
  "get_zeroed_page gfp_mask m = get_free_pages (gfp_mask OR GFP_ZERO) 0 m"

end
