(* ===== verification/BuddyInit.thy ===== *)
theory BuddyInit
  imports Buddy
begin

text \<open>
  The initialisation of the page allocator at the end of \<^verbatim>\<open>src/buddy/buddy.c\<close>: zone boundaries from the
  boot memory map, the page array, the zone lists, and the hand-over of the boot allocator's free pages
  through the two function pointers. Console output is left out.
\<close>

section \<open>Zone boundaries\<close>

lemma next_mem_pfn_range_up:
  "next_mem_pfn_range mb i = (j, Some r) \<Longrightarrow> i < j \<and> j < int (cnt (memory mb))"
proof (induction mb i rule: next_mem_pfn_range.induct)
  case (1 mb i)
  show ?case
    using "1.prems" "1.IH" [OF refl]
    by (subst (asm) next_mem_pfn_range.simps) (auto simp: Let_def split: if_splits)
qed

text \<open>\<^verbatim>\<open>for_each_mem_pfn_range\<close>: the ranges the loop visits after index \<open>i\<close>.\<close>

function mem_pfn_ranges :: "memblock \<Rightarrow> int \<Rightarrow> (u64 \<times> u64) list" where
  "mem_pfn_ranges mb i =
     (case next_mem_pfn_range mb i of
        (j, None) \<Rightarrow> []
      | (j, Some r) \<Rightarrow> r # mem_pfn_ranges mb j)"
  by pat_completeness auto
termination
proof (relation "measure (\<lambda>(mb, i). nat (int (cnt (memory mb)) - i))")
  fix mb i j r a p q
  assume "(j, r) = next_mem_pfn_range mb i" and "r = Some a"
  then have "next_mem_pfn_range mb i = (j, Some a)" by simp
  from next_mem_pfn_range_up [OF this]
  show "((mb, j), (mb, i)) \<in> measure (\<lambda>(mb, i). nat (int (cnt (memory mb)) - i))" by auto
qed simp

declare mem_pfn_ranges.simps [simp del]

definition find_min_pfn_with_active_regions :: "memblock \<Rightarrow> u64" where
  "find_min_pfn_with_active_regions mb = PFN_DOWN (memblock_start_of_DRAM mb)"

definition get_pfn_range_for_nid :: "memblock \<Rightarrow> u64 \<times> u64" where
  "get_pfn_range_for_nid mb =
     (let (s, e) = fold (\<lambda>(ts, te) (s, e). (min s ts, max e te)) (mem_pfn_ranges mb (- 1)) (- 1, 0)
      in (if s = - 1 then 0 else s, e))"

text \<open>\<open>lo\<close> and \<open>hi\<close> are the arrays \<^verbatim>\<open>arch_zone_lowest_possible_pfn\<close> and \<^verbatim>\<open>arch_zone_highest_possible_pfn\<close>.
  The result is the number of pages and the first page frame of the zone.\<close>

definition zone_spanned_pages_in_node ::
  "(nat \<Rightarrow> u64) \<Rightarrow> (nat \<Rightarrow> u64) \<Rightarrow> nat \<Rightarrow> u64 \<Rightarrow> u64 \<Rightarrow> u64 \<times> u64" where
  "zone_spanned_pages_in_node lo hi zt node_start node_end =
     (let zone_low = lo zt; zone_high = hi zt
      in if node_start = 0 \<and> node_end = 0 then (0, 0)
         else let zs = clamp node_start zone_low zone_high;
                  ze = clamp node_end zone_low zone_high
              in if ze < node_start \<or> zs > node_end then (0, zs)
                 else let ze = min ze node_end; zs = max zs node_start in (ze - zs, zs))"

definition absent_pages_in_range :: "memblock \<Rightarrow> u64 \<Rightarrow> u64 \<Rightarrow> u64" where
  "absent_pages_in_range mb rs re =
     fold (\<lambda>(s, e) nr_absent. nr_absent - (clamp e rs re - clamp s rs re)) (mem_pfn_ranges mb (- 1)) (re - rs)"

definition zone_absent_pages_in_node ::
  "memblock \<Rightarrow> (nat \<Rightarrow> u64) \<Rightarrow> (nat \<Rightarrow> u64) \<Rightarrow> nat \<Rightarrow> u64 \<Rightarrow> u64 \<Rightarrow> u64" where
  "zone_absent_pages_in_node mb lo hi zt node_start node_end =
     (if node_start = 0 \<and> node_end = 0 then 0
      else absent_pages_in_range mb (clamp node_start (lo zt) (hi zt)) (clamp node_end (lo zt) (hi zt)))"

definition totalpages_zone ::
  "memblock \<Rightarrow> (nat \<Rightarrow> u64) \<Rightarrow> (nat \<Rightarrow> u64) \<Rightarrow> u64 \<Rightarrow> u64 \<Rightarrow> nat \<Rightarrow> mm \<times> u64 \<times> u64 \<Rightarrow> mm \<times> u64 \<times> u64" where
  "totalpages_zone mb lo hi node_start node_end i acc =
     (let (m, totalpages, realtotalpages) = acc;
          (spanned, zs) = zone_spanned_pages_in_node lo hi i node_start node_end;
          absent = zone_absent_pages_in_node mb lo hi i node_start node_end;
          real_size = spanned - absent
      in (upd_zone i (\<lambda>z. z\<lparr>zone_start_pfn := (if spanned \<noteq> 0 then zs else 0),
                            spanned_pages := spanned, present_pages := real_size\<rparr>) m,
          totalpages + spanned, realtotalpages + real_size))"

definition calculate_node_totalpages ::
  "memblock \<Rightarrow> (nat \<Rightarrow> u64) \<Rightarrow> (nat \<Rightarrow> u64) \<Rightarrow> u64 \<Rightarrow> u64 \<Rightarrow> mm \<Rightarrow> mm" where
  "calculate_node_totalpages mb lo hi node_start node_end m =
     (let (m, totalpages, realtotalpages) =
        fold (totalpages_zone mb lo hi node_start node_end) [0..<MAX_NR_ZONES] (m, 0, 0)
      in m\<lparr>node_spanned_pages := totalpages, node_present_pages := realtotalpages\<rparr>)"

section \<open>The page array\<close>

text \<open>\<^verbatim>\<open>sizeof(struct page)\<close> on the 64-bit target.\<close>

definition sizeof_page :: u64 where "sizeof_page = 104"

definition alloc_node_mem_map :: "mm \<Rightarrow> memblock \<Rightarrow> (mm \<times> memblock) outcome option" where
  "alloc_node_mem_map m mb =
     (if node_spanned_pages m = 0 then Some (Inr (m, mb))
      else let start = node_start_pfn m AND NOT (2 ^ (MAX_ORDER - 1) - 1);
               offset = node_start_pfn m - start;
               point = (\<lambda>m. m\<lparr>mem_map_ptr :=
                  (if pfn_base m \<noteq> node_start_pfn m then node_mem_map m - offset * sizeof_page else node_mem_map m)\<rparr>)
           in if node_mem_map m = 0
              then let lim = node_start_pfn m + node_spanned_pages m;
                       lim = (lim + (2 ^ (MAX_ORDER - 1) - 1)) AND NOT (2 ^ (MAX_ORDER - 1) - 1);
                       sz = (lim - start) * sizeof_page
                   in Option.bind (memblock_alloc_try_nid (va_pa_offset m) (ram m) mb sz 64) (\<lambda>r.
                        Some (obind r (\<lambda>(ram', mb, ptr).
                          if ptr = 0 then Inl Panic
                          else Inr (point (m\<lparr>ram := ram', node_mem_map := ptr + offset * sizeof_page,
                                             mem_map := (\<lambda>_. zero_page)\<rparr>), mb))))
              else Some (Inr (point m, mb)))"

section \<open>Zones\<close>

definition zone_init_free_lists :: "zone \<Rightarrow> zone" where
  "zone_init_free_lists z =
     z\<lparr>areas := (\<lambda>ord. if ord < MAX_ORDER then \<lparr>free_list = [], nr_free = 0\<rparr> else areas z ord)\<rparr>"

definition init_currently_empty_zone :: "nat \<Rightarrow> u64 \<Rightarrow> mm \<Rightarrow> mm" where
  "init_currently_empty_zone i start m =
     (let m = (if i + 1 > nr_zones m then m\<lparr>nr_zones := i + 1\<rparr> else m)
      in upd_zone i (\<lambda>z. (zone_init_free_lists (z\<lparr>zone_start_pfn := start\<rparr>))\<lparr>initialized := True\<rparr>) m)"

definition zone_init_internals :: "u64 \<Rightarrow> zone \<Rightarrow> zone" where
  "zone_init_internals remaining_pages z = z\<lparr>managed_pages := remaining_pages\<rparr>"

definition calc_memmap_size :: "u64 \<Rightarrow> u64" where
  "calc_memmap_size sp = drop_bit 12 (PAGE_ALIGN (sp * sizeof_page))"

definition free_area_init_zone :: "nat \<Rightarrow> mm \<Rightarrow> mm" where
  "free_area_init_zone j m =
     (let z = node_zones m j;
          start = zone_start_pfn z; sz = spanned_pages z; freesize = present_pages z;
          m = m\<lparr>nr_kernel_pages := nr_kernel_pages m + freesize\<rparr>;
          memmap_pages = calc_memmap_size sz;
          freesize = (if freesize \<ge> memmap_pages then freesize - memmap_pages else freesize);
          m = upd_zone j (zone_init_internals freesize) m
      in if sz = 0 then m else init_currently_empty_zone j start m)"

definition free_area_init_core :: "mm \<Rightarrow> mm" where
  "free_area_init_core m = fold free_area_init_zone [0..<MAX_NR_ZONES] m"

definition free_area_init_node ::
  "(nat \<Rightarrow> u64) \<Rightarrow> (nat \<Rightarrow> u64) \<Rightarrow> mm \<Rightarrow> memblock \<Rightarrow> (mm \<times> memblock) outcome option" where
  "free_area_init_node lo hi m mb =
     (if nr_zones m \<noteq> 0 then Some (Inl Bug)
      else let (s, e) = get_pfn_range_for_nid mb;
               m = m\<lparr>node_start_pfn := s\<rparr>;
               m = calculate_node_totalpages mb lo hi s e m
           in Option.bind (alloc_node_mem_map m mb) (\<lambda>r.
                Some (obind r (\<lambda>(m, mb). Inr (free_area_init_core m, mb)))))"

text \<open>The two arrays of zone limits; \<^verbatim>\<open>ZONE_MOVABLE\<close> (index 2) keeps its zeros.\<close>

definition zone_limits :: "memblock \<Rightarrow> (nat \<Rightarrow> u64) \<Rightarrow> (nat \<Rightarrow> u64) \<times> (nat \<Rightarrow> u64)" where
  "zone_limits mb max_zone_pfn =
     (let s0 = find_min_pfn_with_active_regions mb;
          e0 = max (max_zone_pfn 0) s0; e1 = max (max_zone_pfn 1) e0
      in ((\<lambda>_. 0)(0 := s0, 1 := e0), (\<lambda>_. 0)(0 := e0, 1 := e1)))"

definition free_area_init :: "(nat \<Rightarrow> u64) \<Rightarrow> mm \<Rightarrow> memblock \<Rightarrow> (mm \<times> memblock) outcome option" where
  "free_area_init max_zone_pfn m mb =
     (let (lo, hi) = zone_limits mb max_zone_pfn in free_area_init_node lo hi m mb)"

definition zone_sizes_init :: "u64 \<Rightarrow> mm \<Rightarrow> memblock \<Rightarrow> (mm \<times> memblock) outcome option" where
  "zone_sizes_init max_low_pfn m mb =
     free_area_init ((\<lambda>_. 0)(0 := min (PFN_DOWN 0x100000000) max_low_pfn, 1 := max_low_pfn)) m mb"

section \<open>Zone lists and per-cpu pages\<close>

definition managed_zone :: "zone \<Rightarrow> bool" where
  "managed_zone z \<longleftrightarrow> managed_pages z \<noteq> 0"

text \<open>From the highest zone down.\<close>

definition build_zonerefs_node :: "mm \<Rightarrow> (nat option \<times> nat) list" where
  "build_zonerefs_node m = map (\<lambda>i. (Some i, i)) (filter (\<lambda>i. managed_zone (node_zones m i)) (rev [0..<MAX_NR_ZONES]))"

definition build_zonelists :: "mm \<Rightarrow> mm" where
  "build_zonelists m = m\<lparr>zonerefs := build_zonerefs_node m @ [(None, 0)]\<rparr>"

definition setup_pageset :: "nat \<Rightarrow> per_cpu_pages" where
  "setup_pageset batch =
     \<lparr>pcp_count = 0, pcp_high = 6 * int batch, pcp_batch = int (max 1 batch), pcp_lists = []\<rparr>"

definition build_all_zonelists_init :: "mm \<Rightarrow> mm" where
  "build_all_zonelists_init m = (build_zonelists m)\<lparr>boot_pageset := setup_pageset 0\<rparr>"

section \<open>Hand-over\<close>

text \<open>\<^verbatim>\<open>reset_all_zones_managed_pages\<close> of the boot allocator, on the zones.\<close>

definition reset_node_managed_pages :: "mm \<Rightarrow> mm" where
  "reset_node_managed_pages m = fold (\<lambda>i. upd_zone i (\<lambda>z. z\<lparr>managed_pages := 0\<rparr>)) [0..<MAX_NR_ZONES] m"

definition reset_all_zones_managed_pages :: "bool \<Rightarrow> mm \<Rightarrow> mm" where
  "reset_all_zones_managed_pages already m = (if already then m else reset_node_managed_pages m)"

text \<open>The function pointers \<^verbatim>\<open>reserve_bootmem_region_fn\<close> and \<^verbatim>\<open>free_pages_core_fn\<close> as \<^verbatim>\<open>init_module\<close> sets them.\<close>

fun boot_call_fn :: "boot_call \<Rightarrow> mm \<Rightarrow> mm" where
  "boot_call_fn (ReserveBootmem s e) m = reserve_bootmem_region s e m"
| "boot_call_fn (FreePagesCore p ord) m = free_pages_core p ord m"

definition reserve_first_chunk_for_cpu_cache :: "mm \<Rightarrow> memblock \<Rightarrow> (mem \<times> memblock \<times> addr) outcome option" where
  [simp]: "reserve_first_chunk_for_cpu_cache m mb =
     memblock_alloc_try_nid (va_pa_offset m) (ram m) mb (push_bit 3 4096) 4096"

text \<open>\<^verbatim>\<open>init_module\<close>: the new state, the boot allocator's state, \<^verbatim>\<open>reserved_chunk_ptr\<close> and the number of
  pages released.\<close>

definition buddy_init_module :: "mm \<Rightarrow> memblock \<Rightarrow> (mm \<times> memblock \<times> addr \<times> u64) outcome option" where
  "buddy_init_module m mb =
     (let max_low_pfn = PFN_DOWN (memblock_end_of_DRAM mb);
          m = m\<lparr>max_mapnr := max_low_pfn\<rparr>
      in case zone_sizes_init max_low_pfn m mb of
           None \<Rightarrow> None
         | Some (Inl f) \<Rightarrow> Some (Inl f)
         | Some (Inr (m, mb)) \<Rightarrow>
             let m = build_all_zonelists_init m
             in case reserve_first_chunk_for_cpu_cache m mb of
                  None \<Rightarrow> None
                | Some (Inl f) \<Rightarrow> Some (Inl f)
                | Some (Inr (ram', mb, chunk)) \<Rightarrow>
                    (case memblock_free_all mb max_low_pfn of
                       None \<Rightarrow> None
                     | Some (Inl f) \<Rightarrow> Some (Inl f)
                     | Some (Inr (mb', calls, pages)) \<Rightarrow>
                         let m = reset_all_zones_managed_pages (reset_managed_pages_done mb) (m\<lparr>ram := ram'\<rparr>)
                         in Some (Inr (fold boot_call_fn calls m, mb', chunk, pages))))"

end
