(* ===== verification/BuddyProps.thy ===== *)
theory BuddyProps
  imports Buddy Interfaces
begin

text \<open>
  What the page allocator promises about a zone: the free lists are disjoint, naturally aligned blocks;
  an allocation takes a block out of them and a free puts one back, merging it with its free buddies.
\<close>

section \<open>Blocks\<close>

text \<open>A block is its first page frame and its order.\<close>

definition blk :: "nat \<times> nat \<Rightarrow> nat set" where
  "blk b = {fst b..<fst b + 2 ^ snd b}"

definition pages_of :: "(nat \<times> nat) set \<Rightarrow> nat set" where
  "pages_of B = (\<Union>b \<in> B. blk b)"

definition tiling :: "(nat \<times> nat) set \<Rightarrow> bool" where
  "tiling B \<longleftrightarrow>
     (\<forall>(p, ord) \<in> B. ord < MAX_ORDER \<and> 2 ^ ord dvd p) \<and> (\<forall>b \<in> B. \<forall>c \<in> B. b \<noteq> c \<longrightarrow> blk b \<inter> blk c = {})"

lemma blk_nonempty [simp]: "p \<in> blk (p, ord)" "blk b \<noteq> {}"
  by (auto simp: blk_def)

lemma tiling_remove:
  assumes "tiling B" and "b \<in> B"
  shows "tiling (B - {b})" and "pages_of (B - {b}) = pages_of B - blk b"
proof -
  show "tiling (B - {b})" using assms by (auto simp: tiling_def)
  have "blk c \<inter> blk b = {}" if "c \<in> B - {b}" for c using assms that by (auto simp: tiling_def)
  then show "pages_of (B - {b}) = pages_of B - blk b" using assms(2) by (auto simp: pages_of_def)
qed

lemma tiling_insert:
  assumes "tiling B" and "ord < MAX_ORDER" and "2 ^ ord dvd p" and "blk (p, ord) \<inter> pages_of B = {}"
  shows "tiling (insert (p, ord) B)" and "pages_of (insert (p, ord) B) = pages_of B \<union> blk (p, ord)"
proof -
  have "\<forall>c \<in> B. blk (p, ord) \<inter> blk c = {}" using assms(4) by (auto simp: pages_of_def)
  then show "tiling (insert (p, ord) B)" using assms(1-3) unfolding tiling_def by blast
  show "pages_of (insert (p, ord) B) = pages_of B \<union> blk (p, ord)" by (auto simp: pages_of_def)
qed

subsection \<open>Buddies\<close>

lemma buddy_cases:
  assumes "2 ^ ord dvd p"
  shows "even (p div 2 ^ ord) \<Longrightarrow> find_buddy_pfn p ord = p + 2 ^ ord \<and> find_buddy_pfn p ord AND p = p"
    and "odd (p div 2 ^ ord) \<Longrightarrow> 2 ^ ord \<le> p \<and> find_buddy_pfn p ord = p - 2 ^ ord \<and> find_buddy_pfn p ord AND p = p - 2 ^ ord"
proof -
  obtain q where q: "p = 2 ^ ord * q" using assms by (auto elim: dvdE)
  have push: "p = push_bit ord q" "(2 :: nat) ^ ord = push_bit ord 1" by (simp_all add: q push_bit_eq_mult mult.commute)
  have x: "find_buddy_pfn p ord = push_bit ord (q XOR 1)"
    unfolding find_buddy_pfn_def push by (simp only: push_bit_xor)
  have a: "find_buddy_pfn p ord AND p = push_bit ord ((q XOR 1) AND q)"
    unfolding x by (simp only: push_bit_and push(1) [symmetric])
  have d: "p div 2 ^ ord = q" by (simp add: q)
  show "find_buddy_pfn p ord = p + 2 ^ ord \<and> find_buddy_pfn p ord AND p = p" if "even (p div 2 ^ ord)"
  proof -
    have "even q" using that d by simp
    then obtain r where r: "q = 2 * r" by (rule evenE)
    have "q XOR 1 = q + 1" by (simp add: r xor_Suc_0_eq)
    moreover have "(q + 1) AND q = q" by (subst and_nat_rec) (simp add: r)
    ultimately show ?thesis using a x by (simp add: push_bit_eq_mult q algebra_simps)
  qed
  show "2 ^ ord \<le> p \<and> find_buddy_pfn p ord = p - 2 ^ ord \<and> find_buddy_pfn p ord AND p = p - 2 ^ ord"
    if "odd (p div 2 ^ ord)"
  proof -
    have "odd q" using that d by simp
    then obtain r where r: "q = 2 * r + 1" by (rule oddE)
    have "q XOR 1 = q - 1" by (simp add: r xor_Suc_0_eq)
    moreover have "(q - 1) AND q = q - 1" by (subst and_nat_rec) (simp add: r)
    moreover have "0 < q" using r by simp
    ultimately show ?thesis using a x by (simp add: push_bit_eq_mult q algebra_simps)
  qed
qed

lemma buddy_invol [simp]: "find_buddy_pfn (find_buddy_pfn p ord) ord = p"
  by (simp add: find_buddy_pfn_def xor.assoc)

lemma blk_pair: "blk (p, Suc ord) = blk (p, ord) \<union> blk (p + 2 ^ ord, ord)"
  "blk (p, ord) \<inter> blk (p + 2 ^ ord, ord) = {}"
  by (auto simp: blk_def)

lemma buddy_merge:
  assumes "2 ^ ord dvd p"
  defines "b \<equiv> find_buddy_pfn p ord" and "c \<equiv> find_buddy_pfn p ord AND p"
  shows "2 ^ ord dvd b" and "b \<noteq> p" and "c = p \<or> c = b" and "2 ^ Suc ord dvd c"
    and "blk (c, Suc ord) = blk (p, ord) \<union> blk (b, ord)" and "blk (p, ord) \<inter> blk (b, ord) = {}"
proof -
  obtain q where q: "p = 2 ^ ord * q" using assms(1) by (auto elim: dvdE)
  have d: "p div 2 ^ ord = q" by (simp add: q)
  have "2 ^ ord dvd b \<and> b \<noteq> p \<and> (c = p \<or> c = b) \<and> 2 ^ Suc ord dvd c
      \<and> blk (c, Suc ord) = blk (p, ord) \<union> blk (b, ord) \<and> blk (p, ord) \<inter> blk (b, ord) = {}"
  proof (cases "even q")
    case True
    then have b: "b = p + 2 ^ ord" "c = p" using buddy_cases(1) [OF assms(1)] unfolding b_def c_def d by blast+
    have "2 ^ Suc ord dvd p" using True by (auto simp: q elim!: evenE)
    then show ?thesis using b assms(1) blk_pair by auto
  next
    case False
    then have "2 ^ ord \<le> p" "b = p - 2 ^ ord" "c = p - 2 ^ ord"
      using buddy_cases(2) [OF assms(1)] unfolding b_def c_def d by blast+
    then have b: "p = b + 2 ^ ord" "c = b" by simp_all
    obtain r where "q = 2 * r + 1" using False by (auto elim: oddE)
    then have "b = 2 ^ Suc ord * r" using b(1) q by (simp add: algebra_simps)
    then have "2 ^ Suc ord dvd b" by simp
    moreover from this have "2 ^ ord dvd b" by (rule power_le_dvd) simp
    ultimately show ?thesis using b(2) blk_pair(1) [of b ord] blk_pair(2) [of b ord] unfolding b(1) by auto
  qed
  then show "2 ^ ord dvd b" "b \<noteq> p" "c = p \<or> c = b" "2 ^ Suc ord dvd c"
    "blk (c, Suc ord) = blk (p, ord) \<union> blk (b, ord)" "blk (p, ord) \<inter> blk (b, ord) = {}" by auto
qed

section \<open>The free lists of a zone\<close>

definition zblocks :: "nat \<Rightarrow> mm \<Rightarrow> (nat \<times> nat) set" where
  "zblocks z m = {(p, ord). ord < MAX_ORDER \<and> p \<in> set (free_list (areas (node_zones m z) ord))}"

definition lists_ok :: "nat \<Rightarrow> mm \<Rightarrow> bool" where
  "lists_ok z m \<longleftrightarrow> (\<forall>ord < MAX_ORDER.
     distinct (free_list (areas (node_zones m z) ord))
     \<and> nr_free (areas (node_zones m z) ord) = of_nat (length (free_list (areas (node_zones m z) ord))))"

text \<open>A page marked as a buddy of this zone is on the list of its order.\<close>

definition flags_sound :: "nat \<Rightarrow> mm \<Rightarrow> bool" where
  "flags_sound z m \<longleftrightarrow> (\<forall>p. PageBuddy (mem_map m p) \<longrightarrow> page_zone_id (mem_map m p) = z \<longrightarrow>
     (p, page_order (mem_map m p)) \<in> zblocks z m)"

definition zone_ok :: "nat \<Rightarrow> mm \<Rightarrow> bool" where
  "zone_ok z m \<longleftrightarrow> lists_ok z m \<and> tiling (zblocks z m) \<and> flags_sound z m"

definition free_of :: "nat \<Rightarrow> mm \<Rightarrow> nat set" where
  "free_of z m = pages_of (zblocks z m)"

text \<open>The type field of a page that the source's convention calls initialised.\<close>

definition typed :: "page_struct \<Rightarrow> bool" where
  "typed p \<longleftrightarrow> page_type p AND PAGE_TYPE_BASE = PAGE_TYPE_BASE"

subsection \<open>Page fields\<close>

lemma page_fields [simp]:
  "pg_flags (SetPageBuddy p) = pg_flags p" "pg_flags (ClearPageBuddy p) = pg_flags p"
  "pg_flags (set_page_private v p) = pg_flags p" "pg_flags (set_page_count c p) = pg_flags p"
  "page_type (set_page_private v p) = page_type p" "page_type (set_page_count c p) = page_type p"
  "pg_private (SetPageBuddy p) = pg_private p" "pg_private (ClearPageBuddy p) = pg_private p"
  "pg_private (set_page_private v p) = v" "pg_private (set_page_count c p) = pg_private p"
  "pg_refcount (SetPageBuddy p) = pg_refcount p" "pg_refcount (ClearPageBuddy p) = pg_refcount p"
  "pg_refcount (set_page_private v p) = pg_refcount p" "pg_refcount (set_page_count c p) = c"
  by (simp_all add: SetPageBuddy_def ClearPageBuddy_def set_page_private_def set_page_count_def)

lemma page_zone_cong: "pg_flags p = pg_flags q \<Longrightarrow> page_zone_id p = page_zone_id q"
  by (simp add: page_zone_id_def)

lemma word_eq_bits: "(x :: u32) = y \<longleftrightarrow> (\<forall>i < 32. bit x i = bit y i)"
  using bit_word_eqI [of x y] by auto

lemma PG_buddy_bit: "bit PG_buddy i \<longleftrightarrow> i = 7"
proof -
  have p: "PG_buddy = push_bit 7 1" by (simp add: PG_buddy_def)
  show ?thesis unfolding p bit_push_bit_iff bit_1_iff by auto
qed

lemma PageBuddy_iff: "PageBuddy p \<longleftrightarrow> typed p \<and> \<not> bit (page_type p) 7"
proof -
  have n: "\<not> bit PAGE_TYPE_BASE 7" by (simp add: PAGE_TYPE_BASE_def)
  show ?thesis
    unfolding PageBuddy_def typed_def word_eq_bits bit_and_iff bit_or_iff PG_buddy_bit
  proof (intro iffI conjI allI impI notI)
    assume all: "\<forall>i < 32. (bit (page_type p) i \<and> (bit PAGE_TYPE_BASE i \<or> i = 7)) = bit PAGE_TYPE_BASE i"
    show "bit (page_type p) 7 \<Longrightarrow> False" using all [rule_format, of 7] n by simp
  qed (use n in auto)
qed

lemma typed_simps [simp]:
  "typed (SetPageBuddy p) = typed p" "typed (ClearPageBuddy p) = typed p"
  "typed (set_page_private v p) = typed p" "typed (set_page_count c p) = typed p"
proof -
  have n: "\<not> bit PAGE_TYPE_BASE 7" by (simp add: PAGE_TYPE_BASE_def)
  show "typed (SetPageBuddy p) = typed p" "typed (ClearPageBuddy p) = typed p"
    unfolding typed_def word_eq_bits SetPageBuddy_def ClearPageBuddy_def
    using n by (auto simp: bit_and_iff bit_or_iff bit_not_iff PG_buddy_bit possible_bit_def)
qed (simp_all add: typed_def)

lemma PageBuddy_simps [simp]:
  "PageBuddy (SetPageBuddy p) = typed p" "\<not> PageBuddy (ClearPageBuddy p)"
  "PageBuddy (set_page_private v p) = PageBuddy p" "PageBuddy (set_page_count c p) = PageBuddy p"
  unfolding PageBuddy_iff
  by (simp_all add: SetPageBuddy_def ClearPageBuddy_def bit_and_iff bit_or_iff bit_not_iff PG_buddy_bit
      typed_simps [unfolded SetPageBuddy_def] typed_simps [unfolded ClearPageBuddy_def])

lemma page_order_private [simp]:
  "ord < MAX_ORDER \<Longrightarrow> page_order (set_page_private (of_nat ord) p) = ord"
  "page_order (SetPageBuddy p) = page_order p" "page_order (set_page_count c p) = page_order p"
  by (simp_all add: page_order_def MAX_ORDER_def unsigned_ucast_eq take_bit_nat_eq_self)

lemma zone_id_simps [simp]:
  "page_zone_id (SetPageBuddy p) = page_zone_id p" "page_zone_id (ClearPageBuddy p) = page_zone_id p"
  "page_zone_id (set_page_private v p) = page_zone_id p" "page_zone_id (set_page_count c p) = page_zone_id p"
  by (simp_all add: page_zone_id_def)

subsection \<open>The list operations\<close>

lemma list_ops_blocks [simp]:
  assumes "ord < MAX_ORDER"
  shows "zblocks z (add_to_free_list p z ord m) = insert (p, ord) (zblocks z m)"
    and "zblocks z (add_to_free_list_tail p z ord m) = insert (p, ord) (zblocks z m)"
  using assms by (auto simp: zblocks_def add_to_free_list_def add_to_free_list_tail_def split: if_splits)

lemma set_page_order_blocks [simp]: "zblocks z (set_page_order p ord m) = zblocks z m"
  "lists_ok z (set_page_order p ord m) = lists_ok z m"
  by (simp_all add: zblocks_def set_page_order_def lists_ok_def)

lemma del_blocks:
  assumes "lists_ok z m" and "ord < MAX_ORDER"
  shows "zblocks z (del_page_from_free_list p z ord m) = zblocks z m - {(p, ord)}"
  using assms by (auto simp: zblocks_def del_page_from_free_list_def lists_ok_def Let_def split: if_splits)

lemma list_ops_ok:
  assumes "lists_ok z m" and "ord < MAX_ORDER" and "(p, ord) \<notin> zblocks z m"
  shows "lists_ok z (add_to_free_list p z ord m)" and "lists_ok z (add_to_free_list_tail p z ord m)"
  using assms by (auto simp: lists_ok_def zblocks_def add_to_free_list_def add_to_free_list_tail_def)

lemma del_ok:
  assumes "lists_ok z m" and "(p, ord) \<in> zblocks z m"
  shows "lists_ok z (del_page_from_free_list p z ord m)"
proof -
  let ?l = "free_list (areas (node_zones m z) ord)"
  have p: "p \<in> set ?l" "distinct ?l" "ord < MAX_ORDER" using assms by (auto simp: lists_ok_def zblocks_def)
  obtain n where n: "length ?l = Suc n" using p(1) by (cases ?l) auto
  then have "length (remove1 p ?l) = n" using p(1) by (simp add: length_remove1)
  with n have "(of_nat (length (remove1 p ?l)) :: u64) = of_nat (length ?l) - 1" by simp
  then show ?thesis using assms p by (auto simp: lists_ok_def del_page_from_free_list_def Let_def)
qed

lemma list_ops_pages [simp]:
  "mem_map (add_to_free_list p z ord m) = mem_map m" "mem_map (add_to_free_list_tail p z ord m) = mem_map m"
  "mem_map (set_page_order p ord m) = (mem_map m)(p := SetPageBuddy (set_page_private (of_nat ord) (mem_map m p)))"
  "mem_map (del_page_from_free_list p z ord m) = (mem_map m)(p := set_page_private 0 (ClearPageBuddy (mem_map m p)))"
  by (simp_all add: add_to_free_list_def add_to_free_list_tail_def set_page_order_def del_page_from_free_list_def Let_def)

text \<open>Taking a block off the lists.\<close>

lemma del_zone_ok:
  assumes ok: "zone_ok z m" and b: "(p, ord) \<in> zblocks z m"
  defines "m' \<equiv> del_page_from_free_list p z ord m"
  shows "zone_ok z m'" and "zblocks z m' = zblocks z m - {(p, ord)}"
    and "free_of z m' = free_of z m - blk (p, ord)" and "blk (p, ord) \<subseteq> free_of z m"
proof -
  have l: "lists_ok z m" and t: "tiling (zblocks z m)" and f: "flags_sound z m" and o: "ord < MAX_ORDER"
    using ok b by (auto simp: zone_ok_def zblocks_def)
  show bl: "zblocks z m' = zblocks z m - {(p, ord)}" unfolding m'_def by (rule del_blocks [OF l o])
  show "free_of z m' = free_of z m - blk (p, ord)" using tiling_remove(2) [OF t b] by (simp add: free_of_def bl)
  show "blk (p, ord) \<subseteq> free_of z m" using b by (auto simp: free_of_def pages_of_def)
  have "flags_sound z m'" using f unfolding flags_sound_def bl by (auto simp: m'_def)
  then show "zone_ok z m'"
    using del_ok [OF l b, folded m'_def] tiling_remove(1) [OF t b] unfolding zone_ok_def bl by simp
qed

lemma page_is_buddy_iff:
  "page_is_buddy m p b ord \<longleftrightarrow>
     PageBuddy (mem_map m b) \<and> page_order (mem_map m b) = ord \<and> page_zone_id (mem_map m p) = page_zone_id (mem_map m b)"
  by (simp add: page_is_buddy_def)

section \<open>Freeing a block\<close>

text \<open>What the merging loop keeps: the block and the free lists still share the pages they had.\<close>

definition merge_inv :: "nat \<Rightarrow> mm \<Rightarrow> nat \<Rightarrow> nat \<Rightarrow> bool" where
  "merge_inv z m pfn ord \<longleftrightarrow> zone_ok z m \<and> ord < MAX_ORDER \<and> 2 ^ ord dvd pfn
     \<and> blk (pfn, ord) \<inter> free_of z m = {} \<and> page_zone_id (mem_map m pfn) = z"

lemma merge_step:
  assumes inv: "merge_inv z m pfn ord" and o: "ord < MAX_ORDER - 1"
    and buddy: "page_is_buddy m pfn (find_buddy_pfn pfn ord) ord"
  defines "b \<equiv> find_buddy_pfn pfn ord"
  defines "m' \<equiv> del_page_from_free_list b z ord m"
  shows "(b, ord) \<in> zblocks z m" and "merge_inv z m' (b AND pfn) (Suc ord)"
    and "free_of z m' \<union> blk (b AND pfn, Suc ord) = free_of z m \<union> blk (pfn, ord)"
proof -
  have ok: "zone_ok z m" and al: "2 ^ ord dvd pfn" and dis: "blk (pfn, ord) \<inter> free_of z m = {}"
    and zid: "page_zone_id (mem_map m pfn) = z" using inv by (auto simp: merge_inv_def)
  note bm = buddy_merge [OF al, folded b_def]
  show bz: "(b, ord) \<in> zblocks z m"
    using buddy ok zid by (auto simp: page_is_buddy_iff b_def zone_ok_def flags_sound_def)
  note del = del_zone_ok [OF ok bz, folded m'_def]
  show "free_of z m' \<union> blk (b AND pfn, Suc ord) = free_of z m \<union> blk (pfn, ord)"
    using del(3,4) bm(5) by auto
  have "page_zone_id (mem_map m b) = z" using buddy zid by (simp add: page_is_buddy_iff b_def)
  then have "page_zone_id (mem_map m' (b AND pfn)) = z" using bm(3) zid by (auto simp: m'_def)
  moreover have "blk (b AND pfn, Suc ord) \<inter> free_of z m' = {}" using bm(5) del(3) dis by auto
  ultimately show "merge_inv z m' (b AND pfn) (Suc ord)"
    using del(1) bm(4) o by (simp add: merge_inv_def MAX_ORDER_def)
qed

lemma free_merge_ok:
  assumes "merge_inv z m pfn ord"
  shows "case free_merge z m pfn ord bp of (m', pfn', ord', bp') \<Rightarrow>
           merge_inv z m' pfn' ord' \<and> free_of z m' \<union> blk (pfn', ord') = free_of z m \<union> blk (pfn, ord)
           \<and> zblocks z m' \<subseteq> zblocks z m
           \<and> (ord' < MAX_ORDER - 1 \<longrightarrow> \<not> page_is_buddy m' pfn' (find_buddy_pfn pfn' ord') ord')"
  using assms
proof (induction z m pfn ord bp rule: free_merge.induct)
  case (1 z m pfn ord bp)
  let ?b = "find_buddy_pfn pfn ord"
  consider "\<not> ord < MAX_ORDER - 1" | "ord < MAX_ORDER - 1" "\<not> page_is_buddy m pfn ?b ord"
    | "ord < MAX_ORDER - 1" "page_is_buddy m pfn ?b ord" by blast
  then show ?case
  proof cases
    case 1
    then show ?thesis using \<open>merge_inv z m pfn ord\<close> by (subst free_merge.simps) simp
  next
    case 2
    then show ?thesis using \<open>merge_inv z m pfn ord\<close> by (subst free_merge.simps) (simp add: Let_def)
  next
    case 3
    note step = merge_step [OF \<open>merge_inv z m pfn ord\<close> 3]
    have "zblocks z (del_page_from_free_list ?b z ord m) \<subseteq> zblocks z m"
      using del_zone_ok(2) step(1) \<open>merge_inv z m pfn ord\<close> by (auto simp: merge_inv_def)
    moreover note "1.IH" [OF 3(1) refl] 3
    ultimately show ?thesis using step
      by (subst free_merge.simps) (auto simp: Let_def split: prod.splits)
  qed
qed

lemma free_one_page_ok:
  assumes "merge_inv z m pfn ord"
  shows "zone_ok z (free_one_page z pfn ord m)"
    and "free_of z (free_one_page z pfn ord m) = free_of z m \<union> blk (pfn, ord)"
proof -
  obtain m1 p o1 bp where fm: "free_merge z m pfn ord 0 = (m1, p, o1, bp)" by (metis surj_pair)
  then have inv: "merge_inv z m1 p o1" and fr: "free_of z m1 \<union> blk (p, o1) = free_of z m \<union> blk (pfn, ord)"
    using free_merge_ok [OF assms, of 0] by auto
  define m2 where "m2 = set_page_order p o1 m1"
  have o: "o1 < MAX_ORDER" "2 ^ o1 dvd p" "zone_ok z m1" "blk (p, o1) \<inter> free_of z m1 = {}"
    using inv by (auto simp: merge_inv_def)
  have b2: "zblocks z m2 = zblocks z m1" and l2: "lists_ok z m2" using o(3) by (simp_all add: m2_def zone_ok_def)
  have new: "(p, o1) \<notin> zblocks z m2"
    using o(4) blk_nonempty(1) [of p o1] unfolding b2 free_of_def pages_of_def by blast
  have t: "tiling (insert (p, o1) (zblocks z m2))" "pages_of (insert (p, o1) (zblocks z m2)) = free_of z m1 \<union> blk (p, o1)"
    using tiling_insert [of "zblocks z m1" o1 p] o b2 by (auto simp: zone_ok_def free_of_def)
  have res: "zone_ok z m3 \<and> free_of z m3 = free_of z m1 \<union> blk (p, o1)"
    if m3: "m3 = add_to_free_list p z o1 m2 \<or> m3 = add_to_free_list_tail p z o1 m2" for m3
  proof -
    have b3: "zblocks z m3 = insert (p, o1) (zblocks z m2)" and p3: "mem_map m3 = mem_map m2" and l3: "lists_ok z m3"
      using m3 o(1) list_ops_ok [OF l2 o(1) new] by auto
    have "flags_sound z m1" using o(3) by (simp add: zone_ok_def)
    then have "flags_sound z m3" unfolding flags_sound_def b3 p3 b2 by (auto simp: m2_def o(1))
    then show ?thesis using b3 l3 t by (simp add: zone_ok_def free_of_def)
  qed
  have "free_one_page z pfn ord m = add_to_free_list p z o1 m2 \<or> free_one_page z pfn ord m = add_to_free_list_tail p z o1 m2"
    by (simp add: free_one_page_def fm m2_def Let_def)
  from res [OF this] show "zone_ok z (free_one_page z pfn ord m)"
    "free_of z (free_one_page z pfn ord m) = free_of z m \<union> blk (pfn, ord)" using fr by auto
qed

section \<open>Allocating a block\<close>

lemma add_block_ok:
  assumes ok: "zone_ok z m" and o: "ord < MAX_ORDER" "2 ^ ord dvd p" and dis: "blk (p, ord) \<inter> free_of z m = {}"
  defines "m' \<equiv> set_page_order p ord (add_to_free_list p z ord m)"
  shows "zone_ok z m'" and "zblocks z m' = insert (p, ord) (zblocks z m)"
    and "free_of z m' = free_of z m \<union> blk (p, ord)"
    and "mem_map m' = (mem_map m)(p := SetPageBuddy (set_page_private (of_nat ord) (mem_map m p)))"
proof -
  show b: "zblocks z m' = insert (p, ord) (zblocks z m)"
    and p: "mem_map m' = (mem_map m)(p := SetPageBuddy (set_page_private (of_nat ord) (mem_map m p)))"
    using o(1) by (simp_all add: m'_def)
  have new: "(p, ord) \<notin> zblocks z m" using dis blk_nonempty(1) [of p ord] unfolding free_of_def pages_of_def by blast
  note t = tiling_insert [of "zblocks z m" ord p]
  show "free_of z m' = free_of z m \<union> blk (p, ord)" using t(2) ok o dis by (simp add: free_of_def b zone_ok_def)
  have "lists_ok z m'" using list_ops_ok(1) [OF _ o(1) new] ok by (simp add: m'_def zone_ok_def)
  moreover have "flags_sound z m'" using ok o(1) unfolding flags_sound_def b p zone_ok_def by auto
  ultimately show "zone_ok z m'" using t(1) ok o dis by (simp add: zone_ok_def b free_of_def)
qed

lemma expand_steps:
  "low = high \<Longrightarrow> expand z page low high m = m"
  "low \<le> h \<Longrightarrow> expand z page low (Suc h) m =
     expand z page low h (set_page_order (page + 2 ^ h) h (add_to_free_list (page + 2 ^ h) z h m))"
  by (subst expand.simps, simp add: Let_def)+

lemma expand_ok:
  assumes "zone_ok z m" and "low \<le> high" and "high < MAX_ORDER" and "2 ^ high dvd page"
    and "blk (page, high) \<inter> free_of z m = {}"
  shows "zone_ok z (expand z page low high m)
     \<and> free_of z (expand z page low high m) \<union> blk (page, low) = free_of z m \<union> blk (page, high)
     \<and> free_of z (expand z page low high m) \<inter> blk (page, low) = {}"
  using assms
proof (induction high arbitrary: m)
  case 0
  then show ?case by (simp add: expand_steps(1) Int_commute)
next
  case (Suc h)
  show ?case
  proof (cases "low = Suc h")
    case True
    then show ?thesis using Suc.prems by (simp add: expand_steps(1) Int_commute)
  next
    case False
    then have low: "low \<le> h" using Suc.prems(2) by simp
    define m' where "m' = set_page_order (page + 2 ^ h) h (add_to_free_list (page + 2 ^ h) z h m)"
    have al: "2 ^ h dvd page" using Suc.prems(4) by (rule power_le_dvd) simp
    then have al': "2 ^ h dvd page + 2 ^ h" by simp
    have dis: "blk (page + 2 ^ h, h) \<inter> free_of z m = {}" "blk (page, h) \<inter> free_of z m = {}"
      using Suc.prems(5) blk_pair(1) [of page h] by auto
    have hM: "h < MAX_ORDER" using Suc.prems(3) by simp
    note add = add_block_ok [OF Suc.prems(1) hM al' dis(1), folded m'_def]
    have "blk (page, h) \<inter> free_of z m' = {}" using add(3) dis(2) blk_pair(2) [of page h] by auto
    from Suc.IH [OF add(1) low hM al this] show ?thesis
      using expand_steps(2) [OF low, of z page m, folded m'_def] add(3) blk_pair(1) [of page h] by auto
  qed
qed

text \<open>The smallest order from \<open>ord\<close> on with a free block.\<close>

definition has_block :: "nat \<Rightarrow> mm \<Rightarrow> nat \<Rightarrow> bool" where
  "has_block z m ord \<longleftrightarrow> (\<exists>p c. ord \<le> c \<and> (p, c) \<in> zblocks z m)"

lemma rmqueue_smallest_from_cases:
  assumes "ord \<le> c"
  shows "(rmqueue_smallest_from z ord c m = None \<and> \<not> has_block z m c)
     \<or> (\<exists>p d. c \<le> d \<and> (p, d) \<in> zblocks z m
          \<and> rmqueue_smallest_from z ord c m = Some (expand z p ord d (del_page_from_free_list p z d m), p))"
  using assms
proof (induction z ord c m rule: rmqueue_smallest_from.induct)
  case (1 z ord c m)
  show ?case
  proof (cases "c < MAX_ORDER")
    case False
    then show ?thesis by (subst (1) rmqueue_smallest_from.simps) (auto simp: has_block_def zblocks_def)
  next
    case True
    show ?thesis
    proof (cases "free_list (areas (node_zones m z) c)")
      case Nil
      then have n: "get_page_from_free_area (areas (node_zones m z) c) = None" by (simp add: get_page_from_free_area_def)
      have "rmqueue_smallest_from z ord c m = rmqueue_smallest_from z ord (c + 1) m"
        using True n by (subst rmqueue_smallest_from.simps) simp
      moreover have "has_block z m c \<longleftrightarrow> has_block z m (c + 1)"
      proof -
        have "c \<le> d \<longleftrightarrow> c + 1 \<le> d" if "(q, d) \<in> zblocks z m" for q d
          using that Nil by (cases "c = d") (auto simp: zblocks_def)
        then show ?thesis unfolding has_block_def by blast
      qed
      ultimately show ?thesis using "1.IH" [OF True n] "1.prems" by (auto dest: Suc_leD)
    next
      case (Cons p ps)
      then have "(p, c) \<in> zblocks z m" using True by (simp add: zblocks_def)
      moreover have "rmqueue_smallest_from z ord c m = Some (expand z p ord c (del_page_from_free_list p z c m), p)"
        using True Cons by (subst rmqueue_smallest_from.simps) (simp add: get_page_from_free_area_def Let_def)
      ultimately show ?thesis by blast
    qed
  qed
qed

lemma rmqueue_smallest_ok:
  assumes ok: "zone_ok z m" and "rmqueue_smallest z ord m = Some (m', p)"
  shows "zone_ok z m' \<and> 2 ^ ord dvd p \<and> blk (p, ord) \<subseteq> free_of z m \<and> free_of z m' = free_of z m - blk (p, ord)"
proof -
  obtain d where d: "ord \<le> d" "(p, d) \<in> zblocks z m" "m' = expand z p ord d (del_page_from_free_list p z d m)"
    using rmqueue_smallest_from_cases [of ord ord z m] assms(2) by (auto simp: rmqueue_smallest_def)
  define m1 where "m1 = del_page_from_free_list p z d m"
  note del = del_zone_ok [OF ok d(2), folded m1_def]
  have pd: "2 ^ d dvd p" "d < MAX_ORDER" using ok d(2) by (auto simp: zone_ok_def tiling_def)
  have ex: "zone_ok z m'" "free_of z m' \<union> blk (p, ord) = free_of z m1 \<union> blk (p, d)" "free_of z m' \<inter> blk (p, ord) = {}"
    using expand_ok [OF del(1) d(1) pd(2,1)] del(3) by (auto simp: d(3) m1_def)
  have "2 ^ ord dvd p" using pd(1) d(1) power_le_dvd by blast
  then show ?thesis using ex del(3,4) by blast
qed

lemma rmqueue_smallest_none: "rmqueue_smallest z ord m = None \<longleftrightarrow> \<not> has_block z m ord"
  using rmqueue_smallest_from_cases [of ord ord z m] by (auto simp: rmqueue_smallest_def has_block_def)

interpretation buddy_zone: allocator "zone_ok z" "free_of z" "\<lambda>ord p. blk (p, ord)" "\<lambda>m ord. rmqueue_smallest z ord m"
  for z
  using rmqueue_smallest_ok by unfold_locales blast

section \<open>Marks\<close>

text \<open>The first page of every listed block carries the mark of \<^verbatim>\<open>set_page_order\<close>: the order in its private field
  and a cleared buddy bit. The mark alone does not make a page count as a buddy: \<^const>\<open>PageBuddy\<close> also asks for
  the upper bits of the type field.\<close>

definition marked :: "nat \<Rightarrow> mm \<Rightarrow> bool" where
  "marked z m \<longleftrightarrow> (\<forall>(p, ord) \<in> zblocks z m. page_order (mem_map m p) = ord \<and> page_type (mem_map m p) AND PG_buddy = 0)"

lemma markedI:
  "(\<And>p ord. (p, ord) \<in> zblocks z m \<Longrightarrow> page_order (mem_map m p) = ord \<and> page_type (mem_map m p) AND PG_buddy = 0) \<Longrightarrow> marked z m"
  unfolding marked_def by blast

lemma markedD:
  "marked z m \<Longrightarrow> (p, ord) \<in> zblocks z m \<Longrightarrow> page_order (mem_map m p) = ord \<and> page_type (mem_map m p) AND PG_buddy = 0"
  unfolding marked_def by (drule (1) bspec) simp

lemma marked_del:
  assumes ok: "zone_ok z m" and mk: "marked z m" and b: "(p, ord) \<in> zblocks z m"
  shows "marked z (del_page_from_free_list p z ord m)"
proof (rule markedI)
  fix q r
  assume "(q, r) \<in> zblocks z (del_page_from_free_list p z ord m)"
  then have qr: "(q, r) \<in> zblocks z m - {(p, ord)}" by (simp add: del_zone_ok(2) [OF ok b])
  then have "q \<noteq> p" using markedD [OF mk, of q r] markedD [OF mk b] by auto
  then show "page_order (mem_map (del_page_from_free_list p z ord m) q) = r
      \<and> page_type (mem_map (del_page_from_free_list p z ord m) q) AND PG_buddy = 0"
    using markedD [OF mk, of q r] qr by simp
qed

lemma marked_add:
  assumes mk: "marked z m" and o: "ord < MAX_ORDER" and dis: "blk (p, ord) \<inter> free_of z m = {}"
    and m': "zblocks z m' = insert (p, ord) (zblocks z m)"
      "mem_map m' = (mem_map m)(p := SetPageBuddy (set_page_private (of_nat ord) (mem_map m p)))"
  shows "marked z m'"
proof -
  have "(p, r) \<notin> zblocks z m" for r
    using dis blk_nonempty(1) [of p ord] blk_nonempty(1) [of p r] unfolding free_of_def pages_of_def by blast
  moreover have "page_type (SetPageBuddy x) AND PG_buddy = 0" for x
    unfolding word_eq_bits by (simp add: SetPageBuddy_def bit_and_iff bit_not_iff)
  ultimately show ?thesis using markedD [OF mk] o by (intro markedI) (auto simp: m')
qed

lemma marked_expand:
  assumes "zone_ok z m" and "marked z m" and "low \<le> high" and "high < MAX_ORDER" and "2 ^ high dvd page"
    and "blk (page, high) \<inter> free_of z m = {}"
  shows "marked z (expand z page low high m)"
  using assms
proof (induction high arbitrary: m)
  case 0
  then show ?case by (simp add: expand_steps(1))
next
  case (Suc h)
  show ?case
  proof (cases "low = Suc h")
    case True
    then show ?thesis using Suc.prems by (simp add: expand_steps(1))
  next
    case False
    then have low: "low \<le> h" using Suc.prems(3) by simp
    define m' where "m' = set_page_order (page + 2 ^ h) h (add_to_free_list (page + 2 ^ h) z h m)"
    have al: "2 ^ h dvd page" using Suc.prems(5) by (rule power_le_dvd) simp
    then have al': "2 ^ h dvd page + 2 ^ h" by simp
    have dis: "blk (page + 2 ^ h, h) \<inter> free_of z m = {}" "blk (page, h) \<inter> free_of z m = {}"
      using Suc.prems(6) blk_pair(1) [of page h] by auto
    have hM: "h < MAX_ORDER" using Suc.prems(4) by simp
    note add = add_block_ok [OF Suc.prems(1) hM al' dis(1), folded m'_def]
    have "marked z m'" by (rule marked_add [OF Suc.prems(2) hM dis(1) add(2,4)])
    moreover have "blk (page, h) \<inter> free_of z m' = {}" using add(3) dis(2) blk_pair(2) [of page h] by auto
    ultimately show ?thesis
      using Suc.IH [OF add(1) _ low hM al] expand_steps(2) [OF low, of z page m, folded m'_def] by simp
  qed
qed

lemma marked_free_merge:
  assumes "merge_inv z m pfn ord" and "marked z m"
  shows "marked z (fst (free_merge z m pfn ord bp))"
  using assms
proof (induction z m pfn ord bp rule: free_merge.induct)
  case (1 z m pfn ord bp)
  let ?b = "find_buddy_pfn pfn ord"
  show ?case
  proof (cases "ord < MAX_ORDER - 1 \<and> page_is_buddy m pfn ?b ord")
    case False
    then show ?thesis using "1.prems" by (subst free_merge.simps) (auto simp: Let_def)
  next
    case True
    note step = merge_step [OF "1.prems"(1) conjunct1 [OF True] conjunct2 [OF True]]
    have "marked z (del_page_from_free_list ?b z ord m)"
      using marked_del [OF _ "1.prems"(2) step(1)] "1.prems"(1) by (simp add: merge_inv_def)
    then show ?thesis using "1.IH" [OF conjunct1 [OF True] refl] True step(2)
      by (subst free_merge.simps) (simp add: Let_def)
  qed
qed

lemma marked_free:
  assumes inv: "merge_inv z m pfn ord" and mk: "marked z m"
  shows "marked z (free_one_page z pfn ord m)"
proof -
  obtain m1 p o1 bp where fm: "free_merge z m pfn ord 0 = (m1, p, o1, bp)" by (metis surj_pair)
  have inv1: "merge_inv z m1 p o1" using free_merge_ok [OF inv, of 0] by (auto simp: fm)
  have mk1: "marked z m1" using marked_free_merge [OF inv mk, of 0] by (simp add: fm)
  have o: "o1 < MAX_ORDER" "blk (p, o1) \<inter> free_of z m1 = {}" using inv1 by (auto simp: merge_inv_def)
  define m2 where "m2 = set_page_order p o1 m1"
  have "free_one_page z pfn ord m = add_to_free_list p z o1 m2 \<or> free_one_page z pfn ord m = add_to_free_list_tail p z o1 m2"
    by (simp add: free_one_page_def fm m2_def Let_def)
  then show ?thesis using o(1) by (intro marked_add [OF mk1 o]) (auto simp: m2_def)
qed

lemma marked_rmqueue:
  assumes ok: "zone_ok z m" and mk: "marked z m" and "rmqueue_smallest z ord m = Some (m', p)"
  shows "marked z m'" and "ord < MAX_ORDER"
proof -
  obtain d where d: "ord \<le> d" "(p, d) \<in> zblocks z m" "m' = expand z p ord d (del_page_from_free_list p z d m)"
    using rmqueue_smallest_from_cases [of ord ord z m] assms(3) by (auto simp: rmqueue_smallest_def)
  note del = del_zone_ok [OF ok d(2)]
  have pd: "2 ^ d dvd p" "d < MAX_ORDER" using ok d(2) by (auto simp: zone_ok_def tiling_def)
  show "ord < MAX_ORDER" using d(1) pd(2) by simp
  show "marked z m'" unfolding d(3)
    using marked_expand [OF del(1) marked_del [OF ok mk d(2)] d(1) pd(2,1)] del(3) by auto
qed

section \<open>The state the boot code leaves behind\<close>

text \<open>The page array is allocated zeroed and nothing ever sets the upper bits of the type field.\<close>

definition untyped :: "mm \<Rightarrow> bool" where
  "untyped m \<longleftrightarrow> (\<forall>p. \<not> typed (mem_map m p))"

lemma untyped_free_merge: "untyped m \<Longrightarrow> \<exists>bp'. free_merge z m pfn ord bp = (m, pfn, ord, bp')"
  by (subst free_merge.simps) (auto simp: untyped_def page_is_buddy_iff PageBuddy_iff Let_def)

lemma untyped_free:
  assumes "untyped m"
  shows "free_one_page z pfn ord m = add_to_free_list pfn z ord (set_page_order pfn ord m)"
    and "untyped (free_one_page z pfn ord m)"
proof -
  obtain bp where "free_merge z m pfn ord 0 = (m, pfn, ord, bp)" using untyped_free_merge [OF assms] by blast
  moreover have u: "untyped (set_page_order pfn ord m)" using assms by (simp add: untyped_def)
  ultimately show eq: "free_one_page z pfn ord m = add_to_free_list pfn z ord (set_page_order pfn ord m)"
    by (auto simp: free_one_page_def buddy_merge_likely_def page_is_buddy_iff PageBuddy_iff untyped_def Let_def)
  show "untyped (free_one_page z pfn ord m)" using u by (simp add: eq untyped_def)
qed

end
