(* ===== verification/MemblockFree.thy ===== *)
theory MemblockFree
  imports Memblock
begin

text \<open>
  What the boot allocator's iterators visit, what \<^verbatim>\<open>memblock_alloc_range_nid\<close> returns and what
  \<^verbatim>\<open>memblock_free_all\<close> hands over: the lemmas about the definitions of theory \<open>Memblock\<close> that concern the
  difference of the two region arrays.
\<close>

section \<open>Free ranges\<close>

lemma sorted_nth:
  assumes "sorted_from lo rs" and "i < length rs"
  shows "lo \<le> rg_base (rs ! i)" and "rg_base (rs ! i) < rg_end (rs ! i)"
  using assms
proof (induction rs arbitrary: lo i)
  case (Cons r rs)
  { case 1
    show ?case
    proof (cases i)
      case (Suc j)
      then have "rg_end r \<le> rg_base (rs ! j)" using Cons.IH(1) [of "rg_end r" j] 1 by simp
      then show ?thesis using 1 Suc by (auto dest: order.trans order.strict_implies_order)
    qed (use 1 in simp)
  next
    case 2
    then show ?case using Cons.IH(2) [of "rg_end r"] by (cases i) auto }
qed simp_all

lemma separated_nth:
  assumes "sorted_from lo rs" and "separated rs" and "i < j" and "j < length rs"
  shows "rg_end (rs ! i) < rg_base (rs ! j)"
  using assms
proof (induction rs arbitrary: lo i j)
  case (Cons r rs)
  obtain j' where j: "j = Suc j'" "j' < length rs" using Cons.prems by (cases j) auto
  show ?case
  proof (cases i)
    case 0
    obtain s ss where rs: "rs = s # ss" using j by (cases rs) auto
    have "rg_end r < rg_base s" using Cons.prems rs by simp
    also have "rg_base s \<le> rg_base (rs ! j')"
      using sorted_nth(1) [of "rg_base s" rs j'] Cons.prems(1) rs j by auto
    finally show ?thesis using 0 j by simp
  next
    case (Suc i')
    then show ?thesis using Cons j by (cases rs) auto
  qed
qed simp

lemma wf_nth:
  assumes "wf_type t" and "i < cnt t"
  shows "rg_base (regions t ! i) \<le> rg_end (regions t ! i)"
    and "rg_end (regions t ! i) \<noteq> 0 \<Longrightarrow> rg_base (regions t ! i) < rg_end (regions t ! i)"
    and "i < j \<Longrightarrow> j < cnt t \<Longrightarrow> rg_end (regions t ! i) < rg_base (regions t ! j)"
proof -
  have 1: "regions t = [region 0 0] \<or> sorted_from 0 (regions t) \<and> separated (regions t)"
    using assms(1) by (auto simp: wf_type_def)
  then show "rg_base (regions t ! i) \<le> rg_end (regions t ! i)"
    "rg_end (regions t ! i) \<noteq> 0 \<Longrightarrow> rg_base (regions t ! i) < rg_end (regions t ! i)"
    using sorted_nth(2) [of 0 "regions t" i] assms(2) by (auto intro: order.strict_implies_order)
  show "rg_end (regions t ! i) < rg_base (regions t ! j)" if "i < j" "j < cnt t"
    using 1 that separated_nth [of 0 "regions t" i j] by auto
qed

text \<open>The gaps between the reservations, as a list.\<close>

fun gaps :: "u64 \<Rightarrow> memblock_region list \<Rightarrow> (u64 \<times> u64) list" where
  "gaps lo [] = [(lo, - 1)]"
| "gaps lo (r # rs) = (lo, rg_base r) # gaps (rg_end r) rs"

lemma length_gaps [simp]: "length (gaps lo rs) = Suc (length rs)"
  by (induction rs arbitrary: lo) auto

lemma gaps_nth:
  "j \<le> length rs \<Longrightarrow> gaps lo rs ! j =
     (if j = 0 then lo else rg_end (rs ! (j - 1)), if j < length rs then rg_base (rs ! j) else - 1)"
proof (induction rs arbitrary: lo j)
  case (Cons r rs)
  then show ?case by (cases j) (auto simp: nth_Cons' split: if_splits)
qed simp

lemma gap_nth: "j \<le> cnt t \<Longrightarrow> (gap_start t (int j), gap_end t (int j)) = gaps 0 (regions t) ! j"
  by (simp add: gaps_nth gap_start_def gap_end_def nat_diff_distrib')

lemma gaps_cover:
  assumes "sorted_from lo rs"
  shows "(\<Union>(s, e) \<in> set (gaps lo rs). {s..<e}) = {x. lo \<le> x \<and> x < - 1 \<and> x \<notin> cover rs}"
  using assms
proof (induction rs arbitrary: lo)
  case (Cons r rs)
  have IH: "(\<Union>(s, e) \<in> set (gaps (rg_end r) rs). {s..<e}) = {x. rg_end r \<le> x \<and> x < - 1 \<and> x \<notin> cover rs}"
    using Cons by simp
  have low: "x \<notin> cover rs" if "x < rg_end r" for x
    using sorted_from_cover [of "rg_end r" rs x] Cons.prems that by auto
  have top: "x < - 1" if "x < rg_base r" for x using that word_n1_ge [of "rg_base r"] by (rule order.strict_trans2)
  show ?case (is "?L = ?R")
  proof (rule set_eqI)
    fix x
    have "x \<in> ?L \<longleftrightarrow> lo \<le> x \<and> x < rg_base r \<or> rg_end r \<le> x \<and> x < - 1 \<and> x \<notin> cover rs"
      using IH by auto
    also have "\<dots> \<longleftrightarrow> x \<in> ?R"
      using Cons.prems low [of x] top [of x] order.strict_trans [of x "rg_base r" "rg_end r"]
      by (auto simp: not_le not_less)
    finally show "x \<in> ?L \<longleftrightarrow> x \<in> ?R" .
  qed
qed auto

text \<open>The addresses still to be visited: memory regions from index \<open>a\<close> on, gaps from index \<open>b\<close> on.\<close>

definition mem_from :: "memblock_type \<Rightarrow> int \<Rightarrow> u64 set" where
  "mem_from t a = {x. \<exists>i. a \<le> i \<and> i < int (cnt t) \<and> rg_base (regions t ! nat i) \<le> x \<and> x < rg_end (regions t ! nat i)}"

definition gap_from :: "memblock_type \<Rightarrow> int \<Rightarrow> u64 set" where
  "gap_from t b = {x. \<exists>j. b \<le> j \<and> j \<le> int (cnt t) \<and> gap_start t j \<le> x \<and> x < gap_end t j}"

lemma mem_from_0: "mem_from t 0 = cover (regions t)"
proof (rule set_eqI)
  fix x
  show "x \<in> mem_from t 0 \<longleftrightarrow> x \<in> cover (regions t)"
  proof
    assume "x \<in> cover (regions t)"
    then obtain i where "i < cnt t" "rg_base (regions t ! i) \<le> x" "x < rg_end (regions t ! i)"
      by (auto simp: cover_def in_set_conv_nth)
    then show "x \<in> mem_from t 0" by (auto simp: mem_from_def intro!: exI [of _ "int i"])
  qed (force simp: mem_from_def cover_def)
qed

lemma gap_from_nth:
  "x \<in> gap_from t 0 \<longleftrightarrow>
     (\<exists>j < Suc (cnt t). fst (gaps 0 (regions t) ! j) \<le> x \<and> x < snd (gaps 0 (regions t) ! j))"
proof -
  have nth: "gap_start t (int j) = fst (gaps 0 (regions t) ! j) \<and> gap_end t (int j) = snd (gaps 0 (regions t) ! j)"
    if "j < Suc (cnt t)" for j
    using gap_nth [of j t, symmetric] that by simp
  show ?thesis
  proof
    assume "x \<in> gap_from t 0"
    then obtain j where j: "0 \<le> j" "j \<le> int (cnt t)" "gap_start t j \<le> x" "x < gap_end t j"
      unfolding gap_from_def by blast
    define k where "k = nat j"
    have "j = int k" "k < Suc (cnt t)" using j by (simp_all add: k_def)
    then show "\<exists>j < Suc (cnt t). fst (gaps 0 (regions t) ! j) \<le> x \<and> x < snd (gaps 0 (regions t) ! j)"
      using j nth [of k] by (intro exI [of _ k]) simp
  next
    assume "\<exists>j < Suc (cnt t). fst (gaps 0 (regions t) ! j) \<le> x \<and> x < snd (gaps 0 (regions t) ! j)"
    then obtain j where "j < Suc (cnt t)" "gap_start t (int j) \<le> x" "x < gap_end t (int j)"
      using nth by auto
    then show "x \<in> gap_from t 0" unfolding gap_from_def by (intro CollectI exI [of _ "int j"]) simp
  qed
qed

lemma gap_from_0:
  assumes "wf_type t"
  shows "gap_from t 0 = {x. x < - 1 \<and> x \<notin> cover (regions t)}"
proof -
  have un: "x \<in> (\<Union>(s, e) \<in> set gs. {s..<e}) \<longleftrightarrow> (\<exists>j < length gs. fst (gs ! j) \<le> x \<and> x < snd (gs ! j))"
    for gs :: "(u64 \<times> u64) list" and x
  proof -
    have "x \<in> (\<Union>(s, e) \<in> set gs. {s..<e}) \<longleftrightarrow> (\<exists>p \<in> set gs. fst p \<le> x \<and> x < snd p)" by force
    then show ?thesis by (metis in_set_conv_nth)
  qed
  have "gap_from t 0 = (\<Union>(s, e) \<in> set (gaps 0 (regions t)). {s..<e})"
    by (rule set_eqI) (simp only: gap_from_nth un length_gaps)
  moreover have "(\<Union>(s, e) \<in> set (gaps 0 (regions t)). {s..<e}) = {x. x < - 1 \<and> x \<notin> cover (regions t)}"
  proof (cases "regions t = [region 0 0]")
    case False
    then show ?thesis using assms gaps_cover [of 0 "regions t"] by (simp add: wf_type_def)
  qed auto
  ultimately show ?thesis by simp
qed

lemma gap_order:
  assumes wf: "wf_type t" and j: "0 \<le> j" "j < k" "k \<le> int (cnt t)"
  shows "gap_end t j < gap_start t k \<or> gap_end t j = 0 \<and> gap_start t k = 0"
proof -
  define p q where "p = nat j" and "q = nat (k - 1)"
  have pq: "p \<le> q" "q < cnt t" "nat j = p" "nat (k - 1) = q" using j by (auto simp: p_def q_def)
  have e: "gap_end t j = rg_base (regions t ! p)" using j pq by (simp add: gap_end_def)
  have s: "gap_start t k = rg_end (regions t ! q)" using j pq by (simp add: gap_start_def)
  have "rg_base (regions t ! p) \<le> rg_base (regions t ! q)"
    using wf_nth(1) [OF wf, of p] wf_nth(3) [OF wf, of p q] pq
    by (cases "p = q") (auto dest: order.trans order.strict_implies_order)
  moreover have "rg_base (regions t ! q) < rg_end (regions t ! q) \<or> rg_end (regions t ! q) = 0"
    using wf_nth(2) [OF wf pq(2)] by blast
  ultimately show ?thesis
    using wf_nth(1) [OF wf pq(2)] unfolding e s by (auto dest: order.strict_trans1)
qed

lemma gap_le:
  assumes wf: "wf_type t" and j: "0 \<le> j" "j \<le> int (cnt t)"
  shows "gap_start t j \<le> gap_end t j" and "0 < j \<Longrightarrow> j < int (cnt t) \<Longrightarrow> gap_start t j < gap_end t j"
proof -
  have mid: "gap_start t j < gap_end t j" if "0 < j" "j < int (cnt t)"
    using wf_nth(3) [OF wf, of "nat (j - 1)" "nat j"] that by (auto simp: gap_start_def gap_end_def)
  then show "0 < j \<Longrightarrow> j < int (cnt t) \<Longrightarrow> gap_start t j < gap_end t j" .
  show "gap_start t j \<le> gap_end t j"
  proof (cases "0 < j \<and> j < int (cnt t)")
    case True
    then show ?thesis using mid by (simp add: order.strict_implies_order)
  next
    case False
    then have "j = 0 \<or> j = int (cnt t)" using j by linarith
    then show ?thesis by (auto simp: gap_start_def gap_end_def word_n1_ge)
  qed
qed

lemma int_from_split: "(\<exists>i. (a :: int) \<le> i \<and> P i) \<longleftrightarrow> P a \<or> (\<exists>i. a + 1 \<le> i \<and> P i)"
  by (metis add_le_imp_le_right antisym_conv le_add_same_cancel1 linorder_not_le order_refl order_trans zle_add1_eq_le zless_imp_add1_zle zero_le_one)

lemma mem_from_step:
  assumes "0 \<le> a" and "a < int (cnt t)"
  shows "mem_from t a = {rg_base (regions t ! nat a)..<rg_end (regions t ! nat a)} \<union> mem_from t (a + 1)"
  unfolding mem_from_def
  by (subst int_from_split [of a]) (use assms(2) in auto)

lemma gap_from_step:
  assumes "b \<le> int (cnt t)"
  shows "gap_from t b = {gap_start t b..<gap_end t b} \<union> gap_from t (b + 1)"
  unfolding gap_from_def
  by (subst int_from_split [of b]) (use assms in auto)

lemma mem_from_above:
  assumes wf: "wf_type t" and a: "0 \<le> a" "a < int (cnt t)"
  shows "x \<in> mem_from t (a + 1) \<Longrightarrow> rg_end (regions t ! nat a) < x"
    and "x \<in> mem_from t a \<Longrightarrow> rg_base (regions t ! nat a) \<le> x"
proof -
  show up: "rg_end (regions t ! nat a) < x" if x: "x \<in> mem_from t (a + 1)" for x
  proof -
    obtain i where i: "a + 1 \<le> i" "i < int (cnt t)" "rg_base (regions t ! nat i) \<le> x"
      using x unfolding mem_from_def by blast
    have "rg_end (regions t ! nat a) < rg_base (regions t ! nat i)"
      using i a by (intro wf_nth(3) [OF wf]) auto
    also note i(3)
    finally show ?thesis .
  qed
  show "rg_base (regions t ! nat a) \<le> x" if x: "x \<in> mem_from t a"
  proof (cases "x \<in> mem_from t (a + 1)")
    case True
    have "rg_base (regions t ! nat a) \<le> rg_end (regions t ! nat a)" using a by (intro wf_nth(1) [OF wf]) simp
    also have "\<dots> < x" by (rule up [OF True])
    finally show ?thesis by simp
  qed (use x mem_from_step [OF a] in auto)
qed

lemma gap_from_above:
  assumes wf: "wf_type t" and b: "0 \<le> b" "b \<le> int (cnt t)"
  shows "x \<in> gap_from t (b + 1) \<Longrightarrow> gap_end t b < x \<or> gap_end t b = 0" and "x \<in> gap_from t b \<Longrightarrow> gap_start t b \<le> x"
proof -
  show up: "gap_end t b < x \<or> gap_end t b = 0" if x: "x \<in> gap_from t (b + 1)" for x
  proof -
    obtain j where j: "b + 1 \<le> j" "j \<le> int (cnt t)" "gap_start t j \<le> x"
      using x unfolding gap_from_def by blast
    show ?thesis using gap_order [OF wf b(1), of j] j by (auto dest: order.strict_trans2)
  qed
  show "gap_start t b \<le> x" if x: "x \<in> gap_from t b"
  proof (cases "x \<in> gap_from t (b + 1)")
    case True
    then show ?thesis using gap_le(1) [OF assms] up [OF True] by (auto dest: order.strict_trans1)
  qed (use x gap_from_step [OF b(2)] in auto)
qed

lemma gap_meets:
  assumes wf: "wf_type t" and b: "0 \<le> b" "b \<le> int (cnt t)"
    and "gap_start t b < me" and "ms < gap_end t b" and "me \<le> - 1"
  shows "gap_start t b < gap_end t b"
proof -
  consider "b = 0" | "b = int (cnt t)" | "0 < b" "b < int (cnt t)" using b by linarith
  then show ?thesis
  proof cases
    case 1
    then have "gap_start t b \<le> ms" by (simp add: gap_start_def)
    then show ?thesis using assms(5) by (rule order.strict_trans1)
  next
    case 2
    then have "gap_end t b = - 1" by (simp add: gap_end_def)
    then show ?thesis using assms(4,6) by (auto dest: order.strict_trans2)
  next
    case 3
    then show ?thesis using gap_le(2) [OF wf b] by simp
  qed
qed

text \<open>One call of the forward iterator: either nothing free is left, or it returns the lowest free
  range that is left and indices from which exactly the rest is left.\<close>

definition next_ok :: "memblock_type \<Rightarrow> memblock_type \<Rightarrow> int \<Rightarrow> int \<Rightarrow> ((u64 \<times> u64) \<times> int \<times> int) option \<Rightarrow> bool" where
  "next_ok ta t a b r =
     (let left = (\<lambda>a b. mem_from ta a \<inter> gap_from t b)
      in case r of
           None \<Rightarrow> left a b = {}
         | Some ((s, e), a', b') \<Rightarrow>
             s < e \<and> left a b = {s..<e} \<union> left a' b' \<and> (\<forall>x \<in> left a' b'. e < x)
             \<and> 0 \<le> a' \<and> a' \<le> int (cnt ta) \<and> 0 \<le> b' \<and> b' \<le> int (cnt t) \<and> a + b < a' + b')"

lemma next_ok_skip:
  assumes "next_ok ta t a' b' r" and "mem_from ta a \<inter> gap_from t b = mem_from ta a' \<inter> gap_from t b'"
    and "a + b \<le> a' + b'"
  shows "next_ok ta t a b r"
  using assms by (auto simp: next_ok_def Let_def split: option.splits)

lemma next_loop_ok:
  assumes wf: "wf_type ta" "wf_type t"
    and "0 \<le> a" and "a \<le> int (cnt ta)" and "0 \<le> b" and "b \<le> int (cnt t)"
  shows "next_ok ta t a b (next_loop ta (Some t) a b)"
  using assms(3-)
proof (induction "nat (int (cnt ta) - a) + nat (int (cnt t) - b)" arbitrary: a b rule: less_induct)
  case less
  note unf = next_loop.simps [of ta "Some t" a b]
  show ?case
  proof (cases "a < int (cnt ta)")
    case False
    then show ?thesis by (subst unf) (auto simp: next_ok_def mem_from_def)
  next
    case a: True
    define ms me gs ge where "ms = rg_base (regions ta ! nat a)" and "me = rg_end (regions ta ! nat a)"
      and "gs = gap_start t b" and "ge = gap_end t b"
    note d = ms_def me_def gs_def ge_def
    have M: "mem_from ta a = {ms..<me} \<union> mem_from ta (a + 1)"
      and M1: "\<And>x. x \<in> mem_from ta (a + 1) \<Longrightarrow> me < x" "\<And>x. x \<in> mem_from ta a \<Longrightarrow> ms \<le> x"
      using mem_from_step [OF less.prems(1) a] mem_from_above [OF wf(1) less.prems(1) a] by (auto simp: d)
    have G: "gap_from t b = {gs..<ge} \<union> gap_from t (b + 1)"
      and G1: "\<And>x. x \<in> gap_from t (b + 1) \<Longrightarrow> ge < x \<or> ge = 0" "\<And>x. x \<in> gap_from t b \<Longrightarrow> gs \<le> x"
      using gap_from_step [OF less.prems(4)] gap_from_above [OF wf(2) less.prems(3,4)] by (auto simp: d)
    have me: "ms < me \<or> me = 0" "me \<le> - 1"
      using wf_nth(2) [OF wf(1), of "nat a"] a less.prems(1) by (auto simp: d word_n1_ge)
    have last: "b = int (cnt t) \<Longrightarrow> ge = - 1" by (simp add: d gap_end_def)
    have loop: "next_loop ta (Some t) a b =
        (if me \<le> gs then next_loop ta (Some t) (a + 1) b
         else if ms < ge then Some ((max ms gs, min me ge), if me \<le> ge then (a + 1, b) else (a, b + 1))
         else next_loop ta (Some t) a (b + 1))"
      using a less.prems(4) by (subst unf) (simp add: d Let_def)
    consider "me \<le> gs" | "gs < me" "ms < ge" | "gs < me" "ge \<le> ms" by (meson not_le)
    then show ?thesis
    proof cases
      case 1
      have "next_ok ta t (a + 1) b (next_loop ta (Some t) (a + 1) b)"
        using less.prems a by (intro less.hyps) auto
      moreover have "mem_from ta a \<inter> gap_from t b = mem_from ta (a + 1) \<inter> gap_from t b"
        using M G1(2) 1 by (fastforce dest: order.trans)
      ultimately show ?thesis using 1 loop by (auto intro: next_ok_skip)
    next
      case 3
      have "ms < - 1" using me 3(1) by (metis not_less_zero order.strict_trans2 word_not_simps(1))
      then have "b < int (cnt t)" using less.prems(4) last 3(2) by (cases "b = int (cnt t)") auto
      then have "next_ok ta t a (b + 1) (next_loop ta (Some t) a (b + 1))"
        using less.prems a by (intro less.hyps) auto
      moreover have "mem_from ta a \<inter> gap_from t b = mem_from ta a \<inter> gap_from t (b + 1)"
        using G M1(2) 3(2) by (fastforce dest: order.trans)
      ultimately show ?thesis using 3 loop by (auto intro: next_ok_skip)
    next
      case 2
      have "gs < ge" using gap_meets [OF wf(2), of b me ms] less.prems 2 me by (simp add: d)
      then have ne: "max ms gs < min me ge" using 2 me by auto
      have here: "{ms..<me} \<inter> {gs..<ge} = {max ms gs..<min me ge}" by auto
      show ?thesis
      proof (cases "me \<le> ge")
        case True
        have "mem_from ta a \<inter> gap_from t b = {max ms gs..<min me ge} \<union> (mem_from ta (a + 1) \<inter> gap_from t b)"
          using M G G1(1) here True by (fastforce dest: order.trans)
        then show ?thesis using True 2 loop ne M1(1) a less.prems by (auto simp: next_ok_def)
      next
        case False
        have "b < int (cnt t)" using less.prems(4) last me False by (cases "b = int (cnt t)") auto
        moreover have "mem_from ta a \<inter> gap_from t b = {max ms gs..<min me ge} \<union> (mem_from ta a \<inter> gap_from t (b + 1))"
          using M G M1(1) here False by (fastforce dest: order.trans)
        moreover have "\<forall>x \<in> gap_from t (b + 1). ge < x" using G1(1) 2(2) by fastforce
        ultimately show ?thesis using False 2 loop ne a less.prems by (auto simp: next_ok_def)
      qed
    qed
  qed
qed

subsection \<open>The reverse iterator\<close>

definition mem_upto :: "memblock_type \<Rightarrow> int \<Rightarrow> u64 set" where
  "mem_upto t a = {x. \<exists>i. i \<le> a \<and> 0 \<le> i \<and> rg_base (regions t ! nat i) \<le> x \<and> x < rg_end (regions t ! nat i)}"

definition gap_upto :: "memblock_type \<Rightarrow> int \<Rightarrow> u64 set" where
  "gap_upto t b = {x. \<exists>j. j \<le> b \<and> 0 \<le> j \<and> gap_start t j \<le> x \<and> x < gap_end t j}"

lemma int_upto_split: "(\<exists>i. i \<le> (a :: int) \<and> P i) \<longleftrightarrow> P a \<or> (\<exists>i. i \<le> a - 1 \<and> P i)"
  by (metis order_refl zle_diff1_eq order_le_less order_less_imp_le)

lemma mem_upto_step:
  assumes "0 \<le> a"
  shows "mem_upto t a = {rg_base (regions t ! nat a)..<rg_end (regions t ! nat a)} \<union> mem_upto t (a - 1)"
  unfolding mem_upto_def by (subst int_upto_split [of a]) (use assms in auto)

lemma gap_upto_step:
  assumes "0 \<le> b"
  shows "gap_upto t b = {gap_start t b..<gap_end t b} \<union> gap_upto t (b - 1)"
  unfolding gap_upto_def by (subst int_upto_split [of b]) (use assms in auto)

lemma upto_all: "mem_upto t (int (cnt t) - 1) = mem_from t 0" "gap_upto t (int (cnt t)) = gap_from t 0"
  by (auto simp: mem_upto_def mem_from_def gap_upto_def gap_from_def)

lemma mem_upto_below:
  assumes wf: "wf_type t" and a: "0 \<le> a" "a < int (cnt t)"
  shows "x \<in> mem_upto t (a - 1) \<Longrightarrow> x < rg_base (regions t ! nat a)"
    and "x \<in> mem_upto t a \<Longrightarrow> x < rg_end (regions t ! nat a)"
proof -
  show low: "x < rg_base (regions t ! nat a)" if x: "x \<in> mem_upto t (a - 1)" for x
  proof -
    obtain i where i: "i \<le> a - 1" "0 \<le> i" "x < rg_end (regions t ! nat i)"
      using x unfolding mem_upto_def by blast
    note i(3)
    also have "rg_end (regions t ! nat i) < rg_base (regions t ! nat a)"
      using i a by (intro wf_nth(3) [OF wf]) auto
    finally show ?thesis .
  qed
  show "x < rg_end (regions t ! nat a)" if x: "x \<in> mem_upto t a"
  proof (cases "x \<in> mem_upto t (a - 1)")
    case True
    note low [OF True]
    also have "rg_base (regions t ! nat a) \<le> rg_end (regions t ! nat a)" using a by (intro wf_nth(1) [OF wf]) simp
    finally show ?thesis .
  qed (use x mem_upto_step [OF a(1)] in auto)
qed

lemma gap_upto_below:
  assumes wf: "wf_type t" and b: "0 \<le> b" "b \<le> int (cnt t)"
  shows "x \<in> gap_upto t (b - 1) \<Longrightarrow> x < gap_start t b" and "x \<in> gap_upto t b \<Longrightarrow> x < gap_end t b"
proof -
  show low: "x < gap_start t b" if x: "x \<in> gap_upto t (b - 1)" for x
  proof -
    obtain j where j: "j \<le> b - 1" "0 \<le> j" "x < gap_end t j"
      using x unfolding gap_upto_def by blast
    note j(3)
    also have "gap_end t j \<le> gap_start t b" using gap_order [OF wf j(2), of b] j b by auto
    finally show ?thesis .
  qed
  show "x < gap_end t b" if x: "x \<in> gap_upto t b"
  proof (cases "x \<in> gap_upto t (b - 1)")
    case True
    show ?thesis using low [OF True] gap_le(1) [OF assms] by (rule order.strict_trans2)
  qed (use x gap_upto_step [OF b(1)] in auto)
qed

definition rev_ok :: "memblock_type \<Rightarrow> memblock_type \<Rightarrow> int \<Rightarrow> int \<Rightarrow> ((u64 \<times> u64) \<times> int \<times> int) option \<Rightarrow> bool" where
  "rev_ok ta t a b r =
     (let left = (\<lambda>a b. mem_upto ta a \<inter> gap_upto t b)
      in case r of
           None \<Rightarrow> left a b = {}
         | Some ((s, e), a', b') \<Rightarrow>
             s < e \<and> left a b = {s..<e} \<union> left a' b'
             \<and> (left a' b' = {} \<or> (\<exists>p < s. \<forall>x \<in> left a' b'. x < p))
             \<and> - 1 \<le> a' \<and> a' < int (cnt ta) \<and> 0 \<le> b' \<and> b' \<le> int (cnt t) \<and> a' + b' < a + b)"

lemma rev_ok_skip:
  assumes "rev_ok ta t a' b' r" and "mem_upto ta a \<inter> gap_upto t b = mem_upto ta a' \<inter> gap_upto t b'"
    and "a' + b' \<le> a + b"
  shows "rev_ok ta t a b r"
  using assms by (auto simp: rev_ok_def Let_def split: option.splits)

lemma next_rev_loop_ok:
  assumes wf: "wf_type ta" "wf_type t"
    and "- 1 \<le> a" and "a < int (cnt ta)" and "- 1 \<le> b" and "b \<le> int (cnt t)"
  shows "rev_ok ta t a b (next_rev_loop ta (Some t) a b)"
  using assms(3-)
proof (induction "nat (a + 1) + nat (b + 1)" arbitrary: a b rule: less_induct)
  case less
  note unf = next_rev_loop.simps [of ta "Some t" a b]
  have skip_a: "rev_ok ta t (a - 1) b (next_rev_loop ta (Some t) (a - 1) b)" if "0 \<le> a"
    using less.prems that by (intro less.hyps) auto
  show ?case
  proof (cases "0 \<le> a \<and> 0 \<le> b")
    case False
    then have "a = - 1 \<or> 0 \<le> a \<and> b = - 1" using less.prems by linarith
    then show ?thesis
    proof
      assume "a = - 1"
      then show ?thesis by (subst unf) (auto simp: rev_ok_def mem_upto_def)
    next
      assume ab: "0 \<le> a \<and> b = - 1"
      then have "mem_upto ta a \<inter> gap_upto t b = mem_upto ta (a - 1) \<inter> gap_upto t b" by (auto simp: gap_upto_def)
      then show ?thesis using skip_a ab by (subst unf) (auto intro: rev_ok_skip)
    qed
  next
    case ab: True
    define ms me gs ge where "ms = rg_base (regions ta ! nat a)" and "me = rg_end (regions ta ! nat a)"
      and "gs = gap_start t b" and "ge = gap_end t b"
    note d = ms_def me_def gs_def ge_def
    have M: "mem_upto ta a = {ms..<me} \<union> mem_upto ta (a - 1)"
      and M1: "\<And>x. x \<in> mem_upto ta (a - 1) \<Longrightarrow> x < ms" "\<And>x. x \<in> mem_upto ta a \<Longrightarrow> x < me"
      using mem_upto_step [of a ta] mem_upto_below [OF wf(1), of a] ab less.prems(2) by (auto simp: d)
    have G: "gap_upto t b = {gs..<ge} \<union> gap_upto t (b - 1)"
      and G1: "\<And>x. x \<in> gap_upto t (b - 1) \<Longrightarrow> x < gs" "\<And>x. x \<in> gap_upto t b \<Longrightarrow> x < ge"
      using gap_upto_step [of b t] gap_upto_below [OF wf(2), of b] ab less.prems(4) by (auto simp: d)
    have me: "ms < me \<or> me = 0" "me \<le> - 1"
      using wf_nth(2) [OF wf(1), of "nat a"] ab less.prems(2) by (auto simp: d word_n1_ge)
    have zero: "b = 0 \<Longrightarrow> gs = 0" by (simp add: d gap_start_def)
    have loop: "next_rev_loop ta (Some t) a b =
        (if ge \<le> ms then next_rev_loop ta (Some t) (a - 1) b
         else if me > gs then Some ((max ms gs, min me ge), if ms \<ge> gs then (a - 1, b) else (a, b - 1))
         else next_rev_loop ta (Some t) a (b - 1))"
      using ab by (subst unf) (simp add: d Let_def)
    consider "ge \<le> ms" | "gs < me" "ms < ge" | "me \<le> gs" "ms < ge" by (meson not_le)
    then show ?thesis
    proof cases
      case 1
      then have "mem_upto ta a \<inter> gap_upto t b = mem_upto ta (a - 1) \<inter> gap_upto t b"
        using M G1(2) by (fastforce dest: order.strict_trans2)
      then show ?thesis using 1 loop skip_a ab by (auto intro: rev_ok_skip)
    next
      case 3
      have "rev_ok ta t a (b - 1) (next_rev_loop ta (Some t) a (b - 1))"
        using less.prems ab by (intro less.hyps) auto
      moreover have "mem_upto ta a \<inter> gap_upto t b = mem_upto ta a \<inter> gap_upto t (b - 1)"
        using G M1(2) 3(1) by (fastforce dest: order.strict_trans2)
      ultimately show ?thesis using 3 loop by (auto intro: rev_ok_skip)
    next
      case 2
      have "gs < ge" using gap_meets [OF wf(2), of b me ms] ab less.prems(4) 2 me by (simp add: d)
      then have ne: "max ms gs < min me ge" using 2 me by auto
      have here: "{ms..<me} \<inter> {gs..<ge} = {max ms gs..<min me ge}" by auto
      show ?thesis
      proof (cases "gs \<le> ms")
        case True
        have "mem_upto ta a \<inter> gap_upto t b = {max ms gs..<min me ge} \<union> (mem_upto ta (a - 1) \<inter> gap_upto t b)"
          using M G G1(1) here True by (fastforce dest: order.strict_trans2)
        moreover have "mem_upto ta (a - 1) = {} \<or> (\<exists>p < ms. \<forall>x \<in> mem_upto ta (a - 1). x < p)"
        proof (cases "a = 0")
          case False
          then have "rg_end (regions ta ! nat (a - 1)) < ms"
            unfolding d using ab less.prems(2) by (intro wf_nth(3) [OF wf(1)]) auto
          then show ?thesis using mem_upto_below(2) [OF wf(1), of "a - 1"] ab less.prems(2) False by auto
        qed (simp add: mem_upto_def)
        ultimately show ?thesis using True 2 loop ne ab less.prems by (auto simp: rev_ok_def max_def)
      next
        case False
        have "b \<noteq> 0" using zero False by auto
        moreover have "mem_upto ta a \<inter> gap_upto t b = {max ms gs..<min me ge} \<union> (mem_upto ta a \<inter> gap_upto t (b - 1))"
          using M G M1(1) here False by (fastforce dest: order.strict_trans)
        moreover have "gap_end t (b - 1) < gs"
          using gap_order [OF wf(2), of "b - 1" b] ab less.prems(4) \<open>b \<noteq> 0\<close> False by (auto simp: d)
        moreover have "\<forall>x \<in> gap_upto t (b - 1). x < gap_end t (b - 1)"
          using gap_upto_below(2) [OF wf(2), of "b - 1"] ab less.prems(4) \<open>b \<noteq> 0\<close> by auto
        ultimately show ?thesis using False 2 loop ne ab less.prems by (auto simp: rev_ok_def max_def)
      qed
    qed
  qed
qed

subsection \<open>The packed index\<close>

lemma unpack_pack:
  assumes "- (2 ^ 31) \<le> a" "a < 2 ^ 31" and "- (2 ^ 31) \<le> b" "b < 2 ^ 31"
  shows "unpack_a (pack_idx a b) = a" and "unpack_b (pack_idx a b) = b"
proof -
  have s: "sint (word_of_int c :: u32) = c" if "- (2 ^ 31) \<le> c" "c < 2 ^ 31" for c
    using that by (simp add: sint_sbintrunc' signed_take_bit_int_eq_self)
  have "(ucast (pack_idx a b) :: u32) = word_of_int a"
    unfolding pack_idx_def
    by (rule bit_word_eqI) (auto simp: bit_ucast_iff bit_or_iff bit_push_bit_iff dest: bit_imp_le_length)
  then show "unpack_a (pack_idx a b) = a" using s assms(1,2) by (simp add: unpack_a_def)
  have "(ucast (drop_bit 32 (pack_idx a b)) :: u32) = word_of_int b"
    unfolding pack_idx_def
    by (rule bit_word_eqI)
      (auto simp: bit_ucast_iff bit_drop_bit_eq bit_or_iff bit_push_bit_iff bit_word_of_int_iff dest: bit_imp_le_length)
  then show "unpack_b (pack_idx a b) = b" using s assms(3,4) by (simp add: unpack_b_def)
qed

lemma pack_not_end:
  assumes "- (2 ^ 31) \<le> a" "a < 2 ^ 31" and "0 \<le> b" "b < 2 ^ 31"
  shows "pack_idx a b \<noteq> - 1"
proof
  assume "pack_idx a b = - 1"
  then have "b = unpack_b (- 1)" using unpack_pack(2) [of a b] assms by simp
  moreover have "(ucast (drop_bit 32 (- 1 :: u64)) :: u32) = - 1"
    by (rule bit_word_eqI) (simp add: bit_ucast_iff bit_mask_iff)
  then have "unpack_b (- 1) = - 1" by (simp only: unpack_b_def) simp
  ultimately show False using assms(3) by simp
qed

lemma unpack_0: "unpack_a 0 = 0" "unpack_b 0 = 0"
  by (simp_all add: unpack_a_def unpack_b_def)

subsection \<open>The top-down search\<close>

text \<open>\<open>c\<close> is a place for \<open>sz\<close> bytes: inside the free set \<open>F\<close>, between \<open>start\<close> and \<open>lim\<close>, aligned to
  \<open>2 ^ k\<close>.\<close>

definition alloc_fits :: "u64 set \<Rightarrow> u64 \<Rightarrow> u64 \<Rightarrow> u64 \<Rightarrow> nat \<Rightarrow> u64 \<Rightarrow> bool" where
  "alloc_fits F start lim sz k c \<longleftrightarrow>
     start \<le> c \<and> unat c + unat sz \<le> unat lim \<and> 2 ^ k dvd unat c \<and> {c..<c + sz} \<subseteq> F"

lemma unat_round_down:
  assumes "k < 64"
  shows "unat (round_down x (2 ^ k)) = unat x div 2 ^ k * 2 ^ k"
proof -
  have "2 ^ k - 1 = (mask k :: u64)" by (simp add: mask_eq_exp_minus_1)
  then have "round_down x (2 ^ k) = push_bit k (drop_bit k x)"
    unfolding round_down_def
    by (intro bit_word_eqI) (auto simp: bit_and_iff bit_not_iff bit_mask_iff bit_push_bit_iff bit_drop_bit_eq)
  then have "unat (round_down x (2 ^ k)) = take_bit 64 (unat x div 2 ^ k * 2 ^ k)"
    by (simp only: unsigned_push_bit_eq unat_drop_bit_eq)
      (simp add: drop_bit_eq_div push_bit_eq_mult)
  moreover have "unat x div 2 ^ k * 2 ^ k < 2 ^ 64"
    using div_times_less_eq_dividend [of "unat x" "2 ^ k"] unat_u64_less [of x] by linarith
  ultimately show ?thesis by (simp only: take_bit_nat_eq_self)
qed

lemma range_nat:
  fixes c sz lim s e :: u64
  assumes "0 < sz" and "unat c + unat sz \<le> unat lim"
  shows "unat (c + sz) = unat c + unat sz" and "{c..<c + sz} \<noteq> {}"
    and "{c..<c + sz} \<subseteq> {s..<e} \<longleftrightarrow> unat s \<le> unat c \<and> unat c + unat sz \<le> unat e"
proof -
  show u: "unat (c + sz) = unat c + unat sz"
    using unat_add_no_wrap [of c "unat sz"] assms(2) unat_u64_less [of lim] by simp
  have sz: "0 < unat sz" using assms(1) by (simp add: word_less_nat_alt)
  show "{c..<c + sz} \<noteq> {}" using sz by (auto simp: word_less_nat_alt u)
  show "{c..<c + sz} \<subseteq> {s..<e} \<longleftrightarrow> unat s \<le> unat c \<and> unat c + unat sz \<le> unat e"
    using sz by (subst ivl_subset) (auto simp: word_le_nat_alt u)
qed

text \<open>The candidate taken from one free range is its highest place.\<close>

lemma candidate:
  fixes s e start lim sz :: u64
  defines "s' \<equiv> clamp s start lim" and "e' \<equiv> clamp e start lim"
  assumes "s < e" and sz: "0 < sz" and k: "k < 64"
  shows "alloc_fits {s..<e} start lim sz k c \<Longrightarrow>
           \<not> e' < sz \<and> s' \<le> round_down (e' - sz) (2 ^ k) \<and> c \<le> round_down (e' - sz) (2 ^ k)"
    and "\<not> e' < sz \<Longrightarrow> s' \<le> round_down (e' - sz) (2 ^ k) \<Longrightarrow>
           alloc_fits {s..<e} start lim sz k (round_down (e' - sz) (2 ^ k))"
proof -
  have S: "unat s' = min (max (unat s) (unat start)) (unat lim)"
    and E: "unat e' = min (max (unat e) (unat start)) (unat lim)"
    by (simp_all add: s'_def e'_def clamp_def min_def max_def word_le_nat_alt)
  have se: "unat s < unat e" using assms(3) by (simp add: word_less_nat_alt)
  have sz0: "0 < unat sz" using sz by (simp add: word_less_nat_alt)
  note rd = unat_round_down [OF k, of "e' - sz"]
  have diff: "unat (e' - sz) = unat e' - unat sz" if "\<not> e' < sz"
    using that by (intro unat_sub) (simp add: not_less)
  {
    assume c: "alloc_fits {s..<e} start lim sz k c"
    then have cl: "unat start \<le> unat c" "unat c + unat sz \<le> unat lim" "2 ^ k dvd unat c"
        and "{c..<c + sz} \<subseteq> {s..<e}"
      by (auto simp: alloc_fits_def word_le_nat_alt)
    then have ce: "unat s \<le> unat c" "unat c + unat sz \<le> unat e"
      using range_nat(3) [OF sz cl(2)] by auto
    have e: "unat c + unat sz \<le> unat e'" using E cl ce by linarith
    then have ok: "\<not> e' < sz" by (simp add: word_less_nat_alt)
    have "unat c = unat c div 2 ^ k * 2 ^ k" using cl(3) by simp
    also have "\<dots> \<le> (unat e' - unat sz) div 2 ^ k * 2 ^ k" using e by (intro mult_le_mono1 div_le_mono) simp
    finally have "unat c \<le> unat (round_down (e' - sz) (2 ^ k))" using rd diff [OF ok] by simp
    moreover have "unat s' \<le> unat c" using S cl ce by linarith
    ultimately show "\<not> e' < sz \<and> s' \<le> round_down (e' - sz) (2 ^ k) \<and> c \<le> round_down (e' - sz) (2 ^ k)"
      using ok by (simp add: word_le_nat_alt)
  next
    assume ok: "\<not> e' < sz" and ge: "s' \<le> round_down (e' - sz) (2 ^ k)"
    define r where "r = round_down (e' - sz) (2 ^ k)"
    have "unat r \<le> unat e' - unat sz"
      unfolding r_def rd diff [OF ok] by (rule div_times_less_eq_dividend)
    moreover have "unat sz \<le> unat e'" using ok by (simp add: word_less_nat_alt)
    moreover have "unat s' \<le> unat r" using ge by (simp add: r_def word_le_nat_alt)
    ultimately have r: "unat start \<le> unat r" "unat s \<le> unat r" "unat r + unat sz \<le> unat e" "unat r + unat sz \<le> unat lim"
      using S E se sz0 by linarith+
    have "2 ^ k dvd unat r" by (simp add: r_def rd)
    then show "alloc_fits {s..<e} start lim sz k (round_down (e' - sz) (2 ^ k))"
      using r range_nat(3) [OF sz r(4), of s e] by (simp add: alloc_fits_def r_def [symmetric] word_le_nat_alt)
  }
qed

definition best_fit :: "u64 set \<Rightarrow> u64 \<Rightarrow> u64 \<Rightarrow> u64 \<Rightarrow> nat \<Rightarrow> u64 \<Rightarrow> bool" where
  "best_fit F start lim sz k r =
     (if \<exists>c. alloc_fits F start lim sz k c
      then alloc_fits F start lim sz k r \<and> (\<forall>c. alloc_fits F start lim sz k c \<longrightarrow> c \<le> r)
      else r = 0)"

lemma fits_member: "alloc_fits F start lim sz k c \<Longrightarrow> 0 < sz \<Longrightarrow> c \<in> F"
  using range_nat(2) [of sz c lim] by (auto simp: alloc_fits_def)

lemma fits_split:
  assumes F: "F = {s..<e} \<union> F'" and p: "F' = {} \<or> (\<exists>p < s. \<forall>x \<in> F'. x < p)" and sz: "0 < sz"
  shows "alloc_fits F start lim sz k c \<longleftrightarrow>
           alloc_fits {s..<e} start lim sz k c \<or> alloc_fits F' start lim sz k c"
    and "alloc_fits F' start lim sz k c \<Longrightarrow> c < s"
proof -
  show below: "c < s" if c: "alloc_fits F' start lim sz k c"
    using fits_member [OF c sz] p by (auto dest: order.strict_trans)
  have "{c..<c + sz} \<subseteq> {s..<e} \<or> {c..<c + sz} \<subseteq> F'"
    if c: "alloc_fits F start lim sz k c"
  proof (rule ccontr)
    assume no: "\<not> ({c..<c + sz} \<subseteq> {s..<e} \<or> {c..<c + sz} \<subseteq> F')"
    have sub: "{c..<c + sz} \<subseteq> {s..<e} \<union> F'" using c F by (simp add: alloc_fits_def)
    obtain x y where xy: "x \<in> {c..<c + sz}" "x \<in> F'" "y \<in> {c..<c + sz}" "y \<in> {s..<e}"
      using no sub by blast
    obtain q where q: "q < s" "\<forall>x \<in> F'. x < q" using p xy(2) by auto
    have "c \<le> q" "q < c + sz" using xy q by (auto dest: order.strict_trans1 order.strict_trans2 order.strict_trans)
    then have "q \<in> {s..<e} \<union> F'" using sub by auto
    then show False using q by auto
  qed
  then show "alloc_fits F start lim sz k c \<longleftrightarrow>
           alloc_fits {s..<e} start lim sz k c \<or> alloc_fits F' start lim sz k c"
    using F by (auto simp: alloc_fits_def)
qed

definition rev_start :: "memblock_type \<Rightarrow> memblock_type \<Rightarrow> u64 \<Rightarrow> int \<times> int" where
  "rev_start ta t idx =
     (if idx = - 1 then (int (cnt ta) - 1, int (cnt t)) else (unpack_a idx, unpack_b idx))"

lemma find_loop_best:
  assumes wf: "wf_type (memory mb)" "wf_type (reserved mb)"
    and small: "int (cnt (memory mb)) < 2 ^ 31" "int (cnt (reserved mb)) < 2 ^ 31"
    and sz: "0 < sz" and k: "k < 64"
    and "rev_start (memory mb) (reserved mb) idx = (a, b)"
    and "- 1 \<le> a" "a < int (cnt (memory mb))" "0 \<le> b" "b \<le> int (cnt (reserved mb))"
  shows "\<exists>r. find_top_down_loop mb start lim sz (2 ^ k) idx = Some r
           \<and> best_fit (mem_upto (memory mb) a \<inter> gap_upto (reserved mb) b) start lim sz k r"
  using assms(7-)
proof (induction "nat (a + 1) + nat b" arbitrary: a b idx rule: less_induct)
  case less
  let ?ta = "memory mb" and ?tb = "reserved mb"
  let ?left = "\<lambda>a b. mem_upto ?ta a \<inter> gap_upto ?tb b"
  note unf = find_top_down_loop.simps [of mb start lim sz "2 ^ k" idx]
  have nxt: "next_mem_range_rev ?ta (Some ?tb) idx =
      (case next_rev_loop ?ta (Some ?tb) a b of Some (rng, a, b) \<Rightarrow> (pack_idx a b, Some rng) | None \<Rightarrow> (- 1, None))"
    using less.prems(1) by (auto simp: next_mem_range_rev_def rev_start_def split: if_splits)
  have ok: "rev_ok ?ta ?tb a b (next_rev_loop ?ta (Some ?tb) a b)"
    using less.prems by (intro next_rev_loop_ok [OF wf]) auto
  show ?case
  proof (cases "next_rev_loop ?ta (Some ?tb) a b")
    case None
    then have "?left a b = {}" using ok by (simp add: rev_ok_def)
    then have "best_fit (?left a b) start lim sz k 0"
      using range_nat(2) [OF sz] by (auto simp: best_fit_def alloc_fits_def)
    then show ?thesis using None nxt by (subst unf) simp
  next
    case (Some q)
    obtain s e a' b' where q: "q = ((s, e), a', b')" by (metis surj_pair)
    have r: "s < e" "?left a b = {s..<e} \<union> ?left a' b'"
        "?left a' b' = {} \<or> (\<exists>p < s. \<forall>x \<in> ?left a' b'. x < p)"
        "- 1 \<le> a'" "a' < int (cnt ?ta)" "0 \<le> b'" "b' \<le> int (cnt ?tb)" "a' + b' < a + b"
      using ok Some q by (simp_all add: rev_ok_def)
    have start': "rev_start ?ta ?tb (pack_idx a' b') = (a', b')"
      using unpack_pack [of a' b'] pack_not_end [of a' b'] r small by (simp add: rev_start_def)
    have "nat (a' + 1) + nat b' < nat (a + 1) + nat b" using r less.prems by linarith
    from less.hyps [OF this start' r(4-7)] obtain r' where
      r': "find_top_down_loop mb start lim sz (2 ^ k) (pack_idx a' b') = Some r'"
        "best_fit (?left a' b') start lim sz k r'" by blast
    note split = fits_split [OF r(2,3) sz, of start lim k]
    let ?s = "clamp s start lim" and ?e = "clamp e start lim"
    let ?c = "round_down (?e - sz) (2 ^ k)"
    note cand = candidate [OF r(1) sz k, of start lim]
    have step: "find_top_down_loop mb start lim sz (2 ^ k) idx =
        (if \<not> ?e < sz \<and> ?s \<le> ?c then Some ?c else Some r')"
      using Some q nxt r'(1) by (subst unf) (simp add: Let_def)
    show ?thesis
    proof (cases "\<not> ?e < sz \<and> ?s \<le> ?c")
      case True
      then have here: "alloc_fits {s..<e} start lim sz k ?c" using cand(2) by blast
      then have "s \<le> ?c" using fits_member [OF here sz] by simp
      have "c \<le> ?c" if c: "alloc_fits (?left a b) start lim sz k c" for c
      proof (cases "alloc_fits {s..<e} start lim sz k c")
        case True
        then show ?thesis using cand(1) [of c] by simp
      next
        case False
        then have "c < s" using c split by blast
        then show ?thesis using \<open>s \<le> ?c\<close> by (auto dest: order.strict_trans2 order.strict_implies_order)
      qed
      then have "best_fit (?left a b) start lim sz k ?c" using here split(1) by (auto simp: best_fit_def)
      then show ?thesis using step True by simp
    next
      case False
      then have "\<not> alloc_fits {s..<e} start lim sz k c" for c using cand(1) [of c] by blast
      then have "best_fit (?left a b) start lim sz k r'" using r'(2) split(1) by (simp add: best_fit_def)
      then show ?thesis using step False by simp
    qed
  qed
qed

end
