(* ===== verification/MemblockProps.thy ===== *)
theory MemblockProps
  imports MemblockFree Interfaces
begin

text \<open>
  What the boot allocator promises: the arrays stay sorted, merged and disjoint and cover exactly what
  was added; an allocation is the highest aligned place in free memory and is reserved afterwards;
  \<^verbatim>\<open>memblock_free_all\<close> releases every whole free page exactly once, in naturally aligned blocks.
\<close>

section \<open>The state of the allocator\<close>

text \<open>Both arrays are well formed. The iterators pack two signed 32-bit indices into 64 bits.\<close>

definition wf_memblock :: "memblock \<Rightarrow> bool" where
  "wf_memblock mb \<longleftrightarrow>
     wf_type (memory mb) \<and> wf_type (reserved mb) \<and> 0 < max_cnt (memory mb) \<and> 0 < max_cnt (reserved mb)
     \<and> max_cnt (memory mb) < 2 ^ 31 \<and> max_cnt (reserved mb) < 2 ^ 31"

text \<open>The free memory. The last byte of the address space is never free.\<close>

definition free_mem :: "memblock \<Rightarrow> u64 set" where
  "free_mem mb = cover (regions (memory mb)) \<inter> {x. x < - 1 \<and> x \<notin> cover (regions (reserved mb))}"

lemma wf_memblock_cnt:
  assumes "wf_memblock mb"
  shows "int (cnt (memory mb)) < 2 ^ 31" "int (cnt (reserved mb)) < 2 ^ 31"
  using assms by (auto simp: wf_memblock_def wf_type_def)

section \<open>Adding ranges\<close>

interpretation memory_table: range_store "\<lambda>t. wf_type t \<and> 0 < max_cnt t" "\<lambda>t. cover (regions t)"
  "\<lambda>(base, sz). {base..<base + memblock_cap_size base sz}" "\<lambda>t (base, sz). memblock_add_range t base sz"
proof
  fix t :: memblock_type and r :: "u64 \<times> u64" and t'
  assume "wf_type t \<and> 0 < max_cnt t" and "(case r of (base, sz) \<Rightarrow> memblock_add_range t base sz) = Inr t'"
  then show "(wf_type t' \<and> 0 < max_cnt t') \<and> cover (regions t') = cover (regions t) \<union>
      (case r of (base, sz) \<Rightarrow> {base..<base + memblock_cap_size base sz})"
    using add_range_cases [of t "fst r" "snd r"] by (auto split: prod.splits)
qed

section \<open>Allocating\<close>

lemma find_in_range_best:
  assumes "wf_memblock mb" and "0 < sz" and "k < 64"
  shows "\<exists>r. memblock_find_in_range_node mb sz (2 ^ k) = Some r
           \<and> best_fit (free_mem mb) 4096 (current_limit mb) sz k r"
proof -
  have wf: "wf_type (memory mb)" "wf_type (reserved mb)" using assms(1) by (auto simp: wf_memblock_def)
  have "cnt (memory mb) \<noteq> 0" using wf(1) by (auto simp: wf_type_def)
  then show ?thesis
    using find_loop_best [OF wf wf_memblock_cnt [OF assms(1)] assms(2,3),
        of "- 1" "int (cnt (memory mb)) - 1" "int (cnt (reserved mb))" 4096 "current_limit mb"]
    unfolding memblock_find_in_range_node_def memblock_find_range_top_down_def
    by (simp add: rev_start_def upto_all mem_from_0 gap_from_0 [OF wf(2)] free_mem_def)
qed

lemma fits_cap:
  assumes "alloc_fits F start lim sz k r" and "0 < sz"
  shows "memblock_cap_size r sz = sz"
proof -
  have "unat r + unat sz \<le> unat lim" using assms by (simp add: alloc_fits_def)
  then have "unat sz \<le> unat (- 1 :: u64) - unat r" using unat_u64_le [of lim] by simp
  also have "\<dots> = unat (- 1 - r)" by (subst unat_sub) (simp_all add: word_n1_ge)
  finally show ?thesis by (simp add: memblock_cap_size_def word_le_nat_alt min_def)
qed

lemma fits_nonzero: "alloc_fits F 4096 lim sz k r \<Longrightarrow> r \<noteq> 0"
  by (auto simp: alloc_fits_def)

lemma reserve_fit:
  assumes wf: "wf_memblock mb" and fit: "alloc_fits (free_mem mb) 4096 lim sz k r" and sz: "0 < sz"
  shows "(\<exists>t. memblock_reserve mb r sz = Inr (mb\<lparr>reserved := t\<rparr>) \<and> wf_memblock (mb\<lparr>reserved := t\<rparr>)
             \<and> cover (regions t) = cover (regions (reserved mb)) \<union> {r..<r + sz})
         \<or> memblock_reserve mb r sz = Inl Panic
            \<and> max_cnt (reserved mb) < length (spread r (r + sz) (regions (reserved mb)))"
  using add_range_cases [of "reserved mb" r sz] wf fits_cap [OF fit sz]
  by (auto simp: memblock_reserve_def wf_memblock_def)

text \<open>The free memory after an allocation.\<close>

lemma free_mem_reserved:
  assumes "cover (regions t) = cover (regions (reserved mb)) \<union> R"
  shows "free_mem (mb\<lparr>reserved := t\<rparr>) = free_mem mb - R"
  using assms by (auto simp: free_mem_def)

text \<open>What a call of \<^verbatim>\<open>memblock_alloc_range_nid\<close> can do.\<close>

lemma alloc_range_cases:
  fixes align :: u64
  defines "al \<equiv> if align = 0 then 64 else align"
  assumes wf: "wf_memblock mb" and run: "\<not> memblock_stopped mb"
    and sz: "0 < sz" and k: "k < 64" "al = 2 ^ k"
  shows "\<exists>r. best_fit (free_mem mb) 4096 (current_limit mb) sz k r
     \<and> (if r = 0 then memblock_alloc_range_nid mb sz align = Some (Inr (mb, 0))
        else (\<exists>t. memblock_alloc_range_nid mb sz align = Some (Inr (mb\<lparr>reserved := t\<rparr>, r))
                \<and> wf_memblock (mb\<lparr>reserved := t\<rparr>)
                \<and> cover (regions t) = cover (regions (reserved mb)) \<union> {r..<r + sz})
             \<or> memblock_alloc_range_nid mb sz align = Some (Inl Panic)
                \<and> max_cnt (reserved mb) < length (spread r (r + sz) (regions (reserved mb))))"
proof -
  obtain r where r: "memblock_find_in_range_node mb sz al = Some r"
      "best_fit (free_mem mb) 4096 (current_limit mb) sz k r"
    using find_in_range_best [OF wf sz k(1)] k(2) by auto
  have eq: "memblock_alloc_range_nid mb sz align =
      (if r = 0 then Some (Inr (mb, 0)) else Some (obind (memblock_reserve mb r sz) (\<lambda>mb. Inr (mb, r))))"
    using run r(1) by (simp add: memblock_alloc_range_nid_def al_def Let_def split: if_splits)
  show ?thesis
  proof (cases "r = 0")
    case True
    then show ?thesis using eq r(2) by auto
  next
    case False
    then have "alloc_fits (free_mem mb) 4096 (current_limit mb) sz k r"
      using r(2) by (auto simp: best_fit_def split: if_splits)
    from reserve_fit [OF wf this sz] show ?thesis
      using eq r(2) False by (intro exI [of _ r]) auto
  qed
qed

text \<open>The allocator seen through its contract: a request is a positive size and an alignment that is a
  power of two, or 0 for the default; a successful call returns a non-zero address.\<close>

definition boot_request :: "u64 \<Rightarrow> u64 \<Rightarrow> bool" where
  "boot_request sz align \<longleftrightarrow> 0 < sz \<and> (align = 0 \<or> is_power_of_2 align)"

definition boot_alloc :: "memblock \<Rightarrow> u64 \<times> u64 \<Rightarrow> (memblock \<times> u64) option" where
  "boot_alloc mb req =
     (if boot_request (fst req) (snd req) then
        case memblock_alloc_range_nid mb (fst req) (snd req) of
          Some (Inr (mb', r)) \<Rightarrow> if r = 0 then None else Some (mb', r)
        | _ \<Rightarrow> None
      else None)"

definition boot_wf :: "memblock \<Rightarrow> bool" where
  "boot_wf mb \<longleftrightarrow> wf_memblock mb \<and> \<not> memblock_stopped mb"

lemma request_align:
  assumes "boot_request sz align"
  obtains k where "k < 64" and "(if align = 0 then 64 else align) = 2 ^ k"
proof (cases "align = 0")
  case True
  then show ?thesis using that [of 6] by simp
next
  case False
  then show ?thesis using assms that by (auto simp: boot_request_def is_power_of_2_iff)
qed

lemma boot_alloc_ok:
  assumes "boot_wf mb" and "boot_alloc mb (sz, align) = Some (mb', r)"
  shows "boot_wf mb' \<and> {r..<r + sz} \<subseteq> free_mem mb \<and> free_mem mb' = free_mem mb - {r..<r + sz}"
proof -
  have req: "boot_request sz align" using assms(2) by (simp add: boot_alloc_def split: if_splits)
  have got: "memblock_alloc_range_nid mb sz align = Some (Inr (mb', r))" "r \<noteq> 0"
    using assms(2) req
    by (auto simp: boot_alloc_def split: option.splits sum.splits prod.splits if_splits)
  obtain k where k: "k < 64" "(if align = 0 then 64 else align) = 2 ^ k" using request_align [OF req] .
  have run: "wf_memblock mb" "\<not> memblock_stopped mb" "0 < sz"
    using assms(1) req by (auto simp: boot_wf_def boot_request_def)
  obtain t where t: "mb' = mb\<lparr>reserved := t\<rparr>" "wf_memblock mb'"
      "cover (regions t) = cover (regions (reserved mb)) \<union> {r..<r + sz}"
      "best_fit (free_mem mb) 4096 (current_limit mb) sz k r"
    using alloc_range_cases [OF run(1,2,3) k] got by (auto split: if_splits)
  have "alloc_fits (free_mem mb) 4096 (current_limit mb) sz k r"
    using t(4) got(2) by (auto simp: best_fit_def split: if_splits)
  then show ?thesis
    using t(1,2) run(2) free_mem_reserved [OF t(3)] by (auto simp: boot_wf_def alloc_fits_def)
qed

interpretation boot: allocator boot_wf free_mem "\<lambda>(sz, align) r. {r..<r + sz}" boot_alloc
proof
  fix mb :: memblock and req mb' r
  assume "boot_wf mb" and "boot_alloc mb req = Some (mb', r)"
  then show "boot_wf mb' \<and> (case req of (sz, align) \<Rightarrow> \<lambda>r. {r..<r + sz}) r \<subseteq> free_mem mb
      \<and> free_mem mb' = free_mem mb - (case req of (sz, align) \<Rightarrow> \<lambda>r. {r..<r + sz}) r"
    using boot_alloc_ok [of mb "fst req" "snd req" mb' r] by (auto split: prod.splits)
qed

section \<open>Handing the free memory over\<close>

subsection \<open>Blocks\<close>

text \<open>The calls tile the pages from \<open>s\<close> to \<open>e\<close>: block after block without a gap, each of a size that
  divides its position.\<close>

fun tiles :: "nat \<Rightarrow> boot_call list \<Rightarrow> nat \<Rightarrow> bool" where
  "tiles s [] e \<longleftrightarrow> s = e"
| "tiles s (FreePagesCore p ord # cs) e \<longleftrightarrow> p = s \<and> ord \<le> 10 \<and> 2 ^ ord dvd p \<and> tiles (s + 2 ^ ord) cs e"
| "tiles s (ReserveBootmem x y # cs) e \<longleftrightarrow> False"

lemma shrink_order_le: "shrink_order s e ord \<le> ord"
  by (induction ord) (auto intro: le_SucI)

lemma shrink_order_fits: "s < e \<Longrightarrow> s + 2 ^ shrink_order s e ord \<le> e"
  by (induction ord) auto

lemma ffs_dvd:
  assumes "s < 2 ^ 64" and "k \<le> min 10 (ffs (of_nat s))"
  shows "2 ^ k dvd s"
proof (cases "s = 0")
  case False
  then have nz: "(of_nat s :: u64) \<noteq> 0" using assms(1) by (auto simp: of_nat64_inj [of s 0, simplified])
  have "2 ^ k dvd (2 ^ ffs (of_nat s) :: nat)" using assms(2) by (intro le_imp_power_dvd) simp
  also have "\<dots> dvd s" using ffs_split(3) [OF nz] assms(1) by (simp add: unat_of_nat64)
  finally show ?thesis .
qed simp

lemma free_pages_tiles: "s \<le> e \<Longrightarrow> e < 2 ^ 64 \<Longrightarrow> tiles s (free_pages_memory s e) e"
proof (induction s e rule: free_pages_memory.induct)
  case (1 s e)
  show ?case
  proof (cases "s < e")
    case True
    define ord where "ord = shrink_order s e (min 10 (ffs (of_nat s)))"
    have le: "ord \<le> min 10 (ffs (of_nat s))" unfolding ord_def by (rule shrink_order_le)
    have "s + 2 ^ ord \<le> e" unfolding ord_def by (rule shrink_order_fits [OF True])
    then have "tiles (s + 2 ^ ord) (free_pages_memory (s + 2 ^ ord) e) e"
      unfolding ord_def using 1 True by simp
    moreover have "2 ^ ord dvd s" using ffs_dvd [OF _ le] True 1(3) by simp
    ultimately show ?thesis
      using True le by (subst free_pages_memory.simps) (simp add: Let_def ord_def [symmetric])
  next
    case False
    then have "s = e" using 1(2) by simp
    moreover have "free_pages_memory s e = []" using False by (subst free_pages_memory.simps) simp
    ultimately show ?thesis by simp
  qed
qed

text \<open>The pages a sequence of calls frees, in order.\<close>

fun freed :: "boot_call list \<Rightarrow> nat list" where
  "freed [] = []"
| "freed (FreePagesCore p ord # cs) = [p..<p + 2 ^ ord] @ freed cs"
| "freed (ReserveBootmem x y # cs) = freed cs"

fun aligned_blocks :: "boot_call list \<Rightarrow> bool" where
  "aligned_blocks [] \<longleftrightarrow> True"
| "aligned_blocks (FreePagesCore p ord # cs) \<longleftrightarrow> ord \<le> 10 \<and> 2 ^ ord dvd p \<and> aligned_blocks cs"
| "aligned_blocks (ReserveBootmem x y # cs) \<longleftrightarrow> aligned_blocks cs"

lemma freed_append [simp]: "freed (xs @ ys) = freed xs @ freed ys"
  by (induction xs rule: freed.induct) auto

lemma aligned_append [simp]: "aligned_blocks (xs @ ys) \<longleftrightarrow> aligned_blocks xs \<and> aligned_blocks ys"
  by (induction xs rule: aligned_blocks.induct) auto

lemma tiles_freed: "tiles s cs e \<Longrightarrow> s \<le> e \<and> freed cs = [s..<e] \<and> aligned_blocks cs"
proof (induction s cs e rule: tiles.induct)
  case (2 s p ord cs e)
  then show ?case using upt_add_eq_append [of s "s + 2 ^ ord" "e - (s + 2 ^ ord)"] by auto
qed auto

subsection \<open>Pages\<close>

definition page :: "nat \<Rightarrow> u64 set" where
  "page p = {x. unat x div 4096 = p}"

lemma unat_PFN_DOWN: "unat (PFN_DOWN x) = unat x div 4096"
  unfolding PFN_DOWN_def unat_drop_bit_eq by (simp add: drop_bit_eq_div)

lemma unat_PFN_UP:
  assumes "unat x \<le> 2 ^ 63"
  shows "unat (PFN_UP x) = (unat x + 4095) div 4096"
proof -
  have "x + 4096 - 1 = x + of_nat 4095" by simp
  also have "unat \<dots> = unat x + 4095" using assms by (intro unat_add_no_wrap) simp
  finally show ?thesis unfolding PFN_UP_def unat_drop_bit_eq by (simp only: drop_bit_eq_div) simp
qed

lemma page_ends:
  assumes "p < 2 ^ 52"
  shows "of_nat (p * 4096) \<in> page p" and "of_nat (p * 4096 + 4095) \<in> page p"
    and "unat (of_nat (p * 4096) :: u64) = p * 4096" and "unat (of_nat (p * 4096 + 4095) :: u64) = p * 4096 + 4095"
proof -
  show u: "unat (of_nat (p * 4096) :: u64) = p * 4096" "unat (of_nat (p * 4096 + 4095) :: u64) = p * 4096 + 4095"
    using assms by (subst unat_of_nat64; simp)+
  show "of_nat (p * 4096) \<in> page p" "of_nat (p * 4096 + 4095) \<in> page p"
    unfolding page_def mem_Collect_eq u by simp_all
qed

lemma page_bounds:
  "(s + 4095) div 4096 \<le> p \<longleftrightarrow> s \<le> p * (4096 :: nat)" "p < e div 4096 \<longleftrightarrow> p * 4096 + 4095 < (e :: nat)"
proof -
  have "(s + 4095) div 4096 < Suc p \<longleftrightarrow> s + 4095 < Suc p * 4096" by (rule div_less_iff_less_mult) simp
  also have "\<dots> \<longleftrightarrow> s \<le> p * 4096" by auto
  finally show "(s + 4095) div 4096 \<le> p \<longleftrightarrow> s \<le> p * 4096" by (simp only: less_Suc_eq_le)
  have "Suc p \<le> e div 4096 \<longleftrightarrow> Suc p * 4096 \<le> e" by (rule less_eq_div_iff_mult_less_eq) simp
  then show "p < e div 4096 \<longleftrightarrow> p * 4096 + 4095 < e" by (simp only: Suc_le_eq) auto
qed

lemma page_div:
  assumes "x div 4096 = (p :: nat)"
  shows "p * 4096 \<le> x" and "x \<le> p * 4096 + 4095"
proof -
  show "p * 4096 \<le> x" using div_times_less_eq_dividend [of x 4096] assms by simp
  have "\<not> p < x div 4096" using assms by simp
  then show "x \<le> p * 4096 + 4095" unfolding page_bounds(2) by simp
qed

lemma page_subset:
  assumes "unat e \<le> 2 ^ 63" and "s < e" and "p < 2 ^ 52"
  shows "page p \<subseteq> {s..<e} \<longleftrightarrow> unat (PFN_UP s) \<le> p \<and> p < unat (PFN_DOWN e)"
proof -
  have "unat s < unat e" using assms(2) by (simp add: word_less_nat_alt)
  then have s: "unat (PFN_UP s) = (unat s + 4095) div 4096" using assms(1) by (intro unat_PFN_UP) simp
  have "page p \<subseteq> {s..<e} \<longleftrightarrow> unat s \<le> p * 4096 \<and> p * 4096 + 4095 < unat e"
  proof
    assume "page p \<subseteq> {s..<e}"
    then have "(of_nat (p * 4096) :: u64) \<in> {s..<e}" "(of_nat (p * 4096 + 4095) :: u64) \<in> {s..<e}"
      using page_ends(1,2) [OF assms(3)] by blast+
    then show "unat s \<le> p * 4096 \<and> p * 4096 + 4095 < unat e"
      unfolding atLeastLessThan_iff word_le_nat_alt word_less_nat_alt page_ends(3,4) [OF assms(3)] by blast
  next
    assume r: "unat s \<le> p * 4096 \<and> p * 4096 + 4095 < unat e"
    show "page p \<subseteq> {s..<e}"
    proof
      fix x
      assume "x \<in> page p"
      then have "p * 4096 \<le> unat x" "unat x \<le> p * 4096 + 4095" using page_div by (auto simp: page_def)
      then show "x \<in> {s..<e}" using r by (simp add: word_le_nat_alt word_less_nat_alt)
    qed
  qed
  also have "\<dots> \<longleftrightarrow> (unat s + 4095) div 4096 \<le> p \<and> p < unat e div 4096"
    by (simp only: page_bounds)
  finally show ?thesis by (simp add: s unat_PFN_DOWN)
qed

text \<open>A page of the free memory lies in the first range or in the rest.\<close>

lemma page_split:
  assumes "p < 2 ^ 52" and "F = {s..<e} \<union> F'" and "\<forall>x \<in> F'. e < x"
  shows "page p \<subseteq> F \<longleftrightarrow> page p \<subseteq> {s..<e} \<or> page p \<subseteq> F'"
proof
  assume sub: "page p \<subseteq> F"
  show "page p \<subseteq> {s..<e} \<or> page p \<subseteq> F'"
  proof (rule ccontr)
    assume "\<not> (page p \<subseteq> {s..<e} \<or> page p \<subseteq> F')"
    then obtain x y where "x \<in> page p" "x \<notin> F'" "y \<in> page p" "y \<notin> {s..<e}" by blast
    then have "x \<in> page p" "x < e" "y \<in> page p" "e < y" using sub assms(2,3) by auto
    then have "unat x div 4096 = p" "unat y div 4096 = p" "unat x \<le> unat e" "unat e \<le> unat y"
      by (auto simp: page_def word_less_nat_alt)
    then have "unat e div 4096 = p"
      using div_le_mono [of "unat x" "unat e" 4096] div_le_mono [of "unat e" "unat y" 4096] by (simp only:)
    then have "e \<in> F" using sub by (auto simp: page_def)
    then show False using assms(2,3) by auto
  qed
qed (use assms in auto)

subsection \<open>One range\<close>

definition pages_in :: "u64 set \<Rightarrow> u64 \<Rightarrow> nat set" where
  "pages_in F mx = {p. p < 2 ^ 52 \<and> p < unat mx \<and> page p \<subseteq> F}"

text \<open>What a sequence of calls must have done for the free set \<open>F\<close>.\<close>

definition released :: "u64 set \<Rightarrow> u64 \<Rightarrow> boot_call list \<Rightarrow> u64 \<Rightarrow> bool" where
  "released F mx calls n \<longleftrightarrow>
     aligned_blocks calls \<and> sorted_wrt (<) (freed calls) \<and> set (freed calls) = pages_in F mx
     \<and> n = of_nat (length (freed calls))"

lemma pages_in_empty [simp]: "pages_in {} mx = {}"
  using page_ends(1) unfolding pages_in_def by blast

lemma mem_from_mono: "0 \<le> a \<Longrightarrow> mem_from t a \<subseteq> mem_from t 0"
  unfolding mem_from_def by (blast intro: order.trans)

lemma unat_min: "unat (min (x :: u64) y) = min (unat x) (unat y)"
  by (simp add: min_def word_le_nat_alt)

lemma pages_in_range:
  assumes "s < e" and "unat e \<le> 2 ^ 63"
  shows "pages_in {s..<e} mx = {unat (PFN_UP s)..<unat (min (PFN_DOWN e) mx)}"
proof -
  have "unat (PFN_DOWN e) \<le> 2 ^ 63 div 4096"
    unfolding unat_PFN_DOWN using assms(2) by (rule div_le_mono)
  then have top: "p < 2 ^ 52" if "p < unat (PFN_DOWN e)" for p using that by simp
  have "p \<in> pages_in {s..<e} mx \<longleftrightarrow> unat (PFN_UP s) \<le> p \<and> p < min (unat (PFN_DOWN e)) (unat mx)" for p
    unfolding pages_in_def mem_Collect_eq using page_subset [OF assms(2,1), of p] top [of p] by auto
  then show ?thesis unfolding unat_min by (intro set_eqI) (simp only: atLeastLessThan_iff)
qed

lemma free_memory_core_ok:
  assumes "s < e" and "unat e \<le> 2 ^ 63"
  shows "case free_memory_core mx s e of (calls, n) \<Rightarrow> released {s..<e} mx calls n"
proof -
  define a b where "a = PFN_UP s" and "b = min (PFN_DOWN e) mx"
  note set = pages_in_range [OF assms, of mx, folded a_def b_def]
  show ?thesis
  proof (cases "b \<le> a")
    case True
    then have "pages_in {s..<e} mx = {}" using set by (simp add: word_le_nat_alt)
    then show ?thesis using True
      by (simp add: free_memory_core_def a_def [symmetric] b_def [symmetric] released_def Let_def)
  next
    case False
    then have ab: "unat a \<le> unat b" by (simp add: word_le_nat_alt)
    have "freed (free_pages_memory (unat a) (unat b)) = [unat a..<unat b]"
        "aligned_blocks (free_pages_memory (unat a) (unat b))"
      using tiles_freed [OF free_pages_tiles [OF ab unat_u64_less [of b]]] by auto
    moreover have "b - a = of_nat (unat b - unat a)" using ab by simp
    ultimately show ?thesis using False set
      by (simp add: free_memory_core_def a_def [symmetric] b_def [symmetric] released_def Let_def)
  qed
qed

lemma released_append:
  assumes "released {s..<e} mx cs n" and "released F' mx cs' n'"
    and F: "F = {s..<e} \<union> F'" and above: "\<forall>x \<in> F'. e < x"
  shows "released F mx (cs @ cs') (n + n')"
proof -
  have "pages_in F mx = pages_in {s..<e} mx \<union> pages_in F' mx"
    using page_split [OF _ F above] by (auto simp: pages_in_def)
  moreover have "p < q" if p: "p \<in> pages_in {s..<e} mx" and q: "q \<in> pages_in F' mx" for p q
  proof -
    have pq: "p < 2 ^ 52" "q < 2 ^ 52" using p q by (auto simp: pages_in_def)
    have "of_nat (p * 4096) < e" "e < of_nat (q * 4096)"
      using p q page_ends(1) [OF pq(1)] page_ends(1) [OF pq(2)] above unfolding pages_in_def by auto
    then have "p * 4096 < q * 4096"
      unfolding word_less_nat_alt page_ends(3) [OF pq(1)] page_ends(3) [OF pq(2)] by (rule less_trans)
    then show ?thesis by simp
  qed
  ultimately show ?thesis using assms(1,2) by (auto simp: released_def sorted_wrt_append)
qed

subsection \<open>All ranges\<close>

lemma free_all_loop_ok:
  assumes wf: "wf_memblock mb" and top: "\<forall>x \<in> cover (regions (memory mb)). unat x < 2 ^ 63"
    and "unpack_a idx = a" "unpack_b idx = b"
    and "0 \<le> a" "a \<le> int (cnt (memory mb))" "0 \<le> b" "b \<le> int (cnt (reserved mb))"
  shows "\<exists>calls n. free_all_loop mb mx idx = Some (calls, n)
           \<and> released (mem_from (memory mb) a \<inter> gap_from (reserved mb) b) mx calls n"
  using assms(3-)
proof (induction "nat (int (cnt (memory mb)) + int (cnt (reserved mb)) - (a + b))" arbitrary: a b idx rule: less_induct)
  case less
  let ?ta = "memory mb" and ?tb = "reserved mb"
  let ?left = "\<lambda>a b. mem_from ?ta a \<inter> gap_from ?tb b"
  note unf = free_all_loop.simps [of mb mx idx]
  have wfs: "wf_type ?ta" "wf_type ?tb" using wf by (auto simp: wf_memblock_def)
  note ok = next_loop_ok [OF wfs less.prems(3-6)]
  show ?case
  proof (cases "next_loop ?ta (Some ?tb) a b")
    case None
    then have "?left a b = {}" using ok by (simp add: next_ok_def)
    then have "released (?left a b) mx [] 0" by (simp add: released_def)
    then show ?thesis using None less.prems(1,2) by (subst unf) (simp add: next_mem_range_def)
  next
    case (Some q)
    obtain s e a' b' where q: "q = ((s, e), a', b')" by (metis surj_pair)
    have r: "s < e" "?left a b = {s..<e} \<union> ?left a' b'" "\<forall>x \<in> ?left a' b'. e < x"
        "0 \<le> a'" "a' \<le> int (cnt ?ta)" "0 \<le> b'" "b' \<le> int (cnt ?tb)" "a + b < a' + b'"
      using ok Some q by (simp_all add: next_ok_def)
    have idx: "unpack_a (pack_idx a' b') = a'" "unpack_b (pack_idx a' b') = b'"
      using unpack_pack [of a' b'] r wf_memblock_cnt [OF wf] by auto
    have "e \<noteq> 0" and "unat s < unat e" using r(1) by (auto simp: word_less_nat_alt)
    then have "e - 1 \<in> {s..<e}" by (simp add: word_le_nat_alt word_less_nat_alt unat_minus_one)
    then have "e - 1 \<in> mem_from ?ta 0" using r(2) mem_from_mono [OF less.prems(3)] by blast
    then have "unat (e - 1) < 2 ^ 63" using top by (simp add: mem_from_0)
    then have e: "unat e \<le> 2 ^ 63" using \<open>e \<noteq> 0\<close> by (simp add: unat_minus_one)
    have "nat (int (cnt ?ta) + int (cnt ?tb) - (a' + b')) < nat (int (cnt ?ta) + int (cnt ?tb) - (a + b))"
      using r by linarith
    from less.hyps [OF this idx r(4-7)] obtain cs' n' where
      rest: "free_all_loop mb mx (pack_idx a' b') = Some (cs', n')" "released (?left a' b') mx cs' n'" by blast
    obtain cs n where here: "free_memory_core mx s e = (cs, n)" "released {s..<e} mx cs n"
      using free_memory_core_ok [OF r(1) e, of mx] by (auto split: prod.splits)
    have "free_all_loop mb mx idx = Some (cs @ cs', n + n')"
      using Some q less.prems(1,2) here(1) rest(1) by (subst unf) (simp add: next_mem_range_def)
    then show ?thesis using released_append [OF here(2) rest(2) r(2,3)] by blast
  qed
qed

lemma reserve_all_loop_ok:
  assumes "cnt (reserved mb) < 2 ^ 31" and "i \<le> cnt (reserved mb)"
  shows "reserve_all_loop mb (of_nat i) =
    Some (map (\<lambda>r. ReserveBootmem (rg_base r) (rg_end r - 1)) (drop i (regions (reserved mb))))"
  using assms(2)
proof (induction "cnt (reserved mb) - i" arbitrary: i)
  case 0
  then show ?case using assms(1) by (subst reserve_all_loop.simps) (simp add: next_reserved_mem_region_def)
next
  case (Suc n)
  then have i: "i < cnt (reserved mb)" by simp
  have IH: "reserve_all_loop mb (of_nat (Suc i)) =
      Some (map (\<lambda>r. ReserveBootmem (rg_base r) (rg_end r - 1)) (drop (Suc i) (regions (reserved mb))))"
    using Suc by (intro Suc.hyps(1)) auto
  have "(of_nat i :: u64) + 1 = of_nat (Suc i)" by simp
  then show ?case using i assms(1) IH
    by (subst reserve_all_loop.simps)
      (simp add: next_reserved_mem_region_def Cons_nth_drop_Suc [symmetric] rg_end_def Let_def del: of_nat_Suc)
qed

text \<open>The first call of \<^verbatim>\<open>memblock_free_all\<close>.\<close>

lemma free_all_first:
  assumes "wf_memblock mb" and "\<forall>x \<in> cover (regions (memory mb)). unat x < 2 ^ 63" and "\<not> memblock_stopped mb"
  shows "\<exists>mb' calls n.
           memblock_free_all mb mx =
             Some (Inr (mb', map (\<lambda>r. ReserveBootmem (rg_base r) (rg_end r - 1)) (regions (reserved mb)) @ calls, n))
           \<and> memblock_stopped mb' \<and> totalram_pages mb' = totalram_pages mb + n
           \<and> released (free_mem mb) mx calls n"
proof -
  define m1 where "m1 = mb\<lparr>memblock_stopped := True, reset_managed_pages_done := True\<rparr>"
  have m1: "memory m1 = memory mb" "reserved m1 = reserved mb" by (simp_all add: m1_def)
  have wf: "wf_memblock m1" using assms(1) by (simp add: wf_memblock_def m1)
  then have gap: "wf_type (reserved mb)" by (simp add: wf_memblock_def m1)
  obtain calls n where free: "free_all_loop m1 mx 0 = Some (calls, n)" "released (free_mem mb) mx calls n"
    using free_all_loop_ok [OF wf, of 0 0 0 mx] assms(2)
    by (auto simp: m1 unpack_0 mem_from_0 gap_from_0 [OF gap] free_mem_def)
  have "reserve_all_loop m1 0 =
      Some (map (\<lambda>r. ReserveBootmem (rg_base r) (rg_end r - 1)) (regions (reserved mb)))"
    using reserve_all_loop_ok [of m1 0] wf_memblock_cnt [OF wf] by (simp add: m1)
  then show ?thesis using assms(3) free
    by (simp add: memblock_free_all_def m1_def [symmetric] free_low_memory_core_early_def) (simp add: m1_def)
qed

section \<open>Properties\<close>

text \<open>A board with 128 megabytes of memory at \<open>0x80000000\<close> whose first two megabytes hold the kernel.\<close>

definition board :: memblock where
  "board = memblock_init
     \<lparr>memory := \<lparr>max_cnt = 128, total_size = 0x8000000, regions = [region 0x80000000 0x8000000]\<rparr>,
      reserved := \<lparr>max_cnt = 128, total_size = 0x200000, regions = [region 0x80000000 0x200000]\<rparr>\<rparr>"

lemma board_wf: "wf_memblock board" "boot_wf board"
  by (simp_all add: board_def boot_wf_def wf_memblock_def wf_type_def memblock_init_def Let_def sizes_def)

text \<open>C18. Adding a range (\<^verbatim>\<open>memblock_add_range\<close>) to a well-formed array panics only when the array has no
  room for the regions needed. Otherwise the array stays sorted, disjoint and merged with the right
  total, and it covers exactly what it covered before and the new range, cut off at the end of the
  address space.\<close>

theorem memblock_add_range_exact:
  assumes "wf_type t" and "0 < max_cnt t"
  shows "case memblock_add_range t base sz of
           Inr t' \<Rightarrow> wf_type t' \<and> max_cnt t' = max_cnt t
             \<and> cover (regions t') = cover (regions t) \<union> {base..<base + memblock_cap_size base sz}
         | Inl f \<Rightarrow> f = Panic
             \<and> max_cnt t < length (spread base (base + memblock_cap_size base sz) (regions t))"
  using add_range_cases [OF assms, of base sz] by auto

theorem memblock_add_range_exact_witness:
  "\<exists>t'. memblock_add_range (reserved board) 0x80100000 0x300000 = Inr t' \<and> wf_type t'
     \<and> regions t' = [region 0x80000000 0x400000]"
proof -
  have "memblock_add_range (reserved board) 0x80100000 0x300000 =
      Inr \<lparr>max_cnt = 128, total_size = 0x400000, regions = [region 0x80000000 0x400000]\<rparr>"
    by (simp add: board_def memblock_add_range_def memblock_cap_size_def add_range_pass_def
        add_range_loop.simps memblock_insert_region_def memblock_merge_regions_def merge_loop.simps
        min_def word_le_def word_less_def Let_def)
  moreover have "wf_type (reserved board) \<and> 0 < max_cnt (reserved board)" using board_wf(1) by (simp add: wf_memblock_def)
  ultimately show ?thesis
    using memblock_add_range_exact [of "reserved board" "0x80100000" "0x300000"] by simp
qed

text \<open>C17. \<^verbatim>\<open>memblock_alloc_range_nid\<close> always returns. It returns 0 and changes nothing exactly when no
  place is suitable; otherwise it returns the highest suitable address, and then this range, and
  nothing else, has become reserved, or it panics because the array of reservations is full. A place is
  suitable when its bytes are memory and not reserved, it lies between the first page and the current
  limit, and it is aligned.\<close>

theorem memblock_alloc_highest:
  fixes align :: u64
  assumes "wf_memblock mb" and "\<not> memblock_stopped mb" and "0 < sz" and "k < 64"
    and "(if align = 0 then 64 else align) = 2 ^ k"
  shows "\<exists>r. best_fit (free_mem mb) 4096 (current_limit mb) sz k r
     \<and> (if r = 0 then memblock_alloc_range_nid mb sz align = Some (Inr (mb, 0))
        else (\<exists>t. memblock_alloc_range_nid mb sz align = Some (Inr (mb\<lparr>reserved := t\<rparr>, r))
                \<and> wf_memblock (mb\<lparr>reserved := t\<rparr>)
                \<and> cover (regions t) = cover (regions (reserved mb)) \<union> {r..<r + sz})
             \<or> memblock_alloc_range_nid mb sz align = Some (Inl Panic)
                \<and> max_cnt (reserved mb) < length (spread r (r + sz) (regions (reserved mb))))"
  using assms by (rule alloc_range_cases)

lemma board_alloc:
  "memblock_alloc_range_nid board 4096 4096 =
     Some (Inr (board\<lparr>reserved := \<lparr>max_cnt = 128, total_size = 0x201000,
       regions = [region 0x80000000 0x200000, region 0x87FFF000 4096]\<rparr>\<rparr>, 0x87FFF000))"
  by code_simp

theorem memblock_alloc_highest_witness:
  "memblock_alloc_range_nid board 4096 4096 =
     Some (Inr (board\<lparr>reserved := \<lparr>max_cnt = 128, total_size = 0x201000,
       regions = [region 0x80000000 0x200000, region 0x87FFF000 4096]\<rparr>\<rparr>, 0x87FFF000))
   \<and> best_fit (free_mem board) 4096 (- 1) 4096 12 0x87FFF000"
proof -
  have "\<not> memblock_stopped board" and lim: "current_limit board = - 1"
    by (simp_all add: board_def memblock_init_def Let_def)
  then obtain r where "best_fit (free_mem board) 4096 (- 1) 4096 12 r"
      "r = 0 \<longrightarrow> memblock_alloc_range_nid board 4096 4096 = Some (Inr (board, 0))"
      "r \<noteq> 0 \<longrightarrow> (\<exists>t. memblock_alloc_range_nid board 4096 4096 = Some (Inr (board\<lparr>reserved := t\<rparr>, r)))
          \<or> memblock_alloc_range_nid board 4096 4096 = Some (Inl Panic)"
    using memblock_alloc_highest [OF board_wf(1), of 4096 12 4096] unfolding lim
    by (simp split: if_splits) metis
  then show ?thesis using board_alloc by (cases "r = 0") simp_all
qed

text \<open>C19. In any run of successful boot-time allocations the ranges handed out never overlap.\<close>

theorem boot_allocations_disjoint:
  assumes "boot_wf mb" and "boot.allocs mb out mb'" and "i < j" and "j < length out"
    and "out ! i = ((sz, align), r)" and "out ! j = ((sz', align'), r')"
  shows "{r..<r + sz} \<inter> {r'..<r' + sz'} = {}"
  using boot.allocs_disjoint [OF assms(2,1,3,4)] assms(5,6) by simp

theorem boot_allocations_disjoint_witness:
  "\<exists>mb'. boot.allocs board [((4096, 4096), 0x87FFF000), ((4096, 0), 0x87FFE000)] mb'
     \<and> {0x87FFF000..<0x87FFF000 + 4096 :: u64} \<inter> {0x87FFE000..<0x87FFE000 + 4096} = {}"
proof -
  define b1 where "b1 = board\<lparr>reserved := \<lparr>max_cnt = 128, total_size = 0x201000,
       regions = [region 0x80000000 0x200000, region 0x87FFF000 4096]\<rparr>\<rparr>"
  define b2 where "b2 = board\<lparr>reserved := \<lparr>max_cnt = 128, total_size = 0x202000,
       regions = [region 0x80000000 0x200000, region 0x87FFE000 8192]\<rparr>\<rparr>"
  have "boot_alloc board (4096, 4096) = Some (b1, 0x87FFF000)"
    unfolding b1_def by code_simp
  moreover have "boot_alloc b1 (4096, 0) = Some (b2, 0x87FFE000)"
    unfolding b1_def b2_def by code_simp
  ultimately have run: "boot.allocs board [((4096, 4096), 0x87FFF000), ((4096, 0), 0x87FFE000)] b2"
    by (blast intro: boot.allocs_Cons boot.allocs_Nil)
  then show ?thesis
    using boot_allocations_disjoint [OF board_wf(2) run, of 0 1 4096 4096 "0x87FFF000" 4096 0 "0x87FFE000"] by auto
qed

text \<open>C16. \<^verbatim>\<open>memblock_free_all\<close> panics when it is called again; the first time it returns, closes the boot
  allocator and reports every reservation. The pages it frees are exactly the pages below
  \<open>max_low_pfn\<close> all of whose bytes are memory and not reserved; each is freed once, in ascending order,
  in blocks of at most \<open>2 ^ 10\<close> pages aligned to their size; the result is the number of these pages.\<close>

theorem memblock_free_all_exact:
  assumes "wf_memblock mb" and "\<forall>x \<in> cover (regions (memory mb)). unat x < 2 ^ 63"
  shows "if memblock_stopped mb then memblock_free_all mb mx = Some (Inl Panic)
         else \<exists>mb' calls n.
           memblock_free_all mb mx =
             Some (Inr (mb', map (\<lambda>r. ReserveBootmem (rg_base r) (rg_end r - 1)) (regions (reserved mb)) @ calls, n))
           \<and> memblock_stopped mb' \<and> totalram_pages mb' = totalram_pages mb + n
           \<and> released (free_mem mb) mx calls n"
  using free_all_first [OF assms, of mx] by (cases "memblock_stopped mb") (simp_all add: memblock_free_all_def)

theorem memblock_free_all_exact_witness:
  "\<exists>mb' calls n.
     memblock_free_all board 0x88000 = Some (Inr (mb', ReserveBootmem 0x80000000 0x801FFFFF # calls, n))
     \<and> released (free_mem board) 0x88000 calls n"
proof -
  have "\<forall>x \<in> cover (regions (memory board)). unat x < 2 ^ 63"
    by (auto simp: board_def cover_def word_less_nat_alt)
  moreover have "\<not> memblock_stopped board" "regions (reserved board) = [region 0x80000000 0x200000]"
    by (simp_all add: board_def memblock_init_def Let_def)
  ultimately show ?thesis using memblock_free_all_exact [OF board_wf(1), of "0x88000"] by auto
qed

end
