(* ===== verification/BuddyBoot.thy ===== *)
theory BuddyBoot
  imports BuddyInit BuddyProps MemblockProps
begin

text \<open>
  The hand-over from the boot allocator to the page allocator, what an allocation returns through the
  per-cpu list, and the properties of the page allocator.
\<close>

section \<open>Operations that do not change the free lists\<close>

text \<open>Two states with the same lists in zone \<open>z\<close> and page entries that differ at most in the flags below
  the zone number and in the count.\<close>

definition same_lists :: "nat \<Rightarrow> mm \<Rightarrow> mm \<Rightarrow> bool" where
  "same_lists z m m' \<longleftrightarrow> areas (node_zones m' z) = areas (node_zones m z)
     \<and> (\<forall>q. page_type (mem_map m' q) = page_type (mem_map m q) \<and> pg_private (mem_map m' q) = pg_private (mem_map m q)
          \<and> page_zone_id (mem_map m' q) = page_zone_id (mem_map m q))"

lemma same_lists_ok:
  assumes "same_lists z m m'"
  shows "zblocks z m' = zblocks z m" and "free_of z m' = free_of z m" and "zone_ok z m' = zone_ok z m"
proof -
  show b: "zblocks z m' = zblocks z m" using assms by (simp add: zblocks_def same_lists_def)
  then show "free_of z m' = free_of z m" by (simp add: free_of_def)
  have "lists_ok z m' = lists_ok z m" using assms by (simp add: lists_ok_def same_lists_def)
  moreover have "flags_sound z m' = flags_sound z m"
    using assms unfolding flags_sound_def b PageBuddy_def page_order_def by (simp add: same_lists_def)
  ultimately show "zone_ok z m' = zone_ok z m" by (simp add: zone_ok_def b)
qed

lemma same_lists_trans: "same_lists z m m' \<Longrightarrow> same_lists z m' m'' \<Longrightarrow> same_lists z m m''"
  by (simp add: same_lists_def)

lemma reserved_zone [simp]:
  "page_zone_id (ClearPageReserved p) = page_zone_id p" "page_zone_id (SetPageReserved p) = page_zone_id p"
proof -
  have "drop_bit 62 (pg_flags p AND NOT (push_bit PG_reserved 1)) = drop_bit 62 (pg_flags p)"
    unfolding PG_reserved_def
    by (rule bit_word_eqI)
      (simp only: bit_drop_bit_eq o_apply bit_and_iff bit_not_iff bit_push_bit_iff bit_1_iff, auto dest: bit_imp_le_length)
  then show "page_zone_id (ClearPageReserved p) = page_zone_id p" by (simp add: page_zone_id_def ClearPageReserved_def)
  have "drop_bit 62 (pg_flags p OR push_bit PG_reserved 1) = drop_bit 62 (pg_flags p)"
    unfolding PG_reserved_def
    by (rule bit_word_eqI) (simp only: bit_drop_bit_eq o_apply bit_or_iff bit_push_bit_iff bit_1_iff, auto)
  then show "page_zone_id (SetPageReserved p) = page_zone_id p" by (simp add: page_zone_id_def SetPageReserved_def)
qed

lemma reserved_fields [simp]:
  "page_type (ClearPageReserved p) = page_type p" "page_type (SetPageReserved p) = page_type p"
  "pg_private (ClearPageReserved p) = pg_private p" "pg_private (SetPageReserved p) = pg_private p"
  "pg_refcount (ClearPageReserved p) = pg_refcount p" "pg_refcount (SetPageReserved p) = pg_refcount p"
  by (simp_all add: ClearPageReserved_def SetPageReserved_def)

lemma same_lists_core_reset: "same_lists z m (core_reset p n m)"
proof (induction n arbitrary: p m)
  case (Suc n)
  have "same_lists z m (upd_page p (\<lambda>q. set_page_count 0 (ClearPageReserved q)) m)" by (simp add: same_lists_def)
  then show ?case using Suc.IH same_lists_trans by fastforce
qed (simp add: same_lists_def)

lemma same_lists_reserve: "same_lists z m (reserve_bootmem_region s e m)"
proof -
  have "same_lists z m (fold reserve_bootmem_page ps m)" for ps
  proof (induction ps arbitrary: m)
    case (Cons p ps)
    have "same_lists z m (reserve_bootmem_page p m)" by (simp add: reserve_bootmem_page_def same_lists_def)
    then show ?case using Cons.IH same_lists_trans by fastforce
  qed (simp add: same_lists_def)
  then show ?thesis by (simp add: reserve_bootmem_region_def)
qed

section \<open>Boot\<close>

definition all_in_zone :: "nat \<Rightarrow> mm \<Rightarrow> bool" where
  "all_in_zone z m \<longleftrightarrow> (\<forall>q. page_zone_id (mem_map m q) = z)"

lemma zonenum_id: "page_zonenum p = page_zone_id p"
  by (simp add: page_zonenum_def page_zone_id_def)

lemma free_merge_zone: "page_zone_id (mem_map (fst (free_merge z m pfn ord bp)) q) = page_zone_id (mem_map m q)"
proof (induction z m pfn ord bp rule: free_merge.induct)
  case (1 z m pfn ord bp)
  then show ?case by (subst free_merge.simps) (auto simp: Let_def)
qed

lemma free_one_page_zone: "all_in_zone y m \<Longrightarrow> all_in_zone y (free_one_page z pfn ord m)"
  using free_merge_zone [of z m pfn ord 0]
  by (auto simp: free_one_page_def all_in_zone_def Let_def split: prod.splits)

lemma expand_zone: "page_zone_id (mem_map (expand z p low high m) q) = page_zone_id (mem_map m q)"
proof (induction z p low high m rule: expand.induct)
  case (1 z p low high m)
  then show ?case by (subst expand.simps) (auto simp: Let_def)
qed

lemma rmqueue_zone:
  assumes "all_in_zone y m" "rmqueue_smallest z ord m = Some (m', p)"
  shows "all_in_zone y m'"
proof -
  obtain d where "m' = expand z p ord d (del_page_from_free_list p z d m)"
    using rmqueue_smallest_from_cases [of ord ord z m] assms(2) by (auto simp: rmqueue_smallest_def)
  then show ?thesis using assms(1) by (simp add: all_in_zone_def expand_zone)
qed

text \<open>The state in which \<^verbatim>\<open>__free_pages_core\<close> frees the block.\<close>

lemma free_pages_core_eq:
  assumes "all_in_zone z m"
  shows "\<exists>m1. free_pages_core p ord m = free_one_page z p ord m1 \<and> same_lists z m m1 \<and> all_in_zone z m1"
proof -
  define m0 where "m0 = core_reset p (2 ^ ord) m"
  have s0: "same_lists z m m0" unfolding m0_def by (rule same_lists_core_reset)
  then have a0: "all_in_zone z m0" using assms by (simp add: same_lists_def all_in_zone_def)
  define m1 where "m1 = upd_page p (set_page_count 0)
    (upd_page p set_page_refcounted (upd_zone z (\<lambda>zn. zn\<lparr>managed_pages := managed_pages zn + of_nat (2 ^ ord)\<rparr>) m0))"
  have "same_lists z m0 m1" by (simp add: m1_def same_lists_def set_page_refcounted_def)
  then have s1: "same_lists z m m1" and a1: "all_in_zone z m1"
    using s0 a0 same_lists_trans by (auto simp: same_lists_def all_in_zone_def)
  have zn: "page_zonenum (mem_map m0 p) = z" using a0 by (simp add: zonenum_id all_in_zone_def)
  have "free_pages_core p ord m = free_the_page p ord m1"
    by (simp add: free_pages_core_def m0_def [symmetric] zn Let_def free_pages_page_def put_page_testzero_def m1_def
        set_page_refcounted_def)
  also have "\<dots> = free_one_page z p ord m1"
    using a1 by (simp add: free_the_page_def free_pages_ok_def zonenum_id all_in_zone_def)
  finally show ?thesis using s1 a1 by blast
qed

lemma free_pages_core_ok:
  assumes "zone_ok z m" and all: "all_in_zone z m" and o: "ord < MAX_ORDER" "2 ^ ord dvd p"
    and dis: "blk (p, ord) \<inter> free_of z m = {}"
  shows "zone_ok z (free_pages_core p ord m)" and "free_of z (free_pages_core p ord m) = free_of z m \<union> blk (p, ord)"
    and "all_in_zone z (free_pages_core p ord m)"
proof -
  obtain m1 where m1: "free_pages_core p ord m = free_one_page z p ord m1" "same_lists z m m1" "all_in_zone z m1"
    using free_pages_core_eq [OF all] by blast
  have inv: "merge_inv z m1 p ord"
    using assms m1(3) same_lists_ok [OF m1(2)] by (simp add: merge_inv_def all_in_zone_def)
  show "zone_ok z (free_pages_core p ord m)" "free_of z (free_pages_core p ord m) = free_of z m \<union> blk (p, ord)"
    using free_one_page_ok [OF inv] same_lists_ok(2) [OF m1(2)] by (simp_all add: m1(1))
  show "all_in_zone z (free_pages_core p ord m)" unfolding m1(1) by (rule free_one_page_zone [OF m1(3)])
qed

text \<open>The calls of the boot allocator, block by block.\<close>

lemma boot_calls_ok:
  assumes "zone_ok z m" and "all_in_zone z m" and "aligned_blocks calls" and "distinct (freed calls)"
    and "set (freed calls) \<inter> free_of z m = {}"
  shows "zone_ok z (fold boot_call_fn calls m) \<and> free_of z (fold boot_call_fn calls m) = free_of z m \<union> set (freed calls)"
  using assms
proof (induction calls arbitrary: m rule: freed.induct)
  case (2 p ord cs)
  have o: "ord < MAX_ORDER" "2 ^ ord dvd p" "blk (p, ord) \<inter> free_of z m = {}"
    using "2.prems" by (auto simp: MAX_ORDER_def blk_def)
  note core = free_pages_core_ok [OF "2.prems"(1,2) o]
  have "set (freed cs) \<inter> free_of z (free_pages_core p ord m) = {}"
    using "2.prems"(4,5) by (auto simp: core(2) blk_def)
  from "2.IH" [OF core(1,3) _ _ this] show ?case using "2.prems"(3,4) core(2) by (auto simp: blk_def)
next
  case (3 x y cs)
  have s: "same_lists z m (reserve_bootmem_region x y m)" by (rule same_lists_reserve)
  then have "all_in_zone z (reserve_bootmem_region x y m)" using "3.prems"(2) by (simp add: all_in_zone_def same_lists_def)
  then show ?case using "3.IH" [of "reserve_bootmem_region x y m"] "3.prems" same_lists_ok [OF s] by simp
qed simp

text \<open>The page array as it is after boot: no type bits, no references.\<close>

lemma free_pages_core_fields:
  assumes "untyped m" and "\<forall>q. pg_refcount (mem_map m q) = 0"
  shows "untyped (free_pages_core p ord m) \<and> (\<forall>q. pg_refcount (mem_map (free_pages_core p ord m) q) = 0)"
proof -
  have reset: "untyped (core_reset q n m) \<and> (\<forall>r. pg_refcount (mem_map (core_reset q n m) r) = 0)"
    if "untyped m" "\<forall>q. pg_refcount (mem_map m q) = 0" for q n m
    using that
  proof (induction n arbitrary: q m)
    case (Suc n)
    then show ?case using Suc.IH [of "upd_page q (\<lambda>q. set_page_count 0 (ClearPageReserved q)) m" "Suc q"]
      by (simp add: untyped_def typed_def)
  qed simp
  define m0 where "m0 = core_reset p (2 ^ ord) m"
  have m0: "untyped m0" "\<forall>q. pg_refcount (mem_map m0 q) = 0" using reset [OF assms] by (auto simp: m0_def)
  define m1 where "m1 = upd_page p (set_page_count 0) (upd_page p set_page_refcounted
    (upd_zone (page_zonenum (mem_map m0 p)) (\<lambda>zn. zn\<lparr>managed_pages := managed_pages zn + of_nat (2 ^ ord)\<rparr>) m0))"
  have m1: "untyped m1" "\<forall>q. pg_refcount (mem_map m1 q) = 0"
    using m0 by (auto simp: m1_def untyped_def set_page_refcounted_def)
  have "free_pages_core p ord m = free_one_page (page_zonenum (mem_map m1 p)) p ord m1"
    by (simp add: free_pages_core_def m0_def [symmetric] Let_def free_pages_page_def put_page_testzero_def m1_def
        set_page_refcounted_def free_the_page_def free_pages_ok_def)
  then show ?thesis using untyped_free [OF m1(1)] m1(2) by simp
qed

lemma reserve_fields:
  assumes "untyped m" and "\<forall>q. pg_refcount (mem_map m q) = 0"
  shows "untyped (reserve_bootmem_region s e m) \<and> (\<forall>q. pg_refcount (mem_map (reserve_bootmem_region s e m) q) = 0)"
proof -
  have "untyped (fold reserve_bootmem_page ps m) \<and> (\<forall>q. pg_refcount (mem_map (fold reserve_bootmem_page ps m) q) = 0)"
    for ps using assms
  proof (induction ps arbitrary: m)
    case (Cons p ps)
    then show ?case using Cons.IH [of "reserve_bootmem_page p m"]
      by (simp add: reserve_bootmem_page_def untyped_def typed_def)
  qed simp
  then show ?thesis by (simp add: reserve_bootmem_region_def)
qed

lemma boot_calls_fields:
  assumes "untyped m" and "\<forall>q. pg_refcount (mem_map m q) = 0"
  shows "untyped (fold boot_call_fn calls m) \<and> (\<forall>q. pg_refcount (mem_map (fold boot_call_fn calls m) q) = 0)"
  using assms
proof (induction calls arbitrary: m)
  case (Cons c cs)
  have "untyped (boot_call_fn c m) \<and> (\<forall>q. pg_refcount (mem_map (boot_call_fn c m) q) = 0)"
    using Cons.prems free_pages_core_fields reserve_fields by (cases c) auto
  then show ?case using Cons.IH by simp
qed simp

lemma zero_page_fields [simp]: "\<not> typed zero_page" "pg_refcount zero_page = 0" "page_zone_id zero_page = 0"
  by (simp_all add: zero_page_def typed_def PAGE_TYPE_BASE_def page_zone_id_def)

section \<open>Allocating through the per-cpu list\<close>

definition pcp_ok :: "nat \<Rightarrow> mm \<Rightarrow> bool" where
  "pcp_ok z m \<longleftrightarrow> distinct (pcp_lists (boot_pageset m)) \<and> set (pcp_lists (boot_pageset m)) \<inter> free_of z m = {}"

definition avail_of :: "nat \<Rightarrow> mm \<Rightarrow> nat set" where
  "avail_of z m = free_of z m \<union> set (pcp_lists (boot_pageset m))"

lemma expand_pageset [simp]: "boot_pageset (expand z p low high m) = boot_pageset m"
proof (induction z p low high m rule: expand.induct)
  case (1 z p low high m)
  then show ?case
    by (subst expand.simps) (auto simp: Let_def set_page_order_def add_to_free_list_def)
qed

lemma rmqueue_pageset: "rmqueue_smallest z ord m = Some (m', p) \<Longrightarrow> boot_pageset m' = boot_pageset m"
  using rmqueue_smallest_from_cases [of ord ord z m]
  by (auto simp: rmqueue_smallest_def del_page_from_free_list_def Let_def)

lemma pageset_lists: "zblocks z (m\<lparr>boot_pageset := b\<rparr>) = zblocks z m" "zone_ok z (m\<lparr>boot_pageset := b\<rparr>) = zone_ok z m"
  "free_of z (m\<lparr>boot_pageset := b\<rparr>) = free_of z m"
  using same_lists_ok [of z m "m\<lparr>boot_pageset := b\<rparr>"] by (simp_all add: same_lists_def)

lemma prep_new_page_lists: "mem_map (prep_new_page p ord g m) = mem_map m" "node_zones (prep_new_page p ord g m) = node_zones m"
  "boot_pageset (prep_new_page p ord g m) = boot_pageset m"
proof -
  have "mem_map (kernel_init_free_pages p n m) = mem_map m \<and> node_zones (kernel_init_free_pages p n m) = node_zones m
      \<and> boot_pageset (kernel_init_free_pages p n m) = boot_pageset m" for n
    by (induction n arbitrary: p m) auto
  then show "mem_map (prep_new_page p ord g m) = mem_map m" "node_zones (prep_new_page p ord g m) = node_zones m"
    "boot_pageset (prep_new_page p ord g m) = boot_pageset m" by (simp_all add: prep_new_page_def)
qed

lemma blk_0: "blk (p, 0) = {p}"
  by (auto simp: blk_def)

lemma rmqueue_ok:
  assumes ok: "zone_ok z m" and pcp: "pcp_ok z m" and batch: "pcp_batch (boot_pageset m) = 1"
  shows "case rmqueue z ord m of
      Inl f \<Rightarrow> f = Panic \<and> \<not> has_block z m ord \<and> (ord = 0 \<longrightarrow> pcp_lists (boot_pageset m) = [])
    | Inr (m', p) \<Rightarrow> zone_ok z m' \<and> pcp_ok z m' \<and> blk (p, ord) \<subseteq> avail_of z m \<and> avail_of z m' = avail_of z m - blk (p, ord)
        \<and> pcp_batch (boot_pageset m') = 1"
proof (cases "ord = 0")
  case False
  show ?thesis
  proof (cases "rmqueue_smallest z ord m")
    case None
    then have "\<not> has_block z m ord" by (simp only: rmqueue_smallest_none not_False_eq_True)
    then show ?thesis using False None by (simp add: rmqueue_def rmqueue_locked_def)
  next
    case (Some r)
    obtain m' p where r: "r = (m', p)" by fastforce
    note al = rmqueue_smallest_ok [OF ok Some [unfolded r]] and ps = rmqueue_pageset [OF Some [unfolded r]]
    show ?thesis using False Some r al pcp batch
      by (auto simp: rmqueue_def rmqueue_locked_def pcp_ok_def avail_of_def ps)
  qed
next
  case z0: True
  show ?thesis
  proof (cases "pcp_lists (boot_pageset m)")
    case (Cons p ps)
    then have "rmqueue z ord m = Inr (m\<lparr>boot_pageset := (boot_pageset m)\<lparr>pcp_lists := ps,
        pcp_count := pcp_count (boot_pageset m) - 1\<rparr>\<rparr>, p)"
      using z0 by (simp add: rmqueue_def rmqueue_pcplist_def Let_def)
    then show ?thesis using Cons ok pcp batch z0 by (auto simp: pageset_lists pcp_ok_def avail_of_def blk_0)
  next
    case Nil
    show ?thesis
    proof (cases "rmqueue_smallest z 0 m")
      case None
      then have "\<not> has_block z m 0" by (simp only: rmqueue_smallest_none not_False_eq_True)
      then show ?thesis using z0 Nil batch None
        by (simp add: rmqueue_def rmqueue_pcplist_def rmqueue_locked_def Let_def)
    next
      case (Some r)
      obtain m' p where r: "r = (m', p)" by fastforce
      note al = rmqueue_smallest_ok [OF ok Some [unfolded r]] and ps = rmqueue_pageset [OF Some [unfolded r]]
      have "rmqueue z ord m = Inr (m'\<lparr>boot_pageset := (boot_pageset m')\<lparr>pcp_lists := [],
          pcp_count := pcp_count (boot_pageset m') + 1 - 1\<rparr>\<rparr>, p)"
        using z0 Nil batch Some r by (simp add: rmqueue_def rmqueue_pcplist_def rmqueue_locked_def Let_def)
      then show ?thesis using al Nil batch z0 by (auto simp: pageset_lists pcp_ok_def avail_of_def ps)
    qed
  qed
qed

lemma rmqueue_panics_iff:
  assumes "pcp_batch (boot_pageset m) = 1"
  shows "(\<exists>f. rmqueue z ord m = Inl f) \<longleftrightarrow> \<not> has_block z m ord \<and> (ord = 0 \<longrightarrow> pcp_lists (boot_pageset m) = [])"
  using assms unfolding rmqueue_smallest_none [symmetric]
  by (cases "rmqueue_smallest z ord m"; cases "pcp_lists (boot_pageset m)")
    (auto simp: rmqueue_def rmqueue_pcplist_def rmqueue_locked_def Let_def)

section \<open>Sequences of allocations and frees\<close>

text \<open>The blocks a zone has given out, beside the state.\<close>

definition disjoint_blocks :: "(nat \<times> nat) set \<Rightarrow> bool" where
  "disjoint_blocks H \<longleftrightarrow> (\<forall>b \<in> H. \<forall>c \<in> H. b \<noteq> c \<longrightarrow> blk b \<inter> blk c = {})"

inductive zone_run :: "nat \<Rightarrow> mm \<times> (nat \<times> nat) set \<Rightarrow> mm \<times> (nat \<times> nat) set \<Rightarrow> bool" for z where
  run_refl: "zone_run z s s"
| run_take: "zone_run z s (m, H) \<Longrightarrow> rmqueue_smallest z ord m = Some (m', p) \<Longrightarrow> zone_run z s (m', insert (p, ord) H)"
| run_give: "zone_run z s (m, H) \<Longrightarrow> (p, ord) \<in> H \<Longrightarrow> zone_run z s (free_one_page z p ord m, H - {(p, ord)})"

definition zone_held :: "nat \<Rightarrow> nat set \<Rightarrow> mm \<times> (nat \<times> nat) set \<Rightarrow> bool" where
  "zone_held z U s \<longleftrightarrow> zone_ok z (fst s) \<and> marked z (fst s) \<and> all_in_zone z (fst s)
     \<and> (\<forall>(p, ord) \<in> snd s. ord < MAX_ORDER \<and> 2 ^ ord dvd p) \<and> disjoint_blocks (snd s)
     \<and> pages_of (snd s) \<inter> free_of z (fst s) = {} \<and> pages_of (snd s) \<union> free_of z (fst s) = U"

lemma zone_held_take:
  assumes h: "zone_held z U (m, H)" and t: "rmqueue_smallest z ord m = Some (m', p)"
  shows "zone_held z U (m', insert (p, ord) H)"
proof -
  have ok: "zone_ok z m" "marked z m" "all_in_zone z m" "disjoint_blocks H" "pages_of H \<inter> free_of z m = {}" "pages_of H \<union> free_of z m = U"
    using h by (simp_all add: zone_held_def)
  note r = rmqueue_smallest_ok [OF ok(1) t] and mk = marked_rmqueue [OF ok(1,2) t]
  have "blk b \<inter> blk (p, ord) = {}" if "b \<in> H" for b using that r ok(5) by (auto simp: pages_of_def)
  then have "disjoint_blocks (insert (p, ord) H)" using ok(4) by (auto simp: disjoint_blocks_def)
  moreover have "pages_of (insert (p, ord) H) = blk (p, ord) \<union> pages_of H" by (simp add: pages_of_def)
  moreover have "all_in_zone z m'" by (rule rmqueue_zone [OF ok(3) t])
  ultimately show ?thesis using h r mk ok(5,6) by (auto simp: zone_held_def)
qed

lemma zone_held_give:
  assumes h: "zone_held z U (m, H)" and b: "(p, ord) \<in> H"
  shows "zone_held z U (free_one_page z p ord m, H - {(p, ord)})"
proof -
  have ok: "zone_ok z m" "marked z m" "all_in_zone z m" "disjoint_blocks H" "pages_of H \<inter> free_of z m = {}" "pages_of H \<union> free_of z m = U"
    "ord < MAX_ORDER" "2 ^ ord dvd p"
    using h b by (auto simp: zone_held_def)
  have "blk (p, ord) \<inter> blk c = {}" if "c \<in> H - {(p, ord)}" for c using that b ok(4) unfolding disjoint_blocks_def by blast
  then have split: "blk (p, ord) \<inter> pages_of (H - {(p, ord)}) = {}" "pages_of H = blk (p, ord) \<union> pages_of (H - {(p, ord)})"
    using b unfolding pages_of_def by blast+
  have inv: "merge_inv z m p ord" using ok split by (auto simp: merge_inv_def all_in_zone_def)
  note r = free_one_page_ok [OF inv] and mk = marked_free [OF inv ok(2)] and zn = free_one_page_zone [OF ok(3), of z p ord]
  have "disjoint_blocks (H - {(p, ord)})" using ok(4) by (simp add: disjoint_blocks_def)
  then show ?thesis using h r mk zn ok(5,6) split by (auto simp: zone_held_def)
qed

lemma zone_run_held:
  assumes "zone_run z s s'" "zone_held z U s"
  shows "zone_held z U s'"
  using assms by induction (auto intro: zone_held_take zone_held_give)

section \<open>Properties\<close>

text \<open>A machine with one populated zone and empty free lists; every page entry is \<open>pg\<close>.\<close>

definition empty_mm :: "page_struct \<Rightarrow> mm" where
  "empty_mm pg = \<lparr>
     node_zones = (\<lambda>_. \<lparr>zone_start_pfn = 0, managed_pages = 0, spanned_pages = 0, present_pages = 0,
       initialized = True, areas = (\<lambda>_. \<lparr>free_list = [], nr_free = 0\<rparr>)\<rparr>),
     zonerefs = [(Some 0, 0), (None, 0)], nr_zones = 1, node_start_pfn = 0x80000, node_spanned_pages = 0x8000,
     node_present_pages = 0x8000, node_mem_map = 0, mem_map_ptr = 0, mem_map = (\<lambda>_. pg),
     boot_pageset = setup_pageset 0, max_mapnr = 0x88000, pfn_base = 0x80000, va_pa_offset = 0,
     nr_kernel_pages = 0, ram = (\<lambda>_. 0)\<rparr>"

text \<open>A page entry with all type bits set.\<close>

definition typed_page :: page_struct where
  "typed_page = zero_page\<lparr>page_type := - 1\<rparr>"

lemma typed_page_fields [simp]: "typed typed_page" "\<not> PageBuddy typed_page" "page_zone_id typed_page = 0"
  by (simp_all add: typed_page_def typed_def PageBuddy_def zero_page_def PAGE_TYPE_BASE_def PG_buddy_def page_zone_id_def)

lemma empty_mm_blocks [simp]: "zblocks z (empty_mm pg) = {}" "free_of z (empty_mm pg) = {}"
  by (simp_all add: zblocks_def empty_mm_def free_of_def pages_of_def)

lemma empty_mm_ok:
  assumes "\<not> PageBuddy pg"
  shows "zone_ok z (empty_mm pg)"
  using assms by (simp add: zone_ok_def tiling_def flags_sound_def) (simp add: lists_ok_def empty_mm_def)

lemma empty_mm_marked [simp]: "marked z (empty_mm pg)"
  by (simp add: marked_def)

lemma pair_4: "{4..<4 + 2 ^ 1} = {4, 5 :: nat}"
  by (rule set_eqI) (simp only: atLeastLessThan_iff insert_iff empty_iff power_one_right, presburger)

text \<open>C9. Freeing a block (\<^verbatim>\<open>__free_one_page\<close>) that is aligned to its size and not free, in a zone whose
  free lists are consistent: the lists stay consistent (disjoint aligned blocks, right counts, and
  every page that counts as a buddy is on the list of its order), the first page of every listed block,
  also of the new one, records its order and has its buddy bit cleared, and the free pages are exactly
  those from before and those of the block, whatever was merged.\<close>

theorem buddy_free_correct:
  assumes "zone_ok z m" and "marked z m" and "ord < MAX_ORDER" and "2 ^ ord dvd pfn" and "blk (pfn, ord) \<inter> free_of z m = {}"
    and "page_zone_id (mem_map m pfn) = z"
  shows "zone_ok z (free_one_page z pfn ord m) \<and> marked z (free_one_page z pfn ord m)
     \<and> free_of z (free_one_page z pfn ord m) = free_of z m \<union> {pfn..<pfn + 2 ^ ord}"
  using free_one_page_ok [of z m pfn ord] marked_free [of z m pfn ord] assms by (simp add: merge_inv_def blk_def)

theorem buddy_free_correct_witness:
  "zone_ok 0 (free_one_page 0 4 1 (empty_mm typed_page)) \<and> marked 0 (free_one_page 0 4 1 (empty_mm typed_page))
     \<and> free_of 0 (free_one_page 0 4 1 (empty_mm typed_page)) = {4, 5}"
proof -
  have "page_zone_id (mem_map (empty_mm typed_page) 4) = 0" by (simp add: empty_mm_def)
  then show ?thesis
    using buddy_free_correct [of 0 "empty_mm typed_page" 1 4] empty_mm_ok [of typed_page 0]
    unfolding pair_4 by (simp add: MAX_ORDER_def)
qed

text \<open>C10. Taking a block (\<^verbatim>\<open>__rmqueue_smallest\<close>) fails exactly when no block of the order or a larger one
  is free; otherwise the block is aligned, was free, and afterwards exactly its pages are no longer
  free; the lists stay consistent although a larger block may have been split.\<close>

theorem buddy_alloc_correct:
  assumes "zone_ok z m"
  shows "case rmqueue_smallest z ord m of
           None \<Rightarrow> \<forall>p c. ord \<le> c \<longrightarrow> (p, c) \<notin> zblocks z m
         | Some (m', p) \<Rightarrow> zone_ok z m' \<and> 2 ^ ord dvd p \<and> {p..<p + 2 ^ ord} \<subseteq> free_of z m
             \<and> free_of z m' = free_of z m - {p..<p + 2 ^ ord}"
proof (cases "rmqueue_smallest z ord m")
  case None
  then have "\<not> has_block z m ord" by (simp only: rmqueue_smallest_none not_False_eq_True)
  then show ?thesis by (auto simp: None has_block_def)
next
  case (Some r)
  then show ?thesis using rmqueue_smallest_ok [OF assms] by (cases r) (simp add: blk_def)
qed

theorem buddy_alloc_correct_witness:
  "\<exists>m'. rmqueue_smallest 0 0 (free_one_page 0 4 1 (empty_mm typed_page)) = Some (m', 4)
     \<and> zone_ok 0 m' \<and> free_of 0 m' = {5}"
proof -
  let ?m = "free_one_page 0 4 1 (empty_mm typed_page)"
  have inv: "merge_inv 0 (empty_mm typed_page) 4 1"
    using empty_mm_ok [of typed_page 0] by (simp add: merge_inv_def MAX_ORDER_def) (simp add: empty_mm_def)
  note ok = free_one_page_ok [OF inv]
  have fr: "free_of 0 ?m = {4, 5}" using ok(2) unfolding blk_def fst_conv snd_conv pair_4 by simp
  have "map_option snd (rmqueue_smallest 0 0 ?m) = Some 4" by code_simp
  then obtain m' where m': "rmqueue_smallest 0 0 ?m = Some (m', 4)" by auto
  then show ?thesis using buddy_alloc_correct [OF ok(1), of 0] unfolding fr by simp
qed



text \<open>C13. The page array that the boot code allocates is zeroed, and no code sets the upper bits of the
  type field. So after any hand-over from the boot allocator no page ever counts as a buddy: a freed
  block is put on the list of its own order and is never merged.\<close>

theorem buddy_never_merges_after_boot:
  fixes m :: mm and calls :: "boot_call list"
  assumes "mem_map m = (\<lambda>_. zero_page)"
  defines "m' \<equiv> fold boot_call_fn calls m"
  shows "free_one_page z pfn ord m' = add_to_free_list pfn z ord (set_page_order pfn ord m')
     \<and> (\<forall>p. \<not> PageBuddy (mem_map (free_one_page z pfn ord m') p))"
proof -
  have "untyped m'" using boot_calls_fields [of m calls] assms by (simp add: untyped_def)
  then show ?thesis using untyped_free [of m' z pfn ord] by (auto simp: untyped_def PageBuddy_iff)
qed

theorem buddy_never_merges_after_boot_witness:
  "zblocks 0 (free_one_page 0 5 0 (fold boot_call_fn [FreePagesCore 4 0] (empty_mm zero_page))) = {(4, 0), (5, 0)}"
proof -
  have z: "mem_map (empty_mm zero_page) = (\<lambda>_. zero_page)" by (simp add: empty_mm_def)
  have "zblocks 0 (fold boot_call_fn [FreePagesCore 4 0] (empty_mm zero_page)) = {(4, 0)}"
  proof -
    have a: "all_in_zone 0 (empty_mm zero_page)" by (simp add: z all_in_zone_def)
    obtain m1 where m1: "free_pages_core 4 0 (empty_mm zero_page) = free_one_page 0 4 0 m1"
        "same_lists 0 (empty_mm zero_page) m1"
      using free_pages_core_eq [OF a] by blast
    have "untyped m1" using m1(2) z by (simp add: untyped_def same_lists_def typed_def zero_page_def PAGE_TYPE_BASE_def)
    then show ?thesis using untyped_free(1) m1 same_lists_ok(1) [OF m1(2)] by (simp add: MAX_ORDER_def)
  qed
  then show ?thesis
    using buddy_never_merges_after_boot [OF z, of 0 5 0 "[FreePagesCore 4 0]"] by (auto simp: MAX_ORDER_def)
qed

lemma expand_refcount: "pg_refcount (mem_map (expand z p low high m) q) = pg_refcount (mem_map m q)"
proof (induction z p low high m rule: expand.induct)
  case (1 z p low high m)
  then show ?case by (subst expand.simps) (simp add: Let_def)
qed

lemma rmqueue_smallest_refcount:
  "rmqueue_smallest z ord m = Some (m', p) \<Longrightarrow> pg_refcount (mem_map m' q) = pg_refcount (mem_map m q)"
  using rmqueue_smallest_from_cases [of ord ord z m]
  by (auto simp: rmqueue_smallest_def expand_refcount)

lemma rmqueue_bulk_refcount:
  "rmqueue_bulk z ord n l m = Inr (m', l', k) \<Longrightarrow> pg_refcount (mem_map m' q) = pg_refcount (mem_map m q)"
proof (induction n arbitrary: l m l' k)
  case (Suc n)
  then obtain m1 p k' where "rmqueue_smallest z ord m = Some (m1, p)" "rmqueue_bulk z ord n (l @ [p]) m1 = Inr (m', l', k')"
    by (auto simp: rmqueue_locked_def obind_Inr_iff split: option.splits)
  then show ?case using Suc.IH rmqueue_smallest_refcount by simp
qed simp

lemma rmqueue_refcount:
  assumes "rmqueue z ord m = Inr (m', p)"
  shows "pg_refcount (mem_map m' q) = pg_refcount (mem_map m q)"
proof (cases "ord = 0")
  case False
  then show ?thesis using assms rmqueue_smallest_refcount
    by (simp add: rmqueue_def rmqueue_locked_def split: option.splits)
next
  case True
  then have pcp: "rmqueue_pcplist z m = Inr (m', Some p)"
    using assms by (auto simp: rmqueue_def obind_Inr_iff split: option.splits)
  show ?thesis
  proof (cases "pcp_lists (boot_pageset m) = []")
    case True
    show ?thesis
    proof (cases "rmqueue_bulk z 0 (nat (pcp_batch (boot_pageset m))) [] m")
      case (Inr r)
      obtain m1 l k where r: "r = (m1, l, k)" by (metis surj_pair)
      then have "mem_map m' = mem_map m1" using True Inr pcp by (cases l) (auto simp: rmqueue_pcplist_def Let_def)
      then show ?thesis using rmqueue_bulk_refcount Inr r by simp
    qed (use True pcp in \<open>simp add: rmqueue_pcplist_def Let_def\<close>)
  next
    case False
    then show ?thesis using pcp by (auto simp: rmqueue_pcplist_def Let_def split: list.splits)
  qed
qed

lemma alloc_pages_refcount:
  assumes "alloc_pages_nodemask fl ord m = Inr (m', p)"
  shows "pg_refcount (mem_map m' q) = pg_refcount (mem_map m q)"
proof -
  obtain z m1 where "rmqueue z ord m = Inr (m1, p)" "m' = prep_new_page p ord fl m1"
    using assms
    by (auto simp: alloc_pages_nodemask_def get_page_from_freelist_def obind_Inr_iff Let_def
        split: if_splits option.splits list.splits prod.splits)
  then show ?thesis using rmqueue_refcount by (simp add: prep_new_page_lists)
qed

text \<open>C14. The boot code leaves every page with a count of 0 and an allocation does not raise it. So
  giving an allocated block back with \<^verbatim>\<open>__free_pages\<close> only drops the count to -1: the block does not
  return to the free lists.\<close>

theorem free_after_alloc_leaks:
  fixes m :: mm and calls :: "boot_call list"
  assumes "mem_map m = (\<lambda>_. zero_page)" and "alloc_pages_nodemask fl ord (fold boot_call_fn calls m) = Inr (m', p)"
  shows "pg_refcount (mem_map (free_pages_page p ord m') p) = - 1
     \<and> node_zones (free_pages_page p ord m') = node_zones m' \<and> boot_pageset (free_pages_page p ord m') = boot_pageset m'"
proof -
  have "pg_refcount (mem_map m' p) = 0"
    using alloc_pages_refcount [OF assms(2)] boot_calls_fields [of m calls] assms(1) by (simp add: untyped_def)
  then show ?thesis by (simp add: free_pages_page_def put_page_testzero_def)
qed

theorem free_after_alloc_leaks_witness:
  "\<exists>m'. alloc_pages_nodemask 0 0 (fold boot_call_fn [FreePagesCore 4 0] (empty_mm zero_page)) = Inr (m', 4)
     \<and> node_zones (free_pages_page 4 0 m') = node_zones m'"
proof -
  have "map_sum id snd (alloc_pages_nodemask 0 0 (fold boot_call_fn [FreePagesCore 4 0] (empty_mm zero_page))) = Inr 4"
    by code_simp
  then obtain m' where "alloc_pages_nodemask 0 0 (fold boot_call_fn [FreePagesCore 4 0] (empty_mm zero_page)) = Inr (m', 4)"
    by (auto simp: map_sum_def split: sum.splits)
  then show ?thesis
    using free_after_alloc_leaks [of "empty_mm zero_page" 0 0 "[FreePagesCore 4 0]"] by (simp add: empty_mm_def)
qed

text \<open>C1. The hand-over: when the boot allocator's free memory is given to the page allocator whose zone
  is empty, the pages that are free afterwards are exactly the whole pages below \<open>max_low_pfn\<close> that were
  memory and not reserved, and the free lists are consistent. Both allocators agree on every page.\<close>

theorem boot_handover_exact:
  assumes "wf_memblock mb" and "\<forall>x \<in> cover (regions (memory mb)). unat x < 2 ^ 63" and "\<not> memblock_stopped mb"
    and "zone_ok z m" and "free_of z m = {}" and "all_in_zone z m"
  shows "\<exists>mb' calls n. memblock_free_all mb mx = Some (Inr (mb', calls, n))
     \<and> zone_ok z (fold boot_call_fn calls m)
     \<and> free_of z (fold boot_call_fn calls m) = pages_in (free_mem mb) mx
     \<and> n = of_nat (card (pages_in (free_mem mb) mx))"
proof -
  have loops: "\<exists>mb' res calls n. memblock_free_all mb mx = Some (Inr (mb', map res (regions (reserved mb)) @ calls, n))
      \<and> (\<forall>r. \<exists>x y. res r = ReserveBootmem x y) \<and> released (free_mem mb) mx calls n"
    using free_all_first [OF assms(1,2,3), of mx] by blast
  then obtain mb' res calls n where c: "memblock_free_all mb mx = Some (Inr (mb', map res (regions (reserved mb)) @ calls, n))"
      "\<And>r. \<exists>x y. res r = ReserveBootmem x y" "released (free_mem mb) mx calls n" by blast
  let ?calls = "map res (regions (reserved mb)) @ calls"
  have fr: "freed (map res rs) = []" "aligned_blocks (map res rs)" for rs
  proof (induction rs)
    case (Cons r rs)
    { case 1 show ?case using Cons c(2) [of r] by auto }
    { case 2 show ?case using Cons c(2) [of r] by auto }
  qed simp_all
  have "distinct (freed calls)" using c(3) strict_sorted_iff by (auto simp: released_def)
  then have "zone_ok z (fold boot_call_fn ?calls m) \<and> free_of z (fold boot_call_fn ?calls m) = free_of z m \<union> set (freed ?calls)"
    using fr c(3) assms(5) by (intro boot_calls_ok [OF assms(4,6)]) (auto simp: released_def)
  moreover have "n = of_nat (card (pages_in (free_mem mb) mx))"
    using c(3) \<open>distinct (freed calls)\<close> distinct_card by (fastforce simp: released_def)
  ultimately show ?thesis using c(1,3) fr assms(5) by (auto simp: released_def)
qed

theorem boot_handover_exact_witness:
  "\<exists>mb' calls n. memblock_free_all board 0x88000 = Some (Inr (mb', calls, n))
     \<and> free_of 0 (fold boot_call_fn calls (empty_mm zero_page)) = pages_in (free_mem board) 0x88000"
proof -
  have "\<forall>x \<in> cover (regions (memory board)). unat x < 2 ^ 63"
    by (auto simp: board_def cover_def word_less_nat_alt)
  moreover have "\<not> memblock_stopped board" by (simp add: board_def memblock_init_def Let_def)
  moreover have "\<not> PageBuddy zero_page" by (simp add: PageBuddy_iff)
  moreover have "all_in_zone 0 (empty_mm zero_page)" by (simp add: all_in_zone_def empty_mm_def)
  ultimately show ?thesis
    using boot_handover_exact [OF board_wf(1), of 0 "empty_mm zero_page" "0x88000"] empty_mm_ok [of zero_page 0] by auto
qed

text \<open>C5. \<^verbatim>\<open>__alloc_pages_nodemask\<close> with the pageset of the boot code, for an order in range and a zone
  list that starts with zone \<open>z\<close>: it panics exactly when that zone has no block of the order or a larger
  one and, for a single page, the per-cpu list is empty as well, even if a later zone of the list has a
  block. Otherwise the block it returns was free or on the per-cpu list and exactly its pages stop being
  available.\<close>

theorem alloc_pages_correct:
  assumes "zone_ok z m" and "pcp_ok z m" and "pcp_batch (boot_pageset m) = 1" and "ord < MAX_ORDER"
    and "next_zones_zonelist (zonerefs m) (gfp_zone fl) = (Some z, i) # rest"
  shows "if \<not> has_block z m ord \<and> (ord = 0 \<longrightarrow> pcp_lists (boot_pageset m) = [])
     then alloc_pages_nodemask fl ord m = Inl Panic
     else \<exists>m' p. alloc_pages_nodemask fl ord m = Inr (m', p) \<and> zone_ok z m' \<and> pcp_ok z m' \<and> {p..<p + 2 ^ ord} \<subseteq> avail_of z m
        \<and> avail_of z m' = avail_of z m - {p..<p + 2 ^ ord}"
proof -
  note rm = rmqueue_ok [OF assms(1-3), of ord] and panics = rmqueue_panics_iff [OF assms(3), of z ord]
  have eq: "alloc_pages_nodemask fl ord m = obind (rmqueue z ord m) (\<lambda>(m, p). Inr (prep_new_page p ord fl m, p))"
    using assms(4,5) by (cases "rmqueue z ord m") (auto simp: alloc_pages_nodemask_def get_page_from_freelist_def Let_def)
  show ?thesis
  proof (cases "rmqueue z ord m")
    case (Inl f)
    then show ?thesis using rm eq by auto
  next
    case (Inr r)
    obtain m' p where r: "r = (m', p)" by fastforce
    have "same_lists z m' (prep_new_page p ord fl m')" by (simp add: same_lists_def prep_new_page_lists)
    note same = same_lists_ok [OF this]
    have "\<not> (\<not> has_block z m ord \<and> (ord = 0 \<longrightarrow> pcp_lists (boot_pageset m) = []))" using panics Inr by simp
    then show ?thesis using rm eq Inr r same
      by (simp add: pcp_ok_def avail_of_def prep_new_page_lists blk_def)
  qed
qed

theorem alloc_pages_correct_witness:
  "alloc_pages_nodemask 0 0 (empty_mm zero_page) = Inl Panic
   \<and> (\<exists>m' p. alloc_pages_nodemask 0 1 (free_one_page 0 4 1 (empty_mm typed_page)) = Inr (m', p) \<and> avail_of 0 m' = {4, 5} - {p..<p + 2})"
proof -
  let ?m = "free_one_page 0 4 1 (empty_mm typed_page)"
  have z: "next_zones_zonelist (zonerefs (empty_mm zero_page)) (gfp_zone 0) = (Some 0, 0) # [(None, 0)]"
    by (simp add: empty_mm_def next_zones_zonelist_def gfp_zone_def)
  have ok: "zone_ok 0 (empty_mm zero_page)" by (rule empty_mm_ok) (simp add: PageBuddy_iff)
  have pcp: "pcp_ok 0 (empty_mm zero_page)" "pcp_batch (boot_pageset (empty_mm zero_page)) = 1"
    "pcp_lists (boot_pageset (empty_mm zero_page)) = []"
    by (simp_all add: pcp_ok_def) (simp_all add: empty_mm_def setup_pageset_def)
  have "\<not> has_block 0 (empty_mm zero_page) 0" by (simp add: has_block_def)
  then have one: "alloc_pages_nodemask 0 0 (empty_mm zero_page) = Inl Panic"
    using alloc_pages_correct [OF ok pcp(1,2) _ z, of 0] pcp(3) by (simp add: MAX_ORDER_def)
  have inv: "merge_inv 0 (empty_mm typed_page) 4 1"
    using empty_mm_ok [of typed_page 0] by (simp add: merge_inv_def MAX_ORDER_def) (simp add: empty_mm_def)
  note ok2 = free_one_page_ok [OF inv]
  have f: "pcp_lists (boot_pageset ?m) = []" "pcp_batch (boot_pageset ?m) = 1" "zonerefs ?m = [(Some 0, 0), (None, 0)]" by code_simp+
  have z2: "next_zones_zonelist (zonerefs ?m) (gfp_zone 0) = (Some 0, 0) # [(None, 0)]"
    by (simp only: f) (simp add: next_zones_zonelist_def)
  have av: "avail_of 0 ?m = {4, 5}" using ok2(2) f(1) unfolding blk_def fst_conv snd_conv pair_4 by (simp add: avail_of_def)
  have "map_option snd (rmqueue_smallest 0 1 ?m) = Some 4" by code_simp
  then have "has_block 0 ?m 1" using rmqueue_smallest_none [of 0 1 ?m] by auto
  then have "\<exists>m' p. alloc_pages_nodemask 0 1 ?m = Inr (m', p) \<and> avail_of 0 m' = {4, 5} - {p..<p + 2}"
    using alloc_pages_correct [OF ok2(1) _ f(2) _ z2, of 1, unfolded av] f(1) by (force simp: MAX_ORDER_def pcp_ok_def)
  with one show ?thesis ..
qed

text \<open>C12. Blocks taken from a zone one after the other never overlap.\<close>

theorem page_allocations_disjoint:
  assumes "zone_ok z m" and "buddy_zone.allocs z m out m'" and "i < j" and "j < length out"
    and "out ! i = (ord, p)" and "out ! j = (ord', p')"
  shows "{p..<p + 2 ^ ord} \<inter> {p'..<p' + 2 ^ ord'} = {}"
  using buddy_zone.allocs_disjoint [OF assms(2,1,3,4)] assms(5,6) by (simp add: blk_def)

theorem page_allocations_disjoint_witness:
  "\<exists>m'. buddy_zone.allocs 0 (free_one_page 0 4 1 (empty_mm typed_page)) [(0, 4), (0, 5)] m'
     \<and> {4..<4 + 2 ^ 0 :: nat} \<inter> {5..<5 + 2 ^ 0} = {}"
proof -
  let ?m = "free_one_page 0 4 1 (empty_mm typed_page)"
  have inv: "merge_inv 0 (empty_mm typed_page) 4 1"
    using empty_mm_ok [of typed_page 0] by (simp add: merge_inv_def MAX_ORDER_def) (simp add: empty_mm_def)
  have "map_option (\<lambda>(m, p). (p, map_option snd (rmqueue_smallest 0 0 m))) (rmqueue_smallest 0 0 ?m) = Some (4, Some 5)"
    by code_simp
  then obtain m1 m2 where "rmqueue_smallest 0 0 ?m = Some (m1, 4)" "rmqueue_smallest 0 0 m1 = Some (m2, 5)" by auto
  then have run: "buddy_zone.allocs 0 ?m [(0, 4), (0, 5)] m2"
    by (blast intro: buddy_zone.allocs_Cons buddy_zone.allocs_Nil)
  then show ?thesis
    using page_allocations_disjoint [OF free_one_page_ok(1) [OF inv] run, of 0 1 0 4 0 5] by auto
qed

end
