(* ===== verification/Scatterlist.thy ===== *)
theory Scatterlist
  imports BuddyInit
begin

text \<open>
  Scatter-gather tables: \<^verbatim>\<open>src/scatterlist/scatterlist.c\<close> and \<^verbatim>\<open>src/include/scatterlist.h\<close>. The table entries
  live in a heap from addresses to \<^verbatim>\<open>struct scatterlist\<close>, an entry taking 16 bytes; the two low bits of
  \<^verbatim>\<open>page_link\<close> mark the end of a table and a link to a further one. A page pointer is the address of its
  \<^verbatim>\<open>struct page\<close> in the page array of the page allocator.
\<close>

section \<open>Definitions\<close>

record scatterlist =
  page_link :: u64
  sg_offset :: u32
  sg_length :: u32

type_synonym sg_heap = "addr \<Rightarrow> scatterlist"

definition SG_CHAIN :: u64 where "SG_CHAIN = 1"
definition SG_END :: u64 where "SG_END = 2"

definition sg_is_chain :: "scatterlist \<Rightarrow> bool" where
  "sg_is_chain sg \<longleftrightarrow> page_link sg AND SG_CHAIN \<noteq> 0"

definition sg_is_last :: "scatterlist \<Rightarrow> bool" where
  "sg_is_last sg \<longleftrightarrow> page_link sg AND SG_END \<noteq> 0"

definition sg_chain_ptr :: "scatterlist \<Rightarrow> addr" where
  "sg_chain_ptr sg = page_link sg AND NOT (SG_CHAIN OR SG_END)"

abbreviation upd_sg :: "addr \<Rightarrow> (scatterlist \<Rightarrow> scatterlist) \<Rightarrow> sg_heap \<Rightarrow> sg_heap" where
  "upd_sg p f h \<equiv> h(p := f (h p))"

definition sg_mark_end :: "addr \<Rightarrow> sg_heap \<Rightarrow> sg_heap" where
  "sg_mark_end p h = upd_sg p (\<lambda>sg. sg\<lparr>page_link := (page_link sg OR SG_END) AND NOT SG_CHAIN\<rparr>) h"

definition sg_unmark_end :: "addr \<Rightarrow> sg_heap \<Rightarrow> sg_heap" where
  "sg_unmark_end p h = upd_sg p (\<lambda>sg. sg\<lparr>page_link := page_link sg AND NOT SG_END\<rparr>) h"

text \<open>The address of entry \<open>i\<close>, an \<^verbatim>\<open>unsigned int\<close>, of the table at \<open>sgl\<close>.\<close>

definition sg_at :: "addr \<Rightarrow> u32 \<Rightarrow> addr" where
  "sg_at sgl i = sgl + 16 * ucast i"

definition sg_init_marker :: "addr \<Rightarrow> u32 \<Rightarrow> sg_heap \<Rightarrow> sg_heap" where
  "sg_init_marker sgl nents h = sg_mark_end (sg_at sgl (nents - 1)) h"

definition zero_sg :: scatterlist where
  "zero_sg = \<lparr>page_link = 0, sg_offset = 0, sg_length = 0\<rparr>"

definition sg_init_table :: "addr \<Rightarrow> u32 \<Rightarrow> sg_heap \<Rightarrow> sg_heap" where
  "sg_init_table sgl nents h =
     sg_init_marker sgl nents (fold (\<lambda>i h. h(sgl + 16 * of_nat i := zero_sg)) [0..<unat nents] h)"

definition sg_assign_page :: "addr \<Rightarrow> addr \<Rightarrow> sg_heap \<Rightarrow> sg_heap outcome" where
  "sg_assign_page p page h =
     (let link = page_link (h p) AND (SG_CHAIN OR SG_END)
      in if page AND (SG_CHAIN OR SG_END) \<noteq> 0 then Inl Bug
         else Inr (upd_sg p (\<lambda>sg. sg\<lparr>page_link := link OR page\<rparr>) h))"

definition sg_set_page :: "addr \<Rightarrow> addr \<Rightarrow> u32 \<Rightarrow> u32 \<Rightarrow> sg_heap \<Rightarrow> sg_heap outcome" where
  "sg_set_page p page len offset h =
     obind (sg_assign_page p page h) (\<lambda>h. Inr (upd_sg p (\<lambda>sg. sg\<lparr>sg_offset := offset, sg_length := len\<rparr>) h))"

text \<open>\<^verbatim>\<open>page_to_pfn\<close> and \<^verbatim>\<open>pfn_to_page\<close>, on addresses of page structures.\<close>

definition pfn_to_page :: "mm \<Rightarrow> u64 \<Rightarrow> addr" where
  "pfn_to_page m pfn = mem_map_ptr m + (pfn - pfn_base m) * sizeof_page"

definition page_to_pfn :: "mm \<Rightarrow> addr \<Rightarrow> u64" where
  "page_to_pfn m page = (page - mem_map_ptr m) div sizeof_page + pfn_base m"

definition virt_to_phys :: "mm \<Rightarrow> addr \<Rightarrow> u64" where
  "virt_to_phys m a = a - va_pa_offset m"

definition offset_in_page :: "addr \<Rightarrow> u64" where
  "offset_in_page p = p AND 4095"

definition sg_set_buf :: "mm \<Rightarrow> addr \<Rightarrow> addr \<Rightarrow> u32 \<Rightarrow> sg_heap \<Rightarrow> sg_heap outcome" where
  "sg_set_buf m p buf buflen h =
     sg_set_page p (pfn_to_page m (PFN_DOWN (virt_to_phys m buf))) buflen (ucast (offset_in_page buf)) h"

definition sg_page :: "scatterlist \<Rightarrow> addr" where
  "sg_page sg = page_link sg AND NOT (SG_CHAIN OR SG_END)"

definition sg_phys :: "mm \<Rightarrow> scatterlist \<Rightarrow> u64" where
  "sg_phys m sg = push_bit 12 (page_to_pfn m (sg_page sg)) + ucast (sg_offset sg)"

text \<open>\<^verbatim>\<open>sg_next\<close>; the null pointer is \<^const>\<open>None\<close>.\<close>

definition sg_next :: "sg_heap \<Rightarrow> addr \<Rightarrow> addr option" where
  "sg_next h p =
     (if sg_is_last (h p) then None
      else let p = p + 16 in if sg_is_chain (h p) then Some (sg_chain_ptr (h p)) else Some p)"

definition sg_init_one :: "mm \<Rightarrow> addr \<Rightarrow> addr \<Rightarrow> u32 \<Rightarrow> sg_heap \<Rightarrow> sg_heap outcome" where
  "sg_init_one m p buf buflen h = sg_set_buf m p buf buflen (sg_init_table p 1 h)"

text \<open>The loop \<^verbatim>\<open>for (sg = sgs; sg; sg = sg_next(sg))\<close>: the entries it visits. It may run forever.\<close>

partial_function (option) sg_entries :: "sg_heap \<Rightarrow> addr \<Rightarrow> addr list option" where
  "sg_entries h p =
     (case sg_next h p of
        None \<Rightarrow> Some [p]
      | Some q \<Rightarrow> Option.bind (sg_entries h q) (\<lambda>ps. Some (p # ps)))"

declare sg_entries.simps [code]

section \<open>Tables\<close>

text \<open>A table of \<open>n\<close> entries at \<open>p\<close> that ends there; if \<open>n > 0\<close> its last entry is the first one marked.\<close>

definition sg_table :: "sg_heap \<Rightarrow> addr \<Rightarrow> nat \<Rightarrow> bool" where
  "sg_table h p n \<longleftrightarrow> 0 < n \<and> sg_is_last (h (p + 16 * of_nat (n - 1)))
     \<and> (\<forall>i < n - 1. \<not> sg_is_last (h (p + 16 * of_nat i)))
     \<and> (\<forall>i < n. \<not> sg_is_chain (h (p + 16 * of_nat i)))"

definition sg_addrs :: "addr \<Rightarrow> nat \<Rightarrow> addr list" where
  "sg_addrs p n = map (\<lambda>i. p + 16 * of_nat i) [0..<n]"

lemma sg_addrs_Suc: "sg_addrs p (Suc n) = p # sg_addrs (p + 16) n"
  by (simp add: sg_addrs_def upt_conv_Cons map_Suc_upt [symmetric] algebra_simps del: upt_Suc)

lemma sg_table_Suc:
  "sg_table h p (Suc (Suc n)) \<longleftrightarrow> \<not> sg_is_last (h p) \<and> \<not> sg_is_chain (h p) \<and> sg_table h (p + 16) (Suc n)"
proof -
  have all: "(\<forall>i < Suc k. P i) \<longleftrightarrow> P 0 \<and> (\<forall>i < k. P (Suc i))" for k and P :: "nat \<Rightarrow> bool"
    using less_Suc_eq_0_disj by auto
  have shift: "p + 16 * of_nat (Suc i) = p + 16 + 16 * of_nat i" for i by (simp add: algebra_simps)
  have a: "(\<forall>i < Suc (Suc n) - 1. \<not> sg_is_last (h (p + 16 * of_nat i)))
      \<longleftrightarrow> \<not> sg_is_last (h p) \<and> (\<forall>i < Suc n - 1. \<not> sg_is_last (h (p + 16 + 16 * of_nat i)))"
    using all [of n "\<lambda>i. \<not> sg_is_last (h (p + 16 * of_nat i))"] by (simp only: shift diff_Suc_1) simp
  have b: "(\<forall>i < Suc (Suc n). \<not> sg_is_chain (h (p + 16 * of_nat i)))
      \<longleftrightarrow> \<not> sg_is_chain (h p) \<and> (\<forall>i < Suc n. \<not> sg_is_chain (h (p + 16 + 16 * of_nat i)))"
    using all [of "Suc n" "\<lambda>i. \<not> sg_is_chain (h (p + 16 * of_nat i))"] by (simp only: shift) simp
  have c: "p + 16 * of_nat (Suc (Suc n) - 1) = p + 16 + 16 * of_nat (Suc n - 1)"
    by (simp only: diff_Suc_1 shift)
  show ?thesis unfolding sg_table_def a b c by blast
qed

lemma sg_table_entries: "sg_table h p n \<Longrightarrow> sg_entries h p = Some (sg_addrs p n)"
proof (induction n arbitrary: p rule: less_induct)
  case (less n)
  consider "n = 1" | k where "n = Suc (Suc k)"
    using less.prems by (cases n; cases "n - 1") (auto simp: sg_table_def)
  then show ?case
  proof cases
    case 1
    then show ?thesis using less.prems
      by (subst sg_entries.simps) (simp add: sg_next_def sg_table_def sg_addrs_def)
  next
    case (2 k)
    have t: "\<not> sg_is_last (h p)" "sg_table h (p + 16) (Suc k)" using less.prems 2 by (simp_all add: sg_table_Suc)
    have "\<not> sg_is_chain (h (p + 16))" using t(2) by (auto simp: sg_table_def dest: spec [of _ 0])
    then have "sg_next h p = Some (p + 16)" using t(1) by (simp add: sg_next_def)
    then show ?thesis using less.IH [OF _ t(2)] 2 by (subst sg_entries.simps) (simp add: sg_addrs_Suc)
  qed
qed

lemma sg_slot_inj:
  assumes "i < 2 ^ 32" and "j < 2 ^ 32"
  shows "p + 16 * of_nat i = p + 16 * (of_nat j :: u64) \<longleftrightarrow> i = j"
proof -
  have "16 * (of_nat k :: u64) = of_nat (16 * k)" for k by simp
  then have "16 * (of_nat i :: u64) = 16 * of_nat j \<longleftrightarrow> (of_nat (16 * i) :: u64) = of_nat (16 * j)" by (simp only:)
  also have "\<dots> \<longleftrightarrow> i = j" using assms by (subst of_nat64_inj) auto
  finally show ?thesis by simp
qed

lemma fold_zero_sg:
  "fold (\<lambda>i h. h(p + 16 * of_nat i := zero_sg)) xs h q =
     (if q \<in> (\<lambda>i. p + 16 * of_nat i) ` set xs then zero_sg else h q)"
  by (induction xs arbitrary: h) auto

lemma sg_at_last:
  assumes "unat n = Suc k"
  shows "sg_at p (n - 1) = p + 16 * of_nat k"
proof -
  have "n \<noteq> 0" using assms by auto
  then have "unat (n - 1) = k" using assms by (simp add: unat_minus_one)
  then have "ucast (n - 1) = (of_nat k :: u64)" by (metis of_nat_unat)
  then show ?thesis by (simp only: sg_at_def)
qed

lemma sg_init_table_at:
  assumes n: "unat n = Suc k" and "i < Suc k"
  shows "sg_init_table p n h (p + 16 * of_nat i) =
    (if i = k then zero_sg\<lparr>page_link := SG_END\<rparr> else zero_sg)"
proof -
  have "unat n < 2 ^ 32" by (rule unat_u32_less)
  then have "Suc k < 2 ^ 32" by (simp only: n)
  then have "p + 16 * of_nat i = p + 16 * of_nat k \<longleftrightarrow> i = k" using assms by (intro sg_slot_inj) auto
  moreover have "p + 16 * of_nat j \<in> (\<lambda>i. p + 16 * of_nat i) ` set [0..<Suc k]" if "j < Suc k" for j
    using that by (intro imageI) auto
  ultimately show ?thesis using assms(2)
    by (simp add: sg_init_table_def sg_init_marker_def sg_mark_end_def sg_at_last [OF n] n fold_zero_sg
        SG_END_def SG_CHAIN_def del: upt_Suc set_upt) (simp add: zero_sg_def)
qed

lemma sg_init_table_other:
  assumes n: "unat n = Suc k" and "q \<notin> set (sg_addrs p (Suc k))"
  shows "sg_init_table p n h q = h q"
  using assms(2)
  by (auto simp: sg_init_table_def sg_init_marker_def sg_mark_end_def sg_at_last [OF n] n fold_zero_sg sg_addrs_def)

lemma sg_init_table_table:
  assumes "unat n = Suc k"
  shows "sg_table (sg_init_table p n h) p (Suc k)"
  using sg_init_table_at [OF assms, of _ p h]
  by (simp add: sg_table_def sg_is_last_def sg_is_chain_def zero_sg_def SG_END_def SG_CHAIN_def)

text \<open>Setting the page of an entry keeps the two marks.\<close>

lemma and_or_marks:
  fixes page l :: u64
  assumes "page AND 3 = 0"
  shows "((l AND 3) OR page) AND NOT 3 = page" "((l AND 3) OR page) AND 1 = l AND 1" "((l AND 3) OR page) AND 2 = l AND 2"
proof -
  have m: "(3::u64) = mask 2" "(2::u64) = push_bit 1 1" by (simp_all add: mask_eq_exp_minus_1)
  have "take_bit 2 page = 0" using assms by (simp add: take_bit_eq_mask mask_eq_exp_minus_1)
  then have pg: "k < 2 \<Longrightarrow> \<not> bit page k" for k by (metis bit_take_bit_iff bit_0_eq bot_apply bot_bool_def)
  show "((l AND 3) OR page) AND NOT 3 = page"
    unfolding m using pg by (intro bit_word_eqI) (auto simp: bit_and_iff bit_or_iff bit_not_iff bit_mask_iff)
  show "((l AND 3) OR page) AND 1 = l AND 1"
    unfolding m using pg by (intro bit_word_eqI) (auto simp: bit_and_iff bit_or_iff bit_1_iff bit_mask_iff)
  show "((l AND 3) OR page) AND 2 = l AND 2"
    unfolding m using pg
    by (intro bit_word_eqI) (auto simp only: bit_and_iff bit_or_iff bit_1_iff bit_mask_iff bit_push_bit_iff)
qed

lemma sg_set_page_ok:
  assumes "page AND 3 = 0"
  shows "sg_set_page p page len offset h =
      Inr (h(p := \<lparr>page_link = (page_link (h p) AND 3) OR page, sg_offset = offset, sg_length = len\<rparr>))"
  using assms by (cases "h p") (simp add: sg_set_page_def sg_assign_page_def SG_CHAIN_def SG_END_def)

lemma sg_set_page_marks:
  assumes "page AND 3 = 0" and "sg_set_page p page len offset h = Inr h'"
  shows "sg_is_last (h' q) = sg_is_last (h q)" "sg_is_chain (h' q) = sg_is_chain (h q)"
    "sg_page (h' p) = page" "sg_offset (h' p) = offset" "sg_length (h' p) = len" "q \<noteq> p \<Longrightarrow> h' q = h q"
  using assms(2) and_or_marks [OF assms(1), of "page_link (h p)"]
  by (auto simp: sg_set_page_ok [OF assms(1)] sg_is_last_def sg_is_chain_def sg_page_def SG_CHAIN_def SG_END_def
      split: if_splits)

section \<open>Physical addresses\<close>

text \<open>The page array is aligned and the kernel mapping is a shift by whole pages; a buffer lies above
  the first page of memory.\<close>

definition page_array_ok :: "mm \<Rightarrow> bool" where
  "page_array_ok m \<longleftrightarrow> mem_map_ptr m AND 3 = 0 \<and> va_pa_offset m AND 4095 = 0"

definition buf_ok :: "mm \<Rightarrow> addr \<Rightarrow> bool" where
  "buf_ok m buf \<longleftrightarrow> pfn_base m \<le> PFN_DOWN (virt_to_phys m buf)"

lemma pfn_to_page_aligned: "mem_map_ptr m AND 3 = 0 \<Longrightarrow> pfn_to_page m pfn AND 3 = 0"
proof -
  assume a: "mem_map_ptr m AND 3 = 0"
  have t: "x AND 3 = take_bit 2 x" for x :: u64 by (simp add: take_bit_eq_mask mask_eq_exp_minus_1)
  have "(pfn - pfn_base m) * sizeof_page = push_bit 2 ((pfn - pfn_base m) * 26)"
    by (simp add: sizeof_page_def push_bit_eq_mult)
  then have "take_bit 2 ((pfn - pfn_base m) * sizeof_page) = 0" by (simp add: take_bit_push_bit)
  then show ?thesis
    using a take_bit_add_word [of 2 "mem_map_ptr m" "(pfn - pfn_base m) * sizeof_page"]
    by (simp add: t pfn_to_page_def)
qed

lemma page_to_pfn_to_page:
  assumes "pfn_base m \<le> pfn" and "unat pfn < 2 ^ 52"
  shows "page_to_pfn m (pfn_to_page m pfn) = pfn"
proof -
  define d where "d = pfn - pfn_base m"
  have "unat d \<le> unat pfn" using assms(1) by (simp add: d_def unat_sub word_le_nat_alt)
  then have d: "unat d * 104 < 2 ^ 64" using assms(2) by simp
  have "unat (d * sizeof_page) = unat d * 104" using d by (simp add: unat_word_ariths sizeof_page_def)
  then have "unat (d * sizeof_page div sizeof_page) = unat d" by (simp add: unat_div sizeof_page_def)
  then have "d * sizeof_page div sizeof_page = d" by (simp only: word_unat_eq_iff)
  then show ?thesis by (simp add: page_to_pfn_def pfn_to_page_def flip: d_def) (simp add: d_def)
qed

lemma PFN_DOWN_small: "unat (PFN_DOWN x) < 2 ^ 52"
proof -
  have "unat (drop_bit 12 x) = drop_bit 12 (unat x)" by (rule unat_drop_bit_eq)
  then have "unat (PFN_DOWN x) = unat x div 2 ^ 12" by (simp only: PFN_DOWN_def drop_bit_eq_div)
  then show ?thesis using unat_u64_less [of x] by (simp add: div_less_iff_less_mult)
qed

lemma split_page: "push_bit 12 (PFN_DOWN x) + (x AND 4095) = x"
proof -
  have "push_bit 12 (drop_bit 12 x) + take_bit 12 x = x" by (rule bits_ident)
  then show ?thesis by (simp add: PFN_DOWN_def take_bit_eq_mask mask_eq_exp_minus_1)
qed

lemma offset_in_page_phys:
  assumes "va_pa_offset m AND 4095 = 0"
  shows "buf AND 4095 = virt_to_phys m buf AND 4095"
proof -
  have t: "x AND 4095 = take_bit 12 x" for x :: u64 by (simp add: take_bit_eq_mask mask_eq_exp_minus_1)
  have "take_bit 12 (virt_to_phys m buf + va_pa_offset m) = take_bit 12 (virt_to_phys m buf)"
    using assms take_bit_add_word [of 12 "virt_to_phys m buf" "va_pa_offset m"] by (simp add: t)
  then show ?thesis by (simp add: t virt_to_phys_def)
qed

lemma sg_phys_buf:
  assumes "page_array_ok m" and "buf_ok m buf"
    and "sg_page sg = pfn_to_page m (PFN_DOWN (virt_to_phys m buf))" and "sg_offset sg = ucast (offset_in_page buf)"
  shows "sg_phys m sg = virt_to_phys m buf"
proof -
  have "unat (offset_in_page buf) \<le> 4095"
    using word_and_le1 [of buf 4095] by (simp add: offset_in_page_def word_le_nat_alt)
  then have "(ucast (ucast (offset_in_page buf) :: u32) :: u64) = offset_in_page buf"
    by (simp add: word_unat_eq_iff unsigned_ucast_eq unsigned_take_bit_eq take_bit_nat_eq_self)
  then show ?thesis
    using assms page_to_pfn_to_page [OF _ PFN_DOWN_small] split_page [of "virt_to_phys m buf"]
      offset_in_page_phys [of m buf]
    by (simp add: sg_phys_def page_array_ok_def buf_ok_def offset_in_page_def)
qed

section \<open>Filling a table\<close>

text \<open>What drivers do: initialise a table and set its entries to buffers, one after the other.\<close>

primrec sg_fill :: "mm \<Rightarrow> addr \<Rightarrow> (addr \<times> u32) list \<Rightarrow> sg_heap \<Rightarrow> sg_heap outcome" where
  "sg_fill m p [] h = Inr h"
| "sg_fill m p (b # bs) h = obind (sg_set_buf m p (fst b) (snd b) h) (sg_fill m (p + 16) bs)"

definition sg_segment :: "mm \<Rightarrow> sg_heap \<Rightarrow> addr \<Rightarrow> u64 \<times> u32" where
  "sg_segment m h q = (sg_phys m (h q), sg_length (h q))"

lemma sg_set_buf_ok:
  assumes "page_array_ok m" and "buf_ok m buf"
  shows "\<exists>h'. sg_set_buf m p buf len h = Inr h' \<and> sg_segment m h' p = (virt_to_phys m buf, len)
     \<and> (\<forall>q. sg_is_last (h' q) = sg_is_last (h q) \<and> sg_is_chain (h' q) = sg_is_chain (h q) \<and> (q \<noteq> p \<longrightarrow> h' q = h q))"
proof -
  have "pfn_to_page m (PFN_DOWN (virt_to_phys m buf)) AND 3 = 0"
    using assms(1) by (simp add: pfn_to_page_aligned page_array_ok_def)
  note set_page = sg_set_page_ok [OF this] and marks = sg_set_page_marks [OF this]
  obtain h' where h': "sg_set_buf m p buf len h = Inr h'" unfolding sg_set_buf_def set_page by blast
  note k = marks [OF h' [unfolded sg_set_buf_def]]
  show ?thesis using h' k sg_phys_buf [OF assms k(3,4)] by (auto simp: sg_segment_def)
qed

lemma sg_addrs_distinct: "n < 2 ^ 32 \<Longrightarrow> distinct (sg_addrs p n)"
  using sg_slot_inj [of _ _ p] by (auto simp: sg_addrs_def distinct_map intro!: inj_onI simp del: add_left_cancel)

lemma sg_fill_ok:
  assumes "page_array_ok m"
  shows "\<forall>(b, l) \<in> set bs. buf_ok m b \<Longrightarrow> length bs < 2 ^ 32 \<Longrightarrow>
    \<exists>h'. sg_fill m p bs h = Inr h'
      \<and> map (sg_segment m h') (sg_addrs p (length bs)) = map (\<lambda>(b, l). (virt_to_phys m b, l)) bs
      \<and> (\<forall>q. sg_is_last (h' q) = sg_is_last (h q) \<and> sg_is_chain (h' q) = sg_is_chain (h q)
           \<and> (q \<notin> set (sg_addrs p (length bs)) \<longrightarrow> h' q = h q))"
proof (induction bs arbitrary: p h)
  case Nil
  then show ?case by (simp add: sg_addrs_def)
next
  case (Cons b bs)
  obtain buf len where b: "b = (buf, len)" by fastforce
  obtain h1 where h1: "sg_set_buf m p buf len h = Inr h1" "sg_segment m h1 p = (virt_to_phys m buf, len)"
      "\<And>q. sg_is_last (h1 q) = sg_is_last (h q)" "\<And>q. sg_is_chain (h1 q) = sg_is_chain (h q)" "\<And>q. q \<noteq> p \<Longrightarrow> h1 q = h q"
    using sg_set_buf_ok [OF assms, of buf p len h] Cons.prems(1) b by auto
  obtain h' where h': "sg_fill m (p + 16) bs h1 = Inr h'"
      "map (sg_segment m h') (sg_addrs (p + 16) (length bs)) = map (\<lambda>(b, l). (virt_to_phys m b, l)) bs"
      "\<And>q. sg_is_last (h' q) = sg_is_last (h1 q)" "\<And>q. sg_is_chain (h' q) = sg_is_chain (h1 q)"
      "\<And>q. q \<notin> set (sg_addrs (p + 16) (length bs)) \<Longrightarrow> h' q = h1 q"
    using Cons.IH [of "p + 16" h1] Cons.prems by auto
  have "p \<notin> set (sg_addrs (p + 16) (length bs))"
    using sg_addrs_distinct [of "Suc (length bs)" p] Cons.prems(2) by (simp add: sg_addrs_Suc)
  then have "h' p = h1 p" by (rule h'(5))
  then have "sg_segment m h' p = (virt_to_phys m buf, len)" using h1(2) by (simp add: sg_segment_def)
  then show ?case using h1 h' b by (auto simp: sg_addrs_Suc)
qed

section \<open>Properties\<close>

text \<open>C26. A table set up for a list of buffers describes exactly them: setting the entries hits no
  \<^verbatim>\<open>BUG_ON\<close>, the loop over the table terminates, visits one entry per buffer in order, and the
  physical address and length read from each entry are those of the buffer. No other entry changes.\<close>

theorem sg_table_describes_buffers:
  assumes "page_array_ok m" and "bs \<noteq> []" and "length bs < 2 ^ 32" and "\<forall>(b, l) \<in> set bs. buf_ok m b"
  shows "\<exists>h' qs. sg_fill m p bs (sg_init_table p (of_nat (length bs)) h) = Inr h'
     \<and> sg_entries h' p = Some qs
     \<and> map (sg_segment m h') qs = map (\<lambda>(b, l). (virt_to_phys m b, l)) bs
     \<and> (\<forall>q. q \<notin> set qs \<longrightarrow> h' q = h q)"
proof -
  obtain k where k: "length bs = Suc k" using assms(2) by (cases bs) auto
  have n: "unat (of_nat (length bs) :: u32) = Suc k"
    using assms(3) by (simp add: k [symmetric] unat_of_nat take_bit_nat_eq_self)
  let ?h = "sg_init_table p (of_nat (length bs)) h"
  obtain h' where h': "sg_fill m p bs ?h = Inr h'"
      "map (sg_segment m h') (sg_addrs p (length bs)) = map (\<lambda>(b, l). (virt_to_phys m b, l)) bs"
      "\<And>q. sg_is_last (h' q) = sg_is_last (?h q)" "\<And>q. sg_is_chain (h' q) = sg_is_chain (?h q)"
      "\<And>q. q \<notin> set (sg_addrs p (length bs)) \<Longrightarrow> h' q = ?h q"
    using sg_fill_ok [OF assms(1,4,3), of p ?h] by blast
  have "sg_table h' p (length bs)"
    using sg_init_table_table [OF n, of p h] h'(3,4) by (simp add: sg_table_def k)
  moreover have "q \<notin> set (sg_addrs p (length bs)) \<Longrightarrow> h' q = h q" for q
    using h'(5) sg_init_table_other [OF n, of q p h] k by simp
  ultimately show ?thesis using h'(1,2) sg_table_entries by blast
qed

definition sg_layout :: mm where
  "sg_layout = undefined\<lparr>mem_map_ptr := 0xffffffe000400000, pfn_base := 0x80000, va_pa_offset := 0xffffffdf80000000\<rparr>"

theorem sg_table_describes_buffers_witness:
  "\<exists>h' qs. sg_fill sg_layout 0x1000 [(0xffffffe000801004, 512), (0xffffffe000900000, 1)]
       (sg_init_table 0x1000 2 (\<lambda>_. zero_sg)) = Inr h'
     \<and> sg_entries h' 0x1000 = Some qs \<and> map (sg_segment sg_layout h') qs = [(0x80801004, 512), (0x80900000, 1)]"
proof -
  let ?bs = "[(0xffffffe000801004, 512), (0xffffffe000900000, 1)] :: (addr \<times> u32) list"
  have "page_array_ok sg_layout" "\<forall>(b, l) \<in> set ?bs. buf_ok sg_layout b"
    by (simp_all add: sg_layout_def page_array_ok_def buf_ok_def virt_to_phys_def PFN_DOWN_def)
  then have "\<exists>h' qs. sg_fill sg_layout 0x1000 ?bs (sg_init_table 0x1000 (of_nat (length ?bs)) (\<lambda>_. zero_sg)) = Inr h'
     \<and> sg_entries h' 0x1000 = Some qs
     \<and> map (sg_segment sg_layout h') qs = map (\<lambda>(b, l). (virt_to_phys sg_layout b, l)) ?bs
     \<and> (\<forall>q. q \<notin> set qs \<longrightarrow> h' q = zero_sg)"
    by (intro sg_table_describes_buffers) simp_all
  moreover have "map (\<lambda>(b, l). (virt_to_phys sg_layout b, l)) ?bs = [(0x80801004, 512), (0x80900000, 1)]"
    by (simp add: sg_layout_def virt_to_phys_def)
  moreover have "(of_nat (length ?bs) :: u32) = 2" by simp
  ultimately show ?thesis by (simp only:) (elim exE conjE, intro exI conjI)
qed

end
