(* ===== verification/VirtioRing.thy ===== *)
theory VirtioRing
  imports Scatterlist
begin

text \<open>
  The driver side of a split virtqueue: \<^verbatim>\<open>src/virtio/virtio_ring.c\<close> and \<^verbatim>\<open>src/include/virtio_ring.h\<close>. One record
  holds \<^verbatim>\<open>struct vring_virtqueue\<close> together with the memory it shares with the device (descriptor table,
  available ring, used ring) and the indirect tables that are currently allocated. What \<^verbatim>\<open>kmalloc\<close>
  returns (an address, zero for failure, and memory with any content) and what the transport's \<^verbatim>\<open>notify\<close>
  returns are arguments. Reading or writing an array outside its bounds is a fault of the model.
  The \<^verbatim>\<open>vring_virtqueue\<close> fields \<^verbatim>\<open>packed_ring\<close>, \<^verbatim>\<open>name\<close> and \<^verbatim>\<open>vdev\<close> are never read and are left out.
\<close>

section \<open>Layout\<close>

record vring_desc =
  d_addr :: u64
  d_len :: u32
  d_flags :: u16
  d_next :: u16

record vring_used_elem =
  u_id :: u32
  u_len :: u32

record vring =
  vr_num :: u32
  vr_desc :: addr
  vr_avail :: addr
  vr_used :: addr

definition VRING_DESC_F_NEXT :: u16 where "VRING_DESC_F_NEXT = 1"
definition VRING_DESC_F_WRITE :: u16 where "VRING_DESC_F_WRITE = 2"
definition VRING_DESC_F_INDIRECT :: u16 where "VRING_DESC_F_INDIRECT = 4"
definition VRING_AVAIL_F_NO_INTERRUPT :: u16 where "VRING_AVAIL_F_NO_INTERRUPT = 1"

definition vring_size :: "u32 \<Rightarrow> u64 \<Rightarrow> u32" where
  "vring_size num align =
     (let ret = 16 * num + 2 * (3 + num);
          ret = ALIGN32 ret (ucast align);
          ret = ret + 2 * 3
      in ret + 8 * num)"

definition vring_init :: "u32 \<Rightarrow> addr \<Rightarrow> u64 \<Rightarrow> vring" where
  "vring_init num p align =
     (let avail = p + ucast num * 16
      in \<lparr>vr_num = num, vr_desc = p, vr_avail = avail,
          vr_used = ALIGN64 (avail + 4 + 2 * ucast num + 2) align\<rparr>)"

section \<open>State\<close>

record vring_desc_state_split =
  ds_data :: addr
  ds_indir :: addr

record vring_virtqueue =
  num_free :: u32
  vq_index :: u32
  vq_callback :: bool
  we_own_ring :: bool
  weak_barriers :: bool
  broken :: bool
  vq_indirect :: bool
  vq_event :: bool
  use_dma_api :: bool
  free_head :: u32
  num_added :: u32
  last_used_idx :: u16
  vq_vring :: vring
  avail_flags_shadow :: u16
  avail_idx_shadow :: u16
  desc_state :: "nat \<Rightarrow> vring_desc_state_split"
  queue_dma_addr :: u64
  queue_size_in_bytes :: u64
  ring_desc :: "nat \<Rightarrow> vring_desc"
  avail_idx :: u16
  avail_ring :: "nat \<Rightarrow> u16"
  used_idx :: u16
  used_ring :: "nat \<Rightarrow> vring_used_elem"
  tables :: "addr \<Rightarrow> vring_desc list option"

text \<open>The fields of \<^verbatim>\<open>struct virtio_device\<close> used here: the negotiated features and the list of queues. Beside them,
  \<open>kfreed\<close> records the queue structures that have been passed to \<^verbatim>\<open>kfree\<close>.\<close>

record virtio_device =
  features :: u64
  vqs :: "addr list"
  kfreed :: "addr list"

definition vnum :: "vring_virtqueue \<Rightarrow> nat" where
  "vnum vq = unat (vr_num (vq_vring vq))"

section \<open>Features\<close>

definition virtio_clear_bit :: "nat \<Rightarrow> virtio_device \<Rightarrow> virtio_device outcome" where
  "virtio_clear_bit fbit d =
     (if fbit \<ge> 64 then Inl Bug else Inr (d\<lparr>features := features d AND NOT (push_bit fbit 1)\<rparr>))"

definition virtio_test_bit :: "virtio_device \<Rightarrow> nat \<Rightarrow> bool outcome" where
  "virtio_test_bit d fbit = (if fbit \<ge> 64 then Inl Bug else Inr (features d AND push_bit fbit 1 \<noteq> 0))"

text \<open>\<^verbatim>\<open>virtio_has_feature\<close> for the transport features, whose numbers are constants between
  \<^verbatim>\<open>VIRTIO_TRANSPORT_F_START\<close> and 63, so that no check of the driver's table is made.\<close>

definition virtio_has_feature :: "virtio_device \<Rightarrow> nat \<Rightarrow> bool" where
  "virtio_has_feature d fbit \<longleftrightarrow> virtio_test_bit d fbit = Inr True"

fun transport_features_loop :: "nat list \<Rightarrow> virtio_device \<Rightarrow> virtio_device outcome" where
  "transport_features_loop [] d = Inr d"
| "transport_features_loop (i # is) d =
     (if i \<in> {28, 29, 32, 33, 34, 36} then transport_features_loop is d
      else obind (virtio_clear_bit i d) (transport_features_loop is))"

definition vring_transport_features :: "virtio_device \<Rightarrow> virtio_device outcome" where
  "vring_transport_features d = transport_features_loop [28..<38] d"

section \<open>Creating a queue\<close>

definition vring_alloc_queue :: "virtio_device \<Rightarrow> u32 \<Rightarrow> u32 \<Rightarrow> mm \<Rightarrow> (mm \<times> addr \<times> u64) outcome option" where
  "vring_alloc_queue d sz flag m =
     Option.bind (alloc_pages_exact (PAGE_ALIGN (ucast sz)) flag m) (\<lambda>r.
       Some (obind r (\<lambda>(m, queue).
         if virtio_has_feature d 33 then Inl Bug
         else Inr (m, queue, if queue \<noteq> 0 then virt_to_phys m queue else 0))))"

definition vring_free_queue :: "u32 \<Rightarrow> addr \<Rightarrow> mm \<Rightarrow> mm outcome option" where
  "vring_free_queue sz queue m = free_pages_exact queue (PAGE_ALIGN (ucast sz)) m"

text \<open>The loop that puts every descriptor on the free list.\<close>

definition link_free :: "nat \<Rightarrow> (nat \<Rightarrow> vring_desc) \<Rightarrow> nat \<Rightarrow> vring_desc" where
  "link_free n d = fold (\<lambda>i d. d(i := (d i)\<lparr>d_next := of_nat (i + 1)\<rparr>)) [0..<n] d"

text \<open>\<^verbatim>\<open>__vring_new_virtqueue\<close>. \<open>vqp\<close> and \<open>dsp\<close> are the results of the two allocations, \<open>raw\<close> the content of
  the new structure and of the ring memory. The result is the null pointer (\<^const>\<open>None\<close>) or the queue.\<close>

definition vring_new_virtqueue ::
  "u32 \<Rightarrow> vring \<Rightarrow> virtio_device \<Rightarrow> bool \<Rightarrow> bool \<Rightarrow> bool \<Rightarrow> addr \<Rightarrow> addr \<Rightarrow> vring_virtqueue \<Rightarrow>
     (virtio_device \<times> vring_virtqueue option) outcome" where
  "vring_new_virtqueue index vring vdev weak context callback vqp dsp raw =
     (if virtio_has_feature vdev 34 then Inl Panic
      else if vqp = 0 then Inr (vdev, None)
      else let vq = raw\<lparr>vq_callback := callback, num_free := vr_num vring, vq_index := index, we_own_ring := False,
                 weak_barriers := weak, broken := False, last_used_idx := 0, num_added := 0, use_dma_api := False\<rparr>;
               vdev = vdev\<lparr>vqs := vqs vdev @ [vqp]\<rparr>;
               vq = vq\<lparr>vq_indirect := virtio_has_feature vdev 28 \<and> \<not> context, vq_event := virtio_has_feature vdev 29\<rparr>
           in if \<not> vq_event vq then Inl Bug
              else let vq = (if virtio_has_feature vdev 36 then vq\<lparr>weak_barriers := False\<rparr> else vq);
                       vq = vq\<lparr>queue_dma_addr := 0, queue_size_in_bytes := 0, vq_vring := vring,
                               avail_flags_shadow := 0, avail_idx_shadow := 0\<rparr>;
                       vq = (if \<not> callback then vq\<lparr>avail_flags_shadow := avail_flags_shadow vq OR VRING_AVAIL_F_NO_INTERRUPT\<rparr> else vq)
                   in if dsp = 0 then Inr (vdev\<lparr>kfreed := kfreed vdev @ [vqp]\<rparr>, None)
                      else Inr (vdev, Some (vq\<lparr>free_head := 0,
                             ring_desc := link_free (unat (vr_num vring - 1)) (ring_desc vq),
                             desc_state := (\<lambda>i. if i < unat (vr_num vring) then \<lparr>ds_data = 0, ds_indir = 0\<rparr> else desc_state vq i)\<rparr>)))"

text \<open>The loop of \<^verbatim>\<open>vring_create_virtqueue_split\<close> that looks for a size that can be allocated. \<^const>\<open>None\<close>
  inside the result is the early return of the null pointer; a zero queue means that the loop ended
  without an allocation.\<close>

function create_loop :: "u32 \<Rightarrow> u64 \<Rightarrow> virtio_device \<Rightarrow> bool \<Rightarrow> mm \<Rightarrow> (mm \<times> (u32 \<times> addr \<times> u64) option) outcome option" where
  "create_loop num align d may_reduce m =
     (if num \<noteq> 0 \<and> vring_size num align > 4096
      then case vring_alloc_queue d (vring_size num align) 0x2dc0 m of
             None \<Rightarrow> None
           | Some (Inl f) \<Rightarrow> Some (Inl f)
           | Some (Inr (m, queue, dma)) \<Rightarrow>
               if queue \<noteq> 0 then Some (Inr (m, Some (num, queue, dma)))
               else if \<not> may_reduce then Some (Inr (m, None))
               else create_loop (num div 2) align d may_reduce m
      else Some (Inr (m, Some (num, 0, 0))))"
  by pat_completeness auto
termination
  by (relation "measure (\<lambda>(num, align, d, r, m). unat num)") (auto simp: unat_div unat_gt_0)

declare create_loop.simps [simp del]

text \<open>The queue memory is allocated with \<^verbatim>\<open>__GFP_ZERO\<close>.\<close>

definition zero_ring :: "vring_virtqueue \<Rightarrow> vring_virtqueue" where
  "zero_ring vq = vq\<lparr>ring_desc := (\<lambda>_. \<lparr>d_addr = 0, d_len = 0, d_flags = 0, d_next = 0\<rparr>), avail_idx := 0,
     avail_ring := (\<lambda>_. 0), used_idx := 0, used_ring := (\<lambda>_. \<lparr>u_id = 0, u_len = 0\<rparr>)\<rparr>"

definition create_finish ::
  "u32 \<Rightarrow> u32 \<Rightarrow> u64 \<Rightarrow> addr \<Rightarrow> u64 \<Rightarrow> virtio_device \<Rightarrow> bool \<Rightarrow> bool \<Rightarrow> bool \<Rightarrow> addr \<Rightarrow> addr \<Rightarrow> vring_virtqueue \<Rightarrow> mm \<Rightarrow>
     (mm \<times> virtio_device \<times> vring_virtqueue option) outcome option" where
  "create_finish index num align queue dma vdev weak context callback vqp dsp raw m =
     (let sz = vring_size num align;
          vring = vring_init num queue align
      in case vring_new_virtqueue index vring vdev weak context callback vqp dsp (zero_ring raw) of
           Inl f \<Rightarrow> Some (Inl f)
         | Inr (vdev, None) \<Rightarrow>
             Option.bind (vring_free_queue sz queue m) (\<lambda>r. Some (obind r (\<lambda>m. Inr (m, vdev, None))))
         | Inr (vdev, Some vq) \<Rightarrow>
             Some (Inr (m, vdev, Some (vq\<lparr>queue_dma_addr := dma, queue_size_in_bytes := ucast sz, we_own_ring := True\<rparr>))))"

definition vring_create_virtqueue ::
  "u32 \<Rightarrow> u32 \<Rightarrow> u64 \<Rightarrow> virtio_device \<Rightarrow> bool \<Rightarrow> bool \<Rightarrow> bool \<Rightarrow> bool \<Rightarrow> addr \<Rightarrow> addr \<Rightarrow> vring_virtqueue \<Rightarrow> mm \<Rightarrow>
     (mm \<times> virtio_device \<times> vring_virtqueue option) outcome option" where
  "vring_create_virtqueue index num align vdev weak may_reduce context callback vqp dsp raw m =
     (if num AND (num - 1) \<noteq> 0 then Some (Inl Panic)
      else case create_loop num align vdev may_reduce m of
             None \<Rightarrow> None
           | Some (Inl f) \<Rightarrow> Some (Inl f)
           | Some (Inr (m, None)) \<Rightarrow> Some (Inr (m, vdev, None))
           | Some (Inr (m, Some (num, queue, dma))) \<Rightarrow>
               if num = 0 then Some (Inr (m, vdev, None))
               else if queue \<noteq> 0 then create_finish index num align queue dma vdev weak context callback vqp dsp raw m
               else case vring_alloc_queue vdev (vring_size num align) 0xdc0 m of
                      None \<Rightarrow> None
                    | Some (Inl f) \<Rightarrow> Some (Inl f)
                    | Some (Inr (m, queue, dma)) \<Rightarrow>
                        if queue = 0 then Some (Inr (m, vdev, None))
                        else create_finish index num align queue dma vdev weak context callback vqp dsp raw m)"

definition virtqueue_get_vring_size :: "vring_virtqueue \<Rightarrow> u32" where
  "virtqueue_get_vring_size vq = vr_num (vq_vring vq)"

definition virtqueue_get_desc_addr :: "vring_virtqueue \<Rightarrow> u64 outcome" where
  "virtqueue_get_desc_addr vq = (if \<not> we_own_ring vq then Inl Bug else Inr (queue_dma_addr vq))"

section \<open>Exposing buffers\<close>

definition virtqueue_use_indirect :: "vring_virtqueue \<Rightarrow> u32 \<Rightarrow> bool" where
  "virtqueue_use_indirect vq total_sg \<longleftrightarrow> vq_indirect vq \<and> total_sg > 1 \<and> num_free vq \<noteq> 0"

text \<open>\<^verbatim>\<open>alloc_indirect_split\<close>: \<open>ptr\<close> is what \<^verbatim>\<open>kmalloc_array\<close> returned and \<open>raw\<close> the content of that memory.\<close>

definition alloc_indirect_split :: "u32 \<Rightarrow> addr \<Rightarrow> (nat \<Rightarrow> vring_desc) \<Rightarrow> vring_desc list outcome" where
  "alloc_indirect_split total_sg ptr raw =
     (if ptr = 0 then Inl Panic
      else Inr (map (\<lambda>i. (raw i)\<lparr>d_next := of_nat (i + 1)\<rparr>) [0..<unat total_sg]))"

definition vring_map_one_sg :: "mm \<Rightarrow> scatterlist \<Rightarrow> u64" where
  "vring_map_one_sg m sg = sg_phys m sg"

definition vring_map_single :: "mm \<Rightarrow> addr \<Rightarrow> u64" where
  "vring_map_single m cpu_addr = virt_to_phys m cpu_addr"

definition virtqueue_notify :: "bool \<Rightarrow> vring_virtqueue \<Rightarrow> vring_virtqueue \<times> bool" where
  "virtqueue_notify notify vq =
     (if broken vq then (vq, False)
      else if \<not> notify then (vq\<lparr>broken := True\<rparr>, False)
      else (vq, True))"

definition virtqueue_kick :: "bool \<Rightarrow> vring_virtqueue \<Rightarrow> vring_virtqueue \<times> bool" where
  "virtqueue_kick notify vq = virtqueue_notify notify vq"

text \<open>The body of the two loops of \<^verbatim>\<open>virtqueue_add_split\<close>: the table, \<open>i\<close> and \<open>prev\<close>.\<close>

type_synonym fill_state = "vring_desc list \<times> nat \<times> nat"

definition fill_one :: "mm \<Rightarrow> sg_heap \<Rightarrow> u16 \<Rightarrow> addr \<Rightarrow> fill_state \<Rightarrow> fill_state outcome" where
  "fill_one m h fl p st =
     (let (t, i, prev) = st
      in if i < length t
         then Inr (t[i := (t ! i)\<lparr>d_flags := fl, d_addr := vring_map_one_sg m (h p), d_len := sg_length (h p)\<rparr>],
                   unat (d_next (t ! i)), i)
         else Inl OutOfBounds)"

primrec fill_sgl :: "mm \<Rightarrow> sg_heap \<Rightarrow> u16 \<Rightarrow> addr list \<Rightarrow> fill_state \<Rightarrow> fill_state outcome" where
  "fill_sgl m h fl [] st = Inr st"
| "fill_sgl m h fl (p # ps) st = obind (fill_one m h fl p st) (fill_sgl m h fl ps)"

text \<open>The entries of one list; a null pointer is an empty list.\<close>

definition sg_list :: "sg_heap \<Rightarrow> addr \<Rightarrow> addr list option" where
  "sg_list h p = (if p = 0 then Some [] else sg_entries h p)"

primrec fill_sgs :: "mm \<Rightarrow> sg_heap \<Rightarrow> u16 \<Rightarrow> addr list \<Rightarrow> fill_state \<Rightarrow> fill_state outcome option" where
  "fill_sgs m h fl [] st = Some (Inr st)"
| "fill_sgs m h fl (p # ps) st =
     Option.bind (sg_list h p) (\<lambda>es.
       case fill_sgl m h fl es st of Inl f \<Rightarrow> Some (Inl f) | Inr st \<Rightarrow> fill_sgs m h fl ps st)"

text \<open>What \<^verbatim>\<open>virtqueue_add_split\<close> does once the indirect table \<open>t\<close> at \<open>ptr\<close> is filled in: it takes the
  descriptor \<open>head\<close> off the free list and points it at the table, then puts it into the available ring.\<close>

definition store_desc :: "mm \<Rightarrow> u32 \<Rightarrow> addr \<Rightarrow> addr \<Rightarrow> vring_desc list \<Rightarrow> nat \<Rightarrow> vring_virtqueue \<Rightarrow> vring_virtqueue" where
  "store_desc m total_sg data ptr t head vq =
     (let vq = vq\<lparr>tables := (tables vq)(ptr \<mapsto> t)\<rparr>;
          vq = vq\<lparr>ring_desc := (ring_desc vq)(head := (ring_desc vq head)\<lparr>d_flags := VRING_DESC_F_INDIRECT,
                 d_addr := vring_map_single m ptr, d_len := total_sg * 16\<rparr>)\<rparr>;
          vq = vq\<lparr>num_free := num_free vq - 1\<rparr>;
          vq = vq\<lparr>free_head := ucast (d_next (ring_desc vq head))\<rparr>
      in vq\<lparr>desc_state := (desc_state vq)(head := \<lparr>ds_data = data, ds_indir = ptr\<rparr>)\<rparr>)"

definition expose_avail :: "bool \<Rightarrow> nat \<Rightarrow> vring_virtqueue \<Rightarrow> vring_virtqueue" where
  "expose_avail notify head vq =
     (let avail = unat (ucast (avail_idx_shadow vq) AND (vr_num (vq_vring vq) - 1));
          vq = vq\<lparr>avail_ring := (avail_ring vq)(avail := of_nat head)\<rparr>;
          vq = vq\<lparr>avail_idx_shadow := avail_idx_shadow vq + 1\<rparr>;
          vq = vq\<lparr>avail_idx := avail_idx_shadow vq\<rparr>;
          vq = vq\<lparr>num_added := num_added vq + 1\<rparr>
      in if num_added vq = 2 ^ 16 - 1 then fst (virtqueue_kick notify vq) else vq)"

definition add_publish ::
  "mm \<Rightarrow> bool \<Rightarrow> u32 \<Rightarrow> addr \<Rightarrow> addr \<Rightarrow> vring_desc list \<Rightarrow> vring_virtqueue \<Rightarrow> vring_virtqueue outcome" where
  "add_publish m notify total_sg data ptr t vq =
     (let head = unat (free_head vq)
      in if head \<ge> vnum vq then Inl OutOfBounds
         else Inr (expose_avail notify head (store_desc m total_sg data ptr t head vq)))"

text \<open>\<^verbatim>\<open>virtqueue_add_split\<close>. The source reads \<^verbatim>\<open>prev\<close> uninitialised when all lists are empty; the value 0
  taken here is never read, since \<open>total_sg\<close> counts the entries.\<close>

definition virtqueue_add ::
  "mm \<Rightarrow> sg_heap \<Rightarrow> bool \<Rightarrow> addr list \<Rightarrow> u32 \<Rightarrow> nat \<Rightarrow> nat \<Rightarrow> addr \<Rightarrow> addr \<Rightarrow> (nat \<Rightarrow> vring_desc) \<Rightarrow> vring_virtqueue \<Rightarrow>
     vring_virtqueue outcome option" where
  "virtqueue_add m h notify sgs total_sg out_sgs in_sgs data ptr raw vq =
     (if \<not> virtqueue_use_indirect vq total_sg then Some (Inl Bug)
      else case alloc_indirect_split total_sg ptr raw of
        Inl f \<Rightarrow> Some (Inl f)
      | Inr t \<Rightarrow>
          (case fill_sgs m h VRING_DESC_F_NEXT (take out_sgs sgs) (t, 0, 0) of
             None \<Rightarrow> None
           | Some (Inl f) \<Rightarrow> Some (Inl f)
           | Some (Inr st) \<Rightarrow>
               (case fill_sgs m h (VRING_DESC_F_NEXT OR VRING_DESC_F_WRITE) (take in_sgs (drop out_sgs sgs)) st of
                  None \<Rightarrow> None
                | Some (Inl f) \<Rightarrow> Some (Inl f)
                | Some (Inr (t, i, prev)) \<Rightarrow>
                    let t = t[prev := (t ! prev)\<lparr>d_flags := d_flags (t ! prev) AND NOT VRING_DESC_F_NEXT\<rparr>]
                    in Some (add_publish m notify total_sg data ptr t vq))))"

text \<open>\<^verbatim>\<open>virtqueue_add_sgs\<close>; \<open>sgs\<close> is the array of \<^verbatim>\<open>out_sgs + in_sgs\<close> lists, reading past it is a fault.\<close>

primrec count_sgs :: "sg_heap \<Rightarrow> addr list \<Rightarrow> u32 \<Rightarrow> u32 option" where
  "count_sgs h [] n = Some n"
| "count_sgs h (p # ps) n = Option.bind (sg_list h p) (\<lambda>es. count_sgs h ps (n + of_nat (length es)))"

definition virtqueue_add_sgs ::
  "mm \<Rightarrow> sg_heap \<Rightarrow> bool \<Rightarrow> addr list \<Rightarrow> nat \<Rightarrow> nat \<Rightarrow> addr \<Rightarrow> addr \<Rightarrow> (nat \<Rightarrow> vring_desc) \<Rightarrow> vring_virtqueue \<Rightarrow>
     vring_virtqueue outcome option" where
  "virtqueue_add_sgs m h notify sgs out_sgs in_sgs data ptr raw vq =
     (if length sgs < out_sgs + in_sgs then Some (Inl OutOfBounds)
      else Option.bind (count_sgs h (take (out_sgs + in_sgs) sgs) 0) (\<lambda>total_sg.
        virtqueue_add m h notify sgs total_sg out_sgs in_sgs data ptr raw vq))"

section \<open>Taking buffers back\<close>

definition more_used :: "vring_virtqueue \<Rightarrow> bool" where
  "more_used vq \<longleftrightarrow> last_used_idx vq \<noteq> used_idx vq"

datatype irqreturn = IRQ_NONE | IRQ_HANDLED

text \<open>\<^verbatim>\<open>vring_interrupt\<close>; \<open>cb\<close> is the driver's callback.\<close>

definition vring_interrupt :: "(vring_virtqueue \<Rightarrow> vring_virtqueue) \<Rightarrow> vring_virtqueue \<Rightarrow> vring_virtqueue \<times> irqreturn" where
  "vring_interrupt cb vq =
     (if \<not> more_used vq then (vq, IRQ_NONE)
      else if broken vq then (vq, IRQ_HANDLED)
      else (if vq_callback vq then cb vq else vq, IRQ_HANDLED))"

definition virtqueue_disable_cb :: "vring_virtqueue \<Rightarrow> vring_virtqueue" where
  "virtqueue_disable_cb vq =
     (if avail_flags_shadow vq AND VRING_AVAIL_F_NO_INTERRUPT = 0
      then vq\<lparr>avail_flags_shadow := avail_flags_shadow vq OR VRING_AVAIL_F_NO_INTERRUPT\<rparr> else vq)"

text \<open>The used event index is the entry of the available ring after the last one.\<close>

definition virtqueue_enable_cb_prepare :: "vring_virtqueue \<Rightarrow> vring_virtqueue \<times> u16" where
  "virtqueue_enable_cb_prepare vq =
     (let vq = (if avail_flags_shadow vq AND VRING_AVAIL_F_NO_INTERRUPT \<noteq> 0
                then vq\<lparr>avail_flags_shadow := avail_flags_shadow vq AND NOT VRING_AVAIL_F_NO_INTERRUPT\<rparr> else vq);
          idx = last_used_idx vq
      in (vq\<lparr>avail_ring := (avail_ring vq)(vnum vq := idx)\<rparr>, idx))"

definition virtqueue_poll :: "vring_virtqueue \<Rightarrow> u16 \<Rightarrow> bool" where
  "virtqueue_poll vq idx = (if broken vq then False else idx \<noteq> used_idx vq)"

text \<open>\<^verbatim>\<open>virtqueue_enable_cb\<close> as the sequence of its accesses to the shared ring, on the queue, the local variable
  \<^verbatim>\<open>last_used_idx\<close> and the return value: the device may act between them. First the event index is stored, then
  the index of the used ring is read.\<close>

type_synonym cb_frame = "vring_virtqueue \<times> u16 \<times> bool"

definition cb_prepare :: "cb_frame \<Rightarrow> cb_frame" where
  "cb_prepare = (\<lambda>(vq, idx, r). let (vq, idx) = virtqueue_enable_cb_prepare vq in (vq, idx, r))"

definition cb_poll :: "cb_frame \<Rightarrow> cb_frame" where
  "cb_poll = (\<lambda>(vq, idx, r). (vq, idx, \<not> virtqueue_poll vq idx))"

definition enable_cb_steps :: "(cb_frame \<Rightarrow> cb_frame) list" where
  "enable_cb_steps = [cb_prepare, cb_poll]"

text \<open>The whole function when nothing happens in between.\<close>

definition virtqueue_enable_cb :: "vring_virtqueue \<Rightarrow> vring_virtqueue \<times> bool" where
  "virtqueue_enable_cb vq = (let (vq, idx, r) = fold (\<lambda>f. f) enable_cb_steps (vq, 0, False) in (vq, r))"

definition vring_unmap_one_split :: "vring_virtqueue \<Rightarrow> unit outcome" where
  "vring_unmap_one_split vq = (if \<not> use_dma_api vq then Inr () else Inl Panic)"

primrec unmap_loop :: "vring_virtqueue \<Rightarrow> nat \<Rightarrow> unit outcome" where
  "unmap_loop vq 0 = Inr ()"
| "unmap_loop vq (Suc n) = obind (vring_unmap_one_split vq) (\<lambda>_. unmap_loop vq n)"

text \<open>The loop of \<^verbatim>\<open>detach_buf_split\<close> that follows the chain in the descriptor table; it may run forever.\<close>

partial_function (option) detach_chain :: "vring_virtqueue \<Rightarrow> nat \<Rightarrow> (vring_virtqueue \<times> nat) outcome option" where
  "detach_chain vq i =
     (if i \<ge> vnum vq then Some (Inl OutOfBounds)
      else if d_flags (ring_desc vq i) AND VRING_DESC_F_NEXT \<noteq> 0
      then case vring_unmap_one_split vq of
             Inl f \<Rightarrow> Some (Inl f)
           | Inr _ \<Rightarrow> detach_chain (vq\<lparr>num_free := num_free vq + 1\<rparr>) (unat (d_next (ring_desc vq i)))
      else Some (Inr (vq, i)))"

declare detach_chain.simps [code]

definition detach_tail :: "nat \<Rightarrow> nat \<Rightarrow> vring_virtqueue \<Rightarrow> vring_virtqueue outcome" where
  "detach_tail head i vq =
     obind (vring_unmap_one_split vq) (\<lambda>_.
       let vq = vq\<lparr>ring_desc := (ring_desc vq)(i := (ring_desc vq i)\<lparr>d_next := ucast (free_head vq)\<rparr>)\<rparr>;
           vq = vq\<lparr>free_head := of_nat head, num_free := num_free vq + 1\<rparr>
       in if \<not> vq_indirect vq then Inl Panic
          else let indir = ds_indir (desc_state vq head); len = d_len (ring_desc vq head)
               in if indir = 0 then Inr vq
                  else if d_flags (ring_desc vq head) AND VRING_DESC_F_INDIRECT = 0 then Inl Bug
                  else if len = 0 \<or> len mod 16 \<noteq> 0 then Inl Bug
                  else obind (unmap_loop vq (unat (len div 16))) (\<lambda>_.
                    Inr (vq\<lparr>tables := (tables vq)(indir := None),
                            desc_state := (desc_state vq)(head := (desc_state vq head)\<lparr>ds_indir := 0\<rparr>)\<rparr>)))"

definition detach_buf_split :: "nat \<Rightarrow> vring_virtqueue \<Rightarrow> vring_virtqueue outcome option" where
  "detach_buf_split head vq =
     (let vq = vq\<lparr>desc_state := (desc_state vq)(head := (desc_state vq head)\<lparr>ds_data := 0\<rparr>)\<rparr>
      in case detach_chain vq head of
           None \<Rightarrow> None
         | Some (Inl f) \<Rightarrow> Some (Inl f)
         | Some (Inr (vq, i)) \<Rightarrow> Some (detach_tail head i vq))"

text \<open>\<^verbatim>\<open>virtqueue_get_buf\<close>: the null pointer, or the token and the length the device reports.\<close>

definition virtqueue_get_buf :: "vring_virtqueue \<Rightarrow> (vring_virtqueue \<times> (addr \<times> u32) option) outcome option" where
  "virtqueue_get_buf vq =
     (if broken vq then Some (Inr (vq, None))
      else if \<not> more_used vq then Some (Inr (vq, None))
      else let last_used = unat (ucast (last_used_idx vq) AND (vr_num (vq_vring vq) - 1));
               i = unat (u_id (used_ring vq last_used)); len = u_len (used_ring vq last_used)
           in if i \<ge> vnum vq then Some (Inl Panic)
              else if ds_data (desc_state vq i) = 0 then Some (Inl Panic)
              else let ret = ds_data (desc_state vq i)
                   in case detach_buf_split i vq of
                        None \<Rightarrow> None
                      | Some (Inl f) \<Rightarrow> Some (Inl f)
                      | Some (Inr vq) \<Rightarrow> Some (Inr (vq\<lparr>last_used_idx := last_used_idx vq + 1\<rparr>, Some (ret, len))))"

end
