(* ===== verification/VirtioProps.thy ===== *)
theory VirtioProps
  imports VirtioRing "HOL-Library.Multiset"
begin

text \<open>
  Correctness of the virtqueue driver against any device that follows the rules of the split ring. The
  device is an inductive step relation that takes entries of the available ring in order and gives them
  back through the used ring in any order. The invariant says that every descriptor is in exactly one
  of four places: on the free list, in the available ring and not yet taken, taken by the device, or in
  the used ring and not yet collected.
\<close>

section \<open>Ring buffers with wrapping indices\<close>

text \<open>The entries of a ring of \<open>n\<close> slots between the indices \<open>s\<close> and \<open>e\<close>, which count modulo \<open>2 ^ 16\<close>.\<close>

definition pend :: "(nat \<Rightarrow> 'a) \<Rightarrow> nat \<Rightarrow> u16 \<Rightarrow> u16 \<Rightarrow> 'a list" where
  "pend f n s e = map (\<lambda>k. f ((unat s + k) mod n)) [0..<unat (e - s)]"

lemma length_pend [simp]: "length (pend f n s e) = unat (e - s)"
  by (simp add: pend_def)

lemma pend_empty [simp]: "pend f n s s = []"
  by (simp add: pend_def)

lemma unat_u16_less: "unat (x :: u16) < 65536"
  using unsigned_less [of x] by simp

lemma unat_of_nat16: "n < 65536 \<Longrightarrow> unat (of_nat n :: u16) = n"
  by (simp add: unat_of_nat take_bit_nat_eq_self)

lemma idx_add_mod:
  fixes s e :: u16
  assumes "n dvd 65536"
  shows "(unat s + unat (e - s)) mod n = unat e mod n"
proof -
  have add: "unat (x + y) = (unat x + unat y) mod 65536" for x y :: u16 by (simp add: unat_word_ariths)
  have "s + (e - s) = e" by simp
  then have "unat e = (unat s + unat (e - s)) mod 65536" using add [of s "e - s"] by (simp only:)
  then show ?thesis using assms by (simp only: mod_mod_cancel)
qed

lemma idx_succ:
  fixes s e :: u16
  assumes "unat (e - s) < 65535"
  shows "unat (e + 1 - s) = Suc (unat (e - s))"
proof -
  have eq: "e + 1 - s = (e - s) + 1" by simp
  have "unat (x + 1) = (unat x + 1) mod 65536" for x :: u16 by (simp add: unat_word_ariths)
  then show ?thesis unfolding eq using assms by simp
qed

lemma pend_push:
  assumes n: "n dvd 65536" and len: "unat (e - s) < n" and "n \<le> 32768"
  shows "pend (f(unat e mod n := v)) n s (e + 1) = pend f n s e @ [v]"
proof -
  have neq: "(unat s + k) mod n \<noteq> unat e mod n" if "k < unat (e - s)" for k
  proof
    assume "(unat s + k) mod n = unat e mod n"
    then have "(unat s + k) mod n = (unat s + unat (e - s)) mod n" by (simp only: idx_add_mod [OF n])
    then have "n dvd (unat s + unat (e - s)) - (unat s + k)"
      using that by (metis add_le_cancel_left less_imp_le mod_eq_dvd_iff_nat)
    then have "n dvd unat (e - s) - k" by simp
    then show False using that len by (auto dest: dvd_imp_le)
  qed
  have "unat (e + 1 - s) = Suc (unat (e - s))" using len assms(3) by (intro idx_succ) simp
  then show ?thesis using neq by (simp add: pend_def idx_add_mod [OF n])
qed

lemma pend_pop:
  assumes "s \<noteq> e" and "n dvd 65536"
  shows "pend f n s e = f (unat s mod n) # pend f n (s + 1) e"
proof -
  have nz: "e - s \<noteq> 0" using assms(1) by simp
  have eq: "e - (s + 1) = (e - s) - 1" by simp
  have len: "unat (e - s) = Suc (unat (e - (s + 1)))"
    unfolding eq unat_minus_one [OF nz] using nz unat_gt_0 [of "e - s"] by simp
  have idx: "(unat (s + 1) + k) mod n = (unat s + Suc k) mod n" for k
  proof -
    have "unat (s + 1) mod n = (unat s + 1) mod n"
      using assms(2) by (simp add: unat_word_ariths mod_mod_cancel)
    then show ?thesis by (metis add.assoc mod_add_left_eq plus_1_eq_Suc)
  qed
  show ?thesis by (simp add: pend_def len idx upt_conv_Cons map_Suc_upt [symmetric] del: upt_Suc)
qed

lemma pend_cong: "0 < n \<Longrightarrow> (\<And>i. i < n \<Longrightarrow> f i = g i) \<Longrightarrow> pend f n s e = pend g n s e"
  by (simp add: pend_def)

lemma ring_index:
  assumes "unat num = 2 ^ k" and "k \<le> 15"
  shows "unat (ucast (x :: u16) AND (num - 1 :: u32)) = unat x mod 2 ^ k"
proof -
  have "num = of_nat (unat num)" by simp
  then have "num = of_nat (2 ^ k)" by (simp only: assms(1))
  then have "num = 2 ^ k" by simp
  then have "num - 1 = mask k" by (simp add: mask_eq_exp_minus_1)
  then have "ucast x AND (num - 1) = take_bit k (ucast x :: u32)" by (simp add: take_bit_eq_mask)
  also have "unat \<dots> = take_bit k (unat x)" by (use assms(2) in \<open>simp add: unsigned_take_bit_eq unsigned_ucast_eq min_def\<close>)
  finally show ?thesis by (simp add: take_bit_eq_mod)
qed

section \<open>The free list\<close>

primrec free_chain :: "(nat \<Rightarrow> vring_desc) \<Rightarrow> nat \<Rightarrow> nat \<Rightarrow> nat list" where
  "free_chain d 0 i = []"
| "free_chain d (Suc n) i = i # free_chain d n (unat (d_next (d i)))"

lemma length_free_chain [simp]: "length (free_chain d n i) = n"
  by (induction n arbitrary: i) auto

lemma free_chain_cong: "(\<And>j. j \<in> set (free_chain d n i) \<Longrightarrow> d_next (d' j) = d_next (d j)) \<Longrightarrow> free_chain d' n i = free_chain d n i"
  by (induction n arbitrary: i) auto

lemma free_chain_upt:
  assumes "\<And>j. j + 1 < n \<Longrightarrow> unat (d_next (d j)) = j + 1"
  shows "i \<le> n \<Longrightarrow> free_chain d (n - i) i = [i..<n]"
proof (induction "n - i" arbitrary: i)
  case (Suc k)
  then have i: "i < n" "n - i = Suc (n - Suc i)" by auto
  show ?case
  proof (cases "Suc i < n")
    case True
    then show ?thesis using Suc.hyps(1) [of "Suc i"] Suc.hyps(2) i assms [of i] by (simp add: upt_conv_Cons)
  next
    case False
    then show ?thesis using i by (simp add: upt_conv_Cons)
  qed
qed simp

section \<open>The device\<close>

text \<open>The device remembers the next available index it will read and the descriptors it works on.\<close>

record vdevice =
  dev_avail :: u16
  inflight :: "nat list"

datatype vevent = Added addr | Returned addr | Silent

text \<open>One step of the driver or of the device. The driver exposes buffers under a non-null token, with
  fewer than \<open>2 ^ 16\<close> entries and an indirect table at a fresh address.\<close>

inductive vstep :: "vring_virtqueue \<times> vdevice \<Rightarrow> vevent \<Rightarrow> vring_virtqueue \<times> vdevice \<Rightarrow> bool" where
  step_add: "virtqueue_add_sgs m h nt sgs os is data ptr raw vq = Some (Inr vq') \<Longrightarrow>
     count_sgs h (take (os + is) sgs) 0 = Some n \<Longrightarrow> n < 2 ^ 16 \<Longrightarrow> data \<noteq> 0 \<Longrightarrow> tables vq ptr = None \<Longrightarrow>
     vstep (vq, d) (Added data) (vq', d)"
| step_get: "virtqueue_get_buf vq = Some (Inr (vq', Some (data, len))) \<Longrightarrow> vstep (vq, d) (Returned data) (vq', d)"
| step_kick: "vstep (vq, d) Silent (fst (virtqueue_kick nt vq), d)"
| step_disable: "vstep (vq, d) Silent (virtqueue_disable_cb vq, d)"
| step_enable: "vstep (vq, d) Silent (fst (virtqueue_enable_cb vq), d)"
| step_take: "dev_avail d \<noteq> avail_idx vq \<Longrightarrow>
     vstep (vq, d) Silent (vq, d\<lparr>dev_avail := dev_avail d + 1,
       inflight := inflight d @ [unat (avail_ring vq (unat (dev_avail d) mod vnum vq))]\<rparr>)"
| step_complete: "x \<in> set (inflight d) \<Longrightarrow>
     vstep (vq, d) Silent
       (vq\<lparr>used_ring := (used_ring vq)(unat (used_idx vq) mod vnum vq := \<lparr>u_id = of_nat x, u_len = len\<rparr>),
           used_idx := used_idx vq + 1\<rparr>,
        d\<lparr>inflight := remove1 x (inflight d)\<rparr>)"

inductive vrun :: "vring_virtqueue \<times> vdevice \<Rightarrow> vevent list \<Rightarrow> vring_virtqueue \<times> vdevice \<Rightarrow> bool" where
  run_start: "vrun s [] s"
| run_step: "vrun s es s' \<Longrightarrow> vstep s' e s'' \<Longrightarrow> vrun s (es @ [e]) s''"

fun added :: "vevent list \<Rightarrow> addr list" where
  "added [] = []"
| "added (Added x # es) = x # added es"
| "added (_ # es) = added es"

fun returned :: "vevent list \<Rightarrow> addr list" where
  "returned [] = []"
| "returned (Returned x # es) = x # returned es"
| "returned (_ # es) = returned es"

lemma added_append [simp]: "added (es @ es') = added es @ added es'"
  by (induction es rule: added.induct) auto

lemma returned_append [simp]: "returned (es @ es') = returned es @ returned es'"
  by (induction es rule: returned.induct) auto

section \<open>The invariant\<close>

definition freel :: "vring_virtqueue \<Rightarrow> nat list" where
  "freel vq = free_chain (ring_desc vq) (unat (num_free vq)) (unat (free_head vq))"

definition availp :: "vring_virtqueue \<Rightarrow> vdevice \<Rightarrow> nat list" where
  "availp vq d = pend (\<lambda>i. unat (avail_ring vq i)) (vnum vq) (dev_avail d) (avail_idx vq)"

definition usedp :: "vring_virtqueue \<Rightarrow> nat list" where
  "usedp vq = pend (\<lambda>i. unat (u_id (used_ring vq i))) (vnum vq) (last_used_idx vq) (used_idx vq)"

definition busy :: "vring_virtqueue \<Rightarrow> vdevice \<Rightarrow> nat list" where
  "busy vq d = availp vq d @ inflight d @ usedp vq"

definition slot_ok :: "vring_virtqueue \<Rightarrow> nat \<Rightarrow> bool" where
  "slot_ok vq i \<longleftrightarrow> ds_data (desc_state vq i) \<noteq> 0 \<and> ds_indir (desc_state vq i) \<noteq> 0
     \<and> tables vq (ds_indir (desc_state vq i)) \<noteq> None
     \<and> d_flags (ring_desc vq i) = VRING_DESC_F_INDIRECT
     \<and> d_len (ring_desc vq i) \<noteq> 0 \<and> d_len (ring_desc vq i) mod 16 = 0"

definition vq_inv :: "vring_virtqueue \<Rightarrow> vdevice \<Rightarrow> bool" where
  "vq_inv vq d \<longleftrightarrow> (\<exists>k \<le> 15. vnum vq = 2 ^ k) \<and> mset (freel vq @ busy vq d) = mset [0..<vnum vq]
     \<and> avail_idx_shadow vq = avail_idx vq \<and> vq_indirect vq \<and> \<not> use_dma_api vq
     \<and> (\<forall>i \<in> set (busy vq d). slot_ok vq i) \<and> inj_on (\<lambda>i. ds_indir (desc_state vq i)) (set (busy vq d))"

abbreviation token :: "vring_virtqueue \<Rightarrow> nat \<Rightarrow> addr" where
  "token vq i \<equiv> ds_data (desc_state vq i)"

lemma vq_inv_num:
  assumes "vq_inv vq d"
  shows "vnum vq dvd 65536" "0 < vnum vq" "vnum vq \<le> 32768"
proof -
  obtain k where k: "k \<le> 15" "vnum vq = 2 ^ k" using assms by (auto simp: vq_inv_def)
  have "(2::nat) ^ k dvd 2 ^ 16" using k(1) by (intro le_imp_power_dvd) simp
  then show "vnum vq dvd 65536" using k by simp
  show "0 < vnum vq" using k by simp
  have "(2::nat) ^ k \<le> 2 ^ 15" using k(1) by (intro power_increasing) simp_all
  then show "vnum vq \<le> 32768" using k by simp
qed

lemma vq_inv_index: "vq_inv vq d \<Longrightarrow> unat (ucast x AND (vr_num (vq_vring vq) - 1)) = unat (x :: u16) mod vnum vq"
  using ring_index by (auto simp: vq_inv_def vnum_def)

lemma vq_inv_places:
  assumes "vq_inv vq d"
  shows "distinct (freel vq @ busy vq d)" "set (freel vq @ busy vq d) = {0..<vnum vq}"
    "length (freel vq) + length (availp vq d) + length (inflight d) + length (usedp vq) = vnum vq"
    "unat (num_free vq) + length (busy vq d) = vnum vq"
proof -
  have m: "mset (freel vq @ busy vq d) = mset [0..<vnum vq]" using assms by (simp add: vq_inv_def)
  then show "distinct (freel vq @ busy vq d)" by (metis distinct_upt mset_eq_imp_distinct_iff)
  show "set (freel vq @ busy vq d) = {0..<vnum vq}" using mset_eq_setD [OF m] by simp
  have "length (freel vq @ busy vq d) = length [0..<vnum vq]" using m by (rule mset_eq_length)
  then show "length (freel vq) + length (availp vq d) + length (inflight d) + length (usedp vq) = vnum vq"
    "unat (num_free vq) + length (busy vq d) = vnum vq"
    by (simp_all add: busy_def freel_def)
qed

text \<open>Steps that only touch the fields the invariant does not mention.\<close>

lemma vq_inv_cong:
  assumes "vq_inv vq d" and "num_free vq' = num_free vq" "free_head vq' = free_head vq" "last_used_idx vq' = last_used_idx vq"
    "vq_vring vq' = vq_vring vq" "avail_idx_shadow vq' = avail_idx_shadow vq" "desc_state vq' = desc_state vq"
    "ring_desc vq' = ring_desc vq" "avail_idx vq' = avail_idx vq" "\<And>i. i < vnum vq \<Longrightarrow> avail_ring vq' i = avail_ring vq i"
    "used_idx vq' = used_idx vq" "used_ring vq' = used_ring vq" "tables vq' = tables vq"
    "vq_indirect vq' = vq_indirect vq" "use_dma_api vq' = use_dma_api vq"
  shows "vq_inv vq' d" "busy vq' d = busy vq d"
proof -
  have n: "vnum vq' = vnum vq" using assms by (simp add: vnum_def)
  have "availp vq' d = availp vq d"
    unfolding availp_def n assms(9) by (rule pend_cong) (simp_all only: vq_inv_num(2) [OF assms(1)] assms(10))
  then show b: "busy vq' d = busy vq d" using assms n by (simp add: busy_def usedp_def)
  have "slot_ok vq' = slot_ok vq" using assms by (simp add: slot_ok_def fun_eq_iff)
  then show "vq_inv vq' d" using assms(1) b n assms(2-) by (simp add: vq_inv_def freel_def)
qed

text \<open>Exposing a buffer moves the head of the free list to the end of the available ring.\<close>

lemma unat_comp_upd: "(\<lambda>i. unat ((f(a := v)) i)) = (\<lambda>i. unat (f i))(a := unat v)"
  by auto

definition published :: "mm \<Rightarrow> u32 \<Rightarrow> addr \<Rightarrow> addr \<Rightarrow> vring_desc list \<Rightarrow> nat \<Rightarrow> vring_virtqueue \<Rightarrow> vring_virtqueue" where
  "published m tsg data ptr t head vq = vq\<lparr>tables := (tables vq)(ptr \<mapsto> t),
     ring_desc := (ring_desc vq)(head := (ring_desc vq head)\<lparr>d_flags := VRING_DESC_F_INDIRECT,
                         d_addr := vring_map_single m ptr, d_len := tsg * 16\<rparr>),
     num_free := num_free vq - 1, free_head := ucast (d_next (ring_desc vq head)),
     desc_state := (desc_state vq)(head := \<lparr>ds_data = data, ds_indir = ptr\<rparr>),
     avail_ring := (avail_ring vq)(unat (avail_idx vq) mod vnum vq := of_nat head),
     avail_idx_shadow := avail_idx vq + 1, avail_idx := avail_idx vq + 1, num_added := num_added vq + 1\<rparr>"

lemma freel_Cons:
  assumes "num_free vq \<noteq> 0"
  shows "freel vq = unat (free_head vq) # free_chain (ring_desc vq) (unat (num_free vq - 1)) (unat (d_next (ring_desc vq (unat (free_head vq)))))"
  using assms unat_minus_one [of "num_free vq"] by (cases "unat (num_free vq)") (simp_all add: freel_def unat_eq_zero)

lemma publish_eq:
  fixes m :: mm and tsg :: u32 and data ptr :: addr and t :: "vring_desc list"
  assumes inv: "vq_inv vq d" and nf: "num_free vq \<noteq> 0"
  defines "v \<equiv> published m tsg data ptr t (unat (free_head vq)) vq"
  shows "add_publish m nt tsg data ptr t vq = Inr (if num_added v = 2 ^ 16 - 1 then fst (virtqueue_kick nt v) else v)"
proof -
  have "unat (free_head vq) < vnum vq" using vq_inv_places(2) [OF inv] by (auto simp: freel_Cons [OF nf])
  moreover define w where "w = store_desc m tsg data ptr t (unat (free_head vq)) vq"
  moreover have w: "w = vq\<lparr>tables := tables w, ring_desc := ring_desc w, num_free := num_free vq - 1,
      free_head := ucast (d_next (ring_desc vq (unat (free_head vq)))), desc_state := desc_state w\<rparr>"
    "tables w = (tables vq)(ptr \<mapsto> t)" "desc_state w = (desc_state vq)(unat (free_head vq) := \<lparr>ds_data = data, ds_indir = ptr\<rparr>)"
    "ring_desc w = (ring_desc vq)(unat (free_head vq) := (ring_desc vq (unat (free_head vq)))\<lparr>d_flags := VRING_DESC_F_INDIRECT,
                         d_addr := vring_map_single m ptr, d_len := tsg * 16\<rparr>)"
    by (simp_all add: w_def store_desc_def Let_def)
  moreover have "avail_idx_shadow w = avail_idx vq" "vq_vring w = vq_vring vq" "num_added w = num_added vq" "avail_ring w = avail_ring vq"
    using inv by (subst w(1), simp add: vq_inv_def)+
  ultimately show ?thesis
    using vq_inv_index [OF inv, of "avail_idx vq"]
    by (simp add: add_publish_def expose_avail_def Let_def v_def published_def)
qed

lemma published_lists:
  fixes m :: mm and tsg :: u32 and data ptr :: addr and t :: "vring_desc list"
  assumes inv: "vq_inv vq d" and nf: "num_free vq \<noteq> 0" and head: "head = unat (free_head vq)"
  defines "v \<equiv> published m tsg data ptr t head vq"
  shows "freel vq = head # freel v" "availp v d = availp vq d @ [head]" "usedp v = usedp vq" "vnum v = vnum vq"
proof -
  note num = vq_inv_num [OF inv] and pl = vq_inv_places [OF inv]
  show n1: "vnum v = vnum vq" by (simp add: v_def published_def vnum_def)
  have "d_next (ring_desc v j) = d_next (ring_desc vq j)" for j by (simp add: v_def published_def)
  then have "free_chain (ring_desc v) k i = free_chain (ring_desc vq) k i" for k i by (intro free_chain_cong) simp
  moreover have "unat (ucast (d_next (ring_desc vq head)) :: u32) = unat (d_next (ring_desc vq head))"
    by (simp add: unsigned_ucast_eq unsigned_take_bit_eq take_bit_nat_eq_self less_trans [OF unat_u16_less])
  ultimately show "freel vq = head # freel v"
    using head by (simp add: freel_Cons [OF nf] freel_def [of v]) (simp add: v_def published_def)
  have "head < vnum vq" using pl(2) by (auto simp: freel_Cons [OF nf] head)
  then have "unat (of_nat head :: u16) = head" using num(3) by (simp add: unat_of_nat take_bit_nat_eq_self)
  moreover have "unat (avail_idx vq - dev_avail d) < vnum vq"
    using pl(3) by (simp add: freel_Cons [OF nf] availp_def)
  ultimately show "availp v d = availp vq d @ [head]"
    unfolding availp_def n1 by (simp add: v_def published_def unat_comp_upd pend_push num del: fun_upd_apply)
  show "usedp v = usedp vq" by (simp add: usedp_def n1) (simp add: v_def published_def)
qed

lemma published_inv:
  assumes inv: "vq_inv vq d" and nf: "num_free vq \<noteq> 0" and tot: "1 < tsg" "tsg < 2 ^ 16"
    and ptr: "ptr \<noteq> 0" "tables vq ptr = None" and data: "data \<noteq> 0" and head: "head = unat (free_head vq)"
  shows "vq_inv (published m tsg data ptr t head vq) d" "head \<notin> set (busy vq d)"
proof -
  let ?v = "published m tsg data ptr t head vq"
  note l = published_lists [OF inv nf head, of m tsg data ptr t]
  show h: "head \<notin> set (busy vq d)" using vq_inv_places(1) [OF inv] by (auto simp: l(1))
  have b1: "set (busy ?v d) = insert head (set (busy vq d))" by (auto simp: busy_def l)
  have mem: "slot_ok vq i \<and> i \<noteq> head" if "i \<in> set (busy vq d)" for i using that inv h by (auto simp: vq_inv_def)
  have fresh: "ds_indir (desc_state vq i) \<noteq> ptr" if "i \<in> set (busy vq d)" for i
    using mem [OF that] ptr(2) by (auto simp: slot_ok_def)
  have ds: "desc_state ?v = (desc_state vq)(head := \<lparr>ds_data = data, ds_indir = ptr\<rparr>)" by (simp add: published_def)
  have "inj_on (\<lambda>i. ds_indir (desc_state ?v i)) (set (busy ?v d))"
    using inv fresh h unfolding b1 ds vq_inv_def inj_on_def by auto
  moreover have "slot_ok ?v i" if "i \<in> set (busy vq d)" for i
    using mem [OF that] by (auto simp: slot_ok_def published_def)
  moreover have "slot_ok ?v head"
  proof -
    have "unat (tsg * 16) = unat tsg * 16" using tot(2) by (simp add: unat_word_ariths word_less_nat_alt)
    then have "tsg * 16 \<noteq> 0" "(tsg * 16) mod 16 = 0"
      using tot(1) by (auto simp: word_unat_eq_iff unat_mod word_less_nat_alt)
    then show ?thesis using ptr data by (simp add: slot_ok_def published_def)
  qed
  moreover have "mset (freel ?v @ busy ?v d) = mset (freel vq @ busy vq d)" by (simp add: busy_def l)
  moreover have "avail_idx_shadow ?v = avail_idx ?v" "vq_indirect ?v" "\<not> use_dma_api ?v"
    using inv by (simp_all add: vq_inv_def published_def)
  ultimately show "vq_inv ?v d" using inv b1 by (simp only: vq_inv_def l(4)) blast
qed

text \<open>A notification changes only \<^verbatim>\<open>broken\<close>.\<close>

lemma kick_same:
  assumes "vq_inv v d"
  shows "vq_inv (fst (virtqueue_kick nt v)) d" "busy (fst (virtqueue_kick nt v)) d = busy v d"
    "desc_state (fst (virtqueue_kick nt v)) = desc_state v"
  using assms vq_inv_cong [OF assms, of "fst (virtqueue_kick nt v)"]
  by (simp_all add: virtqueue_kick_def virtqueue_notify_def)

lemma add_sgs_publish:
  assumes "virtqueue_add_sgs m h nt sgs os is data ptr raw vq = Some (Inr vq')"
  shows "\<exists>tsg t. count_sgs h (take (os + is) sgs) 0 = Some tsg \<and> virtqueue_use_indirect vq tsg \<and> ptr \<noteq> 0
     \<and> add_publish m nt tsg data ptr t vq = Inr vq'"
proof -
  obtain tsg where t: "count_sgs h (take (os + is) sgs) 0 = Some tsg"
      "virtqueue_add m h nt sgs tsg os is data ptr raw vq = Some (Inr vq')"
    using assms by (auto simp: virtqueue_add_sgs_def bind_eq_Some_conv split: if_splits)
  then show ?thesis
    by (auto simp: virtqueue_add_def alloc_indirect_split_def Let_def split: if_splits option.splits sum.splits)
qed

text \<open>Collecting a used buffer: the descriptor \<open>x\<close> goes back to the head of the free list.\<close>

definition collected :: "nat \<Rightarrow> vring_virtqueue \<Rightarrow> vring_virtqueue" where
  "collected x vq = vq\<lparr>ring_desc := (ring_desc vq)(x := (ring_desc vq x)\<lparr>d_next := ucast (free_head vq)\<rparr>),
     free_head := of_nat x, num_free := num_free vq + 1, tables := (tables vq)(ds_indir (desc_state vq x) := None),
     desc_state := (desc_state vq)(x := \<lparr>ds_data = 0, ds_indir = 0\<rparr>), last_used_idx := last_used_idx vq + 1\<rparr>"

lemma detach_chain_stop:
  "i < vnum v \<Longrightarrow> d_flags (ring_desc v i) = VRING_DESC_F_INDIRECT \<Longrightarrow> detach_chain v i = Some (Inr (v, i))"
  by (subst detach_chain.simps) (simp add: VRING_DESC_F_INDIRECT_def VRING_DESC_F_NEXT_def)

lemma unmap_loop_ok: "\<not> use_dma_api v \<Longrightarrow> unmap_loop v k = Inr ()"
  by (induction k) (simp_all add: vring_unmap_one_split_def)

lemma detach_buf_ok:
  assumes "slot_ok vq x" and "x < vnum vq" and "\<not> use_dma_api vq" and "vq_indirect vq"
  shows "detach_buf_split x vq = Some (Inr ((collected x vq)\<lparr>last_used_idx := last_used_idx vq\<rparr>))"
proof -
  let ?v = "vq\<lparr>desc_state := (desc_state vq)(x := (desc_state vq x)\<lparr>ds_data := 0\<rparr>)\<rparr>"
  have "detach_chain ?v x = Some (Inr (?v, x))"
    using assms by (intro detach_chain_stop) (simp_all add: slot_ok_def vnum_def)
  then show ?thesis using assms
    by (cases "desc_state vq x")
      (simp add: detach_buf_split_def detach_tail_def vring_unmap_one_split_def unmap_loop_ok slot_ok_def
        VRING_DESC_F_INDIRECT_def collected_def Let_def)
qed

lemma get_buf_collected:
  assumes inv: "vq_inv vq d" and nb: "\<not> broken vq" and us: "usedp vq = x # rest"
  shows "\<exists>len. virtqueue_get_buf vq = Some (Inr (collected x vq, Some (token vq x, len)))"
proof -
  note num = vq_inv_num [OF inv] and pl = vq_inv_places [OF inv]
  have more: "more_used vq" using us by (auto simp: usedp_def more_used_def)
  then have x: "x = unat (u_id (used_ring vq (unat (last_used_idx vq) mod vnum vq)))"
    using us pend_pop [OF _ num(1), of "last_used_idx vq" "used_idx vq" "\<lambda>i. unat (u_id (used_ring vq i))"]
    by (simp add: usedp_def more_used_def)
  have "x < vnum vq" "x \<in> set (busy vq d)" using pl(2) us by (auto simp: busy_def)
  moreover then have "slot_ok vq x" using inv by (auto simp: vq_inv_def)
  moreover have "\<not> use_dma_api vq" "vq_indirect vq" using inv by (simp_all add: vq_inv_def)
  ultimately show ?thesis
    using nb more detach_buf_ok [of vq x]
    by (simp add: virtqueue_get_buf_def vq_inv_index [OF inv] x [symmetric] slot_ok_def) (simp add: collected_def)
qed

lemma collected_freel:
  assumes inv: "vq_inv vq d" and us: "usedp vq = x # rest"
  shows "freel (collected x vq) = x # freel vq"
proof -
  note num = vq_inv_num [OF inv] and pl = vq_inv_places [OF inv]
  define D where "D = (ring_desc vq)(x := (ring_desc vq x)\<lparr>d_next := ucast (free_head vq)\<rparr>)"
  have x: "x < vnum vq" "x \<notin> set (freel vq)" using pl(1,2) by (auto simp: us busy_def)
  have "unat (num_free vq) + 1 \<le> 32768" using pl(4) num(3) us by (simp add: busy_def)
  then have nf: "unat (num_free vq + 1) = Suc (unat (num_free vq))" by (simp add: unat_word_ariths)
  have xw: "unat (of_nat x :: u32) = x" using x(1) num(3) by (simp add: unat_of_nat take_bit_nat_eq_self)
  have chain: "free_chain D (unat (num_free vq)) (unat (free_head vq)) = freel vq"
    unfolding freel_def using x(2) by (intro free_chain_cong) (auto simp: D_def freel_def)
  have "free_chain D (unat (num_free vq)) (unat (ucast (free_head vq) :: u16)) = freel vq"
  proof (cases "unat (num_free vq)")
    case (Suc k)
    then have "unat (free_head vq) \<in> set (freel vq)" by (simp add: freel_def)
    then have "unat (free_head vq) < vnum vq" using pl(2) by auto
    then have "unat (ucast (free_head vq) :: u16) = unat (free_head vq)"
      using num(3) by (simp add: unsigned_ucast_eq unsigned_take_bit_eq take_bit_nat_eq_self)
    then show ?thesis using chain by simp
  qed (simp add: freel_def)
  moreover have "d_next (D x) = ucast (free_head vq)" by (simp add: D_def)
  moreover have "ring_desc (collected x vq) = D" by (simp add: collected_def D_def)
  moreover have "free_head (collected x vq) = of_nat x" "num_free (collected x vq) = num_free vq + 1"
    by (simp_all add: collected_def)
  ultimately show ?thesis by (simp only: freel_def [of "collected x vq"] nf xw free_chain.simps)
qed

lemma collected_inv:
  assumes inv: "vq_inv vq d" and us: "usedp vq = x # rest"
  shows "vq_inv (collected x vq) d" "usedp (collected x vq) = rest" "availp (collected x vq) d = availp vq d"
proof -
  note num = vq_inv_num [OF inv] and pl = vq_inv_places [OF inv]
  let ?v = "collected x vq"
  have n1: "vnum ?v = vnum vq" by (simp add: collected_def vnum_def)
  have "last_used_idx vq \<noteq> used_idx vq" using us by (auto simp: usedp_def)
  from pend_pop [OF this num(1), of "\<lambda>i. unat (u_id (used_ring vq i))"]
  show us1: "usedp ?v = rest" using us by (simp add: usedp_def n1) (simp add: collected_def)
  show av1: "availp ?v d = availp vq d" by (simp add: availp_def n1) (simp add: collected_def)
  have x: "x \<in> set (busy vq d)" by (simp add: busy_def us)
  have b1: "set (busy ?v d) = set (busy vq d) - {x}" using pl(1) by (auto simp: busy_def av1 us us1)
  have other: "ds_indir (desc_state vq i) \<noteq> ds_indir (desc_state vq x)" if "i \<in> set (busy vq d)" "i \<noteq> x" for i
    using inv that x by (auto simp: vq_inv_def inj_on_def)
  have "slot_ok ?v i" if "i \<in> set (busy ?v d)" for i
    using that other [of i] inv unfolding b1 by (auto simp: vq_inv_def slot_ok_def collected_def)
  moreover have "inj_on (\<lambda>i. ds_indir (desc_state ?v i)) (set (busy ?v d))"
    using inv unfolding b1 by (auto simp: vq_inv_def inj_on_def collected_def)
  moreover have "mset (freel ?v @ busy ?v d) = mset (freel vq @ busy vq d)"
    by (simp add: busy_def us us1 collected_freel [OF assms] av1)
  moreover have "avail_idx_shadow ?v = avail_idx ?v" "vq_indirect ?v" "\<not> use_dma_api ?v"
    using inv by (simp_all add: vq_inv_def collected_def)
  ultimately show "vq_inv ?v d" using inv by (simp only: vq_inv_def n1) blast
qed

text \<open>The two device steps.\<close>

lemma take_inv:
  assumes inv: "vq_inv vq d" and ne: "dev_avail d \<noteq> avail_idx vq"
  defines "d' \<equiv> d\<lparr>dev_avail := dev_avail d + 1, inflight := inflight d @ [unat (avail_ring vq (unat (dev_avail d) mod vnum vq))]\<rparr>"
  shows "vq_inv vq d'" "mset (busy vq d') = mset (busy vq d)"
proof -
  let ?f = "\<lambda>i. unat (avail_ring vq i)"
  have "availp vq d = ?f (unat (dev_avail d) mod vnum vq) # availp vq d'"
    using pend_pop [OF ne vq_inv_num(1) [OF inv], of ?f] by (simp add: availp_def d'_def)
  then show m: "mset (busy vq d') = mset (busy vq d)" by (simp add: busy_def) (simp add: d'_def)
  then have "set (busy vq d') = set (busy vq d)" by (rule mset_eq_setD)
  then show "vq_inv vq d'" using inv m by (simp add: vq_inv_def)
qed

lemma complete_inv:
  fixes len :: u32
  assumes inv: "vq_inv vq d" and x: "x \<in> set (inflight d)"
  defines "v \<equiv> vq\<lparr>used_ring := (used_ring vq)(unat (used_idx vq) mod vnum vq := \<lparr>u_id = of_nat x, u_len = len\<rparr>),
           used_idx := used_idx vq + 1\<rparr>" and "d' \<equiv> d\<lparr>inflight := remove1 x (inflight d)\<rparr>"
  shows "vq_inv v d'" "mset (busy v d') = mset (busy vq d)" "desc_state v = desc_state vq" "usedp v = usedp vq @ [x]"
proof -
  note num = vq_inv_num [OF inv] and pl = vq_inv_places [OF inv]
  have n1: "vnum v = vnum vq" by (simp add: v_def vnum_def)
  have "x < vnum vq" using pl(2) x by (auto simp: busy_def)
  then have xw: "unat (of_nat x :: u32) = x" using num(3) by (simp add: unat_of_nat take_bit_nat_eq_self)
  have "0 < length (inflight d)" using x by (cases "inflight d") auto
  then have "length (usedp vq) < vnum vq" using pl(3) by linarith
  then have "unat (used_idx vq - last_used_idx vq) < vnum vq" by (simp only: usedp_def length_pend)
  note push = pend_push [OF num(1) this num(3), of "\<lambda>i. unat (u_id (used_ring vq i))" x]
  have "(\<lambda>i. unat (u_id (used_ring v i))) = (\<lambda>i. unat (u_id (used_ring vq i)))(unat (used_idx vq) mod vnum vq := x)"
    by (auto simp: v_def xw)
  then show us: "usedp v = usedp vq @ [x]" using push by (simp add: usedp_def n1) (simp add: v_def)
  have "availp v d' = availp vq d" by (simp add: availp_def n1) (simp add: v_def d'_def)
  then show m: "mset (busy v d') = mset (busy vq d)" using x us by (simp add: busy_def) (simp add: d'_def)
  then have b: "set (busy v d') = set (busy vq d)" by (rule mset_eq_setD)
  show ds: "desc_state v = desc_state vq" by (simp add: v_def)
  have "slot_ok v = slot_ok vq" "freel v = freel vq" by (simp_all add: slot_ok_def fun_eq_iff freel_def v_def)
  then show "vq_inv v d'" using inv m b ds n1 by (simp add: vq_inv_def) (simp add: v_def)
qed

section \<open>Runs\<close>

definition outstanding :: "vring_virtqueue \<Rightarrow> vdevice \<Rightarrow> addr multiset" where
  "outstanding vq d = image_mset (token vq) (mset (busy vq d))"

lemma add_inv:
  assumes inv: "vq_inv vq d" and add: "virtqueue_add_sgs m h nt sgs os is data ptr raw vq = Some (Inr vq')"
    and n: "count_sgs h (take (os + is) sgs) 0 = Some n" "n < 2 ^ 16" and "data \<noteq> 0" and "tables vq ptr = None"
  shows "vq_inv vq' d" "outstanding vq' d = add_mset data (outstanding vq d)"
proof -
  obtain t where t: "virtqueue_use_indirect vq n" "ptr \<noteq> 0" "add_publish m nt n data ptr t vq = Inr vq'"
    using add_sgs_publish [OF add] n(1) by auto
  then have nf: "num_free vq \<noteq> 0" "1 < n" by (simp_all add: virtqueue_use_indirect_def)
  define head where "head = unat (free_head vq)"
  define v where "v = published m n data ptr t head vq"
  have inv1: "vq_inv v d" "head \<notin> set (busy vq d)"
    unfolding v_def using published_inv [OF inv nf n(2) t(2) assms(6,5) head_def] by blast+
  have "vq' = v \<or> vq' = fst (virtqueue_kick nt v)"
    using t(3) publish_eq [OF inv nf(1), of m nt n data ptr t] by (auto simp: v_def head_def)
  then have same: "vq_inv vq' d" "busy vq' d = busy v d" "desc_state vq' = desc_state v"
    using inv1(1) kick_same [OF inv1(1), of nt] by auto
  then show "vq_inv vq' d" by simp
  note l = published_lists [OF inv nf(1) head_def, of m n data ptr t, folded v_def]
  have ds: "desc_state v = (desc_state vq)(head := \<lparr>ds_data = data, ds_indir = ptr\<rparr>)" by (simp add: v_def published_def)
  have "image_mset (token v) (mset (busy vq d)) = image_mset (token vq) (mset (busy vq d))"
    using inv1(2) by (intro image_mset_cong) (auto simp: ds)
  then show "outstanding vq' d = add_mset data (outstanding vq d)"
    using same(2,3) by (simp add: outstanding_def busy_def l) (simp add: ds)
qed

lemma get_inv:
  assumes inv: "vq_inv vq d" and get: "virtqueue_get_buf vq = Some (Inr (vq', Some (data, len)))"
  shows "vq_inv vq' d" "outstanding vq d = add_mset data (outstanding vq' d)"
proof -
  have nb: "\<not> broken vq" and "more_used vq"
    using get by (auto simp: virtqueue_get_buf_def split: if_splits)
  then have "last_used_idx vq \<noteq> used_idx vq" by (simp add: more_used_def)
  from pend_pop [OF this vq_inv_num(1) [OF inv]]
  obtain x rest where us: "usedp vq = x # rest" unfolding usedp_def by metis
  obtain l where "virtqueue_get_buf vq = Some (Inr (collected x vq, Some (token vq x, l)))"
    using get_buf_collected [OF inv nb us] by blast
  then have v: "vq' = collected x vq" "data = token vq x" using get by auto
  note c = collected_inv [OF inv us]
  show "vq_inv vq' d" using c(1) v by simp
  have "x \<notin> set (availp vq d @ inflight d @ rest)" using vq_inv_places(1) [OF inv] by (auto simp: busy_def us)
  then have "image_mset (token vq') (mset (availp vq d @ inflight d @ rest)) =
      image_mset (token vq) (mset (availp vq d @ inflight d @ rest))"
    unfolding v by (intro image_mset_cong) (auto simp: collected_def)
  then show "outstanding vq d = add_mset data (outstanding vq' d)"
    using v c(2,3) us by (simp add: outstanding_def busy_def)
qed

lemmas enable_cb_defs = virtqueue_enable_cb_def enable_cb_steps_def cb_prepare_def cb_poll_def

lemma enable_cb_eq:
  "\<exists>f. fst (virtqueue_enable_cb vq) =
     vq\<lparr>avail_flags_shadow := f, avail_ring := (avail_ring vq)(vnum vq := last_used_idx vq)\<rparr>"
proof (cases "avail_flags_shadow vq AND VRING_AVAIL_F_NO_INTERRUPT = 0")
  case True
  then show ?thesis
    by (intro exI [of _ "avail_flags_shadow vq"]) (simp add: enable_cb_defs virtqueue_enable_cb_prepare_def Let_def)
next
  case False
  then show ?thesis by (auto simp: enable_cb_defs virtqueue_enable_cb_prepare_def vnum_def Let_def)
qed

lemma enable_inv:
  assumes "vq_inv vq d"
  shows "vq_inv (fst (virtqueue_enable_cb vq)) d" "busy (fst (virtqueue_enable_cb vq)) d = busy vq d"
    "desc_state (fst (virtqueue_enable_cb vq)) = desc_state vq"
proof -
  obtain f where f: "fst (virtqueue_enable_cb vq) =
      vq\<lparr>avail_flags_shadow := f, avail_ring := (avail_ring vq)(vnum vq := last_used_idx vq)\<rparr>" (is "_ = ?v")
    using enable_cb_eq [of vq] by blast
  note c = vq_inv_cong [OF assms, of ?v]
  show "vq_inv (fst (virtqueue_enable_cb vq)) d" unfolding f by (rule c(1)) simp_all
  show "busy (fst (virtqueue_enable_cb vq)) d = busy vq d" unfolding f by (rule c(2)) simp_all
  show "desc_state (fst (virtqueue_enable_cb vq)) = desc_state vq" unfolding f by simp
qed

lemma disable_inv:
  assumes "vq_inv vq d"
  shows "vq_inv (virtqueue_disable_cb vq) d" "busy (virtqueue_disable_cb vq) d = busy vq d"
    "desc_state (virtqueue_disable_cb vq) = desc_state vq"
  using vq_inv_cong [OF assms, of "virtqueue_disable_cb vq"] by (simp_all add: virtqueue_disable_cb_def)

text \<open>What a step does to the invariant and to the tokens.\<close>

definition step_keeps :: "vring_virtqueue \<times> vdevice \<Rightarrow> vevent \<Rightarrow> vring_virtqueue \<times> vdevice \<Rightarrow> bool" where
  "step_keeps s e s' \<longleftrightarrow> vq_inv (fst s') (snd s')
     \<and> outstanding (fst s') (snd s') + mset (returned [e]) = outstanding (fst s) (snd s) + mset (added [e])"

lemma silent_keeps:
  "vq_inv v d' \<Longrightarrow> mset (busy v d') = mset (busy vq d) \<Longrightarrow> desc_state v = desc_state vq \<Longrightarrow> step_keeps (vq, d) Silent (v, d')"
  by (simp add: step_keeps_def outstanding_def)

lemma vstep_keeps: "vstep s e s' \<Longrightarrow> vq_inv (fst s) (snd s) \<Longrightarrow> step_keeps s e s'"
proof (induction rule: vstep.induct)
  case (step_add m h nt sgs os "is" data ptr raw vq vq' n d)
  then have "vq_inv vq d" by simp
  from add_inv [OF this step_add.hyps] show ?case by (simp add: step_keeps_def)
next
  case (step_get vq vq' data len d)
  then have "vq_inv vq d" by simp
  from get_inv [OF this step_get.hyps] show ?case by (simp add: step_keeps_def)
next
  case (step_kick vq d nt)
  then have "vq_inv vq d" by (simp only: fst_conv snd_conv)
  note k = kick_same [OF this, of nt]
  show ?case by (rule silent_keeps) (simp_all only: k)
next
  case (step_disable vq d)
  then have "vq_inv vq d" by (simp only: fst_conv snd_conv)
  note k = disable_inv [OF this]
  show ?case by (rule silent_keeps) (simp_all only: k)
next
  case (step_enable vq d)
  then have "vq_inv vq d" by (simp only: fst_conv snd_conv)
  note k = enable_inv [OF this]
  show ?case by (rule silent_keeps) (simp_all only: k)
next
  case (step_take d vq)
  then have "vq_inv vq d" by (simp only: fst_conv snd_conv)
  note k = take_inv [OF this step_take.hyps]
  show ?case by (rule silent_keeps) (simp_all only: k)
next
  case (step_complete x d vq len)
  then have "vq_inv vq d" by (simp only: fst_conv snd_conv)
  note k = complete_inv [OF this step_complete.hyps]
  show ?case by (rule silent_keeps) (simp_all only: k)
qed

lemma vrun_inv:
  "vrun s es s' \<Longrightarrow> vq_inv (fst s) (snd s) \<Longrightarrow>
     vq_inv (fst s') (snd s') \<and> outstanding (fst s') (snd s') + mset (returned es) = outstanding (fst s) (snd s) + mset (added es)"
proof (induction rule: vrun.induct)
  case (run_step s es s' e s'')
  then have "step_keeps s' e s''"
    and o: "outstanding (fst s') (snd s') + mset (returned es) = outstanding (fst s) (snd s) + mset (added es)"
    using vstep_keeps by blast+
  then have st: "vq_inv (fst s'') (snd s'')"
      "outstanding (fst s'') (snd s'') + mset (returned [e]) = outstanding (fst s') (snd s') + mset (added [e])"
    by (simp_all only: step_keeps_def)
  have "outstanding (fst s'') (snd s'') + mset (returned (es @ [e])) =
      (outstanding (fst s'') (snd s'') + mset (returned [e])) + mset (returned es)"
    by (simp only: returned_append mset_append ac_simps)
  also have "\<dots> = (outstanding (fst s') (snd s') + mset (returned es)) + mset (added [e])"
    by (simp only: st(2)) (simp only: ac_simps)
  also have "\<dots> = outstanding (fst s) (snd s) + mset (added (es @ [e]))"
    by (simp only: o) (simp only: added_append mset_append ac_simps)
  finally show ?case using st(1) by blast
qed simp

text \<open>What an added buffer looks like in the rings.\<close>

lemma published_fields:
  assumes inv: "vq_inv vq d" and nf: "num_free vq \<noteq> 0"
  shows "\<exists>vq' head. add_publish m nt tsg data ptr t vq = Inr vq' \<and> avail_idx vq' = avail_idx vq + 1
     \<and> unat (avail_ring vq' (unat (avail_idx vq) mod vnum vq)) = head \<and> d_flags (ring_desc vq' head) = VRING_DESC_F_INDIRECT
     \<and> d_addr (ring_desc vq' head) = virt_to_phys m ptr \<and> d_len (ring_desc vq' head) = tsg * 16
     \<and> token vq' head = data \<and> tables vq' ptr = Some t"
proof -
  define v where "v = published m tsg data ptr t (unat (free_head vq)) vq"
  define v' where "v' = (if num_added v = 2 ^ 16 - 1 then fst (virtqueue_kick nt v) else v)"
  have "unat (free_head vq) < vnum vq" using vq_inv_places(2) [OF inv] by (auto simp: freel_Cons [OF nf])
  then have "unat (of_nat (unat (free_head vq)) :: u16) = unat (free_head vq)"
    using vq_inv_num(3) [OF inv] by (intro unat_of_nat16) simp
  then have v: "avail_idx v = avail_idx vq + 1" "unat (avail_ring v (unat (avail_idx vq) mod vnum vq)) = unat (free_head vq)"
      "d_flags (ring_desc v (unat (free_head vq))) = VRING_DESC_F_INDIRECT"
      "d_addr (ring_desc v (unat (free_head vq))) = virt_to_phys m ptr" "d_len (ring_desc v (unat (free_head vq))) = tsg * 16"
      "token v (unat (free_head vq)) = data" "tables v ptr = Some t"
    by (simp_all add: v_def published_def vring_map_single_def)
  have "avail_idx v' = avail_idx v" "avail_ring v' = avail_ring v" "ring_desc v' = ring_desc v" "desc_state v' = desc_state v"
      "tables v' = tables v" by (simp_all add: v'_def virtqueue_kick_def virtqueue_notify_def)
  moreover have "add_publish m nt tsg data ptr t vq = Inr v'"
    by (simp only: publish_eq [OF inv nf, of m nt tsg data ptr t] v_def v'_def)
  ultimately show ?thesis using v by (intro exI [of _ v'] exI [of _ "unat (free_head vq)"]) simp
qed

section \<open>Progress\<close>

lemma vrun_trans: "vrun s' es' s'' \<Longrightarrow> vrun s es s' \<Longrightarrow> vrun s (es @ es') s''"
proof (induction rule: vrun.induct)
  case (run_step s' es' s1 e s'')
  then show ?case using vrun.run_step [of s "es @ es'" s1 e s''] by simp
qed simp

lemma vrun_one: "vstep s e s' \<Longrightarrow> vrun s [e] s'"
  using vrun.run_step [OF vrun.run_start] by fastforce

definition returns_one :: "vring_virtqueue \<Rightarrow> vdevice \<Rightarrow> bool" where
  "returns_one vq d \<longleftrightarrow> (\<exists>es vq' d'. vrun (vq, d) es (vq', d') \<and> added es = [] \<and> length (returned es) = 1 \<and> \<not> broken vq')"

lemma returns_one_step:
  "vstep (vq, d) Silent (vq', d') \<Longrightarrow> returns_one vq' d' \<Longrightarrow> returns_one vq d"
  unfolding returns_one_def
proof (elim exE conjE)
  fix es v1 d1
  assume a: "vstep (vq, d) Silent (vq', d')" "vrun (vq', d') es (v1, d1)" "added es = []" "length (returned es) = 1" "\<not> broken v1"
  have "vrun (vq, d) ([Silent] @ es) (v1, d1)" by (rule vrun_trans [OF a(2) vrun_one [OF a(1)]])
  then show "\<exists>es vq' d'. vrun (vq, d) es (vq', d') \<and> added es = [] \<and> length (returned es) = 1 \<and> \<not> broken vq'"
    using a by (intro exI [of _ "[Silent] @ es"] exI [of _ v1] exI [of _ d1] conjI) simp_all
qed

lemma used_returns_one:
  assumes "vq_inv vq d" and "\<not> broken vq" and "usedp vq \<noteq> []"
  shows "returns_one vq d"
proof -
  obtain x rest where us: "usedp vq = x # rest" using assms(3) by (cases "usedp vq") auto
  obtain len where get: "virtqueue_get_buf vq = Some (Inr (collected x vq, Some (token vq x, len)))"
    using get_buf_collected [OF assms(1,2) us] by blast
  have "vrun (vq, d) [Returned (token vq x)] (collected x vq, d)" by (rule vrun_one [OF step_get [OF get]])
  moreover have "\<not> broken (collected x vq)" using assms(2) by (simp add: collected_def)
  ultimately show ?thesis unfolding returns_one_def
    by (intro exI [of _ "[Returned (token vq x)]"] exI [of _ "collected x vq"] exI [of _ d] conjI) simp_all
qed

lemma inflight_returns_one:
  assumes "vq_inv vq d" and "\<not> broken vq" and "inflight d \<noteq> []"
  shows "returns_one vq d"
proof -
  have x: "hd (inflight d) \<in> set (inflight d)" using assms(3) by simp
  note c = complete_inv [OF assms(1) x, of 0]
  show ?thesis
    by (rule returns_one_step [OF step_complete [OF x, of vq 0]], rule used_returns_one [OF c(1)]) (use assms(2) c(4) in simp_all)
qed

lemma busy_returns_one:
  assumes "vq_inv vq d" and "\<not> broken vq" and "busy vq d \<noteq> []"
  shows "returns_one vq d"
proof -
  consider "usedp vq \<noteq> []" | "inflight d \<noteq> []" | "dev_avail d \<noteq> avail_idx vq"
    using assms(3) pend_empty by (fastforce simp: busy_def availp_def)
  then show ?thesis
  proof cases
    case 3
    note t = take_inv [OF assms(1) 3]
    show ?thesis by (rule returns_one_step [OF step_take [OF 3]], rule inflight_returns_one [OF t(1) assms(2)]) simp
  qed (use assms used_returns_one inflight_returns_one in blast)+
qed

lemma drain_all:
  "vq_inv vq d \<Longrightarrow> \<not> broken vq \<Longrightarrow>
     \<exists>es vq' d'. vrun (vq, d) es (vq', d') \<and> added es = [] \<and> vq_inv vq' d' \<and> busy vq' d' = []"
proof (induction "length (busy vq d)" arbitrary: vq d rule: less_induct)
  case less
  show ?case
  proof (cases "busy vq d = []")
    case True
    then show ?thesis using less.prems vrun.run_start [of "(vq, d)"]
      by (intro exI [of _ "[]"] exI [of _ vq] exI [of _ d]) simp
  next
    case False
    then obtain es v1 d1 where r: "vrun (vq, d) es (v1, d1)" "added es = []" "length (returned es) = 1" "\<not> broken v1"
      using busy_returns_one [OF less.prems] by (auto simp: returns_one_def)
    have inv: "vq_inv v1 d1" and o: "outstanding v1 d1 + mset (returned es) = outstanding vq d"
      using vrun_inv [OF r(1)] less.prems(1) r(2) by simp_all
    have "size (outstanding v1 d1) + 1 = size (outstanding vq d)" using r(3) by (simp flip: o)
    then have "length (busy v1 d1) < length (busy vq d)" by (simp add: outstanding_def)
    from less.hyps [OF this inv r(4)] obtain es' v2 d2
      where r2: "vrun (v1, d1) es' (v2, d2)" "added es' = []" "vq_inv v2 d2" "busy v2 d2 = []" by blast
    have "vrun (vq, d) (es @ es') (v2, d2)" by (rule vrun_trans [OF r2(1) r(1)])
    then show ?thesis using r(2) r2 by (intro exI [of _ "es @ es'"] exI [of _ v2] exI [of _ d2] conjI) simp_all
  qed
qed

section \<open>A new queue\<close>

lemma link_free_next: "d_next (link_free n d j) = (if j < n then of_nat (j + 1) else d_next (d j))"
  by (induction n) (auto simp: link_free_def less_Suc_eq)

lemma new_queue:
  assumes new: "vring_new_virtqueue index vr vdev weak ctx cb vqp dsp (zero_ring raw) = Inr (vdev', Some vq)"
    and k: "unat (vr_num vr) = 2 ^ k" "k \<le> 15" and "virtio_has_feature vdev 28" and "\<not> ctx"
  defines "d \<equiv> \<lparr>dev_avail = 0, inflight = []\<rparr>"
  shows "vq_inv vq d" "outstanding vq d = {#}"
proof -
  have f: "num_free vq = vr_num vr" "vq_vring vq = vr" "free_head vq = 0" "last_used_idx vq = 0" "used_idx vq = 0"
      "avail_idx vq = 0" "avail_idx_shadow vq = 0" "vq_indirect vq" "\<not> use_dma_api vq"
      "ring_desc vq = link_free (unat (vr_num vr - 1)) (ring_desc (zero_ring raw))"
    using new assms(4,5)
    by (auto simp: vring_new_virtqueue_def zero_ring_def virtio_has_feature_def virtio_test_bit_def Let_def split: if_splits)
  have pos: "vr_num vr \<noteq> 0" using k(1) by auto
  have "(2::nat) ^ k \<le> 2 ^ 15" using k(2) by (intro power_increasing) simp_all
  then have n: "vnum vq \<le> 32768" "unat (vr_num vr) = vnum vq" using k(1) f(2) by (simp_all add: vnum_def)
  have "unat (vr_num vr - 1) = vnum vq - 1" using n unat_minus_one [OF pos] by simp
  then have "unat (d_next (ring_desc vq j)) = j + 1" if "j + 1 < vnum vq" for j
    using that n(1) unat_of_nat16 [of "Suc j"] by (simp add: f(10) link_free_next less_diff_conv)
  from free_chain_upt [of "vnum vq" "ring_desc vq" 0, OF this]
  have fl: "freel vq = [0..<vnum vq]" by (simp add: freel_def f n)
  have b: "busy vq d = []" by (simp add: busy_def availp_def usedp_def f d_def)
  have "vnum vq = 2 ^ k" using k(1) n(2) by simp
  then show "vq_inv vq d" using fl b f k(2) by (auto simp: vq_inv_def)
  show "outstanding vq d = {#}" using b by (simp add: outstanding_def)
qed

section \<open>What the device reads\<close>

text \<open>The descriptor chain of an indirect table, as the device follows it: address, length and whether
  the device may write.\<close>

primrec device_chain :: "vring_desc list \<Rightarrow> nat \<Rightarrow> nat \<Rightarrow> (u64 \<times> u32 \<times> bool) list" where
  "device_chain t 0 i = []"
| "device_chain t (Suc k) i =
     (if i < length t
      then (d_addr (t ! i), d_len (t ! i), d_flags (t ! i) AND VRING_DESC_F_WRITE \<noteq> 0)
           # (if d_flags (t ! i) AND VRING_DESC_F_NEXT \<noteq> 0 then device_chain t k (unat (d_next (t ! i))) else [])
      else [])"

text \<open>The table while it is being filled: the entries \<open>ys\<close>, pairs of flags and list entry, are done.\<close>

definition part_table :: "mm \<Rightarrow> sg_heap \<Rightarrow> (nat \<Rightarrow> vring_desc) \<Rightarrow> nat \<Rightarrow> (u16 \<times> addr) list \<Rightarrow> vring_desc list" where
  "part_table m h raw n ys = map (\<lambda>i. if i < length ys
     then \<lparr>d_addr = sg_phys m (h (snd (ys ! i))), d_len = sg_length (h (snd (ys ! i))), d_flags = fst (ys ! i), d_next = of_nat (i + 1)\<rparr>
     else (raw i)\<lparr>d_next := of_nat (i + 1)\<rparr>) [0..<n]"

lemma length_part_table [simp]: "length (part_table m h raw n ys) = n"
  by (simp add: part_table_def)

lemma fill_one_part:
  assumes "length ys < n" and "n < 2 ^ 16"
  shows "fill_one m h fl p (part_table m h raw n ys, length ys, prev) =
     Inr (part_table m h raw n (ys @ [(fl, p)]), Suc (length ys), length ys)"
proof -
  have "unat (of_nat (length ys + 1) :: u16) = Suc (length ys)"
    using assms unat_of_nat16 [of "Suc (length ys)"] by simp
  moreover have "(part_table m h raw n ys)[length ys := \<lparr>d_addr = sg_phys m (h p), d_len = sg_length (h p), d_flags = fl,
      d_next = of_nat (length ys + 1)\<rparr>] = part_table m h raw n (ys @ [(fl, p)])"
    by (rule nth_equalityI) (auto simp: part_table_def nth_list_update nth_append less_Suc_eq)
  moreover have "(part_table m h raw n ys ! length ys) = (raw (length ys))\<lparr>d_next := of_nat (length ys + 1)\<rparr>"
    using assms(1) by (simp add: part_table_def)
  ultimately show ?thesis using assms(1)
    by (cases "raw (length ys)") (simp add: fill_one_def vring_map_one_sg_def)
qed

lemma fill_sgl_part:
  "length ys + length es \<le> n \<Longrightarrow> n < 2 ^ 16 \<Longrightarrow>
     fill_sgl m h fl es (part_table m h raw n ys, length ys, length ys - 1) =
       Inr (part_table m h raw n (ys @ map (Pair fl) es), length ys + length es, length ys + length es - 1)"
proof (induction es arbitrary: ys)
  case (Cons e es)
  then show ?case using Cons.IH [of "ys @ [(fl, e)]"] by (simp add: fill_one_part)
qed simp

definition segs :: "sg_heap \<Rightarrow> addr list \<Rightarrow> addr list" where
  "segs h ps = concat (map (\<lambda>p. the (sg_list h p)) ps)"

lemma fill_sgs_part:
  "\<forall>p \<in> set ps. sg_list h p \<noteq> None \<Longrightarrow> length ys + length (segs h ps) \<le> n \<Longrightarrow> n < 2 ^ 16 \<Longrightarrow>
     fill_sgs m h fl ps (part_table m h raw n ys, length ys, length ys - 1) =
       Some (Inr (part_table m h raw n (ys @ map (Pair fl) (segs h ps)), length ys + length (segs h ps),
                  length ys + length (segs h ps) - 1))"
proof (induction ps arbitrary: ys)
  case (Cons p ps)
  obtain es where es: "sg_list h p = Some es" using Cons.prems(1) by auto
  then have "segs h (p # ps) = es @ segs h ps" by (simp add: segs_def)
  then show ?case
    using Cons.prems es Cons.IH [of "ys @ map (Pair fl) es"] fill_sgl_part [of ys es n m h fl raw]
    by (simp add: add.assoc)
qed (simp add: segs_def)

lemma count_sgs_segs:
  "\<forall>p \<in> set ps. sg_list h p \<noteq> None \<Longrightarrow> count_sgs h ps k = Some (k + of_nat (length (segs h ps)))"
  by (induction ps arbitrary: k) (auto simp: segs_def)

text \<open>The finished table: the last entry does not continue.\<close>

lemma device_chain_part:
  assumes ys: "\<forall>y \<in> set ys. fst y \<in> {1, 3}" "length ys = n" "n < 2 ^ 16"
    and t: "t = (part_table m h raw n ys)[n - 1 := (part_table m h raw n ys ! (n - 1))
        \<lparr>d_flags := d_flags (part_table m h raw n ys ! (n - 1)) AND NOT VRING_DESC_F_NEXT\<rparr>]"
  shows "i < n \<Longrightarrow> device_chain t (n - i) i = map (\<lambda>(fl, p). (sg_phys m (h p), sg_length (h p), fl = 3)) (drop i ys)"
proof (induction "n - i" arbitrary: i)
  case (Suc k)
  obtain fl p where y: "ys ! i = (fl, p)" by fastforce
  have fl: "fl = 1 \<or> fl = 3" using ys(1,2) Suc.prems y nth_mem [of i ys] by auto
  have d: "drop i ys = (fl, p) # drop (Suc i) ys" using Suc.prems ys(2) y by (simp add: Cons_nth_drop_Suc [symmetric])
  have nx: "unat (of_nat (Suc i) :: u16) = Suc i" using unat_of_nat16 [of "Suc i"] Suc.prems ys(3) by simp
  obtain l where l: "n = Suc l" using Suc.prems by (cases n) auto
  have e: "t ! i = \<lparr>d_addr = sg_phys m (h p), d_len = sg_length (h p),
      d_flags = (if i = l then fl AND NOT 1 else fl), d_next = of_nat (Suc i)\<rparr>" "length t = n"
    using Suc.prems ys(2) y by (auto simp: t l part_table_def VRING_DESC_F_NEXT_def nth_list_update simp del: upt_Suc)
  have n: "n - i = Suc (n - Suc i)" using Suc.prems by simp
  have bits: "fl AND VRING_DESC_F_NEXT \<noteq> 0" "(fl AND NOT 1) AND VRING_DESC_F_NEXT = 0"
      "(fl AND VRING_DESC_F_WRITE \<noteq> 0) = (fl = 3)" "((fl AND NOT 1) AND VRING_DESC_F_WRITE \<noteq> 0) = (fl = 3)"
    using fl by (auto simp: VRING_DESC_F_WRITE_def VRING_DESC_F_NEXT_def)
  show ?case
  proof (cases "i = l")
    case False
    then have "Suc i < n" using Suc.prems l by simp
    then have "device_chain t (n - Suc i) (Suc i) = map (\<lambda>(fl, p). (sg_phys m (h p), sg_length (h p), fl = 3)) (drop (Suc i) ys)"
      using Suc.hyps by simp
    then show ?thesis using Suc.prems False bits unfolding n d by (simp add: e nx del: of_nat_Suc)
  next
    case True
    then have i: "drop (Suc i) ys = []" using l ys(2) by simp
    show ?thesis using Suc.prems bits unfolding n d i by (simp add: e [unfolded True] True del: of_nat_Suc)
  qed
qed simp

section \<open>An example\<close>

text \<open>A queue of two descriptors and one-entry scatter lists for the examples.\<close>

definition example_vq :: vring_virtqueue where
  "example_vq = \<lparr>num_free = 0, vq_index = 0, vq_callback = False, we_own_ring = False, weak_barriers = False, broken = False,
     vq_indirect = False, vq_event = False, use_dma_api = False, free_head = 0, num_added = 0, last_used_idx = 0,
     vq_vring = vring_init 2 0x1000 4096, avail_flags_shadow = 0, avail_idx_shadow = 0, desc_state = (\<lambda>_. \<lparr>ds_data = 0, ds_indir = 0\<rparr>),
     queue_dma_addr = 0, queue_size_in_bytes = 0, ring_desc = (\<lambda>_. \<lparr>d_addr = 0, d_len = 0, d_flags = 0, d_next = 0\<rparr>),
     avail_idx = 0, avail_ring = (\<lambda>_. 0), used_idx = 0, used_ring = (\<lambda>_. \<lparr>u_id = 0, u_len = 0\<rparr>), tables = (\<lambda>_. None)\<rparr>"

definition example_new :: "(virtio_device \<times> vring_virtqueue option) outcome" where
  "example_new = vring_new_virtqueue 0 (vring_init 2 0x1000 4096) \<lparr>features = 3 * 2 ^ 28, vqs = [], kfreed = []\<rparr> False False True 0x2000 0x3000
     (zero_ring example_vq)"

definition example_add :: "vring_virtqueue \<Rightarrow> vring_virtqueue outcome option" where
  "example_add vq = virtqueue_add_sgs sg_layout (\<lambda>_. zero_sg\<lparr>page_link := SG_END\<rparr>) True [0x5000, 0x6000] 1 1 7 0x8000
     (\<lambda>_. \<lparr>d_addr = 0, d_len = 0, d_flags = 0, d_next = 0\<rparr>) vq"

lemma example_runs:
  "(case example_new of Inr (_, Some vq) \<Rightarrow> (case example_add vq of Some (Inr vq') \<Rightarrow> avail_idx vq' = 1 \<and> tables vq 0x8000 = None \<and> \<not> broken vq' | _ \<Rightarrow> False) | _ \<Rightarrow> False)"
  by code_simp

lemma case_Inr_Some: "(case x of Inr (_, Some v) \<Rightarrow> P v | _ \<Rightarrow> False) \<Longrightarrow> \<exists>d v. x = Inr (d, Some v) \<and> P v"
  by (auto split: sum.splits prod.splits option.splits)

lemma case_Some_Inr: "(case y of Some (Inr w) \<Rightarrow> P w | _ \<Rightarrow> False) \<Longrightarrow> \<exists>w. y = Some (Inr w) \<and> P w"
  by (cases y; cases "the y") auto

lemma example_exists:
  "\<exists>vdev vq0 vq1. example_new = Inr (vdev, Some vq0) \<and> example_add vq0 = Some (Inr vq1) \<and> avail_idx vq1 = 1
     \<and> tables vq0 0x8000 = None \<and> \<not> broken vq1"
  using case_Inr_Some [OF example_runs] case_Some_Inr by blast

lemma example_inv:
  "example_new = Inr (vdev, Some vq0) \<Longrightarrow> vq_inv vq0 \<lparr>dev_avail = 0, inflight = []\<rparr>"
  unfolding example_new_def
  by (erule new_queue(1) [where k = 1]) (simp_all add: vring_init_def Let_def virtio_has_feature_def virtio_test_bit_def)

lemma example_step:
  assumes "example_add vq0 = Some (Inr vq1)" and "tables vq0 0x8000 = None"
  shows "vstep (vq0, d) (Added 7) (vq1, d)"
proof -
  have "count_sgs (\<lambda>_. zero_sg\<lparr>page_link := SG_END\<rparr>) (take (1 + 1) [0x5000, 0x6000]) 0 = Some 2" by code_simp
  from step_add [OF assms(1) [unfolded example_add_def] this] show ?thesis using assms(2) by simp
qed

section \<open>Properties\<close>

text \<open>C20. Driver and device agree on who owns each buffer. In every state reachable from a new queue, with
  any device that follows the ring protocol and in any order of steps: collecting a buffer terminates
  without a panic, a failed assertion or an access outside the arrays; every token handed in is either
  returned or still outstanding, exactly as often as it was handed in, and nothing else is ever
  returned; and each descriptor is either free or in use.\<close>

theorem virtqueue_tokens_conserved:
  assumes "vring_new_virtqueue index vr vdev weak False cb vqp dsp (zero_ring raw) = Inr (vdev', Some vq0)"
    and "unat (vr_num vr) = 2 ^ k" and "k \<le> 15" and "virtio_has_feature vdev 28"
    and "vrun (vq0, \<lparr>dev_avail = 0, inflight = []\<rparr>) es (vq, d)"
  shows "\<exists>vq' r. virtqueue_get_buf vq = Some (Inr (vq', r))
     \<and> mset (added es) = mset (returned es) + image_mset (token vq) (mset (busy vq d))
     \<and> distinct (busy vq d) \<and> unat (num_free vq) + length (busy vq d) = vnum vq"
proof -
  have start: "vq_inv vq0 \<lparr>dev_avail = 0, inflight = []\<rparr>" "outstanding vq0 \<lparr>dev_avail = 0, inflight = []\<rparr> = {#}"
    using new_queue [OF assms(1-4)] by simp_all
  have inv: "vq_inv vq d" and tok: "outstanding vq d + mset (returned es) = mset (added es)"
    using vrun_inv [OF assms(5)] start by simp_all
  have "\<exists>vq' r. virtqueue_get_buf vq = Some (Inr (vq', r))"
  proof (cases "broken vq \<or> \<not> more_used vq")
    case True
    then show ?thesis by (auto simp: virtqueue_get_buf_def)
  next
    case False
    then have "last_used_idx vq \<noteq> used_idx vq" by (simp add: more_used_def)
    from pend_pop [OF this vq_inv_num(1) [OF inv]]
    obtain x rest where "usedp vq = x # rest" unfolding usedp_def by metis
    from get_buf_collected [OF inv _ this] show ?thesis using False by blast
  qed
  then show ?thesis using tok vq_inv_places(1,4) [OF inv] by (simp add: outstanding_def add.commute)
qed

theorem virtqueue_tokens_conserved_witness:
  "\<exists>vq0 vq d. vrun (vq0, \<lparr>dev_avail = 0, inflight = []\<rparr>) [Added 7, Silent] (vq, d)
     \<and> image_mset (token vq) (mset (busy vq d)) = {#7#}"
proof -
  obtain vdev vq0 vq1 where ex: "example_new = Inr (vdev, Some vq0)" "example_add vq0 = Some (Inr vq1)" "avail_idx vq1 = 1"
      "tables vq0 0x8000 = None"
    using example_exists by blast
  let ?d = "\<lparr>dev_avail = 0, inflight = []\<rparr>"
  have "dev_avail ?d \<noteq> avail_idx vq1" using ex(3) by simp
  from vrun_trans [OF vrun_one [OF step_take [OF this]] vrun_one [OF example_step [OF ex(2,4)]]]
  obtain d where run: "vrun (vq0, ?d) [Added 7, Silent] (vq1, d)" by auto
  have "virtio_has_feature \<lparr>features = 3 * 2 ^ 28, vqs = [], kfreed = []\<rparr> 28" by (simp add: virtio_has_feature_def virtio_test_bit_def)
  from virtqueue_tokens_conserved [OF ex(1) [unfolded example_new_def] _ _ this run, of 1]
  show ?thesis using run by (auto simp: vring_init_def Let_def)
qed

text \<open>C21. Exposing buffers succeeds whenever a descriptor is free and the lists hold between two and
  \<open>2 ^ 16 - 1\<close> entries, and the device then finds exactly these buffers: the next entry of the available
  ring names a descriptor that points to the indirect table, and following the table yields the readable
  entries and then the writable ones, in order, with their addresses and lengths.\<close>

theorem virtqueue_add_describes_buffers:
  assumes inv: "vq_inv vq d" and nf: "num_free vq \<noteq> 0" and lists: "\<forall>p \<in> set (outs @ ins). sg_list h p \<noteq> None"
    and n: "n = length (segs h (outs @ ins))" "1 < n" "n < 2 ^ 16" and ptr: "ptr \<noteq> 0"
  shows "\<exists>vq' t head. virtqueue_add_sgs m h nt (outs @ ins) (length outs) (length ins) data ptr raw vq = Some (Inr vq')
     \<and> avail_idx vq' = avail_idx vq + 1 \<and> unat (avail_ring vq' (unat (avail_idx vq) mod vnum vq)) = head
     \<and> d_flags (ring_desc vq' head) = VRING_DESC_F_INDIRECT \<and> d_addr (ring_desc vq' head) = virt_to_phys m ptr
     \<and> d_len (ring_desc vq' head) = of_nat (16 * n) \<and> token vq' head = data \<and> tables vq' ptr = Some t
     \<and> device_chain t n 0 = map (\<lambda>p. (sg_phys m (h p), sg_length (h p), False)) (segs h outs)
                         @ map (\<lambda>p. (sg_phys m (h p), sg_length (h p), True)) (segs h ins)"
proof -
  define ys :: "(u16 \<times> addr) list" where "ys = map (Pair 1) (segs h outs) @ map (Pair 3) (segs h ins)"
  have seg: "segs h (outs @ ins) = segs h outs @ segs h ins" by (simp add: segs_def)
  have ys: "\<forall>y \<in> set ys. fst y \<in> {1, 3}" "length ys = n" using n(1) seg by (auto simp: ys_def)
  define t where "t = (part_table m h raw n ys)[n - 1 := (part_table m h raw n ys ! (n - 1))
      \<lparr>d_flags := d_flags (part_table m h raw n ys ! (n - 1)) AND NOT VRING_DESC_F_NEXT\<rparr>]"
  have w: "unat (of_nat n :: u32) = n" using n(3) by (simp add: unat_of_nat take_bit_nat_eq_self)
  have "map (\<lambda>i. (raw i)\<lparr>d_next := of_nat (i + 1)\<rparr>) [0..<unat (of_nat n :: u32)] = part_table m h raw n []"
    by (simp add: part_table_def w)
  then have alloc: "alloc_indirect_split (of_nat n) ptr raw = Inr (part_table m h raw n [])"
    using ptr by (simp only: alloc_indirect_split_def if_False)
  have use: "virtqueue_use_indirect vq (of_nat n)"
    using inv nf n(2) w by (simp add: vq_inv_def virtqueue_use_indirect_def word_less_nat_alt)
  have f1: "fill_sgs m h 1 outs (part_table m h raw n [], 0, 0) =
      Some (Inr (part_table m h raw n (map (Pair 1) (segs h outs)), length (segs h outs), length (segs h outs) - 1))"
    using fill_sgs_part [of outs h "[]" n m 1 raw] lists n seg by simp
  have f2: "fill_sgs m h 3 ins (part_table m h raw n (map (Pair 1) (segs h outs)), length (segs h outs), length (segs h outs) - 1) =
      Some (Inr (part_table m h raw n ys, n, n - 1))"
    using fill_sgs_part [of ins h "map (Pair 1) (segs h outs)" n m 3 raw] lists n seg by (simp add: ys_def)
  have "virtqueue_add m h nt (outs @ ins) (of_nat n) (length outs) (length ins) data ptr raw vq
      = Some (add_publish m nt (of_nat n) data ptr t vq)"
    using use alloc f1 f2 by (simp add: virtqueue_add_def VRING_DESC_F_NEXT_def VRING_DESC_F_WRITE_def t_def)
  moreover have "count_sgs h (outs @ ins) 0 = Some (of_nat n)" using count_sgs_segs [OF lists, of 0] n(1) by simp
  ultimately have add: "virtqueue_add_sgs m h nt (outs @ ins) (length outs) (length ins) data ptr raw vq
      = Some (add_publish m nt (of_nat n) data ptr t vq)"
    by (simp add: virtqueue_add_sgs_def)
  have chain: "device_chain t n 0 = map (\<lambda>(fl, p). (sg_phys m (h p), sg_length (h p), fl = 3)) ys"
    using device_chain_part [OF ys n(3) t_def, of 0] n(2) by simp
  show ?thesis
    using add chain published_fields [OF inv nf, of m nt "of_nat n" data ptr t] by (auto simp: ys_def)
qed

theorem virtqueue_add_describes_buffers_witness:
  "\<exists>vq0 vq1 t. example_new = Inr (\<lparr>features = 3 * 2 ^ 28, vqs = [0x2000], kfreed = []\<rparr>, Some vq0)
     \<and> virtqueue_add_sgs sg_layout (\<lambda>_. zero_sg\<lparr>page_link := SG_END\<rparr>) True ([0x5000] @ [0x6000]) 1 1 7 0x8000 (\<lambda>_. \<lparr>d_addr = 0, d_len = 0, d_flags = 0, d_next = 0\<rparr>) vq0 = Some (Inr vq1)
     \<and> tables vq1 0x8000 = Some t \<and> map (snd \<circ> snd) (device_chain t 2 0) = [False, True]"
proof -
  let ?h = "\<lambda>_. zero_sg\<lparr>page_link := SG_END\<rparr>"
  obtain vq0 where new: "example_new = Inr (\<lparr>features = 3 * 2 ^ 28, vqs = [0x2000], kfreed = []\<rparr>, Some vq0)"
    by (auto simp: example_new_def vring_new_virtqueue_def virtio_has_feature_def virtio_test_bit_def Let_def)
  note inv = example_inv [OF this]
  have nf: "num_free vq0 \<noteq> 0"
    using new by (auto simp: example_new_def vring_new_virtqueue_def virtio_has_feature_def virtio_test_bit_def Let_def vring_init_def)
  have "sg_list ?h p = Some [p]" if "p \<noteq> 0" for p
    using that by (simp add: sg_list_def sg_entries.simps sg_next_def sg_is_last_def SG_END_def)
  then have "\<forall>p \<in> set ([0x5000] @ [0x6000]). sg_list ?h p \<noteq> None" "2 = length (segs ?h ([0x5000] @ [0x6000]))"
      "segs ?h [0x5000] = [0x5000]" "segs ?h [0x6000] = [0x6000]" by (simp_all add: segs_def)
  note l = this
  have "\<exists>vq' t head. virtqueue_add_sgs sg_layout ?h True ([0x5000] @ [0x6000]) (length [0x5000 :: addr]) (length [0x6000 :: addr]) 7 0x8000 (\<lambda>_. \<lparr>d_addr = 0, d_len = 0, d_flags = 0, d_next = 0\<rparr>) vq0
      = Some (Inr vq') \<and> tables vq' 0x8000 = Some t
      \<and> device_chain t 2 0 = map (\<lambda>p. (sg_phys sg_layout (?h p), sg_length (?h p), False)) [0x5000]
                         @ map (\<lambda>p. (sg_phys sg_layout (?h p), sg_length (?h p), True)) [0x6000]"
    using virtqueue_add_describes_buffers [OF inv nf l(1,2), where ptr = "0x8000" and m = sg_layout and nt = True and data = 7 and raw = "\<lambda>_. \<lparr>d_addr = 0, d_len = 0, d_flags = 0, d_next = 0\<rparr>"]
    unfolding l(3,4) by simp blast
  then obtain vq1 t where "virtqueue_add_sgs sg_layout ?h True ([0x5000] @ [0x6000]) 1 1 7 0x8000 (\<lambda>_. \<lparr>d_addr = 0, d_len = 0, d_flags = 0, d_next = 0\<rparr>) vq0 = Some (Inr vq1)"
      "tables vq1 0x8000 = Some t" "map (snd \<circ> snd) (device_chain t 2 0) = [False, True]" by auto
  then show ?thesis using new by (intro exI conjI)
qed

text \<open>C22. Nothing gets stuck: from any reachable state of a queue that is not marked broken, the device and
  the driver can bring every outstanding buffer back, each token exactly once, until all descriptors are
  free again.\<close>

theorem virtqueue_can_drain:
  assumes "vq_inv vq d" and "\<not> broken vq"
  shows "\<exists>es vq' d'. vrun (vq, d) es (vq', d') \<and> added es = []
     \<and> mset (returned es) = image_mset (token vq) (mset (busy vq d)) \<and> unat (num_free vq') = vnum vq'"
proof -
  obtain es vq' d' where r: "vrun (vq, d) es (vq', d')" "added es = []" "vq_inv vq' d'" "busy vq' d' = []"
    using drain_all [OF assms] by blast
  have "mset (returned es) = outstanding vq d"
    using vrun_inv [OF r(1)] assms(1) r(2,4) by (simp add: outstanding_def)
  moreover have "unat (num_free vq') = vnum vq'" using vq_inv_places(4) [OF r(3)] r(4) by simp
  ultimately show ?thesis using r(1,2) by (auto simp: outstanding_def)
qed

theorem virtqueue_can_drain_witness:
  "\<exists>vq d es vq' d'. image_mset (token vq) (mset (busy vq d)) = {#7#} \<and> vrun (vq, d) es (vq', d') \<and> returned es = [7]"
proof -
  obtain vdev vq0 vq1 where ex: "example_new = Inr (vdev, Some vq0)" "example_add vq0 = Some (Inr vq1)" "tables vq0 0x8000 = None"
      "\<not> broken vq1"
    using example_exists by blast
  let ?d = "\<lparr>dev_avail = 0, inflight = []\<rparr>"
  have step: "vstep (vq0, ?d) (Added 7) (vq1, ?d)" by (rule example_step [OF ex(2,3)])
  have "step_keeps (vq0, ?d) (Added 7) (vq1, ?d)" using vstep_keeps [OF step] example_inv [OF ex(1)] by simp
  moreover have "outstanding vq0 ?d = {#}"
    using ex(1) unfolding example_new_def
    by (rule new_queue(2) [where k = 1]) (simp_all add: vring_init_def Let_def virtio_has_feature_def virtio_test_bit_def)
  ultimately have inv: "vq_inv vq1 ?d" "image_mset (token vq1) (mset (busy vq1 ?d)) = {#7#}"
    by (simp_all add: step_keeps_def flip: outstanding_def)
  obtain es vq' d' where "vrun (vq1, ?d) es (vq', d')" "mset (returned es) = {#7#}"
    using virtqueue_can_drain [OF inv(1) ex(4)] unfolding inv(2) by blast
  then have "vrun (vq1, ?d) es (vq', d')" "returned es = [7]" by (simp_all add: mset_single_iff)
  then show ?thesis using inv(2) by blast
qed

text \<open>C24. The memory layout: the descriptor table, the available ring (with the used event index) and the
  used ring (with the available event index) lie one after the other without overlap, the used ring is
  aligned as asked, and together they take exactly \<^verbatim>\<open>vring_size\<close> bytes.\<close>

theorem vring_layout:
  assumes num: "unat num \<le> 32768" and k: "k \<le> 12" and p: "unat p mod 2 ^ k = 0" "unat p + 2 ^ 20 < 2 ^ 64"
  defines "vr \<equiv> vring_init num p (2 ^ k)"
  shows "vr_desc vr = p \<and> unat (vr_avail vr) = unat p + 16 * unat num
     \<and> unat (vr_avail vr) + 2 * (3 + unat num) \<le> unat (vr_used vr) \<and> unat (vr_used vr) mod 2 ^ k = 0
     \<and> unat (vr_used vr) + 2 * 3 + 8 * unat num = unat p + unat (vring_size num (2 ^ k))"
proof -
  define N y where "N = unat num" and "y = 18 * N + 6 + 2 ^ k - 1"
  have N: "N \<le> 32768" using num by (simp add: N_def)
  have "(2::nat) ^ k \<le> 2 ^ 12" using k by (intro power_increasing) simp_all
  then have k2: "(2::nat) ^ k \<le> 4096" "0 < (2::nat) ^ k" by simp_all
  have uc: "(ucast num :: u64) = of_nat N" by (simp add: N_def)
  have e: "p + ucast num * 16 = p + of_nat (16 * N)" "p + of_nat (16 * N) + 4 + 2 * ucast num + 2 = p + of_nat (18 * N + 6)"
    by (simp_all add: uc)
  have av: "vr_avail vr = p + of_nat (16 * N)" "vr_used vr = ALIGN64 (p + of_nat (18 * N + 6)) (2 ^ k)"
    by (simp_all only: vr_def vring_init_def Let_def vring.simps e)
  have a: "unat (vr_avail vr) = unat p + 16 * N" unfolding av(1) using p(2) N by (intro unat_add_no_wrap) simp
  have x: "unat (p + of_nat (18 * N + 6)) = unat p + (18 * N + 6)" using p(2) N by (intro unat_add_no_wrap) simp
  have "unat (vr_used vr) = (unat p + (18 * N + 6) + 2 ^ k - 1) div 2 ^ k * 2 ^ k"
    unfolding av(2) ALIGN64_def x [symmetric] using x k k2 p(2) N by (intro align_up_nat) simp_all
  moreover have "unat p + (18 * N + 6) + 2 ^ k - 1 = y + unat p div 2 ^ k * 2 ^ k"
    using p(1) k2(2) div_mult_mod_eq [of "unat p" "2 ^ k"] unfolding y_def by linarith
  ultimately have "unat (vr_used vr) = (y div 2 ^ k + unat p div 2 ^ k) * 2 ^ k" using k2(2) by simp
  then have us: "unat (vr_used vr) = unat p + y div 2 ^ k * 2 ^ k"
    using p(1) div_mult_mod_eq [of "unat p" "2 ^ k"] by (simp only: distrib_right)
  have "(ucast (2 ^ k :: u64) :: u32) = 2 ^ k" using k by (intro bit_word_eqI) (auto simp: bit_simps)
  moreover have sz0: "unat (16 * num + 2 * (3 + num)) = 18 * N + 6"
    using N by (simp add: unat_word_ariths N_def [symmetric])
  ultimately have "unat (ALIGN32 (16 * num + 2 * (3 + num)) (ucast (2 ^ k :: u64))) = y div 2 ^ k * 2 ^ k"
    using align_up_nat [of k "16 * num + 2 * (3 + num)"] k k2 N by (simp add: ALIGN32_def y_def)
  moreover have y: "18 * N + 6 \<le> y div 2 ^ k * 2 ^ k" "y div 2 ^ k * 2 ^ k \<le> 600000"
    using mod_less_divisor [OF k2(2), of y] div_mult_mod_eq [of y "2 ^ k"] k2 N y_def by linarith+
  ultimately have "unat (vring_size num (2 ^ k)) = y div 2 ^ k * 2 ^ k + 6 + 8 * N"
    using N by (simp add: vring_size_def Let_def unat_word_ariths N_def [symmetric])
  moreover have "unat (vr_used vr) mod 2 ^ k = 0" using us p(1) by (simp add: mod_add_eq [symmetric])
  moreover have "vr_desc vr = p" by (simp add: vr_def vring_init_def Let_def)
  ultimately show ?thesis using a us y(1) unfolding N_def [symmetric] by simp
qed

theorem vring_layout_witness:
  "unat (vr_used (vring_init 8 0x80400000 (2 ^ 12))) + 2 * 3 + 8 * 8 = 0x80400000 + unat (vring_size 8 (2 ^ 12))"
  using vring_layout [of 8 12 "0x80400000"] by simp

end
