(* ===== verification/VirtioIrq.thy ===== *)
theory VirtioIrq
  imports VirtioProps
begin

text \<open>
  The handshake between \<^verbatim>\<open>virtqueue_enable_cb\<close> of \<^verbatim>\<open>src/virtio/virtio_ring.c\<close> and the device that writes the used
  ring. The driver runs the accesses \<^const>\<open>enable_cb_steps\<close> one at a time; between them the device publishes
  entries and, in a step of its own, reads the event index and decides whether to interrupt. The device
  is not part of the source: its decision is the parameter \<open>notify\<close>. The accesses take effect in program order,
  as on a machine that does not reorder a store with a later load; the source has no barrier there. A used
  ring never holds more than \<open>2 ^ 15\<close> entries, the largest queue the device may offer.
\<close>

section \<open>The interleaved system\<close>

text \<open>\<open>todo\<close> are the accesses the driver still has to make; \<open>pending\<close> is the old used index while the device
  has published entries and not yet looked at the event index.\<close>

record cb_system =
  frame :: cb_frame
  todo :: "(cb_frame \<Rightarrow> cb_frame) list"
  pending :: "u16 option"
  irq :: bool

abbreviation queue :: "cb_system \<Rightarrow> vring_virtqueue" where "queue s \<equiv> fst (frame s)"
abbreviation answer :: "cb_system \<Rightarrow> bool" where "answer s \<equiv> snd (snd (frame s))"

definition used_event :: "vring_virtqueue \<Rightarrow> u16" where
  "used_event vq = avail_ring vq (vnum vq)"

definition publish :: "nat \<Rightarrow> (nat \<Rightarrow> vring_used_elem) \<Rightarrow> vring_virtqueue \<Rightarrow> vring_virtqueue" where
  "publish k u vq = vq\<lparr>used_ring := u, used_idx := used_idx vq + of_nat k\<rparr>"

inductive cb_step :: "(u16 \<Rightarrow> u16 \<Rightarrow> u16 \<Rightarrow> bool) \<Rightarrow> cb_system \<Rightarrow> cb_system \<Rightarrow> bool" for notify where
  drive: "todo s = f # fs \<Longrightarrow> cb_step notify s (s\<lparr>frame := f (frame s), todo := fs\<rparr>)"
| produce: "pending s = None \<Longrightarrow> 0 < k \<Longrightarrow> unat (used_idx (queue s) - last_used_idx (queue s)) + k \<le> 2 ^ 15 \<Longrightarrow>
    cb_step notify s (s\<lparr>frame := (publish k u (queue s), snd (frame s)), pending := Some (used_idx (queue s))\<rparr>)"
| decide: "pending s = Some old \<Longrightarrow>
    cb_step notify s (s\<lparr>pending := None, irq := irq s \<or> notify (used_event (queue s)) (used_idx (queue s)) old\<rparr>)"

text \<open>What the virtio specification asks of the device: it interrupts when the entries it has published
  include the one whose index is the event index.\<close>

definition notifies :: "(u16 \<Rightarrow> u16 \<Rightarrow> u16 \<Rightarrow> bool) \<Rightarrow> bool" where
  "notifies notify \<longleftrightarrow> (\<forall>event new old. unat (event - old) < unat (new - old) \<longrightarrow> notify event new old)"

definition cb_start :: "vring_virtqueue \<Rightarrow> u16 option \<Rightarrow> cb_system" where
  "cb_start vq p = \<lparr>frame = (vq, 0, False), todo = enable_cb_steps, pending = p, irq = False\<rparr>"

section \<open>The invariant\<close>

definition fill :: "vring_virtqueue \<Rightarrow> nat" where
  "fill vq = unat (used_idx vq - last_used_idx vq)"

text \<open>How far the driver has come, and what then holds of the event index and of the interrupt.\<close>

fun cb_inv :: "cb_system \<Rightarrow> bool" where
  "cb_inv s \<longleftrightarrow> \<not> broken (queue s) \<and> fill (queue s) \<le> 2 ^ 15
     \<and> (todo s = [cb_prepare, cb_poll]
        \<or> todo s = [cb_poll] \<and> used_event (queue s) = last_used_idx (queue s) \<and> fst (snd (frame s)) = last_used_idx (queue s)
        \<or> todo s = [] \<and> used_event (queue s) = last_used_idx (queue s)
          \<and> (if answer s then fill (queue s) = 0 \<or> irq s \<or> pending s = Some (last_used_idx (queue s)) else 0 < fill (queue s)))"

declare cb_inv.simps [simp del]

lemma prepare_fields:
  "broken (fst (cb_prepare fr)) = broken (fst fr)" "used_idx (fst (cb_prepare fr)) = used_idx (fst fr)"
  "last_used_idx (fst (cb_prepare fr)) = last_used_idx (fst fr)" "used_event (fst (cb_prepare fr)) = last_used_idx (fst fr)"
  "fst (snd (cb_prepare fr)) = last_used_idx (fst fr)"
  by (cases fr; simp add: cb_prepare_def virtqueue_enable_cb_prepare_def used_event_def vnum_def Let_def)+

lemma poll_fields:
  "fst (cb_poll fr) = fst fr" "snd (snd (cb_poll fr)) \<longleftrightarrow> broken (fst fr) \<or> fst (snd fr) = used_idx (fst fr)"
  by (cases fr; simp add: cb_poll_def virtqueue_poll_def)+

lemma publish_fields:
  assumes "fill vq + k \<le> 2 ^ 15"
  shows "broken (publish k u vq) = broken vq" "last_used_idx (publish k u vq) = last_used_idx vq"
    "used_event (publish k u vq) = used_event vq" "fill (publish k u vq) = fill vq + k"
proof -
  have k: "unat (of_nat k :: u16) = k" using assms by (simp add: unat_of_nat take_bit_nat_eq_self)
  have "used_idx vq + of_nat k - last_used_idx vq = (used_idx vq - last_used_idx vq) + of_nat k" by simp
  moreover have "unat ((used_idx vq - last_used_idx vq) + of_nat k) = fill vq + k"
    using assms k by (subst unat_word_ariths) (simp add: fill_def)
  ultimately show "fill (publish k u vq) = fill vq + k" by (simp add: publish_def fill_def algebra_simps)
qed (simp_all add: publish_def used_event_def vnum_def)

lemma cb_inv_drive:
  assumes inv: "cb_inv s" and t: "todo s = f # fs"
  shows "cb_inv (s\<lparr>frame := f (frame s), todo := fs\<rparr>)"
  using inv t unfolding cb_inv.simps
  by (auto simp: prepare_fields poll_fields fill_def unat_gt_0)

lemma cb_inv_produce:
  assumes inv: "cb_inv s" and p: "pending s = None" "0 < k" "fill (queue s) + k \<le> 2 ^ 15"
  shows "cb_inv (s\<lparr>frame := (publish k u (queue s), snd (frame s)), pending := Some (used_idx (queue s))\<rparr>)"
proof -
  note f = publish_fields [OF p(3)]
  have "used_idx (queue s) = last_used_idx (queue s)" if "fill (queue s) = 0" using that by (simp add: fill_def unat_eq_zero)
  then show ?thesis using inv p unfolding cb_inv.simps by (auto simp: f fill_def [symmetric])
qed

lemma cb_inv_decide:
  assumes inv: "cb_inv s" and n: "notifies notify" and p: "pending s = Some old"
  shows "cb_inv (s\<lparr>pending := None, irq := irq s \<or> notify (used_event (queue s)) (used_idx (queue s)) old\<rparr>)"
proof -
  have "notify (last_used_idx (queue s)) (used_idx (queue s)) (last_used_idx (queue s))" if "0 < fill (queue s)"
    using n that by (simp add: notifies_def fill_def)
  then show ?thesis using inv p unfolding cb_inv.simps by auto
qed

lemma cb_inv_reach:
  assumes "(cb_step notify)\<^sup>*\<^sup>* s s'" "notifies notify" "cb_inv s"
  shows "cb_inv s'"
  using assms(1,3)
proof (induction rule: rtranclp_induct)
  case (step t u)
  from step.hyps(2) show ?case
  proof cases
    case drive
    then show ?thesis using cb_inv_drive step.IH step.prems by simp
  next
    case produce
    then show ?thesis using cb_inv_produce step.IH step.prems by (simp add: fill_def)
  next
    case decide
    then show ?thesis using cb_inv_decide [OF _ assms(2)] step.IH step.prems by simp
  qed
qed

section \<open>No interrupt is lost\<close>


text \<open>A run on an empty queue: the driver makes both accesses, then the device publishes one entry and decides.\<close>

definition example_notify :: "u16 \<Rightarrow> u16 \<Rightarrow> u16 \<Rightarrow> bool" where
  "example_notify event new old \<longleftrightarrow> new - event - 1 < new - old"

lemma example_notifies: "notifies example_notify"
proof -
  have "new - event - 1 < new - old" if lt: "unat (event - old) < unat (new - old)" for event new old :: u16
  proof -
    define a where "a = event - old"
    define b where "b = new - old"
    have eq: "new - event - 1 = b - (a + 1)" "new - old = b" by (simp_all add: a_def b_def)
    have ab: "unat a < unat b" using lt by (simp add: a_def b_def)
    then have a1: "unat (a + 1) = unat a + 1" using unsigned_less [of b, where ?'a = nat] by (subst unat_word_ariths) simp
    then have "unat (b - (a + 1)) = unat b - (unat a + 1)" using ab by (subst unat_sub) (simp_all add: word_le_nat_alt)
    then show ?thesis using ab unfolding eq by (simp add: word_less_nat_alt)
  qed
  then show ?thesis by (simp add: notifies_def example_notify_def)
qed

definition example_seen :: vring_virtqueue where
  "example_seen = fst (cb_poll (cb_prepare (example_vq, 0, False)))"

definition example_end :: cb_system where
  "example_end = \<lparr>frame = (publish 1 (used_ring example_vq) example_seen, last_used_idx example_vq, True), todo = [], pending = None,
     irq = example_notify (used_event (publish 1 (used_ring example_vq) example_seen)) (used_idx (publish 1 (used_ring example_vq) example_seen)) (used_idx example_vq)\<rparr>"

lemma example_run: "(cb_step example_notify)\<^sup>*\<^sup>* (cb_start example_vq None) example_end"
proof -
  define s1 where "s1 = \<lparr>frame = cb_prepare (example_vq, 0, False), todo = [cb_poll], pending = None, irq = False\<rparr>"
  define s2 where "s2 = \<lparr>frame = cb_poll (cb_prepare (example_vq, 0, False)), todo = [], pending = None, irq = False\<rparr>"
  define s3 where "s3 = s2\<lparr>frame := (publish 1 (used_ring example_vq) (queue s2), snd (frame s2)), pending := Some (used_idx (queue s2))\<rparr>"
  have "cb_step example_notify (cb_start example_vq None) s1"
    using drive [of "cb_start example_vq None" cb_prepare "[cb_poll]"] by (simp add: cb_start_def enable_cb_steps_def s1_def)
  moreover have "cb_step example_notify s1 s2" using drive [of s1 cb_poll "[]"] by (simp add: s1_def s2_def)
  moreover have "cb_step example_notify s2 s3"
    unfolding s3_def by (rule produce) (simp_all add: s2_def poll_fields prepare_fields example_vq_def)
  moreover have fr: "snd (frame s2) = (last_used_idx example_vq, True)"
    by (simp add: s2_def cb_poll_def cb_prepare_def virtqueue_enable_cb_prepare_def virtqueue_poll_def example_vq_def Let_def)
  have "cb_step example_notify s3 example_end"
    using decide [of s3 "used_idx (queue s2)" example_notify] fr
    by (simp add: s3_def example_end_def example_seen_def s2_def poll_fields prepare_fields)
  ultimately show ?thesis by (meson converse_rtranclp_into_rtranclp rtranclp.rtrancl_refl)
qed


end
