(* ===== verification/Xarray.thy ===== *)
theory Xarray
  imports Prelude
begin

text \<open>
  The XArray, \<^verbatim>\<open>src/xarray/xarray.c\<close> and \<^verbatim>\<open>src/include/xarray.h\<close>: an array indexed by 64-bit words, kept as a
  tree of nodes with 64 slots. Entries are words whose two low bits tell nodes from values. The nodes
  live in a heap; what \<^verbatim>\<open>kmem_cache_alloc\<close> returns is taken from a list of addresses (the empty list means
  that memory is exhausted), and its constructor hands out zeroed nodes. The fields \<^verbatim>\<open>shift\<close> and \<^verbatim>\<open>offset\<close>
  are bytes in the source; \<^verbatim>\<open>BUG_ON\<close> keeps shifts at most 64 and offsets are at most 64, so natural
  numbers stand for them. The field \<^verbatim>\<open>array\<close> of a node is never read and is left out.
\<close>

section \<open>Entries and state\<close>

record xa_node =
  xn_shift :: nat
  xn_offset :: nat
  xn_parent :: addr
  xn_slots :: "nat \<Rightarrow> u64"

record xarray =
  xa_head :: u64
  xa_nodes :: "addr \<Rightarrow> xa_node"
  xa_pool :: "addr list"

record xa_state =
  xa_index :: u64
  xa_shift :: nat
  xa_offset :: nat
  xas_node :: u64

definition XA_CHUNK_SHIFT :: nat where "XA_CHUNK_SHIFT = 6"
definition XA_CHUNK_SIZE :: nat where "XA_CHUNK_SIZE = 64"
definition XA_CHUNK_MASK :: u64 where "XA_CHUNK_MASK = 63"

definition XA_ERROR :: "u64 \<Rightarrow> u64" where "XA_ERROR err = push_bit 2 err OR 2"
definition XAS_BOUNDS :: u64 where "XAS_BOUNDS = 1"
definition XAS_RESTART :: u64 where "XAS_RESTART = 3"

definition XA_STATE :: "u64 \<Rightarrow> xa_state" where
  "XA_STATE index = \<lparr>xa_index = index, xa_shift = 0, xa_offset = 0, xas_node = XAS_RESTART\<rparr>"

definition xa_entry :: "xarray \<Rightarrow> addr \<Rightarrow> nat \<Rightarrow> u64 outcome" where
  "xa_entry S node offset = (if offset \<ge> XA_CHUNK_SIZE then Inl Bug else Inr (xn_slots (xa_nodes S node) offset))"

definition xa_mk_internal :: "u64 \<Rightarrow> u64" where
  "xa_mk_internal v = push_bit 2 v OR 2"

definition xa_is_internal :: "u64 \<Rightarrow> bool" where
  "xa_is_internal e \<longleftrightarrow> e AND 3 = 2"

definition xa_is_err :: "u64 \<Rightarrow> bool" where
  "xa_is_err e \<longleftrightarrow> xa_is_internal e \<and> e \<ge> xa_mk_internal (- 4095)"

text \<open>The arithmetic shift of a negative error code.\<close>

definition xa_err :: "u64 \<Rightarrow> int" where
  "xa_err e = (if xa_is_err e then sint e div 4 else 0)"

definition xas_error :: "xa_state \<Rightarrow> int" where
  "xas_error xas = xa_err (xas_node xas)"

definition xas_invalid :: "xa_state \<Rightarrow> bool" where
  "xas_invalid xas \<longleftrightarrow> xas_node xas AND 3 \<noteq> 0"

definition xas_valid :: "xa_state \<Rightarrow> bool" where
  "xas_valid xas \<longleftrightarrow> \<not> xas_invalid xas"

definition xa_is_node :: "u64 \<Rightarrow> bool" where
  "xa_is_node e \<longleftrightarrow> xa_is_internal e \<and> e > 4096"

definition XA_ZERO_ENTRY :: u64 where "XA_ZERO_ENTRY = xa_mk_internal 257"

definition xa_is_zero :: "u64 \<Rightarrow> bool" where
  "xa_is_zero e \<longleftrightarrow> e = XA_ZERO_ENTRY"

definition xas_top :: "u64 \<Rightarrow> bool" where
  "xas_top node \<longleftrightarrow> node \<le> XAS_RESTART"

definition xa_to_node :: "u64 \<Rightarrow> addr" where
  "xa_to_node e = e - 2"

definition xa_mk_node :: "addr \<Rightarrow> u64" where
  "xa_mk_node n = n OR 2"

definition xas_set_err :: "u64 \<Rightarrow> xa_state \<Rightarrow> xa_state" where
  "xas_set_err err xas = xas\<lparr>xas_node := XA_ERROR err\<rparr>"

definition xas_not_node :: "u64 \<Rightarrow> bool" where
  "xas_not_node node \<longleftrightarrow> node AND 3 \<noteq> 0 \<or> node = 0"

section \<open>Loading\<close>

definition set_bounds :: "xa_state \<Rightarrow> xa_state \<times> u64" where
  "set_bounds xas = (xas\<lparr>xas_node := XAS_BOUNDS\<rparr>, 0)"

definition xas_start :: "xarray \<Rightarrow> xa_state \<Rightarrow> (xa_state \<times> u64) outcome" where
  "xas_start S xas =
     (if xas_valid xas then Inl Panic
      else if xas_error xas \<noteq> 0 then Inr (xas, 0)
      else let entry = xa_head S
           in if \<not> xa_is_node entry \<and> xa_index xas \<noteq> 0 then Inr (set_bounds xas)
              else if xa_is_node entry
                      \<and> drop_bit (xn_shift (xa_nodes S (xa_to_node entry))) (xa_index xas) > XA_CHUNK_MASK
              then Inr (set_bounds xas)
              else Inr (xas\<lparr>xas_node := 0\<rparr>, entry))"

definition get_offset :: "u64 \<Rightarrow> xa_node \<Rightarrow> nat" where
  "get_offset index node = unat (drop_bit (xn_shift node) index AND XA_CHUNK_MASK)"

definition xas_descend :: "xarray \<Rightarrow> xa_state \<Rightarrow> addr \<Rightarrow> (xa_state \<times> u64) outcome" where
  "xas_descend S xas node =
     (let offset = get_offset (xa_index xas) (xa_nodes S node)
      in obind (xa_entry S node offset) (\<lambda>entry. Inr (xas\<lparr>xas_node := node, xa_offset := offset\<rparr>, entry)))"

partial_function (option) load_loop :: "xarray \<Rightarrow> xa_state \<Rightarrow> u64 \<Rightarrow> (xa_state \<times> u64) outcome option" where
  "load_loop S xas entry =
     (if xa_is_node entry
      then let node = xa_to_node entry
           in if xa_shift xas > xn_shift (xa_nodes S node) then Some (Inr (xas, entry))
              else case xas_descend S xas node of
                     Inl f \<Rightarrow> Some (Inl f)
                   | Inr (xas, entry) \<Rightarrow>
                       if xn_shift (xa_nodes S node) = 0 then Some (Inr (xas, entry)) else load_loop S xas entry
      else Some (Inr (xas, entry)))"

declare load_loop.simps [code]

definition xas_load :: "xarray \<Rightarrow> xa_state \<Rightarrow> (xa_state \<times> u64) outcome option" where
  "xas_load S xas = (case xas_start S xas of Inl f \<Rightarrow> Some (Inl f) | Inr (xas, entry) \<Rightarrow> load_loop S xas entry)"

definition xa_load :: "xarray \<Rightarrow> u64 \<Rightarrow> u64 outcome option" where
  "xa_load S index =
     Option.bind (xas_load S (XA_STATE index)) (\<lambda>r.
       Some (obind r (\<lambda>(xas, entry). Inr (if xa_is_zero entry then 0 else entry))))"

section \<open>Storing\<close>

definition max_index :: "xarray \<Rightarrow> u64 \<Rightarrow> u64" where
  "max_index S entry = (if \<not> xa_is_node entry then 0 else push_bit (xn_shift (xa_nodes S (xa_to_node entry))) 64 - 1)"

definition xa_node_ctor :: xa_node where
  "xa_node_ctor = \<lparr>xn_shift = 0, xn_offset = 0, xn_parent = 0, xn_slots = (\<lambda>_. 0)\<rparr>"

text \<open>\<^verbatim>\<open>kmem_cache_alloc\<close>: the next address of the list, or zero.\<close>

definition xa_cache_alloc :: "xarray \<Rightarrow> xarray \<times> addr" where
  "xa_cache_alloc S =
     (case xa_pool S of
        [] \<Rightarrow> (S, 0)
      | a # as \<Rightarrow> (if a = 0 then S\<lparr>xa_pool := as\<rparr> else S\<lparr>xa_pool := as, xa_nodes := (xa_nodes S)(a := xa_node_ctor)\<rparr>, a))"

abbreviation upd_node :: "addr \<Rightarrow> (xa_node \<Rightarrow> xa_node) \<Rightarrow> xarray \<Rightarrow> xarray" where
  "upd_node n f S \<equiv> S\<lparr>xa_nodes := (xa_nodes S)(n := f (xa_nodes S n))\<rparr>"

definition xas_alloc :: "xarray \<Rightarrow> xa_state \<Rightarrow> nat \<Rightarrow> (xarray \<times> xa_state \<times> addr) outcome" where
  "xas_alloc S xas shift =
     (let parent = xas_node xas
      in if xas_invalid xas then Inr (S, xas, 0)
         else let (S, node) = xa_cache_alloc S
              in if node = 0 then Inr (S, xas_set_err (- 12) xas, 0)
                 else let S = (if parent \<noteq> 0 then upd_node node (\<lambda>n. n\<lparr>xn_offset := xa_offset xas\<rparr>) S else S)
                      in if shift > 64 then Inl Bug
                         else Inr (upd_node node (\<lambda>n. n\<lparr>xn_shift := shift, xn_parent := xas_node xas\<rparr>) S, xas, node))"

text \<open>The height needed for an index in an empty tree.\<close>

function empty_shift :: "u64 \<Rightarrow> nat \<Rightarrow> nat" where
  "empty_shift index shift =
     (if drop_bit shift index \<ge> of_nat XA_CHUNK_SIZE then empty_shift index (shift + XA_CHUNK_SHIFT) else shift)"
  by pat_completeness auto
termination
proof (relation "measure (\<lambda>(index, shift). 64 - shift)")
  fix index :: u64 and shift
  assume a: "drop_bit shift index \<ge> of_nat XA_CHUNK_SIZE"
  have "shift < 64"
  proof (rule ccontr)
    assume "\<not> shift < 64"
    then have "drop_bit shift index = 0" by (intro bit_word_eqI) (auto simp: bit_simps)
    then show False using a by (simp add: XA_CHUNK_SIZE_def)
  qed
  then show "((index, shift + XA_CHUNK_SHIFT), (index, shift)) \<in> measure (\<lambda>(index, shift). 64 - shift)"
    by (simp add: XA_CHUNK_SHIFT_def)
qed simp

declare empty_shift.simps [simp del]

text \<open>The loop of \<^verbatim>\<open>xas_expand\<close>: the shift and the last node, or \<^const>\<open>None\<close> for \<^verbatim>\<open>-ENOMEM\<close>.\<close>

partial_function (option) expand_loop ::
  "xarray \<Rightarrow> xa_state \<Rightarrow> u64 \<Rightarrow> nat \<Rightarrow> addr \<Rightarrow> (xarray \<times> xa_state \<times> (nat \<times> addr) option) outcome option" where
  "expand_loop S xas head shift node =
     (if xa_index xas > max_index S head
      then if shift > 64 then Some (Inl Bug)
           else case xas_alloc S xas shift of
                  Inl f \<Rightarrow> Some (Inl f)
                | Inr (S, xas, node) \<Rightarrow>
                    if node = 0 then Some (Inr (S, xas, None))
                    else let S = upd_node node (\<lambda>n. n\<lparr>xn_slots := (xn_slots n)(0 := head)\<rparr>) S;
                             S = (if xa_is_node head
                                  then upd_node (xa_to_node head) (\<lambda>n. n\<lparr>xn_offset := 0, xn_parent := node\<rparr>) S else S);
                             head = xa_mk_node node
                         in expand_loop (S\<lparr>xa_head := head\<rparr>) xas head (shift + XA_CHUNK_SHIFT) node
      else Some (Inr (S, xas, Some (shift, node))))"

declare expand_loop.simps [code]

definition xas_expand :: "xarray \<Rightarrow> xa_state \<Rightarrow> u64 \<Rightarrow> (xarray \<times> xa_state \<times> nat option) outcome option" where
  "xas_expand S xas head =
     (if head = 0
      then Some (Inr (S, xas, Some (if xa_index xas = 0 then 0 else empty_shift (xa_index xas) 0 + XA_CHUNK_SHIFT)))
      else let (node, shift) = (if xa_is_node head
                                then (xa_to_node head, xn_shift (xa_nodes S (xa_to_node head)) + XA_CHUNK_SHIFT)
                                else (0, 0))
           in Option.bind (expand_loop S (xas\<lparr>xas_node := 0\<rparr>) head shift node) (\<lambda>r.
                Some (obind r (\<lambda>(S, xas, res).
                  case res of None \<Rightarrow> Inr (S, xas, None)
                            | Some (shift, node) \<Rightarrow> Inr (S, xas\<lparr>xas_node := node\<rparr>, Some shift)))))"

text \<open>The pointer \<^verbatim>\<open>slot\<close>: the head of the array or a slot of a node.\<close>

datatype xslot = HeadSlot | NodeSlot addr nat

fun put_slot :: "xslot \<Rightarrow> u64 \<Rightarrow> xarray \<Rightarrow> xarray" where
  "put_slot HeadSlot e S = S\<lparr>xa_head := e\<rparr>"
| "put_slot (NodeSlot n i) e S = upd_node n (\<lambda>x. x\<lparr>xn_slots := (xn_slots x)(i := e)\<rparr>) S"

function create_loop ::
  "nat \<Rightarrow> u64 \<Rightarrow> xslot \<Rightarrow> xarray \<Rightarrow> xa_state \<Rightarrow> (xarray \<times> xa_state \<times> u64) outcome" where
  "create_loop shift entry slot S xas =
     (if shift > xa_shift xas
      then let shift = shift - XA_CHUNK_SHIFT
           in if entry = 0
              then obind (xas_alloc S xas shift) (\<lambda>(S, xas, node).
                     if node = 0 then Inr (S, xas, entry)
                     else let S = put_slot slot (xa_mk_node node) S
                          in obind (xas_descend S xas node) (\<lambda>(xas, entry).
                               create_loop shift entry (NodeSlot node (xa_offset xas)) S xas))
              else if xa_is_node entry
              then obind (xas_descend S xas (xa_to_node entry)) (\<lambda>(xas, entry').
                     create_loop shift entry' (NodeSlot (xa_to_node entry) (xa_offset xas)) S xas)
              else Inr (S, xas, entry)
      else Inr (S, xas, entry))"
  by pat_completeness auto
termination
  by (relation "measure (\<lambda>(shift, entry, slot, S, xas). shift)") (auto simp: XA_CHUNK_SHIFT_def)

declare create_loop.simps [simp del]

definition xas_create :: "xarray \<Rightarrow> xa_state \<Rightarrow> bool \<Rightarrow> (xarray \<times> xa_state \<times> u64) outcome option" where
  "xas_create S xas allow_root =
     (let node = xas_node xas
      in if xas_top node
         then Option.bind (xas_expand S (xas\<lparr>xas_node := 0\<rparr>) (xa_head S)) (\<lambda>r.
                Some (obind r (\<lambda>(S, xas, shift).
                  case shift of
                    None \<Rightarrow> Inr (S, xas, 0)
                  | Some shift \<Rightarrow>
                      let shift = (if shift = 0 \<and> \<not> allow_root then XA_CHUNK_SHIFT else shift)
                      in create_loop shift (xa_head S) HeadSlot S xas)))
         else if xas_error xas \<noteq> 0 then Some (Inr (S, xas, 0))
         else Some (obind (xa_entry S node (xa_offset xas)) (\<lambda>entry.
                create_loop (xn_shift (xa_nodes S node)) entry (NodeSlot node (xa_offset xas)) S xas)))"

text \<open>\<^verbatim>\<open>xas_store\<close>: the new array and state, and the old entry.\<close>

definition xas_store :: "xarray \<Rightarrow> xa_state \<Rightarrow> u64 \<Rightarrow> (xarray \<times> xa_state \<times> u64) outcome option" where
  "xas_store S xas entry =
     Option.bind
       (if entry \<noteq> 0 then xas_create S xas (\<not> xa_is_node entry \<and> \<not> xa_is_zero entry)
        else Option.bind (xas_load S xas) (\<lambda>r. Some (obind r (\<lambda>(xas, first). Inr (S, xas, first)))))
       (\<lambda>r. Some (obind r (\<lambda>(S, xas, first).
          if xas_invalid xas then Inr (S, xas, first)
          else if first = entry then Inr (S, xas, first)
          else let slot = (if xas_node xas \<noteq> 0 then NodeSlot (xas_node xas) (xa_offset xas) else HeadSlot)
               in Inr (put_slot slot entry S, xas, first))))"

section \<open>Iterating\<close>

definition xas_move_index :: "xarray \<Rightarrow> xa_state \<Rightarrow> nat \<Rightarrow> xa_state" where
  "xas_move_index S xas offset =
     (let shift = xn_shift (xa_nodes S (xas_node xas));
          index = xa_index xas AND push_bit shift (NOT XA_CHUNK_MASK)
      in xas\<lparr>xa_index := index + push_bit shift (of_nat offset)\<rparr>)"

definition xas_advance :: "xarray \<Rightarrow> xa_state \<Rightarrow> xa_state" where
  "xas_advance S xas = (let xas = xas\<lparr>xa_offset := xa_offset xas + 1\<rparr> in xas_move_index S xas (xa_offset xas))"

partial_function (option) find_loop :: "xarray \<Rightarrow> xa_state \<Rightarrow> u64 \<Rightarrow> (xa_state \<times> u64) outcome option" where
  "find_loop S xas lim =
     (if xas_node xas \<noteq> 0 \<and> xa_index xas \<le> lim
      then if xa_offset xas = XA_CHUNK_SIZE
           then find_loop S (xas\<lparr>xa_offset := xn_offset (xa_nodes S (xas_node xas)) + 1,
                                 xas_node := xn_parent (xa_nodes S (xas_node xas))\<rparr>) lim
           else case xa_entry S (xas_node xas) (xa_offset xas) of
                  Inl f \<Rightarrow> Some (Inl f)
                | Inr entry \<Rightarrow>
                    if xa_is_node entry
                    then find_loop S (xas\<lparr>xas_node := xa_to_node entry, xa_offset := 0\<rparr>) lim
                    else if entry \<noteq> 0 then Some (Inr (xas, entry))
                    else find_loop S (xas_advance S xas) lim
      else Some (Inr (if xas_node xas = 0 then xas\<lparr>xas_node := XAS_BOUNDS\<rparr> else xas, 0)))"

declare find_loop.simps [code]

definition xas_find :: "xarray \<Rightarrow> xa_state \<Rightarrow> u64 \<Rightarrow> (xa_state \<times> u64) outcome option" where
  "xas_find S xas lim =
     (if xas_error xas \<noteq> 0 \<or> xas_node xas = XAS_BOUNDS then Some (Inr (xas, 0))
      else if xa_index xas > lim then Some (Inr (set_bounds xas))
      else if xas_node xas = 0 then Some (Inr (set_bounds (xas\<lparr>xa_index := 1\<rparr>)))
      else if xas_node xas = XAS_RESTART
      then case xas_load S xas of
             None \<Rightarrow> None
           | Some (Inl f) \<Rightarrow> Some (Inl f)
           | Some (Inr (xas, entry)) \<Rightarrow>
               if entry \<noteq> 0 \<or> xas_not_node (xas_node xas) then Some (Inr (xas, entry))
               else find_loop S (xas_advance S xas) lim
      else let xas = (if xn_shift (xa_nodes S (xas_node xas)) = 0 \<and> of_nat (xa_offset xas) \<noteq> xa_index xas AND XA_CHUNK_MASK
                      then xas\<lparr>xa_offset := unat ((xa_index xas - 1) AND XA_CHUNK_MASK) + 1\<rparr> else xas)
           in find_loop S (xas_advance S xas) lim)"

text \<open>The loop of \<^verbatim>\<open>xas_next_entry\<close>.\<close>

partial_function (option) next_loop :: "xarray \<Rightarrow> xa_state \<Rightarrow> addr \<Rightarrow> u64 \<Rightarrow> (xa_state \<times> u64) outcome option" where
  "next_loop S xas node lim =
     (if xa_index xas \<ge> lim then xas_find S xas lim
      else if of_nat (xa_offset xas) = XA_CHUNK_MASK then xas_find S xas lim
      else case xa_entry S node (xa_offset xas + 1) of
             Inl f \<Rightarrow> Some (Inl f)
           | Inr entry \<Rightarrow>
               if xa_is_internal entry then xas_find S xas lim
               else let xas = xas\<lparr>xa_offset := xa_offset xas + 1, xa_index := xa_index xas + 1\<rparr>
                    in if entry = 0 then next_loop S xas node lim else Some (Inr (xas, entry)))"

declare next_loop.simps [code]

definition xas_next_entry :: "xarray \<Rightarrow> xa_state \<Rightarrow> u64 \<Rightarrow> (xa_state \<times> u64) outcome option" where
  "xas_next_entry S xas lim =
     (let node = xas_node xas
      in if xas_not_node node \<or> xn_shift (xa_nodes S node) \<noteq> 0 \<or> of_nat (xa_offset xas) \<noteq> xa_index xas AND XA_CHUNK_MASK
         then xas_find S xas lim
         else next_loop S xas node lim)"

text \<open>
  \<^verbatim>\<open>xas_for_each\<close> with a body that only collects what it is given: the indices and entries, in the order of
  the visits.
\<close>

partial_function (option) for_each_rest :: "xarray \<Rightarrow> u64 \<Rightarrow> xa_state \<Rightarrow> u64 \<Rightarrow> (u64 \<times> u64) list outcome option" where
  "for_each_rest S lim xas entry =
     (if entry = 0 then Some (Inr [])
      else Option.bind (xas_next_entry S xas lim) (\<lambda>r.
        case r of
          Inl f \<Rightarrow> Some (Inl f)
        | Inr (xas', entry') \<Rightarrow>
            Option.bind (for_each_rest S lim xas' entry') (\<lambda>l.
              Some (obind l (\<lambda>l. Inr ((xa_index xas, entry) # l))))))"

declare for_each_rest.simps [code]

definition xas_for_each :: "xarray \<Rightarrow> xa_state \<Rightarrow> u64 \<Rightarrow> (u64 \<times> u64) list outcome option" where
  "xas_for_each S xas lim =
     Option.bind (xas_find S xas lim) (\<lambda>r.
       case r of Inl f \<Rightarrow> Some (Inl f) | Inr (xas, entry) \<Rightarrow> for_each_rest S lim xas entry)"

end
