(* ===== verification/XarrayProps.thy ===== *)
theory XarrayProps
  imports Xarray Interfaces
begin

text \<open>
  The XArray implements a total map from indices to entries. The invariant names the set of nodes and
  gives each node the prefix of the indices below it; so no node is shared, and writing a slot changes
  the entries of exactly the indices that lead to it.
\<close>

section \<open>Entries\<close>

definition node_addr :: "addr \<Rightarrow> bool" where
  "node_addr n \<longleftrightarrow> n AND 3 = 0 \<and> n > 4096"

lemma word3_mask: "(3 :: u64) = mask 2"
  by (simp add: mask_eq_exp_minus_1)

lemma mk_node_add: "n AND 3 = 0 \<Longrightarrow> xa_mk_node n = n + 2"
proof -
  assume a: "n AND 3 = 0"
  then have "take_bit 2 n = 0" by (simp add: take_bit_eq_mask mask_eq_exp_minus_1)
  then have pg: "k < 2 \<Longrightarrow> \<not> bit n k" for k by (metis bit_take_bit_iff bit_0_eq bot_apply bot_bool_def)
  have two: "(2 :: u64) = push_bit 1 1" by simp
  have "n AND 2 = 0" unfolding two using pg
    by (intro bit_word_eqI) (auto simp only: bit_and_iff bit_1_iff bit_push_bit_iff bit_0_eq bot_apply bot_bool_def)
  then show ?thesis by (simp add: xa_mk_node_def disjunctive_add_eq_or)
qed

lemma to_mk_node [simp]: "node_addr n \<Longrightarrow> xa_to_node (xa_mk_node n) = n"
  by (simp add: node_addr_def xa_to_node_def mk_node_add)

lemma mk_node_inj: "node_addr n \<Longrightarrow> node_addr m \<Longrightarrow> xa_mk_node n = xa_mk_node m \<longleftrightarrow> n = m"
  using to_mk_node by metis

lemma is_node_mk [simp]:
  assumes "node_addr n"
  shows "xa_is_node (xa_mk_node n)"
proof -
  have a: "n AND 3 = 0" "n > 4096" using assms by (auto simp: node_addr_def)
  have "(n OR 2) AND 3 = (n AND 3) OR (2 AND 3)" by (simp only: word_ao_dist)
  then have "xa_is_internal (xa_mk_node n)" using a(1) by (simp add: xa_is_internal_def xa_mk_node_def)
  moreover have "n \<le> xa_mk_node n" unfolding xa_mk_node_def by (rule le_word_or2)
  ultimately show ?thesis using a(2) by (auto simp: xa_is_node_def)
qed

lemma internal_mk [simp]: "node_addr n \<Longrightarrow> xa_is_internal (xa_mk_node n)"
  using is_node_mk by (auto simp: xa_is_node_def)

lemma mk_node_nz [simp]: "node_addr n \<Longrightarrow> xa_mk_node n \<noteq> 0"
  using is_node_mk [of n] by (auto simp: xa_is_node_def)

lemma node_addr_nz: "node_addr n \<Longrightarrow> n \<noteq> 0" "node_addr n \<Longrightarrow> \<not> xas_top n"
  by (auto simp: node_addr_def xas_top_def XAS_RESTART_def word_less_nat_alt word_le_nat_alt)

lemma not_node: "\<not> xa_is_internal e \<Longrightarrow> \<not> xa_is_node e"
  by (simp add: xa_is_node_def)

lemma not_internal_0 [simp]: "\<not> xa_is_internal 0" "\<not> xa_is_node 0"
  by (simp_all add: xa_is_internal_def xa_is_node_def)

section \<open>Digits of an index\<close>

definition digit :: "u64 \<Rightarrow> nat \<Rightarrow> nat" where
  "digit i s = unat i div 2 ^ s mod 64"

lemma digit_less [simp]: "digit i s < 64"
  by (simp add: digit_def)

lemma unat_drop: "unat (drop_bit s (i :: u64)) = unat i div 2 ^ s"
  by (rule trans [OF unat_drop_bit_eq drop_bit_eq_div])

lemma get_offset_digit: "get_offset i nd = digit i (xn_shift nd)"
proof -
  have "drop_bit s i AND 63 = take_bit 6 (drop_bit s i)" for s by (simp add: take_bit_eq_mask mask_eq_exp_minus_1)
  then have "unat (drop_bit s i AND 63) = take_bit 6 (unat (drop_bit s i))" for s by (simp only: unsigned_take_bit_eq)
  also have "\<dots> s = unat i div 2 ^ s mod 64" for s by (simp add: unat_drop take_bit_eq_mod)
  finally show ?thesis by (simp add: get_offset_def digit_def XA_CHUNK_MASK_def)
qed

lemma split_prefix: "unat i div 2 ^ s = 64 * (unat i div 2 ^ (s + 6)) + digit i s"
proof -
  have "unat i div 2 ^ (s + 6) = unat i div 2 ^ s div 64" by (simp add: power_add div_mult2_eq)
  then show ?thesis by (simp add: digit_def)
qed

lemma drop_gt: "drop_bit s i > XA_CHUNK_MASK \<longleftrightarrow> 2 ^ (s + 6) \<le> unat i"
proof -
  have "drop_bit s i > XA_CHUNK_MASK \<longleftrightarrow> 63 < unat i div 2 ^ s"
    by (simp only: XA_CHUNK_MASK_def word_less_nat_alt unat_drop) simp
  also have "\<dots> \<longleftrightarrow> 64 \<le> unat i div 2 ^ s" by auto
  also have "\<dots> \<longleftrightarrow> 64 * 2 ^ s \<le> unat i" by (simp add: less_eq_div_iff_mult_less_eq)
  finally show ?thesis by (simp add: power_add mult.commute)
qed

lemma max_index_gt:
  assumes "node_addr n"
  shows "i > max_index S (xa_mk_node n) \<longleftrightarrow> 2 ^ (xn_shift (xa_nodes S n) + 6) \<le> unat i"
proof -
  define m where "m = xn_shift (xa_nodes S n) + 6"
  have "max_index S (xa_mk_node n) = mask m"
    using assms by (simp add: max_index_def m_def push_bit_eq_mult power_add mask_eq_exp_minus_1)
  moreover have "unat (mask m :: u64) = mask (min 64 m)"
    by (simp only: nat_uint_eq [symmetric] uint_mask_eq) (simp add: nat_mask_eq)
  moreover have "unat i < 2 ^ 64" using unsigned_less [of i] by simp
  moreover have "mask (min 64 m) < unat i \<longleftrightarrow> 2 ^ min 64 m \<le> unat i"
    using zero_less_power [of "2 :: nat" "min 64 m"] by (simp only: mask_eq_exp_minus_1) arith
  moreover have "2 ^ 64 \<le> (2 :: nat) ^ m" if "64 \<le> m" using that by (rule power_increasing) simp
  ultimately show ?thesis unfolding m_def [symmetric] word_less_nat_alt by (cases "m \<le> 64") (auto simp: min_def)
qed

section \<open>The tree and its meaning\<close>

abbreviation sh :: "xarray \<Rightarrow> addr \<Rightarrow> nat" where
  "sh S n \<equiv> xn_shift (xa_nodes S n)"

abbreviation sl :: "xarray \<Rightarrow> addr \<Rightarrow> nat \<Rightarrow> u64" where
  "sl S n \<equiv> xn_slots (xa_nodes S n)"

text \<open>The entry an index leads to, from an entry at a given level.\<close>

primrec look :: "xarray \<Rightarrow> nat \<Rightarrow> u64 \<Rightarrow> u64 \<Rightarrow> u64" where
  "look S 0 e i = e"
| "look S (Suc k) e i = (if e = 0 then 0 else look S k (sl S (xa_to_node e) (digit i (6 * k))) i)"

text \<open>The map an array stands for.\<close>

definition entries :: "xarray \<Rightarrow> u64 \<Rightarrow> u64" where
  "entries S i =
     (let h = xa_head S; s = sh S (xa_to_node h)
      in if xa_is_node h then if 2 ^ (s + 6) \<le> unat i then 0 else look S (Suc (s div 6)) h i
         else if i = 0 then h else 0)"

text \<open>What may stand in a slot: a value at the lowest level, else nothing or the one node below it.\<close>

definition child_ok :: "xarray \<Rightarrow> (addr \<Rightarrow> nat) \<Rightarrow> addr \<Rightarrow> nat \<Rightarrow> addr \<Rightarrow> bool" where
  "child_ok S pre n d c \<longleftrightarrow> sh S c + 6 = sh S n \<and> pre c = 64 * pre n + d
     \<and> xn_parent (xa_nodes S c) = n \<and> xn_offset (xa_nodes S c) = d"

definition slot_ok :: "xarray \<Rightarrow> addr set \<Rightarrow> (addr \<Rightarrow> nat) \<Rightarrow> addr \<Rightarrow> nat \<Rightarrow> bool" where
  "slot_ok S N pre n d \<longleftrightarrow>
     (if sh S n = 0 then \<not> xa_is_internal (sl S n d)
      else sl S n d = 0 \<or> (\<exists>c\<in>N. sl S n d = xa_mk_node c \<and> child_ok S pre n d c))"

definition node_ok :: "xarray \<Rightarrow> addr set \<Rightarrow> (addr \<Rightarrow> nat) \<Rightarrow> addr \<Rightarrow> bool" where
  "node_ok S N pre n \<longleftrightarrow> node_addr n \<and> 6 dvd sh S n \<and> sh S n \<le> 60 \<and> pre n * 2 ^ (sh S n + 6) < 2 ^ 64
     \<and> (\<forall>d<64. slot_ok S N pre n d)
     \<and> (xa_head S = xa_mk_node n
        \<or> xn_parent (xa_nodes S n) \<in> N \<and> xn_offset (xa_nodes S n) < 64
          \<and> sl S (xn_parent (xa_nodes S n)) (xn_offset (xa_nodes S n)) = xa_mk_node n)"

definition head_ok :: "xarray \<Rightarrow> addr set \<Rightarrow> (addr \<Rightarrow> nat) \<Rightarrow> bool" where
  "head_ok S N pre \<longleftrightarrow>
     (if xa_is_internal (xa_head S)
      then \<exists>r\<in>N. xa_head S = xa_mk_node r \<and> pre r = 0 \<and> xn_parent (xa_nodes S r) = 0
      else N = {})"

definition pool_ok :: "xarray \<Rightarrow> addr set \<Rightarrow> bool" where
  "pool_ok S N \<longleftrightarrow> distinct (filter (\<lambda>a. a \<noteq> 0) (xa_pool S)) \<and> (\<forall>a\<in>set (xa_pool S). a = 0 \<or> node_addr a \<and> a \<notin> N)"

definition tree :: "xarray \<Rightarrow> addr set \<Rightarrow> (addr \<Rightarrow> nat) \<Rightarrow> bool" where
  "tree S N pre \<longleftrightarrow> head_ok S N pre \<and> (\<forall>n\<in>N. node_ok S N pre n) \<and> pool_ok S N"

definition xa_inv :: "xarray \<Rightarrow> bool" where
  "xa_inv S \<longleftrightarrow> (\<exists>N pre. tree S N pre)"

definition covers :: "xarray \<Rightarrow> (addr \<Rightarrow> nat) \<Rightarrow> addr \<Rightarrow> u64 \<Rightarrow> bool" where
  "covers S pre n i \<longleftrightarrow> unat i div 2 ^ (sh S n + 6) = pre n"

lemma tree_addr: "tree S N pre \<Longrightarrow> n \<in> N \<Longrightarrow> node_addr n"
  by (simp add: tree_def node_ok_def)

lemma tree_level: "tree S N pre \<Longrightarrow> n \<in> N \<Longrightarrow> sh S n = 6 * (sh S n div 6) \<and> sh S n \<le> 60"
  by (auto simp: tree_def node_ok_def)

lemma tree_slot: "tree S N pre \<Longrightarrow> n \<in> N \<Longrightarrow> d < 64 \<Longrightarrow> slot_ok S N pre n d"
  by (simp add: tree_def node_ok_def)

lemma tree_child:
  assumes "tree S N pre" "n \<in> N" "d < 64" "sh S n \<noteq> 0" "sl S n d \<noteq> 0"
  obtains c where "c \<in> N" "sl S n d = xa_mk_node c" "child_ok S pre n d c"
  using tree_slot [OF assms(1-3)] assms(4,5) by (auto simp: slot_ok_def)

lemma tree_child_is:
  assumes "tree S N pre" "n \<in> N" "d < 64" "sl S n d = xa_mk_node c" "c \<in> N"
  shows "child_ok S pre n d c" "sh S n \<noteq> 0"
proof -
  have a: "node_addr c" by (rule tree_addr [OF assms(1,5)])
  show nz: "sh S n \<noteq> 0"
  proof
    assume "sh S n = 0"
    then have "\<not> xa_is_internal (sl S n d)" using tree_slot [OF assms(1-3)] by (simp add: slot_ok_def)
    then show False using a assms(4) by simp
  qed
  have "sl S n d \<noteq> 0" using a assms(4) by simp
  from tree_child [OF assms(1-3) nz this] show "child_ok S pre n d c"
    using assms(4) a mk_node_inj tree_addr [OF assms(1)] by metis
qed

lemma tree_leaf: "tree S N pre \<Longrightarrow> n \<in> N \<Longrightarrow> d < 64 \<Longrightarrow> sh S n = 0 \<Longrightarrow> \<not> xa_is_internal (sl S n d)"
  using tree_slot [of S N pre n d] by (simp add: slot_ok_def)

lemma tree_root:
  assumes "tree S N pre" "xa_is_internal (xa_head S)"
  obtains r where "r \<in> N" "xa_head S = xa_mk_node r" "pre r = 0" "xn_parent (xa_nodes S r) = 0" "node_addr r"
  using assms tree_addr [OF assms(1)] by (auto simp: tree_def head_ok_def)

lemma tree_no_root: "tree S N pre \<Longrightarrow> \<not> xa_is_internal (xa_head S) \<Longrightarrow> N = {}"
  by (simp add: tree_def head_ok_def)

lemma covers_child:
  assumes "covers S pre n i" "child_ok S pre n (digit i (sh S n)) c"
  shows "covers S pre c i"
  using assms split_prefix [of i "sh S n"] by (simp add: covers_def child_ok_def)

lemma covers_parent:
  assumes "covers S pre c i" "child_ok S pre n d c" "d < 64"
  shows "covers S pre n i" "digit i (sh S n) = d"
proof -
  have "unat i div 2 ^ sh S n = 64 * pre n + d" using assms by (simp add: covers_def child_ok_def)
  moreover have "unat i div 2 ^ (sh S n + 6) = unat i div 2 ^ sh S n div 64" by (simp add: power_add div_mult2_eq)
  ultimately show "covers S pre n i" "digit i (sh S n) = d" using assms(3) by (simp_all add: covers_def digit_def)
qed

text \<open>A digit below a node that covers an index stays within the words.\<close>

lemma covers_room:
  assumes "covers S pre n i"
  shows "(64 * pre n + digit i (sh S n)) * 2 ^ sh S n < 2 ^ 64"
proof -
  have "64 * pre n + digit i (sh S n) = unat i div 2 ^ sh S n" using assms split_prefix [of i "sh S n"] by (simp add: covers_def)
  also have "\<dots> * 2 ^ sh S n \<le> unat i" by simp
  also have "unat i < 2 ^ 64" using unsigned_less [of i] by simp
  finally show ?thesis .
qed

lemma covers_root: "pre n = 0 \<Longrightarrow> covers S pre n i \<longleftrightarrow> unat i < 2 ^ (sh S n + 6)"
  by (simp add: covers_def div_eq_0_iff)

lemma entries_no_root: "\<not> xa_is_internal (xa_head S) \<Longrightarrow> entries S i = (if i = 0 then xa_head S else 0)"
  by (simp add: entries_def not_node Let_def)

lemma entries_root:
  assumes "xa_head S = xa_mk_node r" "node_addr r" "pre r = 0"
  shows "entries S i = (if covers S pre r i then look S (Suc (sh S r div 6)) (xa_mk_node r) i else 0)"
  using assms by (simp add: entries_def covers_root not_le Let_def del: look.simps)

text \<open>From any node, the entries below it are those of the array.\<close>

lemma entries_at:
  assumes t: "tree S N pre"
  shows "n \<in> N \<Longrightarrow> covers S pre n i \<Longrightarrow> entries S i = look S (Suc (sh S n div 6)) (xa_mk_node n) i"
proof (induction "60 - sh S n" arbitrary: n rule: less_induct)
  case (less n)
  have a: "node_addr n" by (rule tree_addr [OF t less.prems(1)])
  show ?case
  proof (cases "xa_head S = xa_mk_node n")
    case True
    then obtain r where "r \<in> N" "xa_head S = xa_mk_node r" "pre r = 0" using tree_root [OF t] a by (metis internal_mk)
    then have "pre n = 0" using True a mk_node_inj tree_addr [OF t] by metis
    then show ?thesis using entries_root [OF True a, of pre] less.prems(2) by simp
  next
    case False
    define p d where "p = xn_parent (xa_nodes S n)" and "d = xn_offset (xa_nodes S n)"
    have p: "p \<in> N" "d < 64" "sl S p d = xa_mk_node n"
      using t less.prems(1) False by (auto simp: tree_def node_ok_def p_def d_def)
    have c: "child_ok S pre p d n" by (rule tree_child_is [OF t p less.prems(1)])
    have pi: "covers S pre p i" "digit i (sh S p) = d" using covers_parent [OF less.prems(2) c p(2)] by auto
    have s: "sh S p = sh S n + 6" using c by (simp add: child_ok_def)
    have l: "sh S n \<le> 54" "sh S n = 6 * (sh S n div 6)" using tree_level [OF t p(1)] tree_level [OF t less.prems(1)] s by auto
    have "entries S i = look S (Suc (sh S p div 6)) (xa_mk_node p) i"
      by (rule less.hyps [OF _ p(1) pi(1)]) (use s l in simp)
    also have "sh S p div 6 = Suc (sh S n div 6)" using s by simp
    also have "look S (Suc (Suc (sh S n div 6))) (xa_mk_node p) i
        = look S (Suc (sh S n div 6)) (sl S p (digit i (6 * Suc (sh S n div 6)))) i"
      using tree_addr [OF t p(1)] by (simp only: look.simps(2) [of S "Suc _"]) simp
    also have "6 * Suc (sh S n div 6) = sh S p" using s l(2) by simp
    finally show ?thesis by (simp only: pi(2) p(3))
  qed
qed

section \<open>Loading\<close>

lemma descend_eq:
  "xas_descend S xas n = Inr (xas\<lparr>xas_node := n, xa_offset := digit (xa_index xas) (sh S n)\<rparr>,
                              sl S n (digit (xa_index xas) (sh S n)))"
  using digit_less [of "xa_index xas" "sh S n", unfolded not_le [symmetric]]
  by (simp add: xas_descend_def get_offset_digit xa_entry_def XA_CHUNK_SIZE_def Let_def)

lemma load_loop_stop: "\<not> xa_is_node e \<Longrightarrow> load_loop S xas e = Some (Inr (xas, e))"
  by (simp add: load_loop.simps)

lemma load_loop_node:
  assumes "node_addr n" "xa_shift xas = 0"
  shows "load_loop S xas (xa_mk_node n) =
     (let xas' = xas\<lparr>xas_node := n, xa_offset := digit (xa_index xas) (sh S n)\<rparr>; e = sl S n (digit (xa_index xas) (sh S n))
      in if sh S n = 0 then Some (Inr (xas', e)) else load_loop S xas' e)"
  using assms by (subst load_loop.simps) (simp add: descend_eq Let_def)

lemma load_loop_at:
  assumes t: "tree S N pre"
  shows "n \<in> N \<Longrightarrow> covers S pre n (xa_index xas) \<Longrightarrow> xa_shift xas = 0 \<Longrightarrow>
    \<exists>m\<in>N. covers S pre m (xa_index xas)
      \<and> load_loop S xas (xa_mk_node n)
        = Some (Inr (xas\<lparr>xas_node := m, xa_offset := digit (xa_index xas) (sh S m)\<rparr>, entries S (xa_index xas)))
      \<and> sl S m (digit (xa_index xas) (sh S m)) = entries S (xa_index xas)
      \<and> (sh S m = 0 \<or> entries S (xa_index xas) = 0)"
proof (induction "sh S n" arbitrary: n xas rule: less_induct)
  case (less n)
  define i d where "i = xa_index xas" and "d = digit i (sh S n)"
  have a: "node_addr n" by (rule tree_addr [OF t less.prems(1)])
  have e: "entries S i = look S (sh S n div 6) (sl S n d) i"
    using entries_at [OF t less.prems(1), of i] less.prems(2) a tree_level [OF t less.prems(1)] by (simp add: i_def d_def)
  note step = load_loop_node [OF a less.prems(3), of S, unfolded Let_def, folded i_def, folded d_def]
  show ?case
  proof (cases "sh S n = 0")
    case True
    then show ?thesis using less.prems e step by (intro bexI [of _ n]) (auto simp: i_def d_def)
  next
    case False
    then obtain k where k: "sh S n div 6 = Suc k" using tree_level [OF t less.prems(1)] by (metis mult_0_right not0_implies_Suc)
    show ?thesis
    proof (cases "sl S n d = 0")
      case True
      then show ?thesis using less.prems e step k False
        by (intro bexI [of _ n]) (auto simp: i_def d_def load_loop_stop)
    next
      case nz: False
      have "d < 64" by (simp add: d_def)
      from tree_child [OF t less.prems(1) this False nz] obtain c
        where c: "c \<in> N" "sl S n d = xa_mk_node c" "child_ok S pre n d c" .
      have ci: "covers S pre c i" using covers_child c(3) less.prems(2) by (simp add: i_def d_def)
      have "sh S c < sh S n" using c(3) by (simp add: child_ok_def)
      from less.hyps [OF this c(1), of "xas\<lparr>xas_node := n, xa_offset := d\<rparr>"] ci less.prems(3)
      show ?thesis using step c(2) False by (auto simp: i_def)
    qed
  qed
qed

text \<open>Where a walk over the array stands: at the head, outside, or at a slot.\<close>

definition at_slot :: "xarray \<Rightarrow> addr set \<Rightarrow> (addr \<Rightarrow> nat) \<Rightarrow> xa_state \<Rightarrow> bool" where
  "at_slot S N pre xas \<longleftrightarrow> xas_node xas \<in> N \<and> covers S pre (xas_node xas) (xa_index xas)
     \<and> xa_offset xas = digit (xa_index xas) (sh S (xas_node xas))"

definition at_place :: "xarray \<Rightarrow> addr set \<Rightarrow> (addr \<Rightarrow> nat) \<Rightarrow> xa_state \<Rightarrow> bool" where
  "at_place S N pre xas \<longleftrightarrow> at_slot S N pre xas
     \<or> xas_node xas = 0 \<and> xa_index xas = 0 \<and> \<not> xa_is_internal (xa_head S)
     \<or> xas_node xas = XAS_BOUNDS \<and> (\<forall>j. xa_index xas \<le> j \<longrightarrow> entries S j = 0)"

lemma restart_facts: "xas_invalid xas" "xas_error xas = 0" if "xas_node xas = XAS_RESTART"
  using that by (simp_all add: xas_invalid_def xas_error_def xa_err_def xa_is_err_def xa_is_internal_def XAS_RESTART_def)

lemma xas_load_ok:
  assumes t: "tree S N pre" and x: "xas_node xas = XAS_RESTART" "xa_shift xas = 0"
  shows "\<exists>xas'. xas_load S xas = Some (Inr (xas', entries S (xa_index xas))) \<and> at_place S N pre xas'
    \<and> xa_index xas' = xa_index xas \<and> xa_shift xas' = 0
    \<and> (at_slot S N pre xas' \<longrightarrow> sl S (xas_node xas') (xa_offset xas') = entries S (xa_index xas)
         \<and> (sh S (xas_node xas') = 0 \<or> entries S (xa_index xas) = 0))"
proof (cases "xa_is_internal (xa_head S)")
  case False
  then have "xas_load S xas = Some (Inr (if xa_index xas = 0 then (xas\<lparr>xas_node := 0\<rparr>, xa_head S) else set_bounds xas))"
    using restart_facts [OF x(1)]
    by (simp add: xas_load_def xas_start_def xas_valid_def not_node Let_def set_bounds_def load_loop_stop)
  moreover have "entries S j = 0" if "xa_index xas \<noteq> 0" "xa_index xas \<le> j" for j
  proof -
    have "j \<noteq> 0" using that by (metis word_le_0_iff)
    then show ?thesis using False by (simp add: entries_no_root)
  qed
  ultimately show ?thesis using False x tree_no_root [OF t False] by (auto simp: set_bounds_def at_place_def at_slot_def entries_no_root)
next
  case True
  obtain r where r: "r \<in> N" "xa_head S = xa_mk_node r" "pre r = 0" "node_addr r" using tree_root [OF t True] .
  have start: "xas_start S xas = Inr (if covers S pre r (xa_index xas) then (xas\<lparr>xas_node := 0\<rparr>, xa_mk_node r) else set_bounds xas)"
    using restart_facts [OF x(1)] r
    by (simp add: xas_start_def xas_valid_def Let_def drop_gt covers_root not_le)
  show ?thesis
  proof (cases "covers S pre r (xa_index xas)")
    case True
    then have "covers S pre r (xa_index (xas\<lparr>xas_node := 0\<rparr>))" by simp
    from load_loop_at [OF t r(1) this] x(2) start True show ?thesis
      by (auto simp: xas_load_def at_place_def at_slot_def)
  next
    case False
    have "xas_node (xas\<lparr>xas_node := XAS_BOUNDS\<rparr>) \<notin> N"
      using tree_addr [OF t, of 1] by (auto simp: XAS_BOUNDS_def node_addr_def)
    moreover have zero: "entries S j = 0" if "xa_index xas \<le> j" for j
    proof -
      have "\<not> covers S pre r j" using False that r(3) by (simp add: covers_root word_le_nat_alt not_less)
      then show ?thesis using entries_root [OF r(2,4), of pre j] r(3) by simp
    qed
    ultimately show ?thesis using False start x(2) zero [of "xa_index xas"]
      by (simp add: xas_load_def set_bounds_def load_loop_stop at_place_def at_slot_def)
  qed
qed

lemma entries_value:
  assumes "tree S N pre"
  shows "\<not> xa_is_internal (entries S i)"
proof -
  from xas_load_ok [OF assms, of "XA_STATE i"] obtain xas' where x: "at_place S N pre xas'" "xa_index xas' = i"
    "at_slot S N pre xas' \<Longrightarrow> sl S (xas_node xas') (xa_offset xas') = entries S i \<and> (sh S (xas_node xas') = 0 \<or> entries S i = 0)"
    by (auto simp: XA_STATE_def)
  show ?thesis
  proof (cases "at_slot S N pre xas'")
    case True
    then show ?thesis using x(3) tree_leaf [OF assms, of "xas_node xas'" "xa_offset xas'"] by (auto simp: at_slot_def)
  next
    case False
    then show ?thesis using x(1,2) by (auto simp: at_place_def entries_no_root)
  qed
qed

lemma zero_entry_internal: "xa_is_internal XA_ZERO_ENTRY"
  by (simp add: XA_ZERO_ENTRY_def xa_mk_internal_def xa_is_internal_def)

lemma xa_load_entries: "tree S N pre \<Longrightarrow> xa_load S i = Some (Inr (entries S i))"
  using xas_load_ok [of S N pre "XA_STATE i"] entries_value [of S N pre i] zero_entry_internal
  by (auto simp: xa_load_def XA_STATE_def xa_is_zero_def)

section \<open>Writing\<close>

text \<open>A change of one slot is seen only by the indices that lead to it.\<close>

lemma look_frame:
  assumes t: "tree S N pre"
    and same: "\<And>n d. n \<in> N \<Longrightarrow> d < 64 \<Longrightarrow> (n, d) \<noteq> (m, q) \<Longrightarrow> sl S' n d = sl S n d"
    and other: "\<not> (covers S pre m j \<and> digit j (sh S m) = q)"
  shows "n \<in> N \<Longrightarrow> covers S pre n j \<Longrightarrow>
    look S' (Suc (sh S n div 6)) (xa_mk_node n) j = look S (Suc (sh S n div 6)) (xa_mk_node n) j"
proof (induction "sh S n" arbitrary: n rule: less_induct)
  case (less n)
  define d where "d = digit j (sh S n)"
  have a: "node_addr n" by (rule tree_addr [OF t less.prems(1)])
  have l: "6 * (sh S n div 6) = sh S n" using tree_level [OF t less.prems(1)] by simp
  have d: "d < 64" by (simp add: d_def)
  have eq: "sl S' n d = sl S n d" by (rule same [OF less.prems(1) d]) (use other less.prems(2) in \<open>auto simp: d_def\<close>)
  have "look S' (sh S n div 6) (sl S n d) j = look S (sh S n div 6) (sl S n d) j"
  proof (cases "sh S n = 0")
    case False
    then obtain k where k: "sh S n div 6 = Suc k" using l by (metis mult_0_right not0_implies_Suc)
    show ?thesis
    proof (cases "sl S n d = 0")
      case nz: False
      from tree_child [OF t less.prems(1) d False nz] obtain c
        where c: "c \<in> N" "sl S n d = xa_mk_node c" "child_ok S pre n d c" .
      have "covers S pre c j" using covers_child c(3) less.prems(2) by (simp add: d_def)
      moreover have "sh S c div 6 = k" "sh S c < sh S n" using c(3) k by (auto simp: child_ok_def)
      ultimately show ?thesis using less.hyps [of c] c(1,2) k by simp
    qed (simp add: k)
  qed simp
  then show ?case using a eq l by (simp add: d_def)
qed

lemma entries_frame:
  assumes t: "tree S N pre" and h: "xa_head S' = xa_head S" and s: "\<And>n. n \<in> N \<Longrightarrow> sh S' n = sh S n"
    and same: "\<And>n d. n \<in> N \<Longrightarrow> d < 64 \<Longrightarrow> (n, d) \<noteq> (m, q) \<Longrightarrow> sl S' n d = sl S n d"
    and other: "\<not> (covers S pre m j \<and> digit j (sh S m) = q)"
  shows "entries S' j = entries S j"
proof (cases "xa_is_internal (xa_head S)")
  case False
  then show ?thesis using h by (simp add: entries_no_root)
next
  case True
  obtain r where r: "r \<in> N" "xa_head S = xa_mk_node r" "pre r = 0" "node_addr r" using tree_root [OF t True] .
  have "covers S' pre r j \<longleftrightarrow> covers S pre r j" using s [OF r(1)] by (simp add: covers_def)
  then show ?thesis
    using entries_root [of S r pre j] entries_root [of S' r pre j] look_frame [OF t same other r(1)] s [OF r(1)] r h
    by (simp del: look.simps)
qed

text \<open>A node keeps its place when a slot that links to no node is overwritten.\<close>

lemma node_ok_write:
  assumes "node_ok S N pre n" "n \<in> N" "N \<subseteq> N'" "\<And>x. x \<in> N \<Longrightarrow> pre' x = pre x"
    and f: "\<And>x. x \<in> N \<Longrightarrow> sh S' x = sh S x \<and> xn_parent (xa_nodes S' x) = xn_parent (xa_nodes S x)
              \<and> xn_offset (xa_nodes S' x) = xn_offset (xa_nodes S x)"
    and same: "\<And>x d. x \<in> N \<Longrightarrow> d < 64 \<Longrightarrow> (x, d) \<noteq> (m, q) \<Longrightarrow> sl S' x d = sl S x d"
    and h: "xa_head S' = xa_head S" and nolink: "sl S m q \<noteq> xa_mk_node n"
    and new: "n = m \<Longrightarrow> slot_ok S' N' pre' m q"
  shows "node_ok S' N' pre' n"
proof -
  have slots: "slot_ok S' N' pre' n d" if "d < 64" for d
  proof (cases "(n, d) = (m, q)")
    case True
    then show ?thesis using new by simp
  next
    case False
    have "slot_ok S N pre n d" using assms(1) that by (simp add: node_ok_def)
    moreover have "child_ok S' pre' n d c \<longleftrightarrow> child_ok S pre n d c" if "c \<in> N" for c
      using f [OF that] f [OF assms(2)] assms(4) [OF that] assms(4) [OF assms(2)] by (simp add: child_ok_def)
    ultimately show ?thesis
      using same [OF assms(2) that False] f [OF assms(2)] assms(3) by (auto simp: slot_ok_def split: if_splits)
  qed
  define p d where "p = xn_parent (xa_nodes S n)" and "d = xn_offset (xa_nodes S n)"
  have "sl S' p d = sl S p d" if "p \<in> N" "d < 64" "sl S p d = xa_mk_node n"
    using same [OF that(1,2)] nolink that(3) by auto
  then show ?thesis using assms(1,3) slots h f [OF assms(2)] assms(4) [OF assms(2)]
    by (auto simp: node_ok_def p_def [symmetric] d_def [symmetric])
qed

lemma write_value:
  assumes t: "tree S N pre" and m: "m \<in> N" "q < 64" "sh S m = 0" and v: "\<not> xa_is_internal v"
  defines "S' \<equiv> put_slot (NodeSlot m q) v S"
  shows "tree S' N pre" "covers S pre m i \<Longrightarrow> digit i 0 = q \<Longrightarrow> entries S' = (entries S)(i := v)"
proof -
  have leaf: "\<not> xa_is_internal (sl S m q)" by (rule tree_leaf [OF t m])
  have "node_ok S' N pre n" if n: "n \<in> N" for n
  proof (rule node_ok_write [of S N pre n N pre S' m q])
    show "node_ok S N pre n" using t n by (simp add: tree_def)
    show "sl S m q \<noteq> xa_mk_node n" using leaf tree_addr [OF t n] by auto
    show "slot_ok S' N pre m q" using m(3) v by (simp add: S'_def slot_ok_def)
  qed (use n in \<open>auto simp: S'_def\<close>)
  moreover have "head_ok S' N pre" "pool_ok S' N" using t by (auto simp: tree_def head_ok_def pool_ok_def S'_def)
  ultimately show t': "tree S' N pre" by (simp add: tree_def)
  assume i: "covers S pre m i" "digit i 0 = q"
  show "entries S' = (entries S)(i := v)"
  proof
    fix j
    show "entries S' j = ((entries S)(i := v)) j"
    proof (cases "covers S pre m j \<and> digit j (sh S m) = q")
      case True
      then have "unat j = unat i" using i m(3) split_prefix [of i 0] split_prefix [of j 0] by (simp add: covers_def)
      then have "j = i" by (simp add: word_unat_eq_iff)
      moreover have "covers S' pre m i" using i(1) by (simp add: covers_def S'_def)
      then have "entries S' i = v"
        using entries_at [OF t' m(1), of i] i(2) m(3) tree_addr [OF t m(1)] by (simp add: S'_def)
      ultimately show ?thesis by simp
    next
      case False
      then have "j \<noteq> i" using i m(3) by auto
      then show ?thesis using entries_frame [OF t _ _ _ False, of S'] by (auto simp: S'_def)
    qed
  qed
qed

text \<open>Linking a new node into an empty slot above the lowest level.\<close>

lemma pool_take:
  assumes "pool_ok S N" "xa_pool S = a # as" "a \<noteq> 0" "xa_pool S' = as"
  shows "node_addr a" "a \<notin> N" "pool_ok S' (insert a N)"
  using assms by (auto simp: pool_ok_def)

abbreviation new_node :: "nat \<Rightarrow> nat \<Rightarrow> addr \<Rightarrow> xa_node" where
  "new_node s d p \<equiv> \<lparr>xn_shift = s, xn_offset = d, xn_parent = p, xn_slots = (\<lambda>_. 0)\<rparr>"

lemma link_node:
  assumes t: "tree S N pre" and m: "m \<in> N" "q < 64" "sh S m \<noteq> 0" "sl S m q = 0"
    and room: "(64 * pre m + q) * 2 ^ sh S m < 2 ^ 64" and p: "xa_pool S = c # as" "c \<noteq> 0"
  defines "S' \<equiv> put_slot (NodeSlot m q) (xa_mk_node c)
     (S\<lparr>xa_pool := as, xa_nodes := (xa_nodes S)(c := new_node (sh S m - 6) q m)\<rparr>)"
    and "pre' \<equiv> pre(c := 64 * pre m + q)"
  shows "tree S' (insert c N) pre'" "entries S' = entries S" "covers S pre m i \<Longrightarrow> digit i (sh S m) = q \<Longrightarrow> covers S' pre' c i"
    "sh S' c = sh S m - 6" "sl S' c = (\<lambda>_. 0)"
proof -
  have c: "node_addr c" "c \<notin> N" "pool_ok S' (insert c N)"
    using pool_take [of S N c as S'] t p by (auto simp: tree_def S'_def)
  have cm: "c \<noteq> m" using c(2) m(1) by auto
  have lm: "6 dvd sh S m" "sh S m \<le> 60" "6 \<le> sh S m"
    using t m(1,3) by (auto simp: tree_def node_ok_def) (metis dvd_imp_le not_gr0)
  have nodes: "xa_nodes S' c = new_node (sh S m - 6) q m" "sl S' m = (sl S m)(q := xa_mk_node c)"
    using cm by (auto simp: S'_def)
  have f: "sh S' x = sh S x \<and> xn_parent (xa_nodes S' x) = xn_parent (xa_nodes S x)
      \<and> xn_offset (xa_nodes S' x) = xn_offset (xa_nodes S x)" if "x \<in> N" for x
    using that c(2) by (auto simp: S'_def)
  have same: "sl S' x d = sl S x d" if "x \<in> N" "(x, d) \<noteq> (m, q)" for x d
    using that c(2) by (auto simp: S'_def)
  have h: "xa_head S' = xa_head S" by (simp add: S'_def)
  have cc: "child_ok S' pre' m q c" using nodes(1) f [OF m(1)] lm(3) cm by (simp add: child_ok_def pre'_def)
  have "node_ok S' (insert c N) pre' n" if n: "n \<in> N" for n
  proof (rule node_ok_write [of S N pre n "insert c N" pre' S' m q])
    show "node_ok S N pre n" using t n by (simp add: tree_def)
    show "sl S m q \<noteq> xa_mk_node n" using m(4) tree_addr [OF t n] mk_node_nz [of n] by simp
    show "slot_ok S' (insert c N) pre' m q" using m(3) f [OF m(1)] nodes(2) cc by (simp add: slot_ok_def)
  qed (use n f same h c(2) in \<open>auto simp: pre'_def\<close>)
  moreover have "node_ok S' (insert c N) pre' c"
  proof -
    have "6 dvd sh S m - 6" using lm(1,3) by (simp add: dvd_diff_nat)
    then show ?thesis using c(1) nodes m lm(2,3) room by (simp add: node_ok_def slot_ok_def pre'_def)
  qed
  moreover have "head_ok S' (insert c N) pre'"
  proof -
    have "xa_is_internal (xa_head S)" using tree_no_root [OF t] m(1) by auto
    then obtain r where "r \<in> N" "xa_head S = xa_mk_node r" "pre r = 0" "xn_parent (xa_nodes S r) = 0" "node_addr r"
      by (rule tree_root [OF t])
    then have "\<exists>r\<in>insert c N. xa_head S' = xa_mk_node r \<and> pre' r = 0 \<and> xn_parent (xa_nodes S' r) = 0" "xa_is_internal (xa_head S')"
      using f h c(2) by (auto simp: pre'_def intro!: bexI [of _ r])
    then show ?thesis by (simp add: head_ok_def)
  qed
  ultimately show t': "tree S' (insert c N) pre'" using c(3) by (simp add: tree_def)
  show cov: "covers S' pre' c i" if "covers S pre m i" "digit i (sh S m) = q" for i
    using covers_child [of S' pre' m i c] that f [OF m(1)] cc cm by (simp add: covers_def pre'_def)
  show "entries S' = entries S"
  proof
    fix j
    show "entries S' j = entries S j"
    proof (cases "covers S pre m j \<and> digit j (sh S m) = q")
      case True
      obtain k where k: "sh S m div 6 = Suc k" using lm(3) by (metis div_le_mono div_self not0_implies_Suc not_one_le_zero zero_neq_numeral)
      have "entries S j = 0"
        using entries_at [OF t m(1), of j] True m(4) tree_level [OF t m(1)] tree_addr [OF t m(1)] k by simp
      moreover have "entries S' j = 0"
        using entries_at [OF t', of c j] cov True nodes(1) c(1) by (cases "(sh S m - 6) div 6") auto
      ultimately show ?thesis by simp
    next
      case False
      then show ?thesis using entries_frame [OF t h _ same False] f by blast
    qed
  qed
qed (use assms in \<open>auto simp: tree_def pool_ok_def\<close>)

text \<open>The first node of an empty array.\<close>

lemma first_node:
  assumes t: "tree S N pre" and h: "xa_head S = 0" and s: "6 dvd s" "s \<le> 60"
    and p: "xa_pool S = c # as" "c \<noteq> 0"
  defines "S' \<equiv> put_slot HeadSlot (xa_mk_node c) (S\<lparr>xa_pool := as, xa_nodes := (xa_nodes S)(c := new_node s 0 0)\<rparr>)"
  shows "tree S' {c} (\<lambda>_. 0)" "entries S' = entries S"
proof -
  have N: "N = {}" using tree_no_root [OF t] h by simp
  have c: "node_addr c" "pool_ok S' {c}" using pool_take [of S N c as S'] t p N by (auto simp: tree_def S'_def)
  have nodes: "xa_nodes S' c = new_node s 0 0" "xa_head S' = xa_mk_node c" by (auto simp: S'_def)
  show t': "tree S' {c} (\<lambda>_. 0)"
    using c nodes s by (simp add: tree_def head_ok_def node_ok_def slot_ok_def)
  have "look S' (Suc (sh S' c div 6)) (xa_mk_node c) j = 0" for j using nodes(1) c(1) by (cases "s div 6") auto
  then have "entries S' j = 0" for j using entries_root [OF nodes(2) c(1), of "\<lambda>_. 0" j] by (simp del: look.simps)
  then show "entries S' = entries S" using h by (auto simp: entries_no_root)
qed

text \<open>A new root above the old one.\<close>

lemma raise_root:
  assumes t: "tree S N pre" and h: "xa_head S = xa_mk_node r" "r \<in> N" and s: "sh S r + 6 \<le> 60"
    and p: "xa_pool S = c # as" "c \<noteq> 0"
  defines "S' \<equiv> S\<lparr>xa_pool := as,
      xa_nodes := (xa_nodes S)(c := (new_node (sh S r + 6) 0 0)\<lparr>xn_slots := (\<lambda>_. 0)(0 := xa_mk_node r)\<rparr>,
                               r := (xa_nodes S r)\<lparr>xn_offset := 0, xn_parent := c\<rparr>),
      xa_head := xa_mk_node c\<rparr>"
  shows "tree S' (insert c N) (pre(c := 0))" "entries S' = entries S" "sh S' c = sh S r + 6"
proof -
  have r: "node_addr r" by (rule tree_addr [OF t h(2)])
  have "xa_is_internal (xa_head S)" using h(1) r by simp
  then obtain r' where r': "r' \<in> N" "xa_head S = xa_mk_node r'" "pre r' = 0" "xn_parent (xa_nodes S r') = 0" "node_addr r'"
    by (rule tree_root [OF t])
  have "r' = r" using r'(2,5) h(1) r mk_node_inj by metis
  then have r0: "pre r = 0" "xn_parent (xa_nodes S r) = 0" using r' by auto
  have c: "node_addr c" "c \<notin> N" "pool_ok S' (insert c N)"
    using pool_take [of S N c as S'] t p by (auto simp: tree_def S'_def)
  have cr: "c \<noteq> r" using c(2) h(2) by auto
  show sc: "sh S' c = sh S r + 6" using cr by (simp add: S'_def)
  have f: "sh S' x = sh S x" "sl S' x = sl S x" if "x \<in> N" for x using that c(2) by (auto simp: S'_def)
  have g: "xa_nodes S' x = xa_nodes S x" if "x \<in> N" "x \<noteq> r" for x using that c(2) by (auto simp: S'_def)
  have slc: "sl S' c = (\<lambda>_. 0)(0 := xa_mk_node r)" using cr by (simp add: S'_def)
  have nolink: "sl S n d \<noteq> xa_mk_node r" if "n \<in> N" "d < 64" for n d
    using tree_child_is(1) [OF t that(1,2) _ h(2)] r0(2) node_addr_nz(1) [OF tree_addr [OF t that(1)]]
    by (auto simp: child_ok_def)
  have "node_ok S' (insert c N) (pre(c := 0)) n" if n: "n \<in> N" for n
  proof -
    have "slot_ok S' (insert c N) (pre(c := 0)) n d" if d: "d < 64" for d
    proof -
      have "child_ok S' (pre(c := 0)) n d x" if "x \<in> N" "sl S n d = xa_mk_node x" "child_ok S pre n d x" for x
      proof -
        have "x \<noteq> r" "x \<noteq> c" "n \<noteq> c" using nolink [OF n d] that(1,2) n c(2) by auto
        then show ?thesis using that(3) f(1) [OF n] g [OF that(1)] by (simp add: child_ok_def)
      qed
      then show ?thesis using tree_slot [OF t n d] unfolding slot_ok_def f [OF n] by (metis insertI2)
    qed
    moreover have "n = r \<or> xn_parent (xa_nodes S' n) \<in> N \<and> xn_offset (xa_nodes S' n) < 64
        \<and> sl S' (xn_parent (xa_nodes S' n)) (xn_offset (xa_nodes S' n)) = xa_mk_node n"
      using t n h(1) r tree_addr [OF t n] g [OF n] f(2) by (auto simp: tree_def node_ok_def mk_node_inj)
    moreover have "xn_parent (xa_nodes S' r) = c" "xn_offset (xa_nodes S' r) = 0" by (auto simp: S'_def)
    moreover have "node_addr n" "6 dvd sh S n" "sh S n \<le> 60" "(pre(c := 0)) n * 2 ^ (sh S n + 6) < 2 ^ 64"
      using t n c(2) by (auto simp: tree_def node_ok_def)
    ultimately show ?thesis using f(1) [OF n] slc unfolding node_ok_def by auto
  qed
  moreover have "node_ok S' (insert c N) (pre(c := 0)) c"
  proof -
    have "6 dvd sh S r" using t h(2) by (simp add: tree_def node_ok_def)
    moreover have "child_ok S' (pre(c := 0)) c 0 r" using sc f(1) [OF h(2)] r0 cr by (simp add: child_ok_def S'_def)
    ultimately show ?thesis using c(1) s sc slc h(2) by (auto simp: node_ok_def slot_ok_def S'_def)
  qed
  moreover have "head_ok S' (insert c N) (pre(c := 0))" using c(1) cr by (simp add: head_ok_def S'_def)
  ultimately show t': "tree S' (insert c N) (pre(c := 0))" using c(3) by (simp add: tree_def)
  show "entries S' = entries S"
  proof
    fix j
    have h': "xa_head S' = xa_mk_node c" by (simp add: S'_def)
    have lev: "sh S' c div 6 = Suc (sh S' r div 6)" "6 * Suc (sh S' r div 6) = sh S' c"
      using sc f(1) [OF h(2)] tree_level [OF t h(2)] by simp_all
    have e: "entries S' j = (if covers S' (pre(c := 0)) c j then look S' (Suc (sh S' r div 6)) (sl S' c (digit j (sh S' c))) j else 0)"
      using entries_root [OF h' c(1), of "pre(c := 0)" j] c(1) lev(2) by (simp only: lev(1) look.simps(2) [of S' "Suc _"]) simp
    have e0: "entries S j = (if covers S pre r j then look S (Suc (sh S r div 6)) (xa_mk_node r) j else 0)"
      by (rule entries_root [where pre = pre]) (use h(1) r r0(1) in auto)
    show "entries S' j = entries S j"
    proof (cases "covers S pre r j")
      case True
      then have "unat j div 2 ^ (sh S r + 6) = 0" using r0(1) by (simp add: covers_def)
      moreover have "unat j div 2 ^ (sh S' c + 6) = unat j div 2 ^ (sh S r + 6) div 64"
        by (simp only: sc power_add [of 2 "sh S r + 6" 6] div_mult2_eq) simp
      ultimately have "digit j (sh S' c) = 0" "covers S' (pre(c := 0)) c j"
        by (simp_all only: sc digit_def covers_def) simp_all
      then have "entries S' j = look S' (Suc (sh S r div 6)) (xa_mk_node r) j" using e slc f(1) [OF h(2)] by simp
      also have "\<dots> = look S (Suc (sh S r div 6)) (xa_mk_node r) j"
        by (rule look_frame [OF t _ _ h(2) True, of c 64]) (use f less_not_refl2 [OF digit_less] in auto)
      finally show ?thesis using e0 True by simp
    next
      case False
      then have "covers S' (pre(c := 0)) c j \<Longrightarrow> digit j (sh S' c) \<noteq> 0"
        using sc r0(1) split_prefix [of j "sh S r + 6"] by (auto simp: covers_def)
      then show ?thesis using e e0 False slc by auto
    qed
  qed
qed

text \<open>A first node above the value of index zero.\<close>

lemma raise_value:
  assumes t: "tree S N pre" and h: "\<not> xa_is_internal (xa_head S)" and p: "xa_pool S = c # as" "c \<noteq> 0"
  defines "S' \<equiv> S\<lparr>xa_pool := as,
      xa_nodes := (xa_nodes S)(c := (new_node 0 0 0)\<lparr>xn_slots := (\<lambda>_. 0)(0 := xa_head S)\<rparr>), xa_head := xa_mk_node c\<rparr>"
  shows "tree S' {c} (\<lambda>_. 0)" "entries S' = entries S" "sh S' c = 0"
proof -
  have N: "N = {}" by (rule tree_no_root [OF t h])
  have c: "node_addr c" "pool_ok S' {c}" using pool_take [of S N c as S'] t p N by (auto simp: tree_def S'_def)
  have nodes: "sh S' c = 0" "sl S' c = (\<lambda>_. 0)(0 := xa_head S)" "xn_parent (xa_nodes S' c) = 0" "xa_head S' = xa_mk_node c"
    by (auto simp: S'_def)
  show "sh S' c = 0" by (fact nodes)
  show "tree S' {c} (\<lambda>_. 0)"
    using c nodes h by (simp add: tree_def head_ok_def node_ok_def slot_ok_def)
  show "entries S' = entries S"
  proof
    fix j
    have "digit j 0 = 0 \<and> covers S' (\<lambda>_. 0) c j \<longleftrightarrow> j = 0"
      using split_prefix [of j 0] nodes(1) by (auto simp: covers_def digit_def word_unat_eq_iff)
    then show "entries S' j = entries S j"
      using entries_root [OF nodes(4) c(1), of "\<lambda>_. 0" j] entries_no_root [OF h, of j] nodes(1,2) c(1) by auto
  qed
qed

section \<open>Allocation\<close>

abbreviation no_memory :: "xa_state \<Rightarrow> xa_state" where
  "no_memory xas \<equiv> xas_set_err (- 12) xas"

lemma no_memory_node [simp]: "xas_node (no_memory xas) = XA_ERROR (- 12)" "xa_index (no_memory xas) = xa_index xas"
  by (simp_all add: xas_set_err_def)

lemma error_facts: "xas_invalid xas" "xas_error xas = - 12" if "xas_node xas = XA_ERROR (- 12)"
  using that by (simp_all add: xas_invalid_def xas_error_def xa_err_def xa_is_err_def xa_is_internal_def xa_mk_internal_def
      XA_ERROR_def signed_push_bit_eq)

lemma valid_node: "node_addr (xas_node xas) \<Longrightarrow> \<not> xas_invalid xas" "xas_node xas = 0 \<Longrightarrow> \<not> xas_invalid xas"
  by (simp_all add: node_addr_def xas_invalid_def)

lemma valid_no_error: "\<not> xas_invalid xas \<Longrightarrow> xas_error xas = 0"
  by (auto simp: xas_invalid_def xas_error_def xa_err_def xa_is_err_def xa_is_internal_def)

text \<open>An allocation fails, and the array stays as it is, or it takes an address of the pool.\<close>

definition out_of_memory :: "xarray \<Rightarrow> xarray \<Rightarrow> bool" where
  "out_of_memory S S' \<longleftrightarrow> xa_pool S' = [] \<or> 0 \<in> set (xa_pool S)"

abbreviation takes :: "xarray \<Rightarrow> xarray \<Rightarrow> bool" where
  "takes S S' \<equiv> set (xa_pool S') \<subseteq> set (xa_pool S)"

lemma out_of_memory_trans: "out_of_memory S' S'' \<Longrightarrow> takes S S' \<Longrightarrow> out_of_memory S S''"
  by (auto simp: out_of_memory_def)

lemma tree_drop:
  assumes "tree S N pre" "xa_pool S = 0 # as"
  shows "tree (S\<lparr>xa_pool := as\<rparr>) N pre" "entries (S\<lparr>xa_pool := as\<rparr>) = entries S"
proof -
  have "look (S\<lparr>xa_pool := as\<rparr>) k e j = look S k e j" for k e j by (induction k arbitrary: e) auto
  then show "entries (S\<lparr>xa_pool := as\<rparr>) = entries S" by (auto simp: entries_def Let_def simp del: look.simps)
  have "node_ok (S\<lparr>xa_pool := as\<rparr>) N pre n \<longleftrightarrow> node_ok S N pre n" for n
    by (simp add: node_ok_def slot_ok_def child_ok_def)
  then show "tree (S\<lparr>xa_pool := as\<rparr>) N pre" using assms by (simp add: tree_def head_ok_def pool_ok_def)
qed

lemma xas_alloc_cases:
  assumes t: "tree S N pre" and v: "\<not> xas_invalid xas" and s: "s \<le> 64"
  obtains (fail) S' where "xas_alloc S xas s = Inr (S', no_memory xas, 0)" "tree S' N pre" "entries S' = entries S" "out_of_memory S S'"
  | (got) a as where "xa_pool S = a # as" "a \<noteq> 0"
      "xas_alloc S xas s = Inr (S\<lparr>xa_pool := as, xa_nodes := (xa_nodes S)
         (a := new_node s (if xas_node xas = 0 then 0 else xa_offset xas) (xas_node xas))\<rparr>, xas, a)"
proof (cases "xa_pool S")
  case Nil
  then show ?thesis using fail [of S] t v by (simp add: out_of_memory_def xas_alloc_def xa_cache_alloc_def Let_def)
next
  case (Cons a as)
  show ?thesis
  proof (cases "a = 0")
    case True
    then show ?thesis using fail [of "S\<lparr>xa_pool := as\<rparr>"] tree_drop [OF t] v Cons
      by (simp add: out_of_memory_def xas_alloc_def xa_cache_alloc_def Let_def)
  next
    case False
    then show ?thesis using got [OF Cons] v s Cons by (simp add: xas_alloc_def xa_cache_alloc_def xa_node_ctor_def Let_def)
  qed
qed

section \<open>Expanding\<close>

definition head_pos :: "xarray \<Rightarrow> nat \<times> addr" where
  "head_pos S = (if xa_is_node (xa_head S) then (sh S (xa_to_node (xa_head S)) + 6, xa_to_node (xa_head S)) else (0, 0))"

definition reaches :: "xarray \<Rightarrow> u64 \<Rightarrow> bool" where
  "reaches S i \<longleftrightarrow> \<not> i > max_index S (xa_head S)"

text \<open>The value or node at the head gets a new root: one step of the loop.\<close>

lemma expand_step:
  assumes t: "tree S N pre" and x: "xas_node xas = 0" and hp: "head_pos S = (s, n)" and less: "\<not> reaches S (xa_index xas)"
  obtains (fail) S' where "expand_loop S xas (xa_head S) s n = Some (Inr (S', no_memory xas, None))" "tree S' N pre"
      "entries S' = entries S" "out_of_memory S S'"
  | (more) S' N' pre' c where "expand_loop S xas (xa_head S) s n = expand_loop S' xas (xa_head S') (s + 6) c"
      "tree S' N' pre'" "entries S' = entries S" "head_pos S' = (s + 6, c)" "xa_head S' \<noteq> 0" "s \<le> 60" "takes S S'"
proof -
  have s: "s \<le> 60"
  proof (cases "xa_is_internal (xa_head S)")
    case True
    obtain r where r: "r \<in> N" "xa_head S = xa_mk_node r" "node_addr r" using tree_root [OF t True] .
    have "2 ^ (sh S r + 6) \<le> unat (xa_index xas)" using less max_index_gt [OF r(3)] r(2) by (simp add: reaches_def)
    also have "\<dots> < 2 ^ 64" using unsigned_less [of "xa_index xas"] by simp
    finally have "sh S r + 6 < 64" by (metis nat_power_less_imp_less zero_less_numeral)
    then have "sh S r \<le> 54" using tree_level [OF t r(1)] by presburger
    then show ?thesis using hp r by (auto simp: head_pos_def)
  next
    case False
    then show ?thesis using hp by (simp add: head_pos_def not_node)
  qed
  then have s64: "s \<le> 64" "\<not> s > 64" by auto
  have gt: "xa_index xas > max_index S (xa_head S)" using less by (simp add: reaches_def)
  show ?thesis
  proof (cases rule: xas_alloc_cases [OF t valid_node(2) [OF x] s64(1)])
    case (1 S')
    then show ?thesis using fail gt s64(2) by (simp add: expand_loop.simps [of S])
  next
    case (2 c as)
    have cs: "node_addr c" "c \<notin> N" using pool_take [of S N c as "S\<lparr>xa_pool := as\<rparr>"] t 2(1,2) by (auto simp: tree_def)
    show ?thesis
    proof (cases "xa_is_internal (xa_head S)")
      case True
      obtain r where r: "r \<in> N" "xa_head S = xa_mk_node r" "node_addr r" using tree_root [OF t True] .
      have sr: "s = sh S r + 6" using hp r by (auto simp: head_pos_def)
      have cr: "c \<noteq> r" using cs(2) r(1) by auto
      define T where "T = S\<lparr>xa_pool := as,
          xa_nodes := (xa_nodes S)(c := (new_node (sh S r + 6) 0 0)\<lparr>xn_slots := (\<lambda>_. 0)(0 := xa_mk_node r)\<rparr>,
                                   r := (xa_nodes S r)\<lparr>xn_offset := 0, xn_parent := c\<rparr>),
          xa_head := xa_mk_node c\<rparr>"
      have "expand_loop S xas (xa_head S) s n = expand_loop T xas (xa_mk_node c) (s + 6) c"
        unfolding T_def
        by (subst expand_loop.simps) (use gt s64 r(2,3) cr in \<open>simp add: 2 x sr [symmetric] Let_def XA_CHUNK_SHIFT_def\<close>)
      moreover have "xa_head T = xa_mk_node c" "head_pos T = (s + 6, c)" "takes S T"
        using cs(1) cr 2(1) by (auto simp: T_def head_pos_def sr)
      moreover have "tree T (insert c N) (pre(c := 0))" "entries T = entries S"
        unfolding T_def using raise_root(1,2) [OF t r(2,1) _ 2(1,2)] s sr by auto
      ultimately show ?thesis using more [of T c "insert c N" "pre(c := 0)"] s cs(1) by simp
    next
      case False
      have sz: "s = 0" using hp False by (simp add: head_pos_def not_node)
      define T where "T = S\<lparr>xa_pool := as,
          xa_nodes := (xa_nodes S)(c := (new_node 0 0 0)\<lparr>xn_slots := (\<lambda>_. 0)(0 := xa_head S)\<rparr>), xa_head := xa_mk_node c\<rparr>"
      have "expand_loop S xas (xa_head S) s n = expand_loop T xas (xa_mk_node c) (s + 6) c"
        unfolding T_def by (subst expand_loop.simps) (use gt 2 x False sz in \<open>simp add: Let_def XA_CHUNK_SHIFT_def not_node\<close>)
      moreover have "xa_head T = xa_mk_node c" "head_pos T = (s + 6, c)" "takes S T"
        using cs(1) 2(1) by (auto simp: T_def head_pos_def sz)
      ultimately show ?thesis using more [of T c "{c}" "\<lambda>_. 0"] raise_value(1,2) [OF t False 2(1,2), folded T_def] s cs(1)
        by simp
    qed
  qed
qed

lemma expand_loop_ok:
  "tree S N pre \<Longrightarrow> xas_node xas = 0 \<Longrightarrow> head_pos S = (s, n) \<Longrightarrow> xa_head S \<noteq> 0 \<Longrightarrow>
   (\<exists>S' N' pre'. tree S' N' pre' \<and> entries S' = entries S
      \<and> (expand_loop S xas (xa_head S) s n = Some (Inr (S', no_memory xas, None)) \<and> out_of_memory S S'
         \<or> expand_loop S xas (xa_head S) s n = Some (Inr (S', xas, Some (head_pos S')))
           \<and> reaches S' (xa_index xas) \<and> xa_head S' \<noteq> 0 \<and> takes S S'))"
proof (induction "66 - s" arbitrary: S N pre s n rule: less_induct)
  case less
  show ?case
  proof (cases "reaches S (xa_index xas)")
    case True
    then have "expand_loop S xas (xa_head S) s n = Some (Inr (S, xas, Some (head_pos S)))"
      using less.prems(3) by (subst expand_loop.simps) (simp add: reaches_def)
    then show ?thesis using less.prems True by blast
  next
    case False
    show ?thesis
    proof (cases rule: expand_step [OF less.prems(1-3) False])
      case (1 S')
      then show ?thesis by blast
    next
      case (2 S' N' pre' c)
      have "66 - (s + 6) < 66 - s" using 2(6) by simp
      from less.hyps [OF this 2(2) less.prems(2) 2(4,5)] show ?thesis
        unfolding 2(1,3) using out_of_memory_trans [OF _ 2(7)] 2(7) by (meson subset_trans)
    qed
  qed
qed

lemma shift_bound:
  assumes "6 dvd s" "2 ^ (s + 6) \<le> unat (i :: u64)"
  shows "s + 6 \<le> 60"
proof -
  note assms(2)
  also have "unat i < 2 ^ 64" using unsigned_less [of i] by simp
  finally have "s + 6 < 64" by (metis nat_power_less_imp_less zero_less_numeral)
  then show ?thesis using assms(1) by presburger
qed

lemma empty_shift_ok: "6 dvd s \<Longrightarrow> s \<le> 60 \<Longrightarrow> 6 dvd empty_shift i s \<and> empty_shift i s \<le> 60 \<and> unat i < 2 ^ (empty_shift i s + 6)"
proof (induction i s rule: empty_shift.induct)
  case (1 i s)
  have c: "drop_bit s i \<ge> of_nat XA_CHUNK_SIZE \<longleftrightarrow> 2 ^ (s + 6) \<le> unat i"
  proof -
    have "drop_bit s i \<ge> of_nat XA_CHUNK_SIZE \<longleftrightarrow> drop_bit s i > XA_CHUNK_MASK"
      by (simp only: XA_CHUNK_SIZE_def XA_CHUNK_MASK_def word_less_nat_alt word_le_nat_alt) auto
    then show ?thesis by (simp only: drop_gt)
  qed
  show ?case
  proof (cases "drop_bit s i \<ge> of_nat XA_CHUNK_SIZE")
    case True
    then have "empty_shift i s = empty_shift i (s + 6)" by (simp add: empty_shift.simps [of i s] XA_CHUNK_SHIFT_def)
    moreover have "s + 6 \<le> 60" by (rule shift_bound [of _ i]) (use True 1 c in auto)
    moreover have "6 dvd s + 6" using 1 by simp
    ultimately show ?thesis using 1(1) [OF True] by (simp add: XA_CHUNK_SHIFT_def)
  next
    case False
    then show ?thesis using 1 c by (simp add: empty_shift.simps [of i s])
  qed
qed

section \<open>Creating a slot\<close>

text \<open>What \<^verbatim>\<open>xas_create\<close> leaves: the same entries, and a slot for the index or an error.\<close>

definition created :: "xarray \<Rightarrow> xa_state \<Rightarrow> xarray \<Rightarrow> xa_state \<Rightarrow> u64 \<Rightarrow> bool" where
  "created S xas S' xas' e \<longleftrightarrow> (\<exists>N' pre'. tree S' N' pre' \<and> entries S' = entries S \<and> xa_index xas' = xa_index xas
     \<and> (xas_node xas' = XA_ERROR (- 12) \<and> out_of_memory S S'
        \<or> e = entries S (xa_index xas)
          \<and> (at_slot S' N' pre' xas' \<and> sh S' (xas_node xas') = 0
             \<or> xas_node xas' = 0 \<and> xa_index xas = 0 \<and> \<not> xa_is_internal (xa_head S'))))"

lemma created_trans:
  "created S' xas' S'' xas'' e \<Longrightarrow> entries S' = entries S \<Longrightarrow> takes S S' \<Longrightarrow> xa_index xas' = xa_index xas
   \<Longrightarrow> created S xas S'' xas'' e"
  unfolding created_def using out_of_memory_trans by metis

lemma create_loop_ok:
  "tree S N pre \<Longrightarrow> at_slot S N pre xas \<Longrightarrow> xa_shift xas = 0 \<Longrightarrow>
   \<exists>S' xas' e. create_loop (sh S (xas_node xas)) (sl S (xas_node xas) (xa_offset xas)) (NodeSlot (xas_node xas) (xa_offset xas)) S xas
       = Inr (S', xas', e) \<and> created S xas S' xas' e"
proof (induction "sh S (xas_node xas)" arbitrary: S N pre xas rule: less_induct)
  case less
  define m q i where "m = xas_node xas" and "q = xa_offset xas" and "i = xa_index xas"
  note t = less.prems(1)
  have m: "m \<in> N" "covers S pre m i" "q = digit i (sh S m)" "q < 64"
    using less.prems(2) by (auto simp: at_slot_def m_def q_def i_def)
  have a: "node_addr m" by (rule tree_addr [OF t m(1)])
  note step = create_loop.simps [of "sh S m" "sl S m q" "NodeSlot m q" S xas]
  have "\<exists>S' xas' e. create_loop (sh S m) (sl S m q) (NodeSlot m q) S xas = Inr (S', xas', e) \<and> created S xas S' xas' e"
  proof (cases "sh S m = 0")
    case True
    then have "entries S i = sl S m q" using entries_at [OF t m(1,2)] a m(3) by simp
    then show ?thesis using step True t less.prems(2) less.prems(3) by (auto simp: created_def m_def q_def i_def)
  next
    case False
    then have pos: "sh S m > xa_shift xas" using less.prems(3) by simp
    show ?thesis
    proof (cases "sl S m q = 0")
      case True
      have s64: "sh S m - 6 \<le> 64" using tree_level [OF t m(1)] by linarith
      have valid: "\<not> xas_invalid xas" using valid_node(1) [of xas] a by (simp add: m_def)
      show ?thesis
      proof (cases rule: xas_alloc_cases [OF t valid s64])
        case (1 S')
        then show ?thesis using step pos True by (auto simp: created_def XA_CHUNK_SHIFT_def Let_def xas_set_err_def)
      next
        case (2 c as)
        define T where "T = put_slot (NodeSlot m q) (xa_mk_node c)
          (S\<lparr>xa_pool := as, xa_nodes := (xa_nodes S)(c := new_node (sh S m - 6) q m)\<rparr>)"
        note link = link_node [OF t m(1,4) False True covers_room [OF m(2), folded m(3)] 2(1,2), folded T_def]
        define x where "x = xas\<lparr>xas_node := c, xa_offset := digit i (sh T c)\<rparr>"
        have "create_loop (sh S m) (sl S m q) (NodeSlot m q) S xas
            = create_loop (sh T (xas_node x)) (sl T (xas_node x) (xa_offset x)) (NodeSlot (xas_node x) (xa_offset x)) T x"
          using step pos True 2 node_addr_nz(1) [OF a] link(4,5)
          by (simp add: XA_CHUNK_SHIFT_def Let_def descend_eq T_def [symmetric] m_def [symmetric] q_def [symmetric] i_def [symmetric] x_def
              del: put_slot.simps)
        moreover have "at_slot T (insert c N) (pre(c := 64 * pre m + q)) x"
          using link(3) [OF m(2) m(3) [symmetric]] by (simp add: at_slot_def x_def i_def)
        moreover have "sh T (xas_node x) < sh S (xas_node xas)" "xa_shift x = 0" "xa_index x = xa_index xas"
          using link(4) False less.prems(3) by (simp_all add: x_def m_def)
        moreover have "takes S T" using 2(1) by (auto simp: T_def)
        ultimately show ?thesis using less.hyps [of T x, OF _ link(1)] created_trans [OF _ link(2)] by metis
      qed
    next
      case nz: False
      from tree_child [OF t m(1,4) False nz] obtain c where c: "c \<in> N" "sl S m q = xa_mk_node c" "child_ok S pre m q c" .
      define x where "x = xas\<lparr>xas_node := c, xa_offset := digit i (sh S c)\<rparr>"
      have "sh S c + 6 = sh S m" using c(3) by (simp add: child_ok_def)
      then have "create_loop (sh S m) (sl S m q) (NodeSlot m q) S xas
          = create_loop (sh S (xas_node x)) (sl S (xas_node x) (xa_offset x)) (NodeSlot (xas_node x) (xa_offset x)) S x"
        using step pos nz c(2) tree_addr [OF t c(1)]
        by (simp add: XA_CHUNK_SHIFT_def Let_def descend_eq i_def [symmetric] x_def) (metis add_diff_cancel_right')
      moreover have "at_slot S N pre x"
        using covers_child [OF m(2), of c] c m(3) by (simp add: at_slot_def x_def i_def)
      moreover have "sh S (xas_node x) < sh S (xas_node xas)" "xa_shift x = 0" "xa_index x = xa_index xas"
        using c(3) less.prems(3) by (simp_all add: x_def m_def child_ok_def)
      ultimately show ?thesis using less.hyps [of S x, OF _ t] created_trans [of S x _ _ _ S xas] by (metis subset_refl)
    qed
  qed
  then show ?case by (simp add: m_def q_def)
qed

text \<open>The walk from a root that covers the index.\<close>

lemma create_from_root:
  assumes t: "tree S N pre" and r: "xa_head S = xa_mk_node r" "r \<in> N" "covers S pre r (xa_index xas)" and x: "xa_shift xas = 0"
  shows "\<exists>S' xas' e. create_loop (sh S r + 6) (xa_head S) HeadSlot S xas = Inr (S', xas', e) \<and> created S xas S' xas' e"
proof -
  define x where "x = xas\<lparr>xas_node := r, xa_offset := digit (xa_index xas) (sh S r)\<rparr>"
  have "create_loop (sh S r + 6) (xa_head S) HeadSlot S xas
      = create_loop (sh S (xas_node x)) (sl S (xas_node x) (xa_offset x)) (NodeSlot (xas_node x) (xa_offset x)) S x"
    using r tree_addr [OF t r(2)] x
    by (subst create_loop.simps) (simp add: descend_eq XA_CHUNK_SHIFT_def Let_def x_def)
  moreover have "at_slot S N pre x" "xa_shift x = 0" "xa_index x = xa_index xas" using r x by (simp_all add: at_slot_def x_def)
  ultimately show ?thesis using create_loop_ok [OF t, of x] created_trans [of S x _ _ _ S xas] by (metis subset_refl)
qed

lemma create_empty:
  assumes t: "tree S N pre" and h: "xa_head S = 0" and x: "xas_node xas = 0" "xa_shift xas = 0"
  shows "\<exists>S' xas' e. create_loop (empty_shift (xa_index xas) 0 + 6) 0 HeadSlot S xas = Inr (S', xas', e) \<and> created S xas S' xas' e"
proof -
  define s where "s = empty_shift (xa_index xas) 0"
  have s: "6 dvd s" "s \<le> 60" "unat (xa_index xas) < 2 ^ (s + 6)" using empty_shift_ok [of 0 "xa_index xas"] by (auto simp: s_def)
  have step: "create_loop (s + 6) 0 HeadSlot S xas = obind (xas_alloc S xas s) (\<lambda>(S, xas, node).
      if node = 0 then Inr (S, xas, 0)
      else obind (xas_descend (put_slot HeadSlot (xa_mk_node node) S) xas node) (\<lambda>(xas, entry).
             create_loop s entry (NodeSlot node (xa_offset xas)) (put_slot HeadSlot (xa_mk_node node) S) xas))"
    using x by (subst create_loop.simps) (simp add: XA_CHUNK_SHIFT_def Let_def del: put_slot.simps cong: if_cong)
  have "s \<le> 64" using s(2) by simp
  from t valid_node(2) [OF x(1)] this show ?thesis
  proof (cases rule: xas_alloc_cases)
    case (fail S')
    then show ?thesis using step by (auto simp: created_def s_def [symmetric] xas_set_err_def)
  next
    case (got c as)
    define T where "T = put_slot HeadSlot (xa_mk_node c) (S\<lparr>xa_pool := as, xa_nodes := (xa_nodes S)(c := new_node s 0 0)\<rparr>)"
    define x' where "x' = xas\<lparr>xas_node := c, xa_offset := digit (xa_index xas) (sh T c)\<rparr>"
    note first = first_node [OF t h s(1,2) got(1,2), folded T_def]
    have n: "sh T c = s" "sl T c = (\<lambda>_. 0)" by (simp_all add: T_def)
    have "create_loop (s + 6) 0 HeadSlot S xas
        = create_loop (sh T (xas_node x')) (sl T (xas_node x') (xa_offset x')) (NodeSlot (xas_node x') (xa_offset x')) T x'"
      using step got x n by (simp add: descend_eq x'_def T_def [symmetric] del: put_slot.simps)
    moreover have "at_slot T {c} (\<lambda>_. 0) x'" using s(3) n by (simp add: at_slot_def x'_def covers_root)
    moreover have "xa_shift x' = 0" "xa_index x' = xa_index xas" using x by (simp_all add: x'_def)
    moreover have "takes S T" using got(1) by (auto simp: T_def)
    ultimately show ?thesis using create_loop_ok [OF first(1), of x'] created_trans [OF _ first(2)] by (metis s_def)
  qed
qed

lemma xas_create_top:
  assumes t: "tree S N pre" and x: "xas_top (xas_node xas)" "xa_shift xas = 0"
  shows "\<exists>S' xas' e. xas_create S xas True = Some (Inr (S', xas', e)) \<and> created S xas S' xas' e"
proof -
  define x0 where "x0 = xas\<lparr>xas_node := 0\<rparr>"
  have x0: "xas_node x0 = 0" "xa_shift x0 = 0" "xa_index x0 = xa_index xas" using x(2) by (simp_all add: x0_def)
  have res: ?thesis if "xas_create S xas True = Some r" "\<exists>S' xas' e. r = Inr (S', xas', e) \<and> created S x0 S' xas' e" for r
    using that x0(3) by (auto simp: created_def)
  have create: "xas_create S xas True = Option.bind (xas_expand S x0 (xa_head S)) (\<lambda>r. Some (obind r (\<lambda>(S, xas, shift).
      case shift of None \<Rightarrow> Inr (S, xas, 0) | Some shift \<Rightarrow> create_loop shift (xa_head S) HeadSlot S xas)))"
    using x(1) by (simp add: xas_create_def x0_def Let_def)
  show ?thesis
  proof (cases "xa_head S = 0")
    case True
    show ?thesis
    proof (cases "xa_index xas = 0")
      case i0: True
      then have "xas_create S xas True = Some (Inr (S, x0, 0))"
        using create True x0 by (simp add: xas_expand_def create_loop.simps)
      moreover have "created S x0 S x0 0" using t True i0 x0 by (auto simp: created_def entries_no_root)
      ultimately show ?thesis using res by blast
    next
      case False
      then have "xas_create S xas True = Some (create_loop (empty_shift (xa_index x0) 0 + 6) 0 HeadSlot S x0)"
        using create True x0 by (simp add: xas_expand_def XA_CHUNK_SHIFT_def)
      then show ?thesis using res create_empty [OF t True x0(1,2)] by blast
    qed
  next
    case False
    obtain s n where hp: "head_pos S = (s, n)" by fastforce
    have ex: "xas_expand S x0 (xa_head S) = Option.bind (expand_loop S x0 (xa_head S) s n) (\<lambda>r. Some (obind r (\<lambda>(S, xas, res).
        case res of None \<Rightarrow> Inr (S, xas, None) | Some (shift, node) \<Rightarrow> Inr (S, xas\<lparr>xas_node := node\<rparr>, Some shift))))"
      using False hp by (auto simp: xas_expand_def head_pos_def x0_def XA_CHUNK_SHIFT_def split: if_splits)
    from expand_loop_ok [OF t x0(1) hp False] obtain S' N' pre' where e: "tree S' N' pre'" "entries S' = entries S"
      "expand_loop S x0 (xa_head S) s n = Some (Inr (S', no_memory x0, None)) \<and> out_of_memory S S'
       \<or> expand_loop S x0 (xa_head S) s n = Some (Inr (S', x0, Some (head_pos S'))) \<and> reaches S' (xa_index x0)
         \<and> xa_head S' \<noteq> 0 \<and> takes S S'"
      by blast
    from e(3) show ?thesis
    proof
      assume "expand_loop S x0 (xa_head S) s n = Some (Inr (S', no_memory x0, None)) \<and> out_of_memory S S'"
      then have "xas_create S xas True = Some (Inr (S', no_memory x0, 0))" "created S x0 S' (no_memory x0) 0"
        using create ex e(1,2) by (auto simp: created_def)
      then show ?thesis using res by blast
    next
      assume l: "expand_loop S x0 (xa_head S) s n = Some (Inr (S', x0, Some (head_pos S'))) \<and> reaches S' (xa_index x0)
        \<and> xa_head S' \<noteq> 0 \<and> takes S S'"
      define x1 where "x1 = x0\<lparr>xas_node := snd (head_pos S')\<rparr>"
      have c: "xas_create S xas True = Some (create_loop (fst (head_pos S')) (xa_head S') HeadSlot S' x1)"
        using create ex l by (simp add: x1_def split: prod.split)
      have x1: "xa_shift x1 = 0" "xa_index x1 = xa_index x0" using x0 by (simp_all add: x1_def)
      show ?thesis
      proof (cases "xa_is_internal (xa_head S')")
        case True
        obtain r where r: "r \<in> N'" "xa_head S' = xa_mk_node r" "pre' r = 0" "node_addr r" using tree_root [OF e(1) True] .
        have "covers S' pre' r (xa_index x1)" using l max_index_gt [OF r(4)] r x1(2) by (auto simp: reaches_def covers_root)
        from create_from_root [OF e(1) r(2,1) this x1(1)] show ?thesis
          using res c r created_trans [OF _ e(2) _ x1(2)] l by (fastforce simp: head_pos_def)
      next
        case False
        then have "xa_index x0 = 0" using l by (simp add: reaches_def max_index_def not_node word_gt_0)
        moreover have "xas_create S xas True = Some (Inr (S', x0, xa_head S'))"
          using c False x0 by (simp add: head_pos_def not_node create_loop.simps x1_def x0_def)
        moreover have "created S' x0 S' x0 (xa_head S')"
          using e(1) False calculation(1) x0(1) entries_no_root [OF False, of 0] by (auto simp: created_def)
        ultimately show ?thesis using res created_trans [OF _ e(2)] l by blast
      qed
    qed
  qed
qed

section \<open>Storing\<close>

lemma xas_create_ok:
  assumes t: "tree S N pre" and x: "xas_top (xas_node xas) \<or> at_slot S N pre xas" "xa_shift xas = 0"
  shows "\<exists>S' xas' e. xas_create S xas True = Some (Inr (S', xas', e)) \<and> created S xas S' xas' e"
  using x(1)
proof
  assume "at_slot S N pre xas"
  then have a: "node_addr (xas_node xas)" "xa_offset xas < 64" using tree_addr [OF t] by (auto simp: at_slot_def)
  have "xas_create S xas True = Some (create_loop (sh S (xas_node xas)) (sl S (xas_node xas) (xa_offset xas))
          (NodeSlot (xas_node xas) (xa_offset xas)) S xas)"
    using a node_addr_nz(2) [OF a(1)] valid_no_error [OF valid_node(1) [OF a(1)]]
    by (simp add: xas_create_def xa_entry_def XA_CHUNK_SIZE_def Let_def)
  then show ?thesis using create_loop_ok [OF t \<open>at_slot S N pre xas\<close> x(2)] by auto
qed (rule xas_create_top [OF t _ x(2)])

lemma put_head:
  assumes t: "tree S N pre" and h: "\<not> xa_is_internal (xa_head S)" and v: "\<not> xa_is_internal v"
  shows "tree (put_slot HeadSlot v S) N pre" "entries (put_slot HeadSlot v S) = (entries S)(0 := v)"
proof -
  have "N = {}" by (rule tree_no_root [OF t h])
  then show "tree (put_slot HeadSlot v S) N pre" using t v by (simp add: tree_def head_ok_def pool_ok_def)
  show "entries (put_slot HeadSlot v S) = (entries S)(0 := v)" using h v by (auto simp: entries_no_root)
qed

text \<open>What a store leaves: an error and the same entries, or the entry in its place.\<close>

definition stored :: "xarray \<Rightarrow> u64 \<Rightarrow> u64 \<Rightarrow> xarray \<Rightarrow> xa_state \<Rightarrow> u64 \<Rightarrow> bool" where
  "stored S i v S' xas' old \<longleftrightarrow> (\<exists>N' pre'. tree S' N' pre')
     \<and> (xas_error xas' = - 12 \<and> out_of_memory S S' \<and> entries S' = entries S
        \<or> xas_error xas' = 0 \<and> entries S' = (entries S)(i := v) \<and> old = entries S i)"

text \<open>The second half of \<^verbatim>\<open>xas_store\<close>: writing the slot.\<close>

definition store_end :: "u64 \<Rightarrow> xarray \<Rightarrow> xa_state \<Rightarrow> u64 \<Rightarrow> (xarray \<times> xa_state \<times> u64) outcome" where
  "store_end v S xas first =
     (if xas_invalid xas then Inr (S, xas, first)
      else if first = v then Inr (S, xas, first)
      else Inr (put_slot (if xas_node xas \<noteq> 0 then NodeSlot (xas_node xas) (xa_offset xas) else HeadSlot) v S, xas, first))"

lemma store_tail:
  assumes c: "created S xas S' xas' e" and v: "\<not> xa_is_internal v"
  shows "\<exists>S'' old. store_end v S' xas' e = Inr (S'', xas', old) \<and> stored S (xa_index xas) v S'' xas' old"
proof -
  obtain N' pre' where t: "tree S' N' pre'" "entries S' = entries S" "xa_index xas' = xa_index xas"
    and d: "xas_node xas' = XA_ERROR (- 12) \<and> out_of_memory S S' \<or> e = entries S (xa_index xas)
       \<and> (at_slot S' N' pre' xas' \<and> sh S' (xas_node xas') = 0
          \<or> xas_node xas' = 0 \<and> xa_index xas = 0 \<and> \<not> xa_is_internal (xa_head S'))"
    using c by (auto simp: created_def)
  show ?thesis
  proof (cases "xas_node xas' = XA_ERROR (- 12)")
    case True
    then have "out_of_memory S S'" using d valid_node [of xas'] tree_addr [OF t(1), of "xas_node xas'"] error_facts(1) [OF True]
      by (auto simp: at_slot_def)
    then show ?thesis using error_facts [OF True] t by (auto simp: stored_def store_end_def)
  next
    case False
    with d have e: "e = entries S (xa_index xas)" and pos: "at_slot S' N' pre' xas' \<and> sh S' (xas_node xas') = 0
          \<or> xas_node xas' = 0 \<and> xa_index xas = 0 \<and> \<not> xa_is_internal (xa_head S')" by auto
    have nz: "xas_node xas' \<noteq> 0" "node_addr (xas_node xas')" if "at_slot S' N' pre' xas'"
      using that tree_addr [OF t(1)] node_addr_nz(1) by (auto simp: at_slot_def)
    have valid: "\<not> xas_invalid xas'" using pos nz(2) valid_node by auto
    have same: "(entries S)(xa_index xas := v) = entries S" if "e = v" using that e by auto
    define slot where "slot = (if xas_node xas' \<noteq> 0 then NodeSlot (xas_node xas') (xa_offset xas') else HeadSlot)"
    have "tree (put_slot slot v S') N' pre' \<and> entries (put_slot slot v S') = (entries S)(xa_index xas := v)"
      using pos
    proof
      assume a: "at_slot S' N' pre' xas' \<and> sh S' (xas_node xas') = 0"
      then have b: "xas_node xas' \<in> N'" "xa_offset xas' < 64" "covers S' pre' (xas_node xas') (xa_index xas)"
        "digit (xa_index xas) 0 = xa_offset xas'" using t(3) by (auto simp: at_slot_def)
      have "slot = NodeSlot (xas_node xas') (xa_offset xas')" using nz(1) a by (simp add: slot_def)
      with write_value [OF t(1) b(1,2) conjunct2 [OF a] v] b(3,4) t(2) show ?thesis by simp
    next
      assume a: "xas_node xas' = 0 \<and> xa_index xas = 0 \<and> \<not> xa_is_internal (xa_head S')"
      with put_head [OF t(1) _ v] t(2) show ?thesis by (simp add: slot_def)
    qed
    then show ?thesis unfolding store_end_def slot_def [symmetric]
      using valid valid_no_error [OF valid] same e t(1,2) by (auto simp: stored_def Let_def simp del: fun_upd_apply)
  qed
qed

lemma xas_store_value:
  assumes t: "tree S N pre" and v: "\<not> xa_is_internal v" "v \<noteq> 0"
    and x: "xas_top (xas_node xas) \<or> at_slot S N pre xas" "xa_shift xas = 0"
  shows "\<exists>S' xas' old. xas_store S xas v = Some (Inr (S', xas', old)) \<and> stored S (xa_index xas) v S' xas' old"
proof -
  have "\<not> xa_is_node v \<and> \<not> xa_is_zero v" using v(1) zero_entry_internal by (auto simp: not_node xa_is_zero_def)
  moreover obtain S' xas' e where c: "xas_create S xas True = Some (Inr (S', xas', e))" "created S xas S' xas' e"
    using xas_create_ok [OF t x] by blast
  ultimately have "xas_store S xas v = Some (store_end v S' xas' e)"
    using v(2) by (simp add: xas_store_def store_end_def)
  then show ?thesis using store_tail [OF c(2) v(1)] by metis
qed

lemma xas_store_null:
  assumes t: "tree S N pre"
  shows "\<exists>S' xas' old. xas_store S (XA_STATE i) 0 = Some (Inr (S', xas', old)) \<and> stored S i 0 S' xas' old"
proof -
  have "xas_node (XA_STATE i) = XAS_RESTART" "xa_shift (XA_STATE i) = 0" "xa_index (XA_STATE i) = i" by (simp_all add: XA_STATE_def)
  with xas_load_ok [OF t, of "XA_STATE i"] obtain xas' where l: "xas_load S (XA_STATE i) = Some (Inr (xas', entries S i))"
    and p: "at_place S N pre xas'" "xa_index xas' = i"
      "at_slot S N pre xas' \<Longrightarrow> sh S (xas_node xas') = 0 \<or> entries S i = 0" by auto
  have st: "xas_store S (XA_STATE i) 0 = Some (store_end 0 S xas' (entries S i))"
    using l by (simp add: xas_store_def store_end_def)
  show ?thesis
  proof (cases "entries S i = 0")
    case True
    have "xas_error xas' = 0"
      using p(1) tree_addr [OF t] valid_no_error valid_node
      by (auto simp: at_place_def at_slot_def) (simp add: xas_error_def XAS_BOUNDS_def xa_err_def xa_is_err_def xa_is_internal_def)
    then show ?thesis using True t st by (auto simp: stored_def store_end_def fun_upd_idem)
  next
    case False
    then have "created S (XA_STATE i) S xas' (entries S i)"
      using p t by (auto simp: created_def at_place_def XA_STATE_def)
    from store_tail [OF this not_internal_0(1)] st \<open>xa_index (XA_STATE i) = i\<close> show ?thesis by metis
  qed
qed

section \<open>The array as a map\<close>

text \<open>A store of a new operation state that reports no error.\<close>

definition xa_put :: "xarray \<Rightarrow> u64 \<Rightarrow> u64 \<Rightarrow> xarray option" where
  "xa_put S i v =
     (case xas_store S (XA_STATE i) v of
        Some (Inr (S', xas, _)) \<Rightarrow> if xas_error xas = 0 then Some S' else None
      | _ \<Rightarrow> None)"

text \<open>An array with one node and two entries.\<close>

definition example_xa :: xarray where
  "example_xa = \<lparr>xa_head = xa_mk_node 8192,
     xa_nodes = (\<lambda>_. (new_node 0 0 0)\<lparr>xn_slots := (\<lambda>_. 0)(3 := 4096, 9 := 12288)\<rparr>), xa_pool = [16384, 20480]\<rparr>"

lemma example_xa_inv: "xa_inv example_xa"
proof -
  have "node_addr 8192" "node_addr 16384" "node_addr 20480" by (simp_all add: node_addr_def)
  then have "tree example_xa {8192} (\<lambda>_. 0)"
    by (simp add: tree_def head_ok_def node_ok_def slot_ok_def pool_ok_def example_xa_def xa_is_internal_def [of 4096] xa_is_internal_def [of 12288])
  then show ?thesis by (auto simp: xa_inv_def)
qed

lemma store_any:
  assumes t: "tree S N pre" and v: "\<not> xa_is_internal v"
  shows "\<exists>S' xas' old. xas_store S (XA_STATE i) v = Some (Inr (S', xas', old)) \<and> stored S i v S' xas' old"
proof (cases "v = 0")
  case True
  then show ?thesis using xas_store_null [OF t] by simp
next
  case False
  have "xas_top (xas_node (XA_STATE i))" "xa_shift (XA_STATE i) = 0" "xa_index (XA_STATE i) = i"
    by (simp_all add: XA_STATE_def xas_top_def)
  then show ?thesis using xas_store_value [OF t v False, of "XA_STATE i"] by simp
qed

interpretation xam: index_map xa_inv entries "\<lambda>v. \<not> xa_is_internal v" xa_put
proof
  fix S v i S'
  assume a: "xa_inv S" "\<not> xa_is_internal v" "xa_put S i v = Some S'"
  then obtain N pre where "tree S N pre" by (auto simp: xa_inv_def)
  from store_any [OF this a(2), of i] a(3) show "xa_inv S' \<and> entries S' = (entries S)(i := v)"
    unfolding xa_inv_def by (auto simp: xa_put_def stored_def split: if_splits) blast+
qed

text \<open>
  C6. \<^verbatim>\<open>xas_store\<close> of an entry that is no internal entry, started from a fresh operation state on a
  well-formed array, always returns, keeps the array well-formed, and either leaves every entry as it
  was and reports \<^verbatim>\<open>-ENOMEM\<close>, which happens only when the node cache has no node left, or makes exactly
  the given index hold the new entry and returns the old one; what holds is what \<^verbatim>\<open>xa_load\<close> returns.
\<close>

theorem xas_store_correct:
  assumes "xa_inv S" and "\<not> xa_is_internal v"
  shows "\<exists>S' xas' old. xas_store S (XA_STATE i) v = Some (Inr (S', xas', old)) \<and> xa_inv S'
    \<and> (xas_error xas' = - 12 \<and> (xa_pool S' = [] \<or> 0 \<in> set (xa_pool S)) \<and> (\<forall>j. xa_load S' j = xa_load S j)
       \<or> xas_error xas' = 0 \<and> xa_load S i = Some (Inr old)
         \<and> (\<forall>j. xa_load S' j = (if j = i then Some (Inr v) else xa_load S j)))"
proof -
  obtain N pre where t: "tree S N pre" using assms(1) by (auto simp: xa_inv_def)
  obtain S' xas' old where s: "xas_store S (XA_STATE i) v = Some (Inr (S', xas', old))" "stored S i v S' xas' old"
    using store_any [OF t assms(2)] by blast
  obtain N' pre' where t': "tree S' N' pre'" using s(2) by (auto simp: stored_def)
  show ?thesis
    using s xa_load_entries [OF t] xa_load_entries [OF t'] t'
    by (intro exI [of _ S'] exI [of _ xas'] exI [of _ old]) (auto simp: stored_def out_of_memory_def xa_inv_def)
qed

theorem xas_store_correct_witness:
  "\<exists>S' xas' old. xas_store example_xa (XA_STATE 70000) 24576 = Some (Inr (S', xas', old)) \<and> xa_inv S'
    \<and> (xas_error xas' = - 12 \<and> (xa_pool S' = [] \<or> 0 \<in> set (xa_pool example_xa)) \<and> (\<forall>j. xa_load S' j = xa_load example_xa j)
       \<or> xas_error xas' = 0 \<and> xa_load example_xa 70000 = Some (Inr old)
         \<and> (\<forall>j. xa_load S' j = (if j = 70000 then Some (Inr 24576) else xa_load example_xa j)))"
  by (rule xas_store_correct [OF example_xa_inv]) (simp add: xa_is_internal_def)

end
