(* ===== verification/XarrayFind.thy ===== *)
theory XarrayFind
  imports XarrayProps
begin

text \<open>
  Iterating over an XArray: \<^verbatim>\<open>xas_find\<close> and \<^verbatim>\<open>xas_next_entry\<close> stop, and \<^verbatim>\<open>xas_for_each\<close> visits the entries of an
  interval of indices once each, in ascending order, also where the index wraps around at the end of
  the words.
\<close>

section \<open>Positions\<close>

text \<open>The first index below a slot, as an unbounded number; slot 64 is the end of the node.\<close>

definition pos :: "xarray \<Rightarrow> (addr \<Rightarrow> nat) \<Rightarrow> addr \<Rightarrow> nat \<Rightarrow> nat" where
  "pos S pre n q = (64 * pre n + q) * 2 ^ sh S n"

lemma pos_Suc: "pos S pre n (Suc q) = pos S pre n q + 2 ^ sh S n"
  by (simp add: pos_def algebra_simps)

lemma pos_child: "child_ok S pre n q c \<Longrightarrow> pos S pre c 0 = pos S pre n q"
proof -
  assume a: "child_ok S pre n q c"
  then have "sh S n = sh S c + 6" "pre c = 64 * pre n + q" by (auto simp: child_ok_def)
  then show ?thesis by (simp add: pos_def power_add)
qed

lemma pos_climb: "child_ok S pre n q c \<Longrightarrow> pos S pre c 64 = pos S pre n (Suc q)"
proof -
  assume a: "child_ok S pre n q c"
  then have "sh S n = sh S c + 6" "pre c = 64 * pre n + q" by (auto simp: child_ok_def)
  then show ?thesis by (simp add: pos_def power_add algebra_simps)
qed

lemma pos_covers:
  assumes "q < 64" "pos S pre n q \<le> unat j" "unat j < pos S pre n (Suc q)"
  shows "covers S pre n j" "digit j (sh S n) = q"
proof -
  have "unat j div 2 ^ sh S n = 64 * pre n + q"
    using assms(2,3) by (intro div_nat_eqI) (simp_all add: pos_def mult.commute)
  moreover have "unat j div 2 ^ (sh S n + 6) = unat j div 2 ^ sh S n div 64" by (simp add: power_add div_mult2_eq)
  ultimately show "covers S pre n j" "digit j (sh S n) = q" using assms(1) by (simp_all add: covers_def digit_def)
qed

lemma covers_pos:
  assumes "covers S pre n j"
  shows "pos S pre n (digit j (sh S n)) \<le> unat j" "unat j < pos S pre n (Suc (digit j (sh S n)))"
proof -
  have e: "64 * pre n + digit j (sh S n) = unat j div 2 ^ sh S n" using assms split_prefix [of j "sh S n"] by (simp add: covers_def)
  then show "pos S pre n (digit j (sh S n)) \<le> unat j" by (simp add: pos_def)
  have "unat j < (unat j div 2 ^ sh S n + 1) * 2 ^ sh S n" by (simp add: dividend_less_div_times add.commute)
  then show "unat j < pos S pre n (Suc (digit j (sh S n)))" using e by (simp add: pos_def)
qed

text \<open>No entry lies below an empty slot.\<close>

lemma empty_slot:
  assumes t: "tree S N pre" and n: "n \<in> N" "q < 64" "sl S n q = 0"
    and j: "pos S pre n q \<le> unat j" "unat j < pos S pre n (Suc q)"
  shows "entries S j = 0"
proof -
  have c: "covers S pre n j" "digit j (sh S n) = q" using pos_covers [OF n(2) j] by auto
  have "look S k 0 j = 0" for k by (cases k) auto
  then show ?thesis
    using entries_at [OF t n(1) c(1)] tree_level [OF t n(1)] tree_addr [OF t n(1)] n(3) c(2) by simp
qed

text \<open>A slot past the last word is empty.\<close>

lemma far_slot:
  assumes t: "tree S N pre" and n: "n \<in> N" "q < 64" and far: "2 ^ 64 \<le> pos S pre n q"
  shows "sl S n q = 0"
proof (rule ccontr)
  have b: "pre x * 2 ^ (sh S x + 6) < 2 ^ 64" if "x \<in> N" for x using t that by (simp add: tree_def node_ok_def)
  assume nz: "sl S n q \<noteq> 0"
  show False
  proof (cases "sh S n = 0")
    case True
    then have "pre n * 64 < 2 ^ 64" using b [OF n(1)] by simp
    then have "64 * pre n + q < 2 ^ 64" using n(2) by simp
    then show False using far True by (simp add: pos_def)
  next
    case False
    from tree_child [OF t n False nz] obtain c where c: "c \<in> N" "child_ok S pre n q c" by metis
    have "pos S pre c 0 = pre c * 2 ^ (sh S c + 6)" by (simp add: pos_def power_add)
    then show False using b [OF c(1)] pos_child [OF c(2)] far by simp
  qed
qed

lemma beyond_root:
  assumes t: "tree S N pre" and r: "r \<in> N" "xn_parent (xa_nodes S r) = 0" and j: "pos S pre r 64 \<le> unat j"
  shows "entries S j = 0"
proof -
  have h: "xa_head S = xa_mk_node r"
    using t r tree_addr [OF t, of 0] by (auto simp: tree_def node_ok_def node_addr_def)
  have a: "node_addr r" by (rule tree_addr [OF t r(1)])
  then have "xa_is_internal (xa_head S)" using h by simp
  from tree_root [OF t this] have p: "pre r = 0" using h a mk_node_inj by metis
  then have "\<not> covers S pre r j" using j by (simp add: covers_root pos_def power_add)
  then show ?thesis using entries_root [OF h a, of pre j] p by simp
qed

section \<open>Moving the index\<close>

lemma clear_low: "(of_nat x :: u64) AND push_bit s (NOT 63) = of_nat (x div 2 ^ (s + 6) * 2 ^ (s + 6))"
proof -
  define m where "m = s + 6"
  have "(63 :: u64) = mask 6" by (simp add: mask_eq_exp_minus_1)
  then have "push_bit s (NOT 63 :: u64) = push_bit s (NOT (mask 6))" by (simp only:)
  also have "\<dots> = NOT (mask m)" unfolding m_def by (intro bit_word_eqI) (auto simp: bit_simps)
  finally have "(of_nat x :: u64) AND push_bit s (NOT 63) = of_nat x AND NOT (mask m)" by (simp only:)
  also have "\<dots> = of_nat x - take_bit m (of_nat x)"
  proof -
    define w :: u64 where "w = of_nat x"
    have "(w AND mask m) AND (w AND NOT (mask m)) = 0" "(w AND mask m) OR (w AND NOT (mask m)) = w"
      by (intro bit_word_eqI; auto simp: bit_simps)+
    then have "(w AND mask m) + (w AND NOT (mask m)) = w"
      using word_plus_and_or [of "w AND mask m" "w AND NOT (mask m)"] by simp
    then show ?thesis by (simp add: w_def [symmetric] take_bit_eq_mask algebra_simps)
  qed
  also have "take_bit m (of_nat x :: u64) = of_nat (take_bit m x)" by (rule take_bit_of_nat)
  also have "take_bit m x = x mod 2 ^ m" by (rule take_bit_eq_mod)
  also have "(of_nat x - of_nat (x mod 2 ^ m) :: u64) = of_nat (x - x mod 2 ^ m)" by (simp add: of_nat_diff)
  also have "x - x mod 2 ^ m = x div 2 ^ m * 2 ^ m" by (simp add: minus_mod_eq_div_mult)
  finally show ?thesis by (simp add: m_def)
qed

lemma advance_eq:
  assumes "xa_index xas = of_nat x" "x div 2 ^ (sh S (xas_node xas) + 6) = pre (xas_node xas)"
  shows "xas_advance S xas = xas\<lparr>xa_offset := Suc (xa_offset xas),
     xa_index := of_nat (pos S pre (xas_node xas) (Suc (xa_offset xas)))\<rparr>"
proof -
  define n q where "n = xas_node xas" and "q = Suc (xa_offset xas)"
  have "(of_nat x :: u64) AND push_bit (sh S n) (NOT 63) = of_nat (pre n * 2 ^ (sh S n + 6))"
    using clear_low [of x "sh S n"] assms(2) by (simp add: n_def)
  moreover have "push_bit (sh S n) (of_nat q :: u64) = of_nat (q * 2 ^ sh S n)" by (simp add: push_bit_eq_mult)
  moreover have "pre n * 2 ^ (sh S n + 6) + q * 2 ^ sh S n = pos S pre n q" by (simp add: pos_def power_add algebra_simps)
  ultimately show ?thesis
    using assms(1) by (simp add: xas_advance_def xas_move_index_def XA_CHUNK_MASK_def Let_def n_def [symmetric] q_def [symmetric] of_nat_add [symmetric] del: of_nat_add of_nat_mult of_nat_Suc)
qed

section \<open>Finding the next entry\<close>

definition at_entry :: "xarray \<Rightarrow> addr set \<Rightarrow> (addr \<Rightarrow> nat) \<Rightarrow> xa_state \<Rightarrow> bool" where
  "at_entry S N pre xas \<longleftrightarrow> at_slot S N pre xas \<and> sh S (xas_node xas) = 0
     \<or> xas_node xas = 0 \<and> xa_index xas = 0 \<and> \<not> xa_is_internal (xa_head S)"

definition next_from :: "xarray \<Rightarrow> addr set \<Rightarrow> (addr \<Rightarrow> nat) \<Rightarrow> nat \<Rightarrow> u64 \<Rightarrow> xa_state \<Rightarrow> u64 \<Rightarrow> bool" where
  "next_from S N pre x lim xas e \<longleftrightarrow>
     e = 0 \<and> (\<forall>j. x \<le> unat j \<longrightarrow> j \<le> lim \<longrightarrow> entries S j = 0)
     \<or> e \<noteq> 0 \<and> at_entry S N pre xas \<and> e = entries S (xa_index xas)
       \<and> x \<le> unat (xa_index xas) \<and> xa_index xas \<le> lim \<and> (\<forall>j. x \<le> unat j \<longrightarrow> j < xa_index xas \<longrightarrow> entries S j = 0)"

lemma next_from_skip:
  assumes "next_from S N pre y lim xas e" "x \<le> y" "\<And>j. x \<le> unat j \<Longrightarrow> unat j < y \<Longrightarrow> entries S j = 0"
  shows "next_from S N pre x lim xas e"
  using assms unfolding next_from_def by (meson le_trans not_le)

text \<open>How far a walk is from its end.\<close>

definition left :: "xarray \<Rightarrow> (addr \<Rightarrow> nat) \<Rightarrow> addr \<Rightarrow> nat \<Rightarrow> nat" where
  "left S pre n q = (2 ^ 67 - pos S pre n q) * 400 + (if q = 64 then 200 - sh S n else sh S n)"

lemma pos_bound:
  assumes t: "tree S N pre" and n: "n \<in> N" and q: "q \<le> 64"
  shows "pos S pre n q < 2 ^ 67"
proof -
  have b: "pre n * 2 ^ (sh S n + 6) < 2 ^ 64" "sh S n \<le> 60" using t n by (auto simp: tree_def node_ok_def)
  have "pos S pre n q \<le> pos S pre n 64" using q by (simp add: pos_def)
  also have "\<dots> = pre n * 2 ^ (sh S n + 6) + 2 ^ (sh S n + 6)" by (simp add: pos_def power_add algebra_simps)
  also have "\<dots> < 2 ^ 64 + 2 ^ 66"
    using b(1) power_increasing [of "sh S n + 6" 66 "2 :: nat"] b(2) by linarith
  finally show ?thesis by simp
qed

lemma left_advance:
  assumes "tree S N pre" "n \<in> N" "q < 64"
  shows "left S pre n (Suc q) < left S pre n q"
proof -
  have "pos S pre n (Suc q) < 2 ^ 67" using pos_bound [OF assms(1,2), of "Suc q"] assms(3) by simp
  moreover have "pos S pre n q < pos S pre n (Suc q)" by (simp add: pos_Suc)
  moreover have "sh S n \<le> 60" using tree_level [OF assms(1,2)] by simp
  ultimately have "(2 ^ 67 - pos S pre n (Suc q)) * 400 + 400 \<le> (2 ^ 67 - pos S pre n q) * 400" by linarith
  moreover have "(if Suc q = 64 then 200 - sh S n else sh S n) \<le> 200" using \<open>sh S n \<le> 60\<close> by simp
  ultimately show ?thesis unfolding left_def by linarith
qed

lemma left_child:
  assumes "tree S N pre" "n \<in> N" "q < 64" "child_ok S pre n q c"
  shows "left S pre c 0 < left S pre n q"
  using assms pos_child [OF assms(4)] by (simp add: left_def child_ok_def)

lemma left_climb:
  assumes "tree S N pre" "n \<in> N" "p \<in> N" "child_ok S pre p q n" "q < 64"
  shows "left S pre p (Suc q) < left S pre n 64"
proof -
  have "sh S p = sh S n + 6" "sh S p \<le> 60" using assms tree_level [OF assms(1,3)] by (auto simp: child_ok_def)
  then have "(if Suc q = 64 then 200 - sh S p else sh S p) < (if (64 :: nat) = 64 then 200 - sh S n else sh S n)"
    by (cases "q = 63") auto
  then show ?thesis unfolding left_def pos_climb [OF assms(4)] by linarith
qed

lemma find_loop_ok:
  assumes t: "tree S N pre"
  shows "xas_node xas \<in> N \<Longrightarrow> xa_offset xas \<le> 64 \<Longrightarrow> xa_index xas = of_nat (pos S pre (xas_node xas) (xa_offset xas)) \<Longrightarrow>
    \<exists>xas' e. find_loop S xas lim = Some (Inr (xas', e))
      \<and> next_from S N pre (pos S pre (xas_node xas) (xa_offset xas)) lim xas' e"
proof (induction "left S pre (xas_node xas) (xa_offset xas)" arbitrary: xas rule: less_induct)
  case less
  define n q x where "n = xas_node xas" and "q = xa_offset xas" and "x = pos S pre n q"
  have n: "n \<in> N" "q \<le> 64" "xa_index xas = of_nat x" using less.prems by (simp_all add: n_def q_def x_def)
  have a: "node_addr n" "n \<noteq> 0" using tree_addr [OF t n(1)] node_addr_nz(1) by auto
  note step = find_loop.simps [of S xas lim]
  have ux: "unat (xa_index xas) = x" if "x < 2 ^ 64"
    using n(3) that by (simp add: unat_of_nat)
  have "\<exists>xas' e. find_loop S xas lim = Some (Inr (xas', e)) \<and> next_from S N pre x lim xas' e"
  proof (cases "xa_index xas \<le> lim")
    case False
    then have "next_from S N pre x lim xas 0"
    proof (cases "x < 2 ^ 64")
      case True
      then show ?thesis using False ux by (auto simp: next_from_def word_le_nat_alt)
    next
      case far: False
      have "unat j < 2 ^ 64" for j :: u64 using unsigned_less [of j] by simp
      then have "\<not> x \<le> unat j" for j :: u64 using far by (meson le_less_trans)
      then show ?thesis by (simp add: next_from_def)
    qed
    then show ?thesis using step False a(2) by (simp add: n_def)
  next
    case le: True
    show ?thesis
    proof (cases "q = 64")
      case True
      define x' where "x' = xas\<lparr>xa_offset := xn_offset (xa_nodes S n) + 1, xas_node := xn_parent (xa_nodes S n)\<rparr>"
      have st: "find_loop S xas lim = find_loop S x' lim"
        using step le a(2) True by (simp add: n_def q_def XA_CHUNK_SIZE_def x'_def)
      show ?thesis
      proof (cases "xn_parent (xa_nodes S n) = 0")
        case root: True
        then have "find_loop S x' lim = Some (Inr (x'\<lparr>xas_node := XAS_BOUNDS\<rparr>, 0))"
          by (subst find_loop.simps) (simp add: x'_def)
        moreover have "next_from S N pre x lim (x'\<lparr>xas_node := XAS_BOUNDS\<rparr>) 0"
          using beyond_root [OF t n(1) root] True by (simp add: next_from_def x_def)
        ultimately show ?thesis using st by auto
      next
        case False
        define p d where "p = xn_parent (xa_nodes S n)" and "d = xn_offset (xa_nodes S n)"
        have "xa_head S \<noteq> xa_mk_node n"
          using tree_root [OF t] a(1) False mk_node_inj by (metis internal_mk)
        then have p: "p \<in> N" "d < 64" "sl S p d = xa_mk_node n"
          using t n(1) by (auto simp: tree_def node_ok_def p_def d_def)
        have c: "child_ok S pre p d n" by (rule tree_child_is [OF t p n(1)])
        have "left S pre (xas_node x') (xa_offset x') < left S pre (xas_node xas) (xa_offset xas)"
          using left_climb [OF t n(1) p(1) c p(2)] True by (simp add: x'_def n_def q_def p_def d_def)
        from less.hyps [OF this] p(1,2) n(3) pos_climb [OF c] True show ?thesis
          by (simp add: x'_def st p_def d_def x_def)
      qed
    next
      case False
      then have q: "q < 64" using n(2) by simp
      have st: "find_loop S xas lim = (if xa_is_node (sl S n q) then find_loop S (xas\<lparr>xas_node := xa_to_node (sl S n q), xa_offset := 0\<rparr>) lim
          else if sl S n q \<noteq> 0 then Some (Inr (xas, sl S n q)) else find_loop S (xas_advance S xas) lim)"
        using step le a(2) q by (simp add: n_def q_def XA_CHUNK_SIZE_def xa_entry_def)
      show ?thesis
      proof (cases "sl S n q = 0")
        case True
        have adv: "xas_advance S xas = xas\<lparr>xa_offset := Suc q, xa_index := of_nat (pos S pre n (Suc q))\<rparr>"
        proof -
          have "x div 2 ^ (sh S n + 6) = pre n"
          proof -
            have "x div 2 ^ (sh S n + 6) = x div 2 ^ sh S n div 64" by (simp add: power_add div_mult2_eq)
            also have "x div 2 ^ sh S n = 64 * pre n + q" by (simp add: x_def pos_def)
            finally show ?thesis using q by simp
          qed
          then show ?thesis using advance_eq [of xas x S pre] n(3) by (simp add: n_def q_def)
        qed
        have "left S pre (xas_node (xas_advance S xas)) (xa_offset (xas_advance S xas)) < left S pre (xas_node xas) (xa_offset xas)"
          using left_advance [OF t n(1) q] by (simp add: adv n_def q_def)
        from less.hyps [OF this] obtain xas' e where "find_loop S (xas_advance S xas) lim = Some (Inr (xas', e))"
          "next_from S N pre (pos S pre n (Suc q)) lim xas' e"
          using n(1) q by (auto simp: adv n_def [symmetric])
        then show ?thesis
          using st True next_from_skip [of S N pre _ lim xas' e x] empty_slot [OF t n(1) q True]
          by (auto simp: x_def pos_Suc)
      next
        case nz: False
        then have small: "x < 2 ^ 64" using far_slot [OF t n(1) q] by (force simp: x_def)
        show ?thesis
        proof (cases "sh S n = 0")
          case True
          then have v: "\<not> xa_is_node (sl S n q)" using tree_leaf [OF t n(1) q] not_node by simp
          have c: "covers S pre n (xa_index xas)" "digit (xa_index xas) (sh S n) = q"
            using pos_covers [OF q, of S pre n "xa_index xas"] ux [OF small] by (auto simp: x_def pos_Suc)
          then have "entries S (xa_index xas) = sl S n q" using entries_at [OF t n(1) c(1)] True a(1) by simp
          then have "next_from S N pre x lim xas (sl S n q)"
            using nz c True n(1) le ux [OF small]
            by (auto simp: next_from_def at_entry_def at_slot_def n_def q_def word_less_nat_alt)
          then show ?thesis using st v nz by simp
        next
          case False
          from tree_child [OF t n(1) q False nz] obtain c where c: "c \<in> N" "sl S n q = xa_mk_node c" "child_ok S pre n q c" .
          have ca: "node_addr c" by (rule tree_addr [OF t c(1)])
          define x' where "x' = xas\<lparr>xas_node := c, xa_offset := 0\<rparr>"
          have "left S pre (xas_node x') (xa_offset x') < left S pre (xas_node xas) (xa_offset xas)"
            using left_child [OF t n(1) q c(3)] by (simp add: x'_def n_def q_def)
          from less.hyps [OF this] c(1) n(3) pos_child [OF c(3)] show ?thesis
            using st c(2) ca by (simp add: x'_def x_def)
        qed
      qed
    qed
  qed
  then show ?case by (simp add: n_def q_def x_def)
qed

text \<open>From an empty or already visited slot, the search goes on behind it.\<close>

lemma find_after:
  assumes t: "tree S N pre" and p: "at_slot S N pre xas"
  shows "\<exists>xas' e. find_loop S (xas_advance S xas) lim = Some (Inr (xas', e))
    \<and> next_from S N pre (pos S pre (xas_node xas) (Suc (xa_offset xas))) lim xas' e"
proof -
  have n: "xas_node xas \<in> N" "covers S pre (xas_node xas) (xa_index xas)" "xa_offset xas < 64"
    using p by (auto simp: at_slot_def)
  have "xas_advance S xas = xas\<lparr>xa_offset := Suc (xa_offset xas), xa_index := of_nat (pos S pre (xas_node xas) (Suc (xa_offset xas)))\<rparr>"
    by (rule advance_eq [of _ "unat (xa_index xas)"]) (use n(2) in \<open>simp_all add: covers_def\<close>)
  then show ?thesis using find_loop_ok [OF t, of "xas_advance S xas" lim] n by simp
qed

lemma at_slot_node: "tree S N pre \<Longrightarrow> at_slot S N pre xas \<Longrightarrow> node_addr (xas_node xas)"
  using tree_addr by (simp add: at_slot_def)

lemma node_addr_marks: "node_addr n \<Longrightarrow> n \<noteq> XAS_BOUNDS \<and> n \<noteq> XAS_RESTART \<and> \<not> xas_not_node n"
  by (auto simp: node_addr_def XAS_BOUNDS_def XAS_RESTART_def xas_not_node_def)

text \<open>The first search.\<close>

lemma xas_find_start:
  assumes t: "tree S N pre"
  shows "\<exists>xas' e. xas_find S (XA_STATE i) lim = Some (Inr (xas', e)) \<and> next_from S N pre (unat i) lim xas' e"
proof -
  define x where "x = XA_STATE i"
  have x: "xas_node x = XAS_RESTART" "xa_shift x = 0" "xa_index x = i" by (simp_all add: x_def XA_STATE_def)
  have err: "xas_error x = 0" "XAS_RESTART \<noteq> XAS_BOUNDS" "XAS_RESTART \<noteq> 0"
    using restart_facts(2) [OF x(1)] by (simp_all add: XAS_RESTART_def XAS_BOUNDS_def)
  show ?thesis
  proof (cases "i > lim")
    case True
    then have "xas_find S x lim = Some (Inr (set_bounds x))" using x err by (simp add: xas_find_def)
    moreover have "next_from S N pre (unat i) lim y 0" for y using True by (auto simp: next_from_def word_less_nat_alt word_le_nat_alt)
    ultimately show ?thesis by (auto simp: set_bounds_def x_def)
  next
    case False
    from xas_load_ok [OF t x(1,2)] obtain xas' where l: "xas_load S x = Some (Inr (xas', entries S i))"
      "at_place S N pre xas'" "xa_index xas' = i" and s: "at_slot S N pre xas' \<Longrightarrow>
        sl S (xas_node xas') (xa_offset xas') = entries S i \<and> (sh S (xas_node xas') = 0 \<or> entries S i = 0)"
      unfolding x(3) by blast
    have f: "xas_find S x lim = (if entries S i \<noteq> 0 \<or> xas_not_node (xas_node xas') then Some (Inr (xas', entries S i))
        else find_loop S (xas_advance S xas') lim)"
      using False x err l(1) by (simp add: xas_find_def)
    show ?thesis
    proof (cases "at_slot S N pre xas'")
      case at: True
      have nn: "\<not> xas_not_node (xas_node xas')" using node_addr_marks at_slot_node [OF t at] by blast
      show ?thesis
      proof (cases "entries S i = 0")
        case True
        let ?n = "xas_node xas'" and ?q = "xa_offset xas'"
        from find_after [OF t at, of lim] obtain y e where y: "find_loop S (xas_advance S xas') lim = Some (Inr (y, e))"
          "next_from S N pre (pos S pre ?n (Suc ?q)) lim y e" by blast
        have c: "?n \<in> N" "covers S pre ?n i" "?q = digit i (sh S ?n)" "?q < 64" using at l(3) by (auto simp: at_slot_def)
        have b: "pos S pre ?n ?q \<le> unat i" "unat i < pos S pre ?n (Suc ?q)" using covers_pos [OF c(2)] c(3) by simp_all
        have "next_from S N pre (unat i) lim y e"
        proof (rule next_from_skip [OF y(2)])
          fix j :: u64
          assume "unat i \<le> unat j" "unat j < pos S pre ?n (Suc ?q)"
          then show "entries S j = 0" using empty_slot [OF t c(1,4)] s [OF at] True b(1) by simp
        qed (use b(2) in simp)
        then show ?thesis using f nn True y(1) by (auto simp: x_def)
      next
        case nz: False
        then have "next_from S N pre (unat i) lim xas' (entries S i)"
          using at s l(3) False by (auto simp: next_from_def at_entry_def word_less_nat_alt word_le_nat_alt)
        then show ?thesis using f nz by (simp add: x_def)
      qed
    next
      case no: False
      then have p: "xas_node xas' = 0 \<and> i = 0 \<and> \<not> xa_is_internal (xa_head S)
          \<or> xas_node xas' = XAS_BOUNDS \<and> (\<forall>j. i \<le> j \<longrightarrow> entries S j = 0)"
        using l(2,3) by (auto simp: at_place_def)
      then have fx: "xas_find S x lim = Some (Inr (xas', entries S i))" using f by (auto simp: xas_not_node_def XAS_BOUNDS_def)
      moreover have "next_from S N pre (unat i) lim xas' (entries S i)"
        using p
      proof
        assume h: "xas_node xas' = 0 \<and> i = 0 \<and> \<not> xa_is_internal (xa_head S)"
        then have "\<forall>j. j \<noteq> 0 \<longrightarrow> entries S j = 0" by (simp add: entries_no_root)
        then show ?thesis using h l(3) by (cases "entries S 0 = 0") (auto simp: next_from_def at_entry_def, metis)
      next
        assume "xas_node xas' = XAS_BOUNDS \<and> (\<forall>j. i \<le> j \<longrightarrow> entries S j = 0)"
        then show ?thesis by (auto simp: next_from_def word_le_nat_alt)
      qed
      ultimately show ?thesis by (auto simp: x_def)
    qed
  qed
qed

text \<open>The searches behind an entry.\<close>

lemma leaf_digit: "of_nat (digit i 0) = i AND XA_CHUNK_MASK"
proof -
  have "unat (i AND XA_CHUNK_MASK) = digit i 0" using get_offset_digit [of i "new_node 0 0 0"] by (simp add: get_offset_def)
  then have "of_nat (digit i 0) = (of_nat (unat (i AND XA_CHUNK_MASK)) :: u64)" by (simp only:)
  then show ?thesis by simp
qed

lemma leaf_pos:
  assumes "at_slot S N pre xas" "sh S (xas_node xas) = 0"
  shows "pos S pre (xas_node xas) (xa_offset xas) = unat (xa_index xas)"
  using assms split_prefix [of "xa_index xas" 0] by (simp add: pos_def at_slot_def covers_def)

lemma xas_find_next:
  assumes t: "tree S N pre" and p: "at_slot S N pre xas" "sh S (xas_node xas) = 0" and l: "xa_index xas \<le> lim"
  shows "\<exists>xas' e. xas_find S xas lim = Some (Inr (xas', e)) \<and> next_from S N pre (Suc (unat (xa_index xas))) lim xas' e"
proof -
  have a: "node_addr (xas_node xas)" by (rule at_slot_node [OF t p(1)])
  have "of_nat (xa_offset xas) = xa_index xas AND XA_CHUNK_MASK" using p leaf_digit by (simp add: at_slot_def)
  then have "xas_find S xas lim = find_loop S (xas_advance S xas) lim"
    using valid_no_error [OF valid_node(1) [OF a]] node_addr_marks [OF a] node_addr_nz(1) [OF a] leD [OF l] p(2)
    by (simp add: xas_find_def)
  moreover have "pos S pre (xas_node xas) (Suc (xa_offset xas)) = Suc (unat (xa_index xas))"
    using leaf_pos [OF p] p(2) by (simp add: pos_Suc)
  ultimately show ?thesis using find_after [OF t p(1), of lim] by simp
qed

lemma leaf_succ:
  assumes p: "at_slot S N pre xas" "sh S (xas_node xas) = 0" and q: "xa_offset xas < 63" and i: "xa_index xas < lim"
  shows "at_slot S N pre (xas\<lparr>xa_offset := xa_offset xas + 1, xa_index := xa_index xas + 1\<rparr>)"
    "unat (xa_index xas + 1) = Suc (unat (xa_index xas))"
proof -
  have "Suc (unat (xa_index xas)) \<le> unat lim" using i by (simp add: word_less_nat_alt)
  also have "unat lim < 2 ^ 64" using unsigned_less [of lim] by simp
  finally show u: "unat (xa_index xas + 1) = Suc (unat (xa_index xas))" by (simp add: unat_word_ariths)
  let ?q = "Suc (xa_offset xas)"
  have "pos S pre (xas_node xas) ?q = unat (xa_index xas + 1)" using leaf_pos [OF p] p(2) u by (simp add: pos_Suc)
  then have "covers S pre (xas_node xas) (xa_index xas + 1)" "digit (xa_index xas + 1) (sh S (xas_node xas)) = ?q"
    using pos_covers [of ?q S pre "xas_node xas" "xa_index xas + 1"] q by (simp_all add: pos_Suc)
  then show "at_slot S N pre (xas\<lparr>xa_offset := xa_offset xas + 1, xa_index := xa_index xas + 1\<rparr>)"
    using p(1) by (simp add: at_slot_def)
qed

lemma next_entry_loop_ok:
  assumes t: "tree S N pre"
  shows "at_slot S N pre xas \<Longrightarrow> sh S (xas_node xas) = 0 \<Longrightarrow> xa_index xas \<le> lim \<Longrightarrow>
    \<exists>xas' e. next_loop S xas (xas_node xas) lim = Some (Inr (xas', e)) \<and> next_from S N pre (Suc (unat (xa_index xas))) lim xas' e"
proof (induction "63 - xa_offset xas" arbitrary: xas rule: less_induct)
  case less
  note p = less.prems(1,2)
  let ?n = "xas_node xas"
  have q: "xa_offset xas < 64" "?n \<in> N" using p by (auto simp: at_slot_def)
  note step = next_loop.simps [of S xas ?n lim]
  have o63: "of_nat (xa_offset xas) = XA_CHUNK_MASK \<longleftrightarrow> xa_offset xas = 63"
    using q(1) by (simp add: XA_CHUNK_MASK_def word_unat_eq_iff unat_of_nat)
  show ?case
  proof (cases "xa_index xas \<ge> lim \<or> xa_offset xas = 63")
    case True
    then show ?thesis using step o63 xas_find_next [OF t p less.prems(3)] by auto
  next
    case False
    then have f: "xa_index xas < lim" "xa_offset xas < 63" using q(1) by auto
    define y e where "y = xas\<lparr>xa_offset := xa_offset xas + 1, xa_index := xa_index xas + 1\<rparr>" and "e = sl S ?n (xa_offset xas + 1)"
    have y: "at_slot S N pre y" "xa_index y = xa_index xas + 1" "xas_node y = ?n" "xa_offset y = xa_offset xas + 1"
      "unat (xa_index y) = Suc (unat (xa_index xas))"
      using leaf_succ [OF p f(2,1)] by (simp_all add: y_def)
    have yl: "xa_index y \<le> lim" using f(1) y(5) by (simp add: word_less_nat_alt word_le_nat_alt)
    have "\<not> xa_is_internal e" using tree_leaf [OF t q(2) _ p(2)] f(2) by (simp add: e_def)
    then have st: "next_loop S xas ?n lim = (if e = 0 then next_loop S y ?n lim else Some (Inr (y, e)))"
      using step f o63 f(1) [unfolded not_le [symmetric]] by (simp add: xa_entry_def XA_CHUNK_SIZE_def y_def e_def Let_def)
    have e: "entries S (xa_index y) = e"
      using entries_at [OF t q(2), of "xa_index y"] y p(2) tree_addr [OF t q(2)] by (simp add: at_slot_def e_def)
    show ?thesis
    proof (cases "e = 0")
      case True
      have "63 - xa_offset y < 63 - xa_offset xas" using y(4) f(2) by simp
      from less.hyps [OF this y(1)] obtain z e' where z: "next_loop S y ?n lim = Some (Inr (z, e'))"
        "next_from S N pre (Suc (unat (xa_index y))) lim z e'" using y(3) p(2) yl by auto
      have "next_from S N pre (Suc (unat (xa_index xas))) lim z e'"
      proof (rule next_from_skip [OF z(2)])
        fix j :: u64
        assume "Suc (unat (xa_index xas)) \<le> unat j" "unat j < Suc (unat (xa_index y))"
        then have "unat j = unat (xa_index y)" using y(5) by simp
        then have "j = xa_index y" by (simp add: word_unat_eq_iff)
        then show "entries S j = 0" using e True by simp
      qed (use y(5) in simp)
      then show ?thesis using st True z(1) by simp
    next
      case nz: False
      then have "next_from S N pre (Suc (unat (xa_index xas))) lim y e"
        using e y yl p(2) by (auto simp: next_from_def at_entry_def word_less_nat_alt)
      then show ?thesis using st nz by simp
    qed
  qed
qed

lemma xas_next_ok:
  assumes t: "tree S N pre" and p: "at_entry S N pre xas" and l: "xa_index xas \<le> lim"
  shows "\<exists>xas' e. xas_next_entry S xas lim = Some (Inr (xas', e)) \<and> next_from S N pre (Suc (unat (xa_index xas))) lim xas' e"
proof (cases "at_slot S N pre xas \<and> sh S (xas_node xas) = 0")
  case True
  then have "\<not> xas_not_node (xas_node xas)" using node_addr_marks [OF at_slot_node [OF t]] by blast
  moreover have "of_nat (xa_offset xas) = xa_index xas AND XA_CHUNK_MASK" using True leaf_digit by (simp add: at_slot_def)
  ultimately have "xas_next_entry S xas lim = next_loop S xas (xas_node xas) lim" using True by (simp add: xas_next_entry_def)
  then show ?thesis using next_entry_loop_ok [OF t _ _ l] True by simp
next
  case False
  then have h: "xas_node xas = 0" "xa_index xas = 0" "\<not> xa_is_internal (xa_head S)" using p by (auto simp: at_entry_def)
  have "xas_next_entry S xas lim = Some (Inr (set_bounds (xas\<lparr>xa_index := 1\<rparr>)))"
    using h valid_no_error [OF valid_node(2) [OF h(1)]]
    by (simp add: xas_next_entry_def xas_find_def xas_not_node_def XAS_BOUNDS_def)
  moreover have "entries S j = 0" if "1 \<le> unat j" for j using that h(3) by (auto simp: entries_no_root)
  then have "next_from S N pre (Suc (unat (xa_index xas))) lim y 0" for y using h(2) by (simp add: next_from_def)
  ultimately show ?thesis by (auto simp: set_bounds_def)
qed

section \<open>Visiting all entries\<close>

definition between :: "xarray \<Rightarrow> nat \<Rightarrow> u64 \<Rightarrow> (u64 \<times> u64) set" where
  "between S x lim = {(j, entries S j) |j. x \<le> unat j \<and> j \<le> lim \<and> entries S j \<noteq> 0}"

lemma between_step:
  assumes "next_from S N pre x lim xas e" "e \<noteq> 0"
  shows "between S x lim = insert (xa_index xas, e) (between S (Suc (unat (xa_index xas))) lim)"
proof -
  let ?i = "xa_index xas"
  have n: "e = entries S ?i" "x \<le> unat ?i" "?i \<le> lim" "\<And>j. x \<le> unat j \<Longrightarrow> j < ?i \<Longrightarrow> entries S j = 0"
    using assms by (auto simp: next_from_def)
  have "x \<le> unat j \<and> j \<le> lim \<and> entries S j \<noteq> 0 \<longleftrightarrow> j = ?i \<or> Suc (unat ?i) \<le> unat j \<and> j \<le> lim \<and> entries S j \<noteq> 0"
    (is "?P j \<longleftrightarrow> j = ?i \<or> ?Q j") for j
  proof (cases "j = ?i")
    case True
    then show ?thesis using n(1-3) assms(2) by metis
  next
    case False
    then have "unat j \<noteq> unat ?i" by (simp add: word_unat_eq_iff)
    then have "j < ?i \<or> Suc (unat ?i) \<le> unat j" unfolding word_less_nat_alt by linarith
    moreover have "\<not> Suc (unat ?i) \<le> unat j" if "j < ?i" using that unfolding word_less_nat_alt by linarith
    moreover have "x \<le> unat j" if "Suc (unat ?i) \<le> unat j" using that n(2) by linarith
    ultimately show ?thesis using n(4) False by metis
  qed
  then have "between S x lim = {(j, entries S j) |j. j = ?i \<or> ?Q j}" unfolding between_def by (simp only:)
  then show ?thesis using n(1) unfolding between_def by auto
qed

lemma for_each_ok:
  assumes t: "tree S N pre"
  shows "next_from S N pre x lim xas e \<Longrightarrow> \<exists>l. for_each_rest S lim xas e = Some (Inr l) \<and> set l = between S x lim
    \<and> sorted_wrt (<) (map fst l) \<and> (\<forall>p \<in> set l. x \<le> unat (fst p))"
proof (induction "2 ^ 64 - x" arbitrary: x xas e rule: less_induct)
  case less
  show ?case
  proof (cases "e = 0")
    case True
    then have "between S x lim = {}" using less.prems by (auto simp: next_from_def between_def)
    then show ?thesis using True by (simp add: for_each_rest.simps)
  next
    case False
    have n: "at_entry S N pre xas" "xa_index xas \<le> lim" "x \<le> unat (xa_index xas)"
      using less.prems False by (auto simp: next_from_def)
    let ?y = "Suc (unat (xa_index xas))"
    from xas_next_ok [OF t n(1,2)] obtain xas' e' where nx: "xas_next_entry S xas lim = Some (Inr (xas', e'))"
      "next_from S N pre ?y lim xas' e'" by blast
    have "unat (xa_index xas) < 2 ^ 64" using unsigned_less [of "xa_index xas"] by simp
    then have "2 ^ 64 - ?y < 2 ^ 64 - x" using n(3) by linarith
    from less.hyps [OF this nx(2)] obtain l where l: "for_each_rest S lim xas' e' = Some (Inr l)" "set l = between S ?y lim"
      "sorted_wrt (<) (map fst l)" "\<forall>p \<in> set l. ?y \<le> unat (fst p)" by blast
    have "for_each_rest S lim xas e = Some (Inr ((xa_index xas, e) # l))"
      using False nx(1) l(1) by (simp add: for_each_rest.simps [of S lim xas])
    moreover have "set ((xa_index xas, e) # l) = between S x lim" using between_step [OF less.prems False] l(2) by simp
    moreover have "sorted_wrt (<) (map fst ((xa_index xas, e) # l))" using l(3,4) by (simp add: word_less_nat_alt Suc_le_eq)
    moreover have "\<forall>p \<in> set ((xa_index xas, e) # l). x \<le> unat (fst p)" using l(4) n(3) by (simp add: le_trans [of x "unat (xa_index xas)"] Suc_leD)
    ultimately show ?thesis by blast
  qed
qed

text \<open>
  C7. \<^verbatim>\<open>xas_for_each\<close> over a well-formed array always ends, also when the interval reaches the last index and
  the index wraps around; it visits the entries of the interval in ascending order, each exactly once,
  and visits nothing else.
\<close>

theorem xas_for_each_correct:
  assumes "xa_inv S"
  shows "\<exists>l. xas_for_each S (XA_STATE i) lim = Some (Inr l) \<and> sorted_wrt (<) (map fst l)
    \<and> set l = {(j, e). i \<le> j \<and> j \<le> lim \<and> e \<noteq> 0 \<and> xa_load S j = Some (Inr e)}"
proof -
  obtain N pre where t: "tree S N pre" using assms by (auto simp: xa_inv_def)
  obtain xas e where f: "xas_find S (XA_STATE i) lim = Some (Inr (xas, e))" "next_from S N pre (unat i) lim xas e"
    using xas_find_start [OF t] by blast
  have "between S (unat i) lim = {(j, e). i \<le> j \<and> j \<le> lim \<and> e \<noteq> 0 \<and> xa_load S j = Some (Inr e)}"
    using xa_load_entries [OF t] by (auto simp: between_def word_le_nat_alt)
  then show ?thesis using for_each_ok [OF t f(2)] f(1) by (auto simp: xas_for_each_def)
qed

theorem xas_for_each_correct_witness:
  "\<exists>l. xas_for_each example_xa (XA_STATE 2) (- 1) = Some (Inr l) \<and> sorted_wrt (<) (map fst l)
    \<and> set l = {(j, e). 2 \<le> j \<and> j \<le> - 1 \<and> e \<noteq> 0 \<and> xa_load example_xa j = Some (Inr e)}"
  by (rule xas_for_each_correct [OF example_xa_inv])

end
