(* ===== verification/RadixTree.thy ===== *)
theory RadixTree
  imports XarrayProps
begin

text \<open>
  The radix tree, \<^verbatim>\<open>src/radix_tree/radix-tree.c\<close> and \<^verbatim>\<open>src/include/radix-tree.h\<close>: a second set of operations on the
  nodes of the XArray. A lookup walks down; an insertion makes the missing nodes, but the tree of an
  insertion never grows upwards: a non-empty tree that is too low ends in a panic. The theorems rest on
  the same invariant as those of the XArray.
\<close>

section \<open>Lookup\<close>

definition radix_tree_is_internal_node :: "u64 \<Rightarrow> bool" where
  "radix_tree_is_internal_node ptr \<longleftrightarrow> ptr AND 3 = 2"

definition entry_to_node :: "u64 \<Rightarrow> addr" where
  "entry_to_node ptr = ptr AND NOT 2"

definition node_to_entry :: "addr \<Rightarrow> u64" where
  "node_to_entry ptr = ptr OR 2"

definition shift_maxindex :: "nat \<Rightarrow> u64" where
  "shift_maxindex shift = push_bit shift 64 - 1"

definition node_maxindex :: "xa_node \<Rightarrow> u64" where
  "node_maxindex node = shift_maxindex (xn_shift node)"

text \<open>The shift, the entry at the root and the largest index.\<close>

definition radix_tree_load_root :: "xarray \<Rightarrow> nat \<times> u64 \<times> u64" where
  "radix_tree_load_root root =
     (let node = xa_head root
      in if radix_tree_is_internal_node node
         then let n = xa_nodes root (entry_to_node node) in (xn_shift n + XA_CHUNK_SHIFT, node, node_maxindex n)
         else (0, node, 0))"

definition radix_tree_descend :: "xarray \<Rightarrow> addr \<Rightarrow> u64 \<Rightarrow> nat \<times> u64" where
  "radix_tree_descend S parent index =
     (let offset = unat (drop_bit (xn_shift (xa_nodes S parent)) index AND XA_CHUNK_MASK)
      in (offset, xn_slots (xa_nodes S parent) offset))"

partial_function (option) lookup_loop :: "xarray \<Rightarrow> u64 \<Rightarrow> u64 \<Rightarrow> u64 option" where
  "lookup_loop S index node =
     (if radix_tree_is_internal_node node
      then let parent = entry_to_node node; node = snd (radix_tree_descend S parent index)
           in if xn_shift (xa_nodes S parent) = 0 then Some node else lookup_loop S index node
      else Some node)"

declare lookup_loop.simps [code]

definition radix_tree_lookup :: "xarray \<Rightarrow> u64 \<Rightarrow> u64 option" where
  "radix_tree_lookup root index =
     (let (_, node, maxindex) = radix_tree_load_root root
      in if index > maxindex then Some 0 else lookup_loop root index node)"

section \<open>Insertion\<close>

function extend_shift :: "u64 \<Rightarrow> nat \<Rightarrow> nat" where
  "extend_shift index maxshift =
     (if index > shift_maxindex maxshift then extend_shift index (maxshift + XA_CHUNK_SHIFT) else maxshift)"
  by pat_completeness auto
termination
proof (relation "measure (\<lambda>(index, maxshift). 64 - maxshift)")
  fix index :: u64 and maxshift
  assume a: "index > shift_maxindex maxshift"
  have "maxshift < 64"
  proof (rule ccontr)
    assume "\<not> maxshift < 64"
    then have "push_bit maxshift (64 :: u64) = 0" by (intro bit_word_eqI) (auto simp: bit_simps)
    then have "shift_maxindex maxshift = - 1" by (simp add: shift_maxindex_def)
    then show False using a by simp
  qed
  then show "((index, maxshift + XA_CHUNK_SHIFT), (index, maxshift)) \<in> measure (\<lambda>(index, maxshift). 64 - maxshift)"
    by (simp add: XA_CHUNK_SHIFT_def)
qed simp

declare extend_shift.simps [simp del]

definition radix_tree_extend :: "xarray \<Rightarrow> u64 \<Rightarrow> nat \<Rightarrow> nat outcome" where
  "radix_tree_extend root index shift =
     (let maxshift = extend_shift index shift
      in if xa_head root = 0 then Inr (maxshift + XA_CHUNK_SHIFT) else Inl Panic)"

definition radix_tree_node_alloc :: "xarray \<Rightarrow> addr \<Rightarrow> nat \<Rightarrow> nat \<Rightarrow> (xarray \<times> addr) outcome" where
  "radix_tree_node_alloc S parent shift offset =
     (let (S, ret) = xa_cache_alloc S
      in if radix_tree_is_internal_node ret then Inl Bug
         else Inr (if ret \<noteq> 0
                   then upd_node ret (\<lambda>n. n\<lparr>xn_shift := shift, xn_offset := offset, xn_parent := parent\<rparr>) S
                   else S, ret))"

text \<open>The loop of \<^verbatim>\<open>__radix_tree_create\<close>: the error code and the slot.\<close>

function rt_create_loop ::
  "nat \<Rightarrow> u64 \<Rightarrow> addr \<Rightarrow> nat \<Rightarrow> xslot \<Rightarrow> xarray \<Rightarrow> u64 \<Rightarrow> (xarray \<times> int \<times> xslot) outcome" where
  "rt_create_loop shift child node offset slot S index =
     (if shift > 0
      then let shift = shift - XA_CHUNK_SHIFT
           in if child = 0
              then obind (radix_tree_node_alloc S node shift offset) (\<lambda>(S, child).
                     if child = 0 then Inr (S, - 12, slot)
                     else let S = put_slot slot (node_to_entry child) S;
                              node = entry_to_node child;
                              (offset, child) = radix_tree_descend S node index
                          in rt_create_loop shift child node offset (NodeSlot node offset) S index)
              else if \<not> radix_tree_is_internal_node child then Inr (S, 0, slot)
              else let node = entry_to_node child;
                       (offset, child) = radix_tree_descend S node index
                   in rt_create_loop shift child node offset (NodeSlot node offset) S index
      else Inr (S, 0, slot))"
  by pat_completeness auto
termination
  by (relation "measure (\<lambda>(shift, child, node, offset, slot, S, index). shift)") (auto simp: XA_CHUNK_SHIFT_def)

declare rt_create_loop.simps [simp del]

definition radix_tree_create :: "xarray \<Rightarrow> u64 \<Rightarrow> (xarray \<times> int \<times> xslot) outcome" where
  "radix_tree_create root index =
     (let (shift, child, maxindex) = radix_tree_load_root root
      in if index > maxindex
         then obind (radix_tree_extend root index shift) (\<lambda>shift.
                rt_create_loop shift (xa_head root) 0 0 HeadSlot root index)
         else rt_create_loop shift child 0 0 HeadSlot root index)"

fun get_slot :: "xslot \<Rightarrow> xarray \<Rightarrow> u64" where
  "get_slot HeadSlot S = xa_head S"
| "get_slot (NodeSlot n i) S = xn_slots (xa_nodes S n) i"

definition insert_entries :: "xslot \<Rightarrow> u64 \<Rightarrow> xarray \<Rightarrow> xarray \<times> int" where
  "insert_entries slot item S = (if get_slot slot S \<noteq> 0 then (S, - 17) else (put_slot slot item S, 1))"

definition radix_tree_insert :: "xarray \<Rightarrow> u64 \<Rightarrow> u64 \<Rightarrow> (xarray \<times> int) outcome" where
  "radix_tree_insert root index item =
     (if radix_tree_is_internal_node item then Inl Bug
      else obind (radix_tree_create root index) (\<lambda>(S, error, slot).
        if error \<noteq> 0 then Inr (S, error)
        else let (S, error) = insert_entries slot item S
             in Inr (S, if error < 0 then error else 0)))"

section \<open>Lookup finds the entries\<close>

lemma internal_node_eq: "radix_tree_is_internal_node e = xa_is_internal e"
  by (simp add: radix_tree_is_internal_node_def xa_is_internal_def)

lemma node_addr_not2: "node_addr n \<Longrightarrow> n AND NOT 2 = n"
proof -
  assume "node_addr n"
  then have "n AND 3 = 0" by (simp add: node_addr_def)
  moreover have "n AND 2 = (n AND 3) AND (2 :: u64)" by (simp only: and.assoc) simp
  ultimately have z: "n AND 2 = 0" by simp
  have "n = n AND (2 OR NOT 2)" by (simp only: bit.disj_cancel_right and.right_neutral)
  also have "\<dots> = n AND NOT 2" by (simp only: word_ao_dist2 z or.left_neutral)
  finally show ?thesis by (rule sym)
qed

lemma entry_to_node_mk [simp]: "node_addr n \<Longrightarrow> entry_to_node (xa_mk_node n) = n" "node_addr n \<Longrightarrow> entry_to_node n = n"
  using node_addr_not2 [of n] by (simp_all add: entry_to_node_def xa_mk_node_def word_ao_dist)

lemma node_to_entry_mk [simp]: "node_to_entry n = xa_mk_node n"
  by (simp add: node_to_entry_def xa_mk_node_def)

lemma radix_descend: "radix_tree_descend S n i = (digit i (sh S n), sl S n (digit i (sh S n)))"
  using get_offset_digit [of i "xa_nodes S n"] by (simp add: radix_tree_descend_def get_offset_def Let_def)

lemma not_internal_addr: "node_addr n \<Longrightarrow> \<not> xa_is_internal n"
  by (simp add: node_addr_def xa_is_internal_def)

lemma lookup_loop_at:
  assumes t: "tree S N pre"
  shows "n \<in> N \<Longrightarrow> covers S pre n i \<Longrightarrow> lookup_loop S i (xa_mk_node n) = Some (entries S i)"
proof (induction "sh S n" arbitrary: n rule: less_induct)
  case (less n)
  define d where "d = digit i (sh S n)"
  have a: "node_addr n" by (rule tree_addr [OF t less.prems(1)])
  have e: "entries S i = look S (sh S n div 6) (sl S n d) i"
    using entries_at [OF t less.prems] a tree_level [OF t less.prems(1)] by (simp add: d_def)
  have step: "lookup_loop S i (xa_mk_node n) = (if sh S n = 0 then Some (sl S n d) else lookup_loop S i (sl S n d))"
    using a by (subst lookup_loop.simps) (simp add: internal_node_eq radix_descend d_def)
  show ?case
  proof (cases "sh S n = 0")
    case False
    then obtain k where k: "sh S n div 6 = Suc k" using tree_level [OF t less.prems(1)] by (metis mult_0_right not0_implies_Suc)
    show ?thesis
    proof (cases "sl S n d = 0")
      case True
      then show ?thesis using step False e k by (simp add: lookup_loop.simps internal_node_eq)
    next
      case nz: False
      have "d < 64" by (simp add: d_def)
      from tree_child [OF t less.prems(1) this False nz] obtain c
        where c: "c \<in> N" "sl S n d = xa_mk_node c" "child_ok S pre n d c" .
      have "covers S pre c i" using covers_child c(3) less.prems(2) by (simp add: d_def)
      moreover have "sh S c < sh S n" using c(3) by (simp add: child_ok_def)
      ultimately show ?thesis using less.hyps c(1,2) step False by simp
    qed
  qed (use step e in simp)
qed

lemma load_root_node:
  assumes "xa_head S = xa_mk_node r" "node_addr r"
  shows "radix_tree_load_root S = (sh S r + 6, xa_mk_node r, max_index S (xa_mk_node r))"
  using assms by (simp add: radix_tree_load_root_def internal_node_eq node_maxindex_def shift_maxindex_def max_index_def
      XA_CHUNK_SHIFT_def Let_def)

lemma load_root_value: "\<not> xa_is_internal (xa_head S) \<Longrightarrow> radix_tree_load_root S = (0, xa_head S, 0)"
  by (simp add: radix_tree_load_root_def internal_node_eq Let_def)

lemma radix_lookup_entries:
  assumes t: "tree S N pre"
  shows "radix_tree_lookup S i = Some (entries S i)"
proof (cases "xa_is_internal (xa_head S)")
  case True
  obtain r where r: "r \<in> N" "xa_head S = xa_mk_node r" "pre r = 0" "node_addr r" using tree_root [OF t True] .
  then show ?thesis
    using load_root_node [of S r] entries_root [of S r pre i] max_index_gt [of r S i] lookup_loop_at [OF t r(1), of i]
    by (auto simp: radix_tree_lookup_def covers_root simp del: look.simps)
next
  case False
  then show ?thesis using load_root_value [of S] entries_no_root [of S i]
    by (auto simp: radix_tree_lookup_def lookup_loop.simps internal_node_eq word_gt_0)
qed

section \<open>Insertion\<close>

lemma radix_alloc_cases:
  assumes t: "tree S N pre"
  obtains (fail) S' where "radix_tree_node_alloc S p s d = Inr (S', 0)" "tree S' N pre" "entries S' = entries S" "out_of_memory S S'"
  | (got) a as where "xa_pool S = a # as" "a \<noteq> 0" "node_addr a"
      "radix_tree_node_alloc S p s d = Inr (S\<lparr>xa_pool := as, xa_nodes := (xa_nodes S)(a := new_node s d p)\<rparr>, a)"
proof (cases "xa_pool S")
  case Nil
  then show ?thesis using fail [of S] t by (simp add: out_of_memory_def radix_tree_node_alloc_def xa_cache_alloc_def internal_node_eq)
next
  case (Cons a as)
  show ?thesis
  proof (cases "a = 0")
    case True
    then show ?thesis using fail [of "S\<lparr>xa_pool := as\<rparr>"] tree_drop [OF t] Cons
      by (simp add: out_of_memory_def radix_tree_node_alloc_def xa_cache_alloc_def internal_node_eq)
  next
    case False
    then have "node_addr a" using t Cons by (simp add: tree_def pool_ok_def)
    then show ?thesis using got [OF Cons False] False Cons not_internal_addr [of a]
      by (simp add: radix_tree_node_alloc_def xa_cache_alloc_def xa_node_ctor_def internal_node_eq)
  qed
qed

text \<open>A slot that belongs to an index: what it holds is the entry, and writing it sets the entry.\<close>

definition slot_of :: "xarray \<Rightarrow> u64 \<Rightarrow> xslot \<Rightarrow> bool" where
  "slot_of S i slot \<longleftrightarrow> get_slot slot S = entries S i
     \<and> (\<forall>v. \<not> xa_is_internal v \<longrightarrow> xa_inv (put_slot slot v S) \<and> entries (put_slot slot v S) = (entries S)(i := v))"

definition rt_created :: "xarray \<Rightarrow> u64 \<Rightarrow> xarray \<Rightarrow> int \<Rightarrow> xslot \<Rightarrow> bool" where
  "rt_created S i S' err slot \<longleftrightarrow> xa_inv S' \<and> entries S' = entries S
     \<and> (err = - 12 \<and> out_of_memory S S' \<or> err = 0 \<and> slot_of S' i slot)"

lemma rt_created_trans:
  "rt_created S' i S'' err slot \<Longrightarrow> entries S' = entries S \<Longrightarrow> takes S S' \<Longrightarrow> rt_created S i S'' err slot"
  unfolding rt_created_def using out_of_memory_trans by metis

lemma slot_of_leaf:
  assumes t: "tree S N pre" and m: "m \<in> N" "covers S pre m i" "sh S m = 0"
  shows "slot_of S i (NodeSlot m (digit i 0))"
proof -
  have "entries S i = sl S m (digit i 0)" using entries_at [OF t m(1,2)] m(3) tree_addr [OF t m(1)] by simp
  then show ?thesis
    using write_value [OF t m(1) digit_less m(3)] m(2) unfolding slot_of_def xa_inv_def get_slot.simps by metis
qed

lemma slot_of_head:
  assumes t: "tree S N pre" and h: "\<not> xa_is_internal (xa_head S)"
  shows "slot_of S 0 HeadSlot"
  using put_head [OF t h] entries_no_root [OF h, of 0] unfolding slot_of_def xa_inv_def get_slot.simps by metis

lemma rt_create_at:
  "tree S N pre \<Longrightarrow> m \<in> N \<Longrightarrow> covers S pre m i \<Longrightarrow> q = digit i (sh S m) \<Longrightarrow>
   \<exists>S' err slot. rt_create_loop (sh S m) (sl S m q) m q (NodeSlot m q) S i = Inr (S', err, slot) \<and> rt_created S i S' err slot"
proof (induction "sh S m" arbitrary: S N pre m q rule: less_induct)
  case less
  note t = less.prems(1) and m = less.prems(2,3)
  have q: "q = digit i (sh S m)" "q < 64" using less.prems(4) by auto
  have a: "node_addr m" by (rule tree_addr [OF t m(1)])
  note step = rt_create_loop.simps [of "sh S m" "sl S m q" m q "NodeSlot m q" S i]
  show ?case
  proof (cases "sh S m = 0")
    case True
    then show ?thesis using step slot_of_leaf [OF t m True] t q by (auto simp: rt_created_def xa_inv_def)
  next
    case False
    show ?thesis
    proof (cases "sl S m q = 0")
      case True
      show ?thesis
      proof (cases rule: radix_alloc_cases [OF t, of m "sh S m - 6" q])
        case (1 S')
        then show ?thesis using step False True by (auto simp: rt_created_def xa_inv_def XA_CHUNK_SHIFT_def Let_def)
      next
        case (2 c as)
        define T where "T = put_slot (NodeSlot m q) (xa_mk_node c)
          (S\<lparr>xa_pool := as, xa_nodes := (xa_nodes S)(c := new_node (sh S m - 6) q m)\<rparr>)"
        note link = link_node [OF t m(1) q(2) False True covers_room [OF m(2), folded q(1)] 2(1,2), folded T_def]
        have "rt_create_loop (sh S m) (sl S m q) m q (NodeSlot m q) S i
            = rt_create_loop (sh T c) (sl T c (digit i (sh T c))) c (digit i (sh T c)) (NodeSlot c (digit i (sh T c))) T i"
          using step False True 2 link(4)
          by (simp add: XA_CHUNK_SHIFT_def Let_def radix_descend T_def [symmetric] del: put_slot.simps)
        moreover have "sh T c < sh S m" "takes S T" using link(4) False 2(1) by (auto simp: T_def)
        ultimately show ?thesis
          using less.hyps [of T c, OF _ link(1) insertI1 link(3) [OF m(2) q(1) [symmetric]] refl] rt_created_trans [OF _ link(2)]
          by metis
      qed
    next
      case nz: False
      from tree_child [OF t m(1) q(2) False nz] obtain c where c: "c \<in> N" "sl S m q = xa_mk_node c" "child_ok S pre m q c" .
      have "sh S c + 6 = sh S m" using c(3) by (simp add: child_ok_def)
      then have "rt_create_loop (sh S m) (sl S m q) m q (NodeSlot m q) S i
          = rt_create_loop (sh S c) (sl S c (digit i (sh S c))) c (digit i (sh S c)) (NodeSlot c (digit i (sh S c))) S i"
        using step False nz c(2) tree_addr [OF t c(1)]
        by (simp add: XA_CHUNK_SHIFT_def Let_def radix_descend internal_node_eq) (metis add_diff_cancel_right')
      moreover have "covers S pre c i" "sh S c < sh S m"
        using covers_child [OF m(2), of c] c(3) q(1) by (auto simp: child_ok_def)
      ultimately show ?thesis using less.hyps [OF _ t c(1) _ refl] by simp
    qed
  qed
qed

lemma extend_shift_ok: "6 dvd s \<Longrightarrow> s \<le> 60 \<Longrightarrow> 6 dvd extend_shift i s \<and> extend_shift i s \<le> 60 \<and> unat i < 2 ^ (extend_shift i s + 6)"
proof (induction i s rule: extend_shift.induct)
  case (1 i s)
  have c: "i > shift_maxindex s \<longleftrightarrow> 2 ^ (s + 6) \<le> unat i"
    using max_index_gt [of 8192 "\<lparr>xa_head = 0, xa_nodes = (\<lambda>_. new_node s 0 0), xa_pool = []\<rparr>" i]
    by (simp add: node_addr_def max_index_def shift_maxindex_def)
  show ?case
  proof (cases "i > shift_maxindex s")
    case True
    then have "extend_shift i s = extend_shift i (s + 6)" by (simp add: extend_shift.simps [of i s] XA_CHUNK_SHIFT_def)
    moreover have "s + 6 \<le> 60" by (rule shift_bound [of _ i]) (use True 1 c in auto)
    moreover have "6 dvd s + 6" using 1 by simp
    ultimately show ?thesis using 1(1) [OF True] by (simp add: XA_CHUNK_SHIFT_def)
  next
    case False
    then show ?thesis using 1 c by (simp add: extend_shift.simps [of i s])
  qed
qed

lemma rt_create_empty:
  assumes t: "tree S N pre" and h: "xa_head S = 0"
  shows "\<exists>S' err slot. rt_create_loop (extend_shift i 0 + 6) 0 0 0 HeadSlot S i = Inr (S', err, slot) \<and> rt_created S i S' err slot"
proof -
  define s where "s = extend_shift i 0"
  have s: "6 dvd s" "s \<le> 60" "unat i < 2 ^ (s + 6)" using extend_shift_ok [of 0 i] by (auto simp: s_def)
  note step = rt_create_loop.simps [of "s + 6" 0 0 0 HeadSlot S i]
  have "\<exists>S' err slot. rt_create_loop (s + 6) 0 0 0 HeadSlot S i = Inr (S', err, slot) \<and> rt_created S i S' err slot"
  proof (cases rule: radix_alloc_cases [OF t, of 0 s 0])
    case (1 S')
    then show ?thesis using step by (auto simp: rt_created_def xa_inv_def XA_CHUNK_SHIFT_def Let_def)
  next
    case (2 c as)
    define T where "T = put_slot HeadSlot (xa_mk_node c) (S\<lparr>xa_pool := as, xa_nodes := (xa_nodes S)(c := new_node s 0 0)\<rparr>)"
    note first = first_node [OF t h s(1,2) 2(1,2), folded T_def]
    have n: "sh T c = s" "takes S T" using 2(1) by (auto simp: T_def)
    have "rt_create_loop (s + 6) 0 0 0 HeadSlot S i
        = rt_create_loop (sh T c) (sl T c (digit i (sh T c))) c (digit i (sh T c)) (NodeSlot c (digit i (sh T c))) T i"
      using step 2 n(1) by (simp add: XA_CHUNK_SHIFT_def Let_def radix_descend T_def [symmetric] del: put_slot.simps)
    moreover have "covers T (\<lambda>_. 0) c i" using s(3) n(1) by (simp add: covers_root)
    ultimately show ?thesis
      using rt_create_at [OF first(1) _ _ refl, of c i] rt_created_trans [OF _ first(2) n(2)] by (metis singletonI)
  qed
  then show ?thesis by (simp add: s_def)
qed

text \<open>The tree is too low when it is not empty and the index lies beyond its root.\<close>

definition too_low :: "xarray \<Rightarrow> u64 \<Rightarrow> bool" where
  "too_low S i \<longleftrightarrow> xa_head S \<noteq> 0 \<and> i > max_index S (xa_head S)"

lemma radix_create_ok:
  assumes t: "tree S N pre"
  shows "if too_low S i then radix_tree_create S i = Inl Panic
    else \<exists>S' err slot. radix_tree_create S i = Inr (S', err, slot) \<and> rt_created S i S' err slot"
proof (cases "xa_is_internal (xa_head S)")
  case True
  obtain r where r: "r \<in> N" "xa_head S = xa_mk_node r" "pre r = 0" "node_addr r" using tree_root [OF t True] .
  show ?thesis
  proof (cases "i > max_index S (xa_mk_node r)")
    case gt: True
    then have "too_low S i" using r by (simp add: too_low_def)
    moreover have "radix_tree_create S i = Inl Panic"
      using gt r load_root_node [OF r(2,4)] by (simp add: radix_tree_create_def radix_tree_extend_def)
    ultimately show ?thesis by simp
  next
    case False
    then have c: "covers S pre r i" using max_index_gt [OF r(4)] r(3) by (simp add: covers_root)
    have "radix_tree_create S i
        = rt_create_loop (sh S r) (sl S r (digit i (sh S r))) r (digit i (sh S r)) (NodeSlot r (digit i (sh S r))) S i"
      using False r load_root_node [OF r(2,4)]
      by (simp add: radix_tree_create_def rt_create_loop.simps [of "sh S r + 6"] XA_CHUNK_SHIFT_def Let_def radix_descend internal_node_eq)
    moreover have "\<not> too_low S i" using False r by (simp add: too_low_def)
    ultimately show ?thesis using rt_create_at [OF t r(1) c refl] by simp
  qed
next
  case False
  then have m: "max_index S (xa_head S) = 0" by (simp add: max_index_def not_node)
  show ?thesis
  proof (cases "i = 0")
    case True
    then have "radix_tree_create S i = Inr (S, 0, HeadSlot)"
      using load_root_value [OF False] by (simp add: radix_tree_create_def rt_create_loop.simps)
    then show ?thesis using True m slot_of_head [OF t False] t by (auto simp: too_low_def rt_created_def xa_inv_def)
  next
    case nz: False
    then have "i > 0" by (simp add: word_gt_0)
    then have "radix_tree_create S i
        = (if xa_head S = 0 then rt_create_loop (extend_shift i 0 + 6) 0 0 0 HeadSlot S i else Inl Panic)"
      using load_root_value [OF False] by (simp add: radix_tree_create_def radix_tree_extend_def XA_CHUNK_SHIFT_def)
    then show ?thesis using \<open>i > 0\<close> m rt_create_empty [OF t, of i] by (auto simp: too_low_def)
  qed
qed

lemma radix_insert_cases:
  assumes t: "tree S N pre" and v: "\<not> xa_is_internal v"
  shows "if too_low S i then radix_tree_insert S i v = Inl Panic
    else \<exists>S' err. radix_tree_insert S i v = Inr (S', err) \<and> xa_inv S'
      \<and> (err = - 12 \<and> out_of_memory S S' \<and> entries S' = entries S
         \<or> err = - 17 \<and> entries S i \<noteq> 0 \<and> entries S' = entries S
         \<or> err = 0 \<and> entries S i = 0 \<and> entries S' = (entries S)(i := v))"
proof (cases "too_low S i")
  case True
  then show ?thesis using radix_create_ok [OF t, of i] v by (simp add: radix_tree_insert_def internal_node_eq)
next
  case False
  then obtain S' err slot where c: "radix_tree_create S i = Inr (S', err, slot)" "rt_created S i S' err slot"
    using radix_create_ok [OF t, of i] by auto
  show ?thesis
  proof (cases "err = 0")
    case True
    then have s: "slot_of S' i slot" "entries S' = entries S" "xa_inv S'" using c(2) by (auto simp: rt_created_def)
    then have "get_slot slot S' = entries S i" "xa_inv (put_slot slot v S')" "entries (put_slot slot v S') = (entries S)(i := v)"
      using v by (auto simp: slot_of_def)
    then show ?thesis using False True c(1) v s by (simp add: radix_tree_insert_def internal_node_eq insert_entries_def)
  next
    case nz: False
    then show ?thesis using False c v by (auto simp: radix_tree_insert_def internal_node_eq rt_created_def)
  qed
qed

section \<open>The tree as a map\<close>

definition radix_put :: "xarray \<Rightarrow> u64 \<Rightarrow> u64 \<Rightarrow> xarray option" where
  "radix_put S i v = (case radix_tree_insert S i v of Inr (S', err) \<Rightarrow> if err = 0 then Some S' else None | _ \<Rightarrow> None)"

interpretation rtm: index_map xa_inv entries "\<lambda>v. \<not> xa_is_internal v" radix_put
proof
  fix S v i S'
  assume a: "xa_inv S" "\<not> xa_is_internal v" "radix_put S i v = Some S'"
  then obtain N pre where "tree S N pre" by (auto simp: xa_inv_def)
  from radix_insert_cases [OF this a(2), of i] a(3) show "xa_inv S' \<and> entries S' = (entries S)(i := v)"
    by (auto simp: radix_put_def split: if_splits)
qed

text \<open>
  C8. \<^verbatim>\<open>radix_tree_insert\<close> panics exactly when the tree is not empty and the index lies beyond its root.
  Otherwise it keeps the tree well-formed and returns \<^verbatim>\<open>-ENOMEM\<close> with nothing changed, only when the node
  cache is empty, or \<^verbatim>\<open>-EEXIST\<close> with nothing changed when the index is taken, or zero, and then exactly
  this index holds the item.
\<close>

theorem radix_tree_insert_correct:
  assumes "xa_inv S" and "\<not> xa_is_internal item"
  shows "if xa_head S \<noteq> 0 \<and> i > max_index S (xa_head S) then radix_tree_insert S i item = Inl Panic
    else \<exists>S' err. radix_tree_insert S i item = Inr (S', err) \<and> xa_inv S'
      \<and> (err = - 12 \<and> (xa_pool S' = [] \<or> 0 \<in> set (xa_pool S)) \<and> (\<forall>j. radix_tree_lookup S' j = radix_tree_lookup S j)
         \<or> err = - 17 \<and> radix_tree_lookup S i \<noteq> Some 0 \<and> (\<forall>j. radix_tree_lookup S' j = radix_tree_lookup S j)
         \<or> err = 0 \<and> radix_tree_lookup S i = Some 0
           \<and> (\<forall>j. radix_tree_lookup S' j = (if j = i then Some item else radix_tree_lookup S j)))"
proof -
  obtain N pre where t: "tree S N pre" using assms(1) by (auto simp: xa_inv_def)
  have l: "radix_tree_lookup T j = Some (entries T j)" if "xa_inv T" for T j
    using that radix_lookup_entries by (auto simp: xa_inv_def)
  note c = radix_insert_cases [OF t assms(2), of i]
  show ?thesis
  proof (cases "too_low S i")
    case True
    then show ?thesis using c by (simp add: too_low_def)
  next
    case False
    then have "\<not> (xa_head S \<noteq> 0 \<and> i > max_index S (xa_head S))" by (simp add: too_low_def)
    moreover obtain S' err where "radix_tree_insert S i item = Inr (S', err)" "xa_inv S'"
      "err = - 12 \<and> out_of_memory S S' \<and> entries S' = entries S \<or> err = - 17 \<and> entries S i \<noteq> 0 \<and> entries S' = entries S
       \<or> err = 0 \<and> entries S i = 0 \<and> entries S' = (entries S)(i := item)"
      using c False by auto
    ultimately show ?thesis using l assms(1) by (auto simp: out_of_memory_def)
  qed
qed

theorem radix_tree_insert_correct_witness:
  "(if xa_head example_xa \<noteq> 0 \<and> 40 > max_index example_xa (xa_head example_xa) then radix_tree_insert example_xa 40 24576 = Inl Panic
    else \<exists>S' err. radix_tree_insert example_xa 40 24576 = Inr (S', err) \<and> xa_inv S'
      \<and> (err = - 12 \<and> (xa_pool S' = [] \<or> 0 \<in> set (xa_pool example_xa))
           \<and> (\<forall>j. radix_tree_lookup S' j = radix_tree_lookup example_xa j)
         \<or> err = - 17 \<and> radix_tree_lookup example_xa 40 \<noteq> Some 0 \<and> (\<forall>j. radix_tree_lookup S' j = radix_tree_lookup example_xa j)
         \<or> err = 0 \<and> radix_tree_lookup example_xa 40 = Some 0
           \<and> (\<forall>j. radix_tree_lookup S' j = (if j = 40 then Some 24576 else radix_tree_lookup example_xa j))))"
  by (rule radix_tree_insert_correct [OF example_xa_inv]) (simp add: xa_is_internal_def)

end
