(* ===== verification/Slab.thy ===== *)
theory Slab
  imports BuddyBoot "HOL-Library.Signed_Division"
begin

text \<open>
  The slab allocator, \<^verbatim>\<open>src/slab/slab.c\<close> with \<^verbatim>\<open>src/include/slab.h\<close>, over the page allocator of theory \<open>Buddy\<close>.
  The structures \<^verbatim>\<open>kmem_cache\<close>, \<^verbatim>\<open>kmem_cache_node\<close> and \<^verbatim>\<open>array_cache\<close> live in one heap each, indexed by their
  address; a slab is the page frame number of its first page, and a list of slabs is the list of these
  numbers. The free list of a slab is the array of bytes at \<^verbatim>\<open>page->freelist\<close> in memory, where the source
  has it: behind the objects, or inside an object that is free. The fields \<^verbatim>\<open>active\<close> and \<^verbatim>\<open>page_type\<close> share
  one word of \<^verbatim>\<open>struct page\<close>, so the number of active objects is the field \<open>page_type\<close> of the page
  allocator's model. No code of the repository sets \<^verbatim>\<open>compound_head\<close>, so \<^verbatim>\<open>virt_to_head_page\<close> is \<^verbatim>\<open>virt_to_page\<close>.
  The three heaps of structures are apart from the bytes of memory: where the source allocates such a structure
  from a cache of its own, the object is taken from the cache here as well, but its fields are in the heap
  of structures and not in the bytes of the object. A write of a user into these bytes is therefore not a
  change of the structure; the theorems are about users that write into the objects they hold. The counters of
  an array cache are below its small limit, so they are natural numbers.
\<close>

section \<open>State\<close>

datatype slab_stage = DOWN | PARTIAL | PARTIAL_NODE | UP | FULL

primrec stage_rank :: "slab_stage \<Rightarrow> nat" where
  "stage_rank DOWN = 0"
| "stage_rank PARTIAL = 1"
| "stage_rank PARTIAL_NODE = 2"
| "stage_rank UP = 3"
| "stage_rank FULL = 4"

instantiation slab_stage :: linorder
begin

definition less_eq_slab_stage :: "slab_stage \<Rightarrow> slab_stage \<Rightarrow> bool" where
  "less_eq_slab_stage a b \<longleftrightarrow> stage_rank a \<le> stage_rank b"

definition less_slab_stage :: "slab_stage \<Rightarrow> slab_stage \<Rightarrow> bool" where
  "less_slab_stage a b \<longleftrightarrow> stage_rank a < stage_rank b"

instance
proof
  fix a b :: slab_stage
  show "a \<le> b \<Longrightarrow> b \<le> a \<Longrightarrow> a = b" by (cases a; cases b) (auto simp: less_eq_slab_stage_def)
qed (auto simp: less_eq_slab_stage_def less_slab_stage_def)

end

record array_cache =
  ac_avail :: nat
  ac_limit :: nat
  ac_batchcount :: nat
  ac_entry :: "nat \<Rightarrow> addr"

record kmem_cache_node =
  slabs_partial :: "nat list"
  slabs_full :: "nat list"
  slabs_free :: "nat list"
  total_slabs :: u64
  free_slabs :: u64
  free_objects :: u64

record kmem_cache =
  cpu_cache :: addr
  kc_limit :: nat
  kc_size :: u32
  kc_flags :: u32
  kc_num :: u32
  gfporder :: nat
  freelist_size :: u32
  kc_ctor :: "(addr \<Rightarrow> mem \<Rightarrow> mem) option"
  kc_name :: addr
  object_size :: u32
  kc_align :: u32
  kc_node :: addr

text \<open>
  The globals of the slab allocator: the slab fields of \<^verbatim>\<open>struct page\<close>, the three heaps, the table of
  \<^verbatim>\<open>kmalloc\<close> caches, and the addresses of the static objects.
\<close>

record slab =
  slmm :: mm
  page_cache :: "nat \<Rightarrow> addr"
  freelist :: "nat \<Rightarrow> addr"
  s_mem :: "nat \<Rightarrow> addr"
  kcaches :: "addr \<Rightarrow> kmem_cache"
  knodes :: "addr \<Rightarrow> kmem_cache_node"
  kcpus :: "addr \<Rightarrow> array_cache"
  kmem_cache_ptr :: addr
  kmalloc_caches :: "nat \<Rightarrow> addr"
  size_index :: "nat list"
  slab_caches :: "addr list"
  slab_state :: slab_stage
  reserved_chunk_ptr :: addr
  reserved_chunk_size :: u64
  kmem_cache_boot :: addr
  init_kmem_cache_node :: "nat \<Rightarrow> addr"
  kmalloc_name :: "nat \<Rightarrow> addr"

abbreviation upd_cache :: "addr \<Rightarrow> (kmem_cache \<Rightarrow> kmem_cache) \<Rightarrow> slab \<Rightarrow> slab" where
  "upd_cache c f S \<equiv> S\<lparr>kcaches := (kcaches S)(c := f (kcaches S c))\<rparr>"

abbreviation upd_knode :: "addr \<Rightarrow> (kmem_cache_node \<Rightarrow> kmem_cache_node) \<Rightarrow> slab \<Rightarrow> slab" where
  "upd_knode n f S \<equiv> S\<lparr>knodes := (knodes S)(n := f (knodes S n))\<rparr>"

abbreviation upd_cpu :: "addr \<Rightarrow> (array_cache \<Rightarrow> array_cache) \<Rightarrow> slab \<Rightarrow> slab" where
  "upd_cpu a f S \<equiv> S\<lparr>kcpus := (kcpus S)(a := f (kcpus S a))\<rparr>"

definition page_active :: "slab \<Rightarrow> nat \<Rightarrow> u32" where
  "page_active S p = page_type (mem_map (slmm S) p)"

definition set_active :: "nat \<Rightarrow> u32 \<Rightarrow> slab \<Rightarrow> slab" where
  "set_active p v S = S\<lparr>slmm := upd_page p (\<lambda>q. q\<lparr>page_type := v\<rparr>) (slmm S)\<rparr>"

definition set_ram :: "mem \<Rightarrow> slab \<Rightarrow> slab" where
  "set_ram r S = S\<lparr>slmm := (slmm S)\<lparr>ram := r\<rparr>\<rparr>"

abbreviation kram :: "slab \<Rightarrow> mem" where
  "kram S \<equiv> ram (slmm S)"

definition CFLGS_OBJFREELIST_SLAB :: u32 where "CFLGS_OBJFREELIST_SLAB = 0x40000000"
definition SLAB_HWCACHE_ALIGN :: u32 where "SLAB_HWCACHE_ALIGN = 0x2000"
definition SLAB_OBJ_MAX_NUM :: u32 where "SLAB_OBJ_MAX_NUM = 255"
definition SLAB_OBJ_MIN_SIZE :: u32 where "SLAB_OBJ_MIN_SIZE = 16"
definition KMALLOC_SHIFT_LOW :: nat where "KMALLOC_SHIFT_LOW = 5"
definition KMALLOC_SHIFT_HIGH :: nat where "KMALLOC_SHIFT_HIGH = MAX_ORDER + 12 - 1"
definition KMALLOC_MAX_CACHE_SIZE :: u64 where "KMALLOC_MAX_CACHE_SIZE = push_bit KMALLOC_SHIFT_HIGH 1"
definition KMALLOC_MAX_ORDER :: nat where "KMALLOC_MAX_ORDER = KMALLOC_SHIFT_HIGH - 12"
definition ZERO_SIZE_PTR :: addr where "ZERO_SIZE_PTR = 16"
definition ZERO_OR_NULL_PTR :: "addr \<Rightarrow> bool" where "ZERO_OR_NULL_PTR x \<longleftrightarrow> x \<le> ZERO_SIZE_PTR"
definition GFP_NOFAIL :: u32 where "GFP_NOFAIL = 0x8000"
definition GFP_KERNEL :: u32 where "GFP_KERNEL = 0xcc0"
definition GFP_NOWAIT :: u32 where "GFP_NOWAIT = 0x800"

definition sizeof_kmem_cache :: u32 where "sizeof_kmem_cache = 80"
definition sizeof_kmem_cache_node :: u64 where "sizeof_kmem_cache_node = 72"
definition sizeof_array_cache :: u64 where "sizeof_array_cache = 16"

definition OBJFREELIST_SLAB :: "kmem_cache \<Rightarrow> bool" where
  "OBJFREELIST_SLAB x \<longleftrightarrow> kc_flags x AND CFLGS_OBJFREELIST_SLAB \<noteq> 0"

definition kmalloc_info :: "u32 list" where
  "kmalloc_info = [0, 96, 192, 8, 16, 32, 64, 128, 256, 512, 1024, 2048, 4096, 8192, 16384, 32768, 65536, 131072,
     262144, 524288, 1048576, 2097152, 4194304, 8388608, 16777216, 33554432, 67108864]"

definition size_index_init :: "nat list" where
  "size_index_init = [3, 4, 5, 5, 6, 6, 6, 6, 1, 1, 1, 1, 7, 7, 7, 7, 2, 2, 2, 2, 2, 2, 2, 2]"

section \<open>Objects of a slab\<close>

definition index_to_obj :: "slab \<Rightarrow> addr \<Rightarrow> nat \<Rightarrow> u32 \<Rightarrow> addr" where
  "index_to_obj S c p idx = s_mem S p + ucast (kc_size (kcaches S c) * idx)"

definition obj_to_index :: "slab \<Rightarrow> addr \<Rightarrow> nat \<Rightarrow> addr \<Rightarrow> u32" where
  "obj_to_index S c p obj = word_of_int (sint (obj - s_mem S p) sdiv uint (kc_size (kcaches S c)))"

definition get_free_obj :: "slab \<Rightarrow> nat \<Rightarrow> u32 \<Rightarrow> u8 outcome" where
  "get_free_obj S p idx = (if freelist S p = 0 then Inl Bug else Inr (kram S (freelist S p + ucast idx)))"

definition set_free_obj :: "nat \<Rightarrow> u32 \<Rightarrow> u8 \<Rightarrow> slab \<Rightarrow> slab" where
  "set_free_obj p idx v S = set_ram ((kram S)(freelist S p + ucast idx := v)) S"

definition slab_get_obj :: "addr \<Rightarrow> nat \<Rightarrow> slab \<Rightarrow> (slab \<times> addr) outcome" where
  "slab_get_obj c p S =
     obind (get_free_obj S p (page_active S p)) (\<lambda>i.
       Inr (set_active p (page_active S p + 1) S, index_to_obj S c p (ucast i)))"

definition slab_put_obj :: "addr \<Rightarrow> nat \<Rightarrow> addr \<Rightarrow> slab \<Rightarrow> slab" where
  "slab_put_obj c p objp S =
     (let objnr = obj_to_index S c p objp;
          S = set_active p (page_active S p - 1) S;
          S = (if freelist S p = 0 then S\<lparr>freelist := (freelist S)(p := objp)\<rparr> else S)
      in set_free_obj p (page_active S p) (ucast objnr) S)"

section \<open>Lists of slabs\<close>

definition get_first_slab :: "addr \<Rightarrow> slab \<Rightarrow> slab \<times> nat option" where
  "get_first_slab n S =
     (case slabs_partial (knodes S n) of
        p # _ \<Rightarrow> (S, Some p)
      | [] \<Rightarrow>
          (case slabs_free (knodes S n) of
             p # _ \<Rightarrow> (upd_knode n (\<lambda>x. x\<lparr>free_slabs := free_slabs x - 1\<rparr>) S, Some p)
           | [] \<Rightarrow> (S, None)))"

text \<open>\<^verbatim>\<open>list_del(&page->slab_list)\<close>: off the list of the node the slab is on.\<close>

definition slab_list_del :: "addr \<Rightarrow> nat \<Rightarrow> slab \<Rightarrow> slab" where
  "slab_list_del n p =
     upd_knode n (\<lambda>x. x\<lparr>slabs_partial := remove1 p (slabs_partial x), slabs_full := remove1 p (slabs_full x),
                        slabs_free := remove1 p (slabs_free x)\<rparr>)"

definition fixup_slab_list :: "addr \<Rightarrow> addr \<Rightarrow> nat \<Rightarrow> slab \<Rightarrow> slab" where
  "fixup_slab_list c n p S =
     (let S = slab_list_del n p S
      in if page_active S p = kc_num (kcaches S c)
         then let S = upd_knode n (\<lambda>x. x\<lparr>slabs_full := p # slabs_full x\<rparr>) S
              in if OBJFREELIST_SLAB (kcaches S c) then S\<lparr>freelist := (freelist S)(p := 0)\<rparr> else S
         else upd_knode n (\<lambda>x. x\<lparr>slabs_partial := p # slabs_partial x\<rparr>) S)"

section \<open>Allocation\<close>

definition ac_push :: "addr \<Rightarrow> addr \<Rightarrow> slab \<Rightarrow> slab" where
  "ac_push ac objp = upd_cpu ac (\<lambda>a. a\<lparr>ac_entry := (ac_entry a)(ac_avail a := objp), ac_avail := ac_avail a + 1\<rparr>)"

definition ac_pop :: "addr \<Rightarrow> slab \<Rightarrow> slab \<times> addr" where
  "ac_pop ac S =
     (let S = upd_cpu ac (\<lambda>a. a\<lparr>ac_avail := ac_avail a - 1\<rparr>) S
      in (S, ac_entry (kcpus S ac) (ac_avail (kcpus S ac))))"

text \<open>
  The loop of \<^verbatim>\<open>alloc_block\<close>. Each turn makes one object active, so it ends after at most as many turns as
  the slab has objects that are not active; when it stops for the count, the count has gone below zero.
\<close>

primrec alloc_block_loop :: "nat \<Rightarrow> addr \<Rightarrow> addr \<Rightarrow> nat \<Rightarrow> int \<Rightarrow> slab \<Rightarrow> (slab \<times> int) outcome" where
  "alloc_block_loop 0 c ac p bc S = Inr (S, bc)"
| "alloc_block_loop (Suc k) c ac p bc S =
     (if bc = 0 then Inr (S, - 1)
      else obind (slab_get_obj c p S) (\<lambda>(S, objp). alloc_block_loop k c ac p (bc - 1) (ac_push ac objp S)))"

definition alloc_block :: "addr \<Rightarrow> addr \<Rightarrow> nat \<Rightarrow> int \<Rightarrow> slab \<Rightarrow> (slab \<times> int) outcome" where
  "alloc_block c ac p bc S =
     (if page_active S p \<ge> kc_num (kcaches S c) then Inl Bug
      else alloc_block_loop (unat (kc_num (kcaches S c)) - unat (page_active S p)) c ac p bc S)"

definition SetPageSlab :: "page_struct \<Rightarrow> page_struct" where
  "SetPageSlab q = q\<lparr>pg_flags := pg_flags q OR push_bit 9 1\<rparr>"

definition ClearPageSlab :: "page_struct \<Rightarrow> page_struct" where
  "ClearPageSlab q = q\<lparr>pg_flags := pg_flags q AND NOT (push_bit 9 1)\<rparr>"

definition PageSlab :: "page_struct \<Rightarrow> bool" where
  "PageSlab q \<longleftrightarrow> bit (pg_flags q) 9"

definition gfp_exact_node :: "u32 \<Rightarrow> u32" where
  "gfp_exact_node fl = fl AND NOT GFP_NOFAIL"

definition kmem_getpages :: "addr \<Rightarrow> u32 \<Rightarrow> slab \<Rightarrow> (slab \<times> nat) outcome" where
  "kmem_getpages c fl S =
     obind (alloc_pages_nodemask fl (gfporder (kcaches S c)) (slmm S)) (\<lambda>(m, p).
       Inr (S\<lparr>slmm := upd_page p SetPageSlab m\<rparr>, p))"

definition alloc_slabmgmt :: "addr \<Rightarrow> nat \<Rightarrow> slab \<Rightarrow> slab \<times> addr" where
  "alloc_slabmgmt c p S =
     (let a = page_address (slmm S) p;
          S = S\<lparr>s_mem := (s_mem S)(p := a)\<rparr>;
          S = set_active p 0 S
      in (S, if OBJFREELIST_SLAB (kcaches S c) then 0
             else a + push_bit (gfporder (kcaches S c)) 4096 - ucast (freelist_size (kcaches S c))))"

definition slab_map_pages :: "addr \<Rightarrow> nat \<Rightarrow> addr \<Rightarrow> slab \<Rightarrow> slab" where
  "slab_map_pages c p fl S = S\<lparr>page_cache := (page_cache S)(p := c), freelist := (freelist S)(p := fl)\<rparr>"

definition init_obj :: "addr \<Rightarrow> nat \<Rightarrow> nat \<Rightarrow> slab \<Rightarrow> slab" where
  "init_obj c p i S =
     (let objp = index_to_obj S c p (of_nat i);
          S = (case kc_ctor (kcaches S c) of None \<Rightarrow> S | Some f \<Rightarrow> set_ram (f objp (kram S)) S)
      in set_free_obj p (of_nat i) (of_nat i) S)"

definition cache_init_objs :: "addr \<Rightarrow> nat \<Rightarrow> slab \<Rightarrow> slab" where
  "cache_init_objs c p S =
     (let S = (if OBJFREELIST_SLAB (kcaches S c)
               then S\<lparr>freelist := (freelist S)(p := index_to_obj S c p (kc_num (kcaches S c) - 1))\<rparr> else S)
      in fold (init_obj c p) [0..<unat (kc_num (kcaches S c))] S)"

definition cache_grow_begin :: "addr \<Rightarrow> u32 \<Rightarrow> slab \<Rightarrow> (slab \<times> nat) outcome" where
  "cache_grow_begin c fl S =
     obind (kmem_getpages c fl S) (\<lambda>(S, p).
       let (S, freel) = alloc_slabmgmt c p S;
           S = slab_map_pages c p freel S
       in Inr (cache_init_objs c p S, p))"

definition cache_grow_end :: "addr \<Rightarrow> nat \<Rightarrow> slab \<Rightarrow> slab" where
  "cache_grow_end c p S =
     (let n = kc_node (kcaches S c);
          S = upd_knode n (\<lambda>x. x\<lparr>total_slabs := total_slabs x + 1\<rparr>) S;
          S = (if page_active S p = 0
               then upd_knode n (\<lambda>x. x\<lparr>slabs_free := slabs_free x @ [p], free_slabs := free_slabs x + 1\<rparr>) S
               else fixup_slab_list c n p S)
      in upd_knode n (\<lambda>x. x\<lparr>free_objects := free_objects x + ucast (kc_num (kcaches S c) - page_active S p)\<rparr>) S)"

lemma alloc_block_loop_less: "alloc_block_loop k c ac p bc S = Inr (S', bc') \<Longrightarrow> 0 \<le> bc \<Longrightarrow> bc' \<le> bc"
proof (induction k arbitrary: bc S)
  case (Suc k)
  show ?case
  proof (cases "bc = 0")
    case False
    then obtain T o1 where "slab_get_obj c p S = Inr (T, o1)" "alloc_block_loop k c ac p (bc - 1) (ac_push ac o1 T) = Inr (S', bc')"
      using Suc.prems(1) by (auto simp: obind_Inr_iff)
    then show ?thesis using Suc.IH [of "bc - 1"] Suc.prems(2) False by fastforce
  qed (use Suc.prems in auto)
qed simp

lemma alloc_block_less:
  assumes "alloc_block c ac p bc S = Inr (S', bc')" "0 < bc"
  shows "bc' < bc"
proof -
  let ?n = "unat (kc_num (kcaches S c))" and ?a = "unat (page_active S p)"
  have lt: "?a < ?n" using assms(1) by (auto simp: alloc_block_def word_less_nat_alt not_le split: if_splits)
  then obtain k where "?n - ?a = Suc k" by (metis Suc_diff_Suc)
  then have "alloc_block_loop (Suc k) c ac p bc S = Inr (S', bc')"
    using assms(1) lt by (simp add: alloc_block_def word_le_nat_alt not_le)
  then obtain T where "alloc_block_loop k c ac p (bc - 1) T = Inr (S', bc')" using assms(2) by (auto simp: obind_Inr_iff)
  then show ?thesis using alloc_block_loop_less [of k c ac p "bc - 1" T] assms(2) by simp
qed

text \<open>The loop of \<^verbatim>\<open>cache_alloc_refill\<close>; \<^verbatim>\<open>must_grow\<close> is its end.\<close>

function refill_loop :: "addr \<Rightarrow> addr \<Rightarrow> addr \<Rightarrow> int \<Rightarrow> slab \<Rightarrow> (slab \<times> int) outcome" where
  "refill_loop c ac n bc S =
     (if bc > 0
      then case get_first_slab n S of
             (S, None) \<Rightarrow> Inr (S, bc)
           | (S, Some p) \<Rightarrow>
               (case alloc_block c ac p bc S of
                  Inl f \<Rightarrow> Inl f
                | Inr (S, bc') \<Rightarrow> refill_loop c ac n bc' (fixup_slab_list c n p S))
      else Inr (S, bc))"
  by pat_completeness auto
termination
  by (relation "measure (\<lambda>(c, ac, n, bc, S). nat bc)") (auto dest: alloc_block_less)

declare refill_loop.simps [simp del]

text \<open>The end of \<^verbatim>\<open>cache_alloc_refill\<close>, from \<^verbatim>\<open>direct_grow\<close> on.\<close>

definition direct_grow :: "addr \<Rightarrow> addr \<Rightarrow> u32 \<Rightarrow> int \<Rightarrow> slab \<Rightarrow> (slab \<times> addr) outcome" where
  "direct_grow c ac fl bc S =
     (if ac_avail (kcpus S ac) = 0
      then obind (cache_grow_begin c (gfp_exact_node fl) S) (\<lambda>(S, p).
             obind (if ac_avail (kcpus S ac) = 0 then alloc_block c ac p bc S else Inr (S, bc)) (\<lambda>(S, _).
               let S = cache_grow_end c p S
               in if ac_avail (kcpus S ac) = 0 then Inr (S, 0) else Inr (ac_pop ac S)))
      else Inr (ac_pop ac S))"

definition cache_alloc_refill :: "addr \<Rightarrow> u32 \<Rightarrow> slab \<Rightarrow> (slab \<times> addr) outcome" where
  "cache_alloc_refill c fl S =
     (let ac = cpu_cache (kcaches S c);
          bc = int (ac_batchcount (kcpus S ac));
          n = kc_node (kcaches S c)
      in if ac_avail (kcpus S ac) > 0 \<or> n = 0 then Inl Bug
         else if free_objects (knodes S n) = 0 then direct_grow c ac fl bc S
         else obind (refill_loop c ac n bc S) (\<lambda>(S, bc).
                direct_grow c ac fl bc
                  (upd_knode n (\<lambda>x. x\<lparr>free_objects := free_objects x - of_nat (ac_avail (kcpus S ac))\<rparr>) S)))"

definition cache_alloc :: "addr \<Rightarrow> u32 \<Rightarrow> slab \<Rightarrow> (slab \<times> addr) outcome" where
  "cache_alloc c fl S =
     (let ac = cpu_cache (kcaches S c)
      in if ac_avail (kcpus S ac) \<noteq> 0 then Inr (ac_pop ac S) else cache_alloc_refill c fl S)"

definition slab_want_init_on_alloc :: "u32 \<Rightarrow> bool" where
  "slab_want_init_on_alloc fl \<longleftrightarrow> fl AND GFP_ZERO \<noteq> 0"

definition slab_alloc :: "addr \<Rightarrow> u32 \<Rightarrow> slab \<Rightarrow> (slab \<times> addr) outcome" where
  "slab_alloc c fl S =
     obind (cache_alloc c fl S) (\<lambda>(S, objp).
       Inr (if slab_want_init_on_alloc fl \<and> objp \<noteq> 0
            then set_ram (memset (kram S) objp 0 (scast (object_size (kcaches S c)))) S else S, objp))"

text \<open>\<^verbatim>\<open>kmem_cache_alloc\<close> and \<^verbatim>\<open>kmem_cache_zalloc\<close>.\<close>

definition kmem_cache_alloc :: "addr \<Rightarrow> u32 \<Rightarrow> slab \<Rightarrow> (slab \<times> addr) outcome" where
  "kmem_cache_alloc c fl S = slab_alloc c fl S"

definition kmem_cache_zalloc :: "addr \<Rightarrow> u32 \<Rightarrow> slab \<Rightarrow> (slab \<times> addr) outcome" where
  "kmem_cache_zalloc c fl S = kmem_cache_alloc c (fl OR GFP_ZERO) S"

definition size_index_elem :: "u32 \<Rightarrow> nat" where
  "size_index_elem bytes = unat ((bytes - 1) div 8)"

text \<open>\<^verbatim>\<open>kmalloc_slab\<close>: the address of the cache, or one of the special pointers.\<close>

definition kmalloc_slab :: "u64 \<Rightarrow> slab \<Rightarrow> addr outcome" where
  "kmalloc_slab sz S =
     (if sz \<le> 192
      then if sz = 0 then Inr ZERO_SIZE_PTR
           else Inr (kmalloc_caches S (size_index S ! size_index_elem (ucast sz)))
      else if sz > KMALLOC_MAX_CACHE_SIZE then Inl Bug
      else Inr (kmalloc_caches S (fls (ucast (sz - 1)))))"

definition kmalloc :: "u64 \<Rightarrow> u32 \<Rightarrow> slab \<Rightarrow> (slab \<times> addr) outcome" where
  "kmalloc sz fl S =
     (if sz > KMALLOC_MAX_CACHE_SIZE then Inr (S, 0)
      else obind (kmalloc_slab sz S) (\<lambda>c.
             if ZERO_OR_NULL_PTR c then Inr (S, c) else slab_alloc c fl S))"

definition kzalloc :: "u64 \<Rightarrow> u32 \<Rightarrow> slab \<Rightarrow> (slab \<times> addr) outcome" where
  "kzalloc sz fl S = kmalloc sz (fl OR GFP_ZERO) S"

definition kmalloc_array :: "u64 \<Rightarrow> u64 \<Rightarrow> u32 \<Rightarrow> slab \<Rightarrow> (slab \<times> addr) outcome" where
  "kmalloc_array n sz fl S = kmalloc (n * sz) fl S"

definition kcalloc :: "u64 \<Rightarrow> u64 \<Rightarrow> u32 \<Rightarrow> slab \<Rightarrow> (slab \<times> addr) outcome" where
  "kcalloc n sz fl S = kmalloc_array n sz (fl OR GFP_ZERO) S"

definition kmemdup_nul :: "addr \<Rightarrow> u64 \<Rightarrow> u32 \<Rightarrow> slab \<Rightarrow> (slab \<times> addr) outcome" where
  "kmemdup_nul s len fl S =
     (if s = 0 then Inr (S, 0)
      else obind (kmalloc (len + 1) fl S) (\<lambda>(S, buf).
             Inr (if buf \<noteq> 0 then set_ram ((memcpy (kram S) buf s len)(buf + len := 0)) S else S, buf)))"

section \<open>Freeing\<close>

definition virt_to_head_page :: "slab \<Rightarrow> addr \<Rightarrow> nat" where
  "virt_to_head_page S x = virt_to_page (slmm S) x"

definition virt_to_cache :: "slab \<Rightarrow> addr \<Rightarrow> addr outcome" where
  "virt_to_cache S obj =
     (let p = virt_to_head_page S obj
      in if \<not> PageSlab (mem_map (slmm S) p) then Inl Panic else Inr (page_cache S p))"

definition free_obj :: "addr \<Rightarrow> addr \<Rightarrow> slab \<Rightarrow> slab" where
  "free_obj c objp S =
     (let n = kc_node (kcaches S c);
          p = virt_to_head_page S objp;
          S = slab_list_del n p S;
          S = slab_put_obj c p objp S
      in if page_active S p = 0
         then upd_knode n (\<lambda>x. x\<lparr>slabs_free := p # slabs_free x, free_slabs := free_slabs x + 1\<rparr>) S
         else upd_knode n (\<lambda>x. x\<lparr>slabs_partial := slabs_partial x @ [p]\<rparr>) S)"

text \<open>\<^verbatim>\<open>free_block\<close>: the objects are a list; the list of slabs to destroy is passed through.\<close>

definition free_block :: "addr \<Rightarrow> addr list \<Rightarrow> nat list \<Rightarrow> slab \<Rightarrow> slab \<times> nat list" where
  "free_block c objs lst S =
     (let S = upd_knode (kc_node (kcaches S c)) (\<lambda>x. x\<lparr>free_objects := free_objects x + of_nat (length objs)\<rparr>) S
      in (fold (free_obj c) objs S, lst))"

definition kmem_freepages :: "addr \<Rightarrow> nat \<Rightarrow> slab \<Rightarrow> slab outcome" where
  "kmem_freepages c p S =
     (if \<not> PageSlab (mem_map (slmm S) p) then Inl Bug
      else Inr (S\<lparr>slmm := free_pages_page p (gfporder (kcaches S c)) (upd_page p ClearPageSlab (slmm S))\<rparr>))"

definition slab_destroy :: "addr \<Rightarrow> nat \<Rightarrow> slab \<Rightarrow> slab outcome" where
  "slab_destroy c p S = kmem_freepages c p S"

primrec slabs_destroy :: "addr \<Rightarrow> nat list \<Rightarrow> slab \<Rightarrow> slab outcome" where
  "slabs_destroy c [] S = Inr S"
| "slabs_destroy c (p # ps) S = obind (slab_destroy c p S) (slabs_destroy c ps)"

definition ac_entries :: "array_cache \<Rightarrow> nat \<Rightarrow> addr list" where
  "ac_entries a k = map (ac_entry a) [0..<k]"

definition cache_flusharray :: "addr \<Rightarrow> addr \<Rightarrow> slab \<Rightarrow> slab outcome" where
  "cache_flusharray c ac S =
     (let bc = ac_batchcount (kcpus S ac);
          (S, lst) = free_block c (ac_entries (kcpus S ac) bc) [] S
      in obind (slabs_destroy c lst S) (\<lambda>S.
           Inr (upd_cpu ac (\<lambda>a. a\<lparr>ac_avail := ac_avail a - bc,
                  ac_entry := (\<lambda>i. if i < ac_avail a - bc then ac_entry a (i + bc) else ac_entry a i)\<rparr>) S)))"

definition cache_free :: "addr \<Rightarrow> addr \<Rightarrow> slab \<Rightarrow> slab outcome" where
  "cache_free c objp S =
     (let ac = cpu_cache (kcaches S c)
      in obind (if ac_avail (kcpus S ac) \<ge> ac_limit (kcpus S ac) then cache_flusharray c ac S else Inr S) (\<lambda>S.
           Inr (ac_push ac objp S)))"

definition kfree :: "addr \<Rightarrow> slab \<Rightarrow> slab outcome" where
  "kfree objp S =
     (if ZERO_OR_NULL_PTR objp then Inr S
      else obind (virt_to_cache S objp) (\<lambda>c. if c = 0 then Inr S else cache_free c objp S))"

definition kmem_cache_free :: "addr \<Rightarrow> addr \<Rightarrow> slab \<Rightarrow> slab outcome" where
  "kmem_cache_free c objp S = (if c = 0 then Inr S else cache_free c objp S)"

section \<open>Geometry of a cache\<close>

text \<open>The halving loop of \<^verbatim>\<open>calculate_alignment\<close>; it never ends for size zero.\<close>

partial_function (option) ralign_loop :: "u32 \<Rightarrow> u32 \<Rightarrow> u32 option" where
  "ralign_loop sz ralign = (if sz \<le> ralign div 2 then ralign_loop sz (ralign div 2) else Some ralign)"

declare ralign_loop.simps [code]

definition calculate_alignment :: "u32 \<Rightarrow> u32 \<Rightarrow> u32 \<Rightarrow> u32 option" where
  "calculate_alignment fl align sz =
     Option.bind (if fl AND SLAB_HWCACHE_ALIGN \<noteq> 0
                  then map_option (\<lambda>ralign. if align > ralign then align else ralign) (ralign_loop sz 64)
                  else Some align)
       (\<lambda>align. let align = (if align < 8 then 8 else align) in Some (ALIGN32 align 8))"

definition cache_estimate :: "nat \<Rightarrow> u64 \<Rightarrow> u32 \<Rightarrow> u32 \<times> u64" where
  "cache_estimate ord buffer_size fl =
     (let slab_size = push_bit ord 4096
      in if fl AND CFLGS_OBJFREELIST_SLAB \<noteq> 0
         then (ucast (slab_size div buffer_size), slab_size mod buffer_size)
         else (ucast (slab_size div (buffer_size + 1)), slab_size mod (buffer_size + 1)))"

text \<open>The loop over the orders: the number of objects, the order and the space left, if one was found.\<close>

primrec slab_order_loop :: "nat \<Rightarrow> nat \<Rightarrow> u64 \<Rightarrow> u32 \<Rightarrow> (u32 \<times> nat \<times> u64) option" where
  "slab_order_loop 0 ord sz fl = None"
| "slab_order_loop (Suc k) ord sz fl =
     (let (num, remainder) = cache_estimate ord sz fl
      in if num = 0 then slab_order_loop k (ord + 1) sz fl
         else if num > SLAB_OBJ_MAX_NUM then None
         else Some (num, ord, remainder))"

definition calculate_slab_order :: "u64 \<Rightarrow> u32 \<Rightarrow> kmem_cache \<Rightarrow> kmem_cache \<times> u64" where
  "calculate_slab_order sz fl x =
     (case slab_order_loop (KMALLOC_MAX_ORDER + 1) 0 sz fl of
        None \<Rightarrow> (x, 0)
      | Some (num, ord, left_over) \<Rightarrow> (x\<lparr>kc_num := num, gfporder := ord\<rparr>, left_over))"

definition set_objfreelist_slab_cache :: "u64 \<Rightarrow> u32 \<Rightarrow> kmem_cache \<Rightarrow> kmem_cache \<times> bool" where
  "set_objfreelist_slab_cache sz fl x =
     (let x = x\<lparr>kc_num := 0\<rparr>
      in if kc_ctor x \<noteq> None then (x, False)
         else let x = fst (calculate_slab_order sz (fl OR CFLGS_OBJFREELIST_SLAB) x)
              in if kc_num x = 0 then (x, False)
                 else if (ucast (kc_num x) * 1 :: u64) > scast (object_size x) then (x, False)
                 else (x, True))"

definition set_on_slab_cache :: "u64 \<Rightarrow> u32 \<Rightarrow> kmem_cache \<Rightarrow> kmem_cache \<times> bool" where
  "set_on_slab_cache sz fl x =
     (let x = fst (calculate_slab_order sz fl (x\<lparr>kc_num := 0\<rparr>)) in (x, kc_num x \<noteq> 0))"

text \<open>The part of \<^verbatim>\<open>__kmem_cache_create\<close> before \<^verbatim>\<open>setup_cpu_cache\<close>: the size and the place of the free list.\<close>

definition cache_geometry :: "u32 \<Rightarrow> kmem_cache \<Rightarrow> kmem_cache outcome" where
  "cache_geometry fl x =
     (let sz = ALIGN32 (kc_size x) 8;
          x = x\<lparr>kc_align := if 8 < kc_align x then kc_align x else 8\<rparr>;
          sz = ALIGN32 sz (kc_align x);
          sz = (if sz < SLAB_OBJ_MIN_SIZE then ALIGN32 SLAB_OBJ_MIN_SIZE (kc_align x) else sz);
          (x, ok) = set_objfreelist_slab_cache (ucast sz) fl x
      in if ok
         then Inr (x\<lparr>freelist_size := kc_num x, kc_flags := fl OR CFLGS_OBJFREELIST_SLAB, kc_size := sz\<rparr>)
         else let (x, ok) = set_on_slab_cache (ucast sz) fl x
              in if ok then Inr (x\<lparr>freelist_size := kc_num x, kc_flags := fl, kc_size := sz\<rparr>) else Inl Panic)"

section \<open>Creating caches\<close>

definition kmem_cache_node_init :: kmem_cache_node where
  "kmem_cache_node_init = \<lparr>slabs_partial = [], slabs_full = [], slabs_free = [], total_slabs = 0, free_slabs = 0, free_objects = 0\<rparr>"

definition slab_is_available :: "slab \<Rightarrow> bool" where
  "slab_is_available S \<longleftrightarrow> slab_state S \<ge> UP"

definition init_arraycache :: "addr \<Rightarrow> nat \<Rightarrow> nat \<Rightarrow> slab \<Rightarrow> slab" where
  "init_arraycache ac limit batch S =
     (if ac \<noteq> 0 then upd_cpu ac (\<lambda>a. a\<lparr>ac_avail := 0, ac_limit := limit, ac_batchcount := batch\<rparr>) S else S)"

definition alloc_kmem_cache_cpus :: "nat \<Rightarrow> nat \<Rightarrow> slab \<Rightarrow> (slab \<times> addr) outcome" where
  "alloc_kmem_cache_cpus entries batchcount S =
     (if reserved_chunk_ptr S = 0 \<or> reserved_chunk_size S = 0 then Inl Panic
      else let sz = 8 * of_nat entries + sizeof_array_cache
           in if sz > reserved_chunk_size S then Inl Panic
              else let cpu = reserved_chunk_ptr S;
                       S = S\<lparr>reserved_chunk_ptr := reserved_chunk_ptr S + sz, reserved_chunk_size := reserved_chunk_size S - sz\<rparr>
                   in Inr (init_arraycache cpu entries batchcount S, cpu))"

definition set_up_node :: "addr \<Rightarrow> nat \<Rightarrow> slab \<Rightarrow> slab" where
  "set_up_node c index S = upd_cache c (\<lambda>x. x\<lparr>kc_node := init_kmem_cache_node S index\<rparr>) S"

definition init_cache_node :: "addr \<Rightarrow> u32 \<Rightarrow> slab \<Rightarrow> (slab \<times> int) outcome" where
  "init_cache_node c fl S =
     (if kc_node (kcaches S c) \<noteq> 0 then Inr (S, 0)
      else obind (kmalloc sizeof_kmem_cache_node fl S) (\<lambda>(S, n).
             if n = 0 then Inr (S, - 12)
             else Inr (upd_cache c (\<lambda>x. x\<lparr>kc_node := n\<rparr>) (upd_knode n (\<lambda>_. kmem_cache_node_init) S), 0)))"

definition setup_kmem_cache_node :: "addr \<Rightarrow> u32 \<Rightarrow> slab \<Rightarrow> (slab \<times> int) outcome" where
  "setup_kmem_cache_node c fl S =
     obind (init_cache_node c fl S) (\<lambda>(S, err). if err \<noteq> 0 then Inl Panic else Inr (S, 0))"

definition setup_kmem_cache_nodes :: "addr \<Rightarrow> u32 \<Rightarrow> slab \<Rightarrow> (slab \<times> int) outcome" where
  "setup_kmem_cache_nodes c fl S =
     obind (setup_kmem_cache_node c fl S) (\<lambda>(S, ret). if ret \<noteq> 0 then Inl Panic else Inr (S, 0))"

definition do_tune_cpucache :: "addr \<Rightarrow> nat \<Rightarrow> nat \<Rightarrow> u32 \<Rightarrow> slab \<Rightarrow> (slab \<times> int) outcome" where
  "do_tune_cpucache c limit batchcount fl S =
     obind (alloc_kmem_cache_cpus limit batchcount S) (\<lambda>(S, cpu).
       if cpu = 0 then Inr (S, - 12)
       else let prev = cpu_cache (kcaches S c);
                S = upd_cache c (\<lambda>x. x\<lparr>cpu_cache := cpu, kc_limit := limit\<rparr>) S
            in obind (if prev = 0 then Inr S
                      else let (S, lst) = free_block c (ac_entries (kcpus S prev) (ac_avail (kcpus S prev))) [] S
                           in slabs_destroy c lst S)
                 (setup_kmem_cache_nodes c fl))"

definition cpucache_limit :: "u32 \<Rightarrow> nat" where
  "cpucache_limit sz =
     (if sz > 131072 then 1 else if sz > 4096 then 8 else if sz > 1024 then 24 else if sz > 256 then 54 else 120)"

definition enable_cpucache :: "addr \<Rightarrow> u32 \<Rightarrow> slab \<Rightarrow> (slab \<times> int) outcome" where
  "enable_cpucache c fl S =
     (let limit = cpucache_limit (kc_size (kcaches S c));
          batchcount = (limit + 1) div 2
      in obind (do_tune_cpucache c limit batchcount fl S) (\<lambda>(S, err). if err \<noteq> 0 then Inl Panic else Inr (S, err)))"

definition setup_cpu_cache :: "addr \<Rightarrow> u32 \<Rightarrow> slab \<Rightarrow> (slab \<times> int) outcome" where
  "setup_cpu_cache c fl S =
     (if slab_state S \<ge> FULL then enable_cpucache c fl S
      else obind (alloc_kmem_cache_cpus 1 1 S) (\<lambda>(S, cpu).
             let S = upd_cache c (\<lambda>x. x\<lparr>cpu_cache := cpu\<rparr>) S
             in if cpu = 0 then Inr (S, 1)
                else obind (if slab_state S = DOWN then Inr (set_up_node (kmem_cache_ptr S) 0 S)
                            else if slab_state S = PARTIAL then Inr (set_up_node c 1 S)
                            else obind (kmalloc sizeof_kmem_cache_node fl S) (\<lambda>(S, n).
                                   let S = upd_cache c (\<lambda>x. x\<lparr>kc_node := n\<rparr>) S
                                   in if n = 0 then Inl Bug else Inr (upd_knode n (\<lambda>_. kmem_cache_node_init) S)))
                       (\<lambda>S. let S = upd_cpu (cpu_cache (kcaches S c)) (\<lambda>a. a\<lparr>ac_avail := 0, ac_limit := 1, ac_batchcount := 1\<rparr>) S
                             in Inr (upd_cache c (\<lambda>x. x\<lparr>kc_limit := 1\<rparr>) S, 0))))"

definition kmem_cache_create_in :: "addr \<Rightarrow> u32 \<Rightarrow> slab \<Rightarrow> (slab \<times> int) outcome" where
  "kmem_cache_create_in c fl S =
     (let gfp_mask = (if slab_is_available S then GFP_KERNEL else GFP_NOWAIT)
      in obind (cache_geometry fl (kcaches S c)) (\<lambda>x.
           obind (setup_cpu_cache c gfp_mask (S\<lparr>kcaches := (kcaches S)(c := x)\<rparr>)) (\<lambda>(S, err).
             if err \<noteq> 0 then Inl Panic else Inr (S, 0))))"

definition create_boot_cache :: "addr \<Rightarrow> addr \<Rightarrow> u32 \<Rightarrow> u32 \<Rightarrow> slab \<Rightarrow> slab outcome option" where
  "create_boot_cache c name sz fl S =
     (let align = (if is_power_of_2 (ucast sz) then if 8 > sz then 8 else sz else 8)
      in map_option (\<lambda>align.
           obind (kmem_cache_create_in c fl
                    (upd_cache c (\<lambda>x. x\<lparr>kc_name := name, kc_size := sz, object_size := sz, kc_align := align\<rparr>) S))
             (\<lambda>(S, err). if err \<noteq> 0 then Inl Panic else Inr S))
         (calculate_alignment fl align sz))"

text \<open>The fields of a zeroed \<^verbatim>\<open>kmem_cache\<close>.\<close>

definition zero_cache :: kmem_cache where
  "zero_cache = \<lparr>cpu_cache = 0, kc_limit = 0, kc_size = 0, kc_flags = 0, kc_num = 0, gfporder = 0, freelist_size = 0,
     kc_ctor = None, kc_name = 0, object_size = 0, kc_align = 0, kc_node = 0\<rparr>"

definition create_kmalloc_cache :: "addr \<Rightarrow> u32 \<Rightarrow> u32 \<Rightarrow> slab \<Rightarrow> (slab \<times> addr) outcome option" where
  "create_kmalloc_cache name sz fl S =
     (case kmem_cache_zalloc (kmem_cache_ptr S) GFP_NOWAIT S of
        Inl f \<Rightarrow> Some (Inl f)
      | Inr (S, s) \<Rightarrow>
          if s = 0 then Some (Inl Panic)
          else map_option (\<lambda>r. obind r (\<lambda>S. Inr (S\<lparr>slab_caches := s # slab_caches S\<rparr>, s)))
                 (create_boot_cache s name sz fl (upd_cache s (\<lambda>_. zero_cache) S)))"

text \<open>\<^verbatim>\<open>setup_kmalloc_cache_index_table\<close>: the sizes 8, 16 and 24 use the smallest cache.\<close>

definition setup_kmalloc_cache_index_table :: "slab \<Rightarrow> slab" where
  "setup_kmalloc_cache_index_table =
     fold (\<lambda>i S. if size_index_elem i \<ge> 24 then S else S\<lparr>size_index := (size_index S)[size_index_elem i := KMALLOC_SHIFT_LOW]\<rparr>)
       [8, 16, 24]"

definition init_list :: "addr \<Rightarrow> addr \<Rightarrow> slab \<Rightarrow> slab outcome" where
  "init_list c lst S =
     obind (kmalloc sizeof_kmem_cache_node GFP_NOWAIT S) (\<lambda>(S, ptr).
       if ptr = 0 then Inl Bug
       else let nd = knodes S (kc_node (kcaches S c));
                S = upd_knode ptr (\<lambda>_. (knodes S lst)\<lparr>slabs_full := slabs_full nd, slabs_free := slabs_free nd,
                                     slabs_partial := slabs_partial nd\<rparr>) S
            in Inr (upd_cache c (\<lambda>x. x\<lparr>kc_node := ptr\<rparr>) S))"

definition new_kmalloc_cache :: "nat \<Rightarrow> u32 \<Rightarrow> slab \<Rightarrow> slab outcome option" where
  "new_kmalloc_cache idx fl S =
     map_option (\<lambda>r. obind r (\<lambda>(S, s). Inr (S\<lparr>kmalloc_caches := (kmalloc_caches S)(idx := s)\<rparr>)))
       (create_kmalloc_cache (kmalloc_name S idx) (kmalloc_info ! idx) fl S)"

text \<open>Sequencing of operations that may not return.\<close>

definition pbind :: "slab outcome option \<Rightarrow> (slab \<Rightarrow> slab outcome option) \<Rightarrow> slab outcome option" where
  "pbind x f = Option.bind x (\<lambda>r. case r of Inl e \<Rightarrow> Some (Inl e) | Inr S \<Rightarrow> f S)"

definition need_cache :: "nat \<Rightarrow> u32 \<Rightarrow> slab \<Rightarrow> slab outcome option" where
  "need_cache idx fl S = (if kmalloc_caches S idx = 0 then new_kmalloc_cache idx fl S else Some (Inr S))"

primrec kmalloc_caches_loop :: "nat list \<Rightarrow> u32 \<Rightarrow> slab \<Rightarrow> slab outcome option" where
  "kmalloc_caches_loop [] fl S = Some (Inr S)"
| "kmalloc_caches_loop (i # is') fl S =
     pbind (need_cache i fl S) (\<lambda>S.
     pbind (if i = 6 then need_cache 1 fl S else Some (Inr S)) (\<lambda>S.
     pbind (if i = 7 then need_cache 2 fl S else Some (Inr S)) (\<lambda>S. kmalloc_caches_loop is' fl S)))"

definition create_kmalloc_caches :: "u32 \<Rightarrow> slab \<Rightarrow> slab outcome option" where
  "create_kmalloc_caches fl S =
     pbind (kmalloc_caches_loop [KMALLOC_SHIFT_LOW..<KMALLOC_SHIFT_HIGH + 1] fl S) (\<lambda>S. Some (Inr (S\<lparr>slab_state := UP\<rparr>)))"

definition kmalloc_index :: "u64 \<Rightarrow> nat outcome" where
  "kmalloc_index sz =
     (if sz = 0 then Inr 0 else if sz \<le> 32 then Inr 5
      else if sz > 64 \<and> sz \<le> 96 then Inr 1 else if sz > 128 \<and> sz \<le> 192 then Inr 2
      else case find (\<lambda>k. sz \<le> push_bit k 1) [3..<27] of None \<Rightarrow> Inl Bug | Some k \<Rightarrow> Inr k)"

definition kmem_cache_init :: "slab \<Rightarrow> slab outcome option" where
  "kmem_cache_init S =
     (let S = S\<lparr>kmem_cache_ptr := kmem_cache_boot S\<rparr>;
          S = fold (\<lambda>i S. upd_knode (init_kmem_cache_node S i) (\<lambda>_. kmem_cache_node_init) S) [0, 1] S;
          c = kmem_cache_ptr S;
          i = (case kmalloc_index sizeof_kmem_cache_node of Inr i \<Rightarrow> i | Inl _ \<Rightarrow> 0)
      in pbind (create_boot_cache c (kc_name (kcaches S c)) sizeof_kmem_cache SLAB_HWCACHE_ALIGN S) (\<lambda>S.
         pbind (new_kmalloc_cache i SLAB_HWCACHE_ALIGN (S\<lparr>slab_caches := c # slab_caches S, slab_state := PARTIAL\<rparr>)) (\<lambda>S.
         let S = setup_kmalloc_cache_index_table (S\<lparr>slab_state := PARTIAL_NODE\<rparr>)
         in pbind (Some (init_list c (init_kmem_cache_node S 0) S)) (\<lambda>S.
            pbind (Some (init_list (kmalloc_caches S i) (init_kmem_cache_node S 1) S)) (\<lambda>S.
            create_kmalloc_caches SLAB_HWCACHE_ALIGN S)))))"

primrec init_late_loop :: "addr list \<Rightarrow> slab \<Rightarrow> slab outcome" where
  "init_late_loop [] S = Inr S"
| "init_late_loop (c # cs) S =
     obind (enable_cpucache c GFP_NOWAIT S) (\<lambda>(S, err). if err \<noteq> 0 then Inl Bug else init_late_loop cs S)"

definition kmem_cache_init_late :: "slab \<Rightarrow> slab outcome" where
  "kmem_cache_init_late S = obind (init_late_loop (slab_caches S) S) (\<lambda>S. Inr (S\<lparr>slab_state := FULL\<rparr>))"

text \<open>
  \<^verbatim>\<open>create_cache\<close> and \<^verbatim>\<open>kmem_cache_create_usercopy\<close>; an error of the former ends in a panic of the latter, and
  the duplicate of the name is made by \<^verbatim>\<open>kstrdup_const\<close>.
\<close>

definition create_cache :: "addr \<Rightarrow> u32 \<Rightarrow> u32 \<Rightarrow> u32 \<Rightarrow> u32 \<Rightarrow> u32 \<Rightarrow> (addr \<Rightarrow> mem \<Rightarrow> mem) option \<Rightarrow> slab \<Rightarrow> (slab \<times> int \<times> addr) outcome" where
  "create_cache name osize align fl useroffset usersize ctor S =
     (if useroffset + usersize > osize then Inl Bug
      else obind (kmem_cache_zalloc (kmem_cache_ptr S) GFP_KERNEL S) (\<lambda>(S, s).
             if s = 0 then Inr (S, - 12, 0)
             else obind (kmem_cache_create_in s fl
                           (upd_cache s (\<lambda>_. zero_cache\<lparr>kc_name := name, kc_size := osize, object_size := osize,
                              kc_align := align, kc_ctor := ctor\<rparr>) S)) (\<lambda>(S, err).
                    if err \<noteq> 0 then Inr (S, err, 0) else Inr (S\<lparr>slab_caches := s # slab_caches S\<rparr>, 0, s))))"

definition kstrdup :: "addr \<Rightarrow> u32 \<Rightarrow> slab \<Rightarrow> (slab \<times> addr) outcome option" where
  "kstrdup s fl S =
     (if s = 0 then Some (Inr (S, 0))
      else map_option (\<lambda>n.
             obind (kmalloc (n + 1) fl S) (\<lambda>(S, buf).
               Inr (if buf \<noteq> 0 then set_ram (memcpy (kram S) buf s (n + 1)) S else S, buf)))
           (strlen (kram S) s))"

definition kmem_cache_create_usercopy ::
  "addr \<Rightarrow> u32 \<Rightarrow> u32 \<Rightarrow> u32 \<Rightarrow> u32 \<Rightarrow> u32 \<Rightarrow> (addr \<Rightarrow> mem \<Rightarrow> mem) option \<Rightarrow> slab \<Rightarrow> (slab \<times> addr) outcome option" where
  "kmem_cache_create_usercopy name sz align fl useroffset usersize ctor S =
     (case kstrdup name GFP_KERNEL S of
        None \<Rightarrow> None
      | Some (Inl f) \<Rightarrow> Some (Inl f)
      | Some (Inr (S, cache_name)) \<Rightarrow>
          if cache_name = 0 then Some (Inl Panic)
          else map_option (\<lambda>align.
                 obind (create_cache cache_name sz align fl useroffset usersize ctor S) (\<lambda>(S, err, s).
                   if err \<noteq> 0 then Inl Panic else Inr (S, s)))
               (calculate_alignment fl align sz))"

definition kmem_cache_create :: "addr \<Rightarrow> u32 \<Rightarrow> u32 \<Rightarrow> u32 \<Rightarrow> (addr \<Rightarrow> mem \<Rightarrow> mem) option \<Rightarrow> slab \<Rightarrow> (slab \<times> addr) outcome option" where
  "kmem_cache_create name sz align fl ctor S = kmem_cache_create_usercopy name sz align fl 0 0 ctor S"

end
