(* ===== verification/SlabPages.thy ===== *)
theory SlabPages
  imports Slab
begin

text \<open>
  What the slab allocator relies on below it: an allocation of pages touches only pages that were
  available, clears at most the pages it returns, and positions in the linear map stand for addresses
  one to one.
\<close>

section \<open>The linear map\<close>

text \<open>The address of a physical position.\<close>

definition kat :: "u64 \<Rightarrow> nat \<Rightarrow> addr" where
  "kat V x = of_nat x + V"

lemma kat_add: "kat V x + of_nat j = kat V (x + j)"
  by (simp add: kat_def algebra_simps)

lemma kat_diff: "y \<le> x \<Longrightarrow> kat V x - kat V y = of_nat (x - y)"
  by (simp add: kat_def of_nat_diff)

lemma kat_inj: "x < 2 ^ 64 \<Longrightarrow> y < 2 ^ 64 \<Longrightarrow> kat V x = kat V y \<longleftrightarrow> x = y"
  using of_nat64_inj [of x y] by (simp add: kat_def)

lemma kat_surj: "\<exists>x<2 ^ 64. a = kat V x"
  using unat_u64_less [of "a - V"] by (intro exI [of _ "unat (a - V)"]) (simp add: kat_def)

lemma page_address_kat: "page_address m p = kat (va_pa_offset m) (4096 * p)"
  by (simp add: page_address_def kat_def push_bit_eq_mult mult.commute)

lemma virt_to_page_kat:
  assumes "4096 * p + k < 2 ^ 64" "k < 4096"
  shows "virt_to_page m (kat (va_pa_offset m) (4096 * p + k)) = p"
proof -
  have "unat (of_nat (4096 * p + k) :: u64) = 4096 * p + k" using assms(1) by (rule unat_of_nat64)
  then have "unat (drop_bit 12 (of_nat (4096 * p + k) :: u64)) = (4096 * p + k) div 2 ^ 12"
    by (simp only: unat_drop_bit_eq) (simp only: drop_bit_eq_div)
  then show ?thesis using assms(2) by (simp add: virt_to_page_def PFN_DOWN_def kat_def)
qed

text \<open>The positions of the bytes of a block of pages.\<close>

definition bytes :: "nat \<Rightarrow> nat \<Rightarrow> nat set" where
  "bytes p ord = {4096 * p..<4096 * (p + 2 ^ ord)}"

lemma bytes_page: "x \<in> bytes p ord \<longleftrightarrow> x div 4096 \<in> blk (p, ord)"
proof -
  have "4096 * p \<le> x \<longleftrightarrow> p \<le> x div 4096" by (simp add: less_eq_div_iff_mult_less_eq mult.commute)
  moreover have "x < 4096 * (p + 2 ^ ord) \<longleftrightarrow> x div 4096 < p + 2 ^ ord"
    using div_less_iff_less_mult [of 4096 x "p + 2 ^ ord"] by (simp only: mult.commute zero_less_numeral simp_thms)
  ultimately show ?thesis unfolding bytes_def blk_def by (simp only: atLeastLessThan_iff fst_conv snd_conv case_prod_conv)
qed

lemma bytes_disjoint:
  assumes "blk (p, ord) \<inter> blk (q, ord') = {}"
  shows "bytes p ord \<inter> bytes q ord' = {}"
  using assms by (auto simp only: bytes_page)

section \<open>Allocating pages\<close>

lemma expand_frame:
  "low \<le> high \<Longrightarrow> q \<notin> blk (p, high) \<Longrightarrow> mem_map (expand z p low high m) q = mem_map m q"
proof (induction high arbitrary: m)
  case (Suc h)
  show ?case
  proof (cases "low = Suc h")
    case False
    then have "low \<le> h" using Suc.prems by simp
    moreover have "q \<notin> blk (p, h)" "q \<noteq> p + 2 ^ h" using Suc.prems(2) by (auto simp: blk_def)
    ultimately show ?thesis using Suc.IH by (simp add: expand_steps(2))
  qed (simp add: expand_steps(1))
qed (simp add: expand_steps(1))

abbreviation mm_fixed :: "mm \<Rightarrow> mm \<Rightarrow> bool" where
  "mm_fixed m m' \<equiv> va_pa_offset m' = va_pa_offset m \<and> zonerefs m' = zonerefs m"

lemma expand_fixed: "mm_fixed m (expand z p low high m) \<and> ram (expand z p low high m) = ram m"
proof (induction z p low high m rule: expand.induct)
  case (1 z p low high m)
  then show ?case by (subst (1 2 3) expand.simps) (simp add: Let_def set_page_order_def add_to_free_list_def)
qed

lemma rmqueue_smallest_frame:
  assumes "rmqueue_smallest z ord m = Some (m', p)"
  shows "\<And>q. q \<notin> free_of z m \<Longrightarrow> mem_map m' q = mem_map m q" "mm_fixed m m' \<and> ram m' = ram m"
proof -
  obtain d where d: "ord \<le> d" "(p, d) \<in> zblocks z m" "m' = expand z p ord d (del_page_from_free_list p z d m)"
    using rmqueue_smallest_from_cases [of ord ord z m] assms by (auto simp: rmqueue_smallest_def)
  have b: "blk (p, d) \<subseteq> free_of z m" using d(2) by (auto simp: free_of_def pages_of_def)
  show "mem_map m' q = mem_map m q" if "q \<notin> free_of z m" for q
  proof -
    have "p \<in> blk (p, d)" by (simp add: blk_def)
    then have "q \<notin> blk (p, d)" "q \<noteq> p" using b that by blast+
    then show ?thesis using expand_frame [OF d(1)] d(3) by simp
  qed
  show "mm_fixed m m' \<and> ram m' = ram m"
    using expand_fixed [of z p ord d "del_page_from_free_list p z d m"] d(3) by (simp add: del_page_from_free_list_def Let_def)
qed

lemma rmqueue_frame:
  assumes "rmqueue z ord m = Inr (m', p)" "pcp_batch (boot_pageset m) = 1"
  shows "\<And>q. q \<notin> free_of z m \<Longrightarrow> mem_map m' q = mem_map m q" "mm_fixed m m' \<and> ram m' = ram m"
proof -
  have "(\<forall>q. q \<notin> free_of z m \<longrightarrow> mem_map m' q = mem_map m q) \<and> mm_fixed m m' \<and> ram m' = ram m"
  proof (cases "ord = 0")
    case False
    then have "rmqueue_smallest z ord m = Some (m', p)"
      using assms(1) by (simp add: rmqueue_def rmqueue_locked_def split: option.splits)
    then show ?thesis using rmqueue_smallest_frame by blast
  next
    case True
    then have pcp: "rmqueue_pcplist z m = Inr (m', Some p)"
      using assms(1) by (auto simp: rmqueue_def obind_Inr_iff split: option.splits)
    show ?thesis
    proof (cases "pcp_lists (boot_pageset m)")
      case Nil
      then obtain m1 where "rmqueue_smallest z 0 m = Some (m1, p)" "mem_map m' = mem_map m1" "mm_fixed m1 m'" "ram m' = ram m1"
        using pcp assms(2) by (auto simp: rmqueue_pcplist_def Let_def rmqueue_locked_def obind_Inr_iff split: option.splits)
      then show ?thesis using rmqueue_smallest_frame [of z 0 m m1 p] by simp
    next
      case (Cons x xs)
      then show ?thesis using pcp by (auto simp: rmqueue_pcplist_def Let_def)
    qed
  qed
  then show "\<And>q. q \<notin> free_of z m \<Longrightarrow> mem_map m' q = mem_map m q" "mm_fixed m m' \<and> ram m' = ram m" by blast+
qed

lemma init_free_pages_ram:
  assumes "x < 2 ^ 64" "x \<notin> {4096 * p..<4096 * (p + n)}" "p + n \<le> 2 ^ 52"
  shows "ram (kernel_init_free_pages p n m) (kat (va_pa_offset m) x) = ram m (kat (va_pa_offset m) x)"
  using assms
proof (induction n arbitrary: p m)
  case (Suc n)
  define m1 where "m1 = m\<lparr>ram := memset (ram m) (page_address m p) 0 4096\<rparr>"
  have "ram (kernel_init_free_pages (Suc p) n m1) (kat (va_pa_offset m1) x) = ram m1 (kat (va_pa_offset m1) x)"
    by (rule Suc.IH) (use Suc.prems in auto)
  moreover have "\<not> kat (va_pa_offset m) x - page_address m p < 4096"
  proof
    assume a: "kat (va_pa_offset m) x - page_address m p < 4096"
    define k where "k = unat (kat (va_pa_offset m) x - page_address m p)"
    have "unat (kat (va_pa_offset m) x - page_address m p) < unat (4096 :: u64)" using a by (simp only: word_less_nat_alt)
    then have k: "k < 4096" by (simp add: k_def)
    have "kat (va_pa_offset m) x = kat (va_pa_offset m) (4096 * p + k)"
      using kat_add [of "va_pa_offset m" "4096 * p" k] by (simp add: k_def page_address_kat)
    moreover have "4096 * p + k < 2 ^ 64" using Suc.prems(3) k by simp
    ultimately have "x = 4096 * p + k" using kat_inj Suc.prems(1) by blast
    then show False using Suc.prems(2) k by simp
  qed
  ultimately show ?case by (simp add: m1_def memset_def)
qed simp

lemma init_free_pages_fixed: "mm_fixed m (kernel_init_free_pages p n m)"
  by (induction n arbitrary: p m) auto

text \<open>The state of the page allocator as the slab allocator needs it, and the allocation of a block.\<close>

definition mapped :: "mm \<Rightarrow> nat \<Rightarrow> bool" where
  "mapped m p \<longleftrightarrow> p < 2 ^ 52 \<and> (\<forall>k<4096. kat (va_pa_offset m) (4096 * p + k) > 16)"

definition pages_ok :: "nat \<Rightarrow> mm \<Rightarrow> bool" where
  "pages_ok z m \<longleftrightarrow> zone_ok z m \<and> pcp_ok z m \<and> pcp_batch (boot_pageset m) = 1 \<and> (\<forall>p \<in> avail_of z m. mapped m p)"

definition first_zone :: "nat \<Rightarrow> mm \<Rightarrow> u32 \<Rightarrow> bool" where
  "first_zone z m fl \<longleftrightarrow> (\<exists>i rest. next_zones_zonelist (zonerefs m) (gfp_zone fl) = (Some z, i) # rest)"

lemma blk_pages: "blk (p, ord) = {p..<p + 2 ^ ord}"
  by (simp add: blk_def)

lemma block_small:
  assumes "\<forall>q \<in> blk (p, ord). mapped m q"
  shows "p + 2 ^ ord \<le> 2 ^ 52"
proof -
  have "(0 :: nat) < 2 ^ ord" by simp
  then have "p + (2 ^ ord - 1) \<in> blk (p, ord)" unfolding blk_pages atLeastLessThan_iff by linarith
  then have "p + (2 ^ ord - 1) < 2 ^ 52" using assms by (auto simp: mapped_def)
  moreover have "(1 :: nat) \<le> 2 ^ ord" by simp
  ultimately show ?thesis by linarith
qed

lemma alloc_pages_got:
  assumes ok: "pages_ok z m" and zl: "first_zone z m fl" and got: "alloc_pages_nodemask fl ord m = Inr (m', p)"
  shows "pages_ok z m'" "blk (p, ord) \<subseteq> avail_of z m" "avail_of z m' = avail_of z m - blk (p, ord)" "mm_fixed m m'"
    "\<And>q. q \<notin> avail_of z m \<Longrightarrow> mem_map m' q = mem_map m q"
    "\<And>x. x < 2 ^ 64 \<Longrightarrow> x \<notin> bytes p ord \<Longrightarrow> ram m' (kat (va_pa_offset m) x) = ram m (kat (va_pa_offset m) x)"
proof -
  obtain i rest where zr: "next_zones_zonelist (zonerefs m) (gfp_zone fl) = (Some z, i) # rest" using zl by (auto simp: first_zone_def)
  have o: "zone_ok z m" "pcp_ok z m" "pcp_batch (boot_pageset m) = 1" using ok by (auto simp: pages_ok_def)
  obtain m1 where m1: "rmqueue z ord m = Inr (m1, p)" "m' = prep_new_page p ord fl m1"
    using got zr by (auto simp: alloc_pages_nodemask_def get_page_from_freelist_def Let_def obind_Inr_iff split: if_splits)
  note rm = rmqueue_ok [OF o, of ord, unfolded m1(1), simplified] and fr = rmqueue_frame [OF m1(1) o(3)]
  have fx: "mm_fixed m1 m'" unfolding m1(2) prep_new_page_def using init_free_pages_fixed by simp
  then show fix': "mm_fixed m m'" using fr(2) by simp
  have same: "same_lists z m1 m'" unfolding m1(2) by (simp add: same_lists_def prep_new_page_lists)
  have av: "avail_of z m' = avail_of z m1" "pcp_ok z m' = pcp_ok z m1"
    using same_lists_ok [OF same] by (simp_all add: avail_of_def pcp_ok_def m1(2) prep_new_page_lists)
  show b: "blk (p, ord) \<subseteq> avail_of z m" and a': "avail_of z m' = avail_of z m - blk (p, ord)" using rm av by auto
  have "mapped m' q = mapped m q" for q using fix' by (simp add: mapped_def)
  then show "pages_ok z m'" using rm av same_lists_ok(3) [OF same] ok a'
    by (simp add: pages_ok_def m1(2) prep_new_page_lists)
  show "mem_map m' q = mem_map m q" if "q \<notin> avail_of z m" for q
    using fr(1) [of q] that by (simp add: avail_of_def m1(2) prep_new_page_lists)
  show "ram m' (kat (va_pa_offset m) x) = ram m (kat (va_pa_offset m) x)" if "x < 2 ^ 64" "x \<notin> bytes p ord" for x
  proof -
    have "\<forall>q \<in> blk (p, ord). mapped m q" using b ok by (auto simp: pages_ok_def)
    then have "p + 2 ^ ord \<le> 2 ^ 52" by (rule block_small)
    then have "ram (kernel_init_free_pages p (2 ^ ord) m1) (kat (va_pa_offset m1) x) = ram m1 (kat (va_pa_offset m1) x)"
      using that by (intro init_free_pages_ram) (auto simp: bytes_def)
    then show ?thesis using fr(2) by (simp add: m1(2) prep_new_page_def)
  qed
qed

lemma alloc_pages_failed:
  assumes ok: "pages_ok z m" and zl: "first_zone z m fl" and "ord < MAX_ORDER" and no: "alloc_pages_nodemask fl ord m = Inl f"
  shows "f = Panic" "\<not> has_block z m ord"
proof -
  obtain i rest where zr: "next_zones_zonelist (zonerefs m) (gfp_zone fl) = (Some z, i) # rest" using zl by (auto simp: first_zone_def)
  have o: "zone_ok z m" "pcp_ok z m" "pcp_batch (boot_pageset m) = 1" using ok by (auto simp: pages_ok_def)
  have "rmqueue z ord m = Inl f"
    using no zr assms(3) by (cases "rmqueue z ord m") (auto simp: alloc_pages_nodemask_def get_page_from_freelist_def Let_def)
  then show "f = Panic" "\<not> has_block z m ord" using rmqueue_ok [OF o, of ord] by auto
qed

text \<open>A page that is in use may be changed as long as it does not look like a free one.\<close>

lemma pages_ok_upd:
  assumes "pages_ok z m" "\<not> PageBuddy (f (mem_map m p))"
  shows "pages_ok z (upd_page p f m)" "avail_of z (upd_page p f m) = avail_of z m"
proof -
  have b: "zblocks z (upd_page p f m) = zblocks z m" by (simp add: zblocks_def)
  then have fo: "free_of z (upd_page p f m) = free_of z m" by (simp add: free_of_def)
  then show av: "avail_of z (upd_page p f m) = avail_of z m" by (simp add: avail_of_def)
  have "lists_ok z (upd_page p f m) = lists_ok z m" by (simp add: lists_ok_def)
  moreover have "flags_sound z m \<Longrightarrow> flags_sound z (upd_page p f m)" using assms(2) by (auto simp: flags_sound_def b)
  ultimately have "zone_ok z (upd_page p f m)" using assms(1) by (simp add: pages_ok_def zone_ok_def b)
  then show "pages_ok z (upd_page p f m)"
    using assms(1) fo by (simp add: pages_ok_def av pcp_ok_def mapped_def)
qed

lemma pages_ok_same:
  assumes "same_lists z m m'" "boot_pageset m' = boot_pageset m" "va_pa_offset m' = va_pa_offset m"
  shows "pages_ok z m' = pages_ok z m" "avail_of z m' = avail_of z m"
proof -
  show a: "avail_of z m' = avail_of z m" using same_lists_ok(2) [OF assms(1)] assms(2) by (simp add: avail_of_def)
  show "pages_ok z m' = pages_ok z m"
    using same_lists_ok [OF assms(1)] assms(2,3) by (simp add: pages_ok_def a pcp_ok_def mapped_def)
qed

lemma pages_ok_ram [simp]: "pages_ok z (m\<lparr>ram := r\<rparr>) = pages_ok z m" "avail_of z (m\<lparr>ram := r\<rparr>) = avail_of z m"
  by (rule pages_ok_same; simp add: same_lists_def)+

lemma page_zone_id_SetPageSlab [simp]: "page_zone_id (SetPageSlab q) = page_zone_id q"
proof -
  have "drop_bit 62 (pg_flags q OR push_bit 9 1) AND 3 = drop_bit 62 (pg_flags q) AND (3 :: u64)"
    by (rule bit_word_eqI) (auto simp: bit_simps)
  then show ?thesis by (simp add: page_zone_id_def SetPageSlab_def)
qed

lemma pages_ok_SetPageSlab [simp]:
  "pages_ok z (upd_page p SetPageSlab m) = pages_ok z m" "avail_of z (upd_page p SetPageSlab m) = avail_of z m"
  by (rule pages_ok_same; simp add: same_lists_def; simp add: SetPageSlab_def)+

lemma small_type_not_buddy: "unat (page_type q) \<le> 255 \<Longrightarrow> \<not> PageBuddy q"
proof
  assume a: "unat (page_type q) \<le> 255" "PageBuddy q"
  have "page_type q AND 0xf0000080 = 0xf0000000" using a(2) by (simp add: PageBuddy_def PAGE_TYPE_BASE_def PG_buddy_def)
  moreover have "page_type q AND 0xf0000080 \<le> page_type q" by (rule word_and_le2)
  ultimately have "(0xf0000000 :: u32) \<le> page_type q" by simp
  then show False using a(1) by (simp add: word_le_nat_alt)
qed

end
