(* ===== verification/SlabInv.thy ===== *)
theory SlabInv
  imports SlabPages
begin

text \<open>
  The invariant of the slab allocator. A slab is represented by the list of the indices of its free
  objects, in the order in which they will be handed out; the bytes of its free list hold the end of
  an array that this list fills. A cache is represented by the set of its slabs, by the lists of free
  indices, and by the objects that wait in its array cache.
\<close>

section \<open>Slabs and caches\<close>

abbreviation osz :: "kmem_cache \<Rightarrow> nat" where "osz x \<equiv> unat (kc_size x)"
abbreviation onum :: "kmem_cache \<Rightarrow> nat" where "onum x \<equiv> unat (kc_num x)"
abbreviation offs :: "slab \<Rightarrow> u64" where "offs S \<equiv> va_pa_offset (slmm S)"

text \<open>The geometry of a cache, as \<^verbatim>\<open>__kmem_cache_create\<close> computes it.\<close>

definition ctor_ok :: "kmem_cache \<Rightarrow> bool" where
  "ctor_ok x \<longleftrightarrow> (\<forall>f. kc_ctor x = Some f \<longrightarrow>
     (\<forall>a r b. \<not> b - a < ucast (kc_size x) \<longrightarrow> f a r b = r b))"

definition geom_ok :: "kmem_cache \<Rightarrow> bool" where
  "geom_ok x \<longleftrightarrow> 0 < onum x \<and> onum x \<le> 255 \<and> 0 < osz x \<and> gfporder x < MAX_ORDER \<and> (0 < gfporder x \<longrightarrow> onum x = 1)
     \<and> freelist_size x = kc_num x \<and> unat (object_size x) \<le> osz x
     \<and> (if OBJFREELIST_SLAB x then onum x * osz x \<le> 4096 * 2 ^ gfporder x \<and> onum x \<le> osz x \<and> kc_ctor x = None
        else onum x * osz x + onum x \<le> 4096 * 2 ^ gfporder x)"

text \<open>The positions of an object and of the free list of a slab.\<close>

definition opos :: "kmem_cache \<Rightarrow> nat \<Rightarrow> nat \<Rightarrow> nat" where
  "opos x p i = 4096 * p + osz x * i"

definition objat :: "u64 \<Rightarrow> kmem_cache \<Rightarrow> nat \<Rightarrow> nat \<Rightarrow> addr" where
  "objat V x p i = kat V (opos x p i)"

definition fl_pos :: "kmem_cache \<Rightarrow> nat \<Rightarrow> nat list \<Rightarrow> nat" where
  "fl_pos x p F = (if OBJFREELIST_SLAB x then opos x p (last F) else 4096 * p + (4096 * 2 ^ gfporder x - onum x))"

definition fl_addr :: "u64 \<Rightarrow> kmem_cache \<Rightarrow> nat \<Rightarrow> nat list \<Rightarrow> addr" where
  "fl_addr V x p F = (if OBJFREELIST_SLAB x \<and> F = [] then 0 else kat V (fl_pos x p F))"

definition fl_bytes :: "kmem_cache \<Rightarrow> nat \<Rightarrow> nat list \<Rightarrow> nat set" where
  "fl_bytes x p F = {fl_pos x p F + (onum x - length F)..<fl_pos x p F + onum x}"

definition obytes :: "kmem_cache \<Rightarrow> nat \<Rightarrow> nat \<Rightarrow> nat set" where
  "obytes x p i = {opos x p i..<opos x p i + osz x}"

text \<open>The page structure of a slab, without the place of its free list, and with it.\<close>

definition slab_core :: "slab \<Rightarrow> addr \<Rightarrow> nat \<Rightarrow> nat list \<Rightarrow> bool" where
  "slab_core S c p F \<longleftrightarrow> page_cache S p = c \<and> PageSlab (mem_map (slmm S) p) \<and> s_mem S p = kat (offs S) (4096 * p)
     \<and> unat (page_active S p) + length F = onum (kcaches S c) \<and> distinct F \<and> (\<forall>i \<in> set F. i < onum (kcaches S c))
     \<and> (\<forall>k < onum (kcaches S c). onum (kcaches S c) - length F \<le> k \<longrightarrow>
           kram S (freelist S p + of_nat k) = of_nat (F ! (k + length F - onum (kcaches S c))))"

definition slab_rep :: "slab \<Rightarrow> addr \<Rightarrow> nat \<Rightarrow> nat list \<Rightarrow> bool" where
  "slab_rep S c p F \<longleftrightarrow> slab_core S c p F \<and> freelist S p = fl_addr (offs S) (kcaches S c) p F"

abbreviation blk_of :: "kmem_cache \<Rightarrow> nat \<Rightarrow> nat set" where
  "blk_of x p \<equiv> blk (p, gfporder x)"

definition place_ok :: "slab \<Rightarrow> addr \<Rightarrow> nat \<Rightarrow> bool" where
  "place_ok S c p \<longleftrightarrow> geom_ok (kcaches S c) \<and> (\<forall>q \<in> blk_of (kcaches S c) p. mapped (slmm S) q)"

text \<open>The three lists of a node hold its slabs by the number of their free objects.\<close>

definition node_rep :: "nat \<Rightarrow> nat set \<Rightarrow> (nat \<Rightarrow> nat list) \<Rightarrow> nat \<Rightarrow> kmem_cache_node \<Rightarrow> bool" where
  "node_rep num A F d n \<longleftrightarrow> distinct (slabs_partial n) \<and> distinct (slabs_full n) \<and> distinct (slabs_free n)
     \<and> set (slabs_partial n) = {p \<in> A. 0 < length (F p) \<and> length (F p) < num}
     \<and> set (slabs_full n) = {p \<in> A. length (F p) = 0} \<and> set (slabs_free n) = {p \<in> A. length (F p) = num}
     \<and> free_slabs n = of_nat (length (slabs_free n)) \<and> total_slabs n = of_nat (card A)
     \<and> free_objects n = of_nat ((\<Sum>p \<in> A. length (F p)) + d)"

abbreviation node_of :: "slab \<Rightarrow> addr \<Rightarrow> kmem_cache_node" where
  "node_of S c \<equiv> knodes S (kc_node (kcaches S c))"

abbreviation cpu_of :: "slab \<Rightarrow> addr \<Rightarrow> array_cache" where
  "cpu_of S c \<equiv> kcpus S (cpu_cache (kcaches S c))"

definition ac_list :: "array_cache \<Rightarrow> addr list" where
  "ac_list a = ac_entries a (ac_avail a)"

definition waiting :: "slab \<Rightarrow> addr \<Rightarrow> addr list" where
  "waiting S c = ac_list (cpu_of S c)"

definition slabs_of :: "slab \<Rightarrow> addr \<Rightarrow> nat list" where
  "slabs_of S c = slabs_partial (node_of S c) @ slabs_full (node_of S c) @ slabs_free (node_of S c)"

text \<open>The free indices of a slab as its bytes say, and the objects of a cache that its users hold.\<close>

definition frees :: "slab \<Rightarrow> addr \<Rightarrow> nat \<Rightarrow> nat list" where
  "frees S c p = map (\<lambda>j. unat (kram S (freelist S p + of_nat j))) [unat (page_active S p)..<onum (kcaches S c)]"

definition in_use :: "slab \<Rightarrow> addr \<Rightarrow> addr list" where
  "in_use S c = filter (\<lambda>a. a \<notin> set (waiting S c))
     (concat (map (\<lambda>p. map (objat (offs S) (kcaches S c) p) (filter (\<lambda>i. i \<notin> set (frees S c p)) [0..<onum (kcaches S c)]))
        (slabs_of S c)))"

definition taken :: "u64 \<Rightarrow> kmem_cache \<Rightarrow> nat set \<Rightarrow> (nat \<Rightarrow> nat list) \<Rightarrow> addr set" where
  "taken V x A F = (\<Union>p \<in> A. objat V x p ` ({..<onum x} - set (F p)))"

definition cache_rep :: "slab \<Rightarrow> addr \<Rightarrow> nat set \<Rightarrow> (nat \<Rightarrow> nat list) \<Rightarrow> nat \<Rightarrow> bool" where
  "cache_rep S c A F d \<longleftrightarrow> finite A \<and> geom_ok (kcaches S c) \<and> ctor_ok (kcaches S c)
     \<and> (\<forall>p \<in> A. slab_rep S c p (F p) \<and> place_ok S c p)
     \<and> (\<forall>p \<in> A. \<forall>q \<in> A. p \<noteq> q \<longrightarrow> blk_of (kcaches S c) p \<inter> blk_of (kcaches S c) q = {})
     \<and> node_rep (onum (kcaches S c)) A F d (node_of S c)
     \<and> distinct (waiting S c) \<and> set (waiting S c) \<subseteq> taken (offs S) (kcaches S c) A F
     \<and> ac_avail (cpu_of S c) \<le> ac_limit (cpu_of S c)
     \<and> 0 < ac_batchcount (cpu_of S c) \<and> ac_batchcount (cpu_of S c) \<le> ac_limit (cpu_of S c)"

section \<open>Geometry\<close>

lemma geom_bounds:
  assumes "geom_ok x"
  shows "onum x * osz x \<le> 4096 * 2 ^ gfporder x" "4096 * 2 ^ gfporder x \<le> (4194304 :: nat)" "0 < onum x" "0 < osz x" "onum x \<le> 255"
proof -
  have "gfporder x \<le> 10" using assms by (auto simp: geom_ok_def MAX_ORDER_def)
  then have "(2 :: nat) ^ gfporder x \<le> 2 ^ 10" by (intro power_increasing) auto
  then show "4096 * 2 ^ gfporder x \<le> (4194304 :: nat)" by simp
  show "onum x * osz x \<le> 4096 * 2 ^ gfporder x" using assms by (auto simp: geom_ok_def split: if_splits)
  show "0 < onum x" "0 < osz x" "onum x \<le> 255" using assms by (auto simp: geom_ok_def)
qed

lemma obytes_in:
  assumes "geom_ok x" "i < onum x"
  shows "osz x * i + osz x \<le> onum x * osz x" "obytes x p i \<subseteq> bytes p (gfporder x)"
proof -
  have "osz x * Suc i \<le> osz x * onum x" using assms(2) by (intro mult_le_mono2) simp
  then show a: "osz x * i + osz x \<le> onum x * osz x" by (simp add: mult.commute)
  show "obytes x p i \<subseteq> bytes p (gfporder x)"
    using a geom_bounds(1) [OF assms(1)] by (auto simp: obytes_def bytes_def opos_def distrib_left)
qed

lemma obytes_disjoint:
  assumes "i \<noteq> j"
  shows "obytes x p i \<inter> obytes x p j = {}"
proof -
  have *: "obytes x p i \<inter> obytes x p j = {}" if "i < j" for i j
  proof -
    have "osz x * Suc i \<le> osz x * j" using that by (intro mult_le_mono2) simp
    then show ?thesis by (auto simp: obytes_def opos_def)
  qed
  show ?thesis using assms * [of i j] * [of j i] by (cases "i < j") auto
qed

lemma place_small:
  assumes "place_ok S c p" "y \<in> bytes p (gfporder (kcaches S c))"
  shows "y < 2 ^ 64" "16 < kat (offs S) y"
proof -
  have m: "mapped (slmm S) (y div 4096)" using assms bytes_page by (auto simp: place_ok_def)
  then have "y div 4096 < 2 ^ 52" by (simp add: mapped_def)
  then show "y < 2 ^ 64" by simp
  have "y mod 4096 < 4096" by simp
  then have "kat (offs S) (4096 * (y div 4096) + y mod 4096) > 16" using m unfolding mapped_def by blast
  then show "16 < kat (offs S) y" by (simp only: mult_div_mod_eq)
qed

lemma objat_inj:
  assumes "place_ok S c p" "place_ok S c q" "p = q \<or> blk_of (kcaches S c) p \<inter> blk_of (kcaches S c) q = {}"
    and "i < onum (kcaches S c)" "j < onum (kcaches S c)"
    and "objat (offs S) (kcaches S c) p i = objat (offs S) (kcaches S c) q j"
  shows "p = q \<and> i = j"
proof -
  let ?x = "kcaches S c"
  have g: "geom_ok ?x" using assms(1) by (simp add: place_ok_def)
  have o: "opos ?x r k \<in> obytes ?x r k" for r k using geom_bounds(4) [OF g] by (simp add: obytes_def)
  have ij: "opos ?x p i \<in> bytes p (gfporder ?x)" "opos ?x q j \<in> bytes q (gfporder ?x)"
    using o obytes_in(2) [OF g] assms(4,5) by blast+
  then have e: "opos ?x p i = opos ?x q j"
    using assms(6) place_small(1) [OF assms(1) ij(1)] place_small(1) [OF assms(2) ij(2)] by (simp add: objat_def kat_inj)
  have pq: "p = q" using assms(3) bytes_disjoint [of p "gfporder ?x" q "gfporder ?x"] ij e by auto
  then have "i = j" using e o [of p i] o [of q j] obytes_disjoint [of i j ?x p] by auto
  then show ?thesis using pq by simp
qed

lemma fl_bytes_in:
  assumes "geom_ok x" "F \<noteq> []" "\<forall>i \<in> set F. i < onum x"
  shows "{fl_pos x p F..<fl_pos x p F + onum x} \<subseteq> bytes p (gfporder x)"
    "i < onum x \<Longrightarrow> OBJFREELIST_SLAB x \<longrightarrow> i \<noteq> last F \<Longrightarrow> {fl_pos x p F..<fl_pos x p F + onum x} \<inter> obytes x p i = {}"
proof -
  have l: "last F < onum x" using assms(2,3) by simp
  have *: "{fl_pos x p F..<fl_pos x p F + onum x} \<subseteq> obytes x p (last F)" if "OBJFREELIST_SLAB x"
    using assms(1) that by (auto simp: fl_pos_def obytes_def geom_ok_def)
  show "{fl_pos x p F..<fl_pos x p F + onum x} \<subseteq> bytes p (gfporder x)"
  proof (cases "OBJFREELIST_SLAB x")
    case False
    then show ?thesis using assms(1) by (auto simp: fl_pos_def bytes_def geom_ok_def distrib_left)
  qed (use * obytes_in(2) [OF assms(1) l] in blast)
  show "{fl_pos x p F..<fl_pos x p F + onum x} \<inter> obytes x p i = {}" if "i < onum x" "OBJFREELIST_SLAB x \<longrightarrow> i \<noteq> last F"
  proof (cases "OBJFREELIST_SLAB x")
    case True
    then show ?thesis using * obytes_disjoint [of "last F" i x p] that(2) by blast
  next
    case False
    then have "onum x * osz x + onum x \<le> 4096 * 2 ^ gfporder x" using assms(1) by (simp add: geom_ok_def)
    then show ?thesis using obytes_in(1) [OF assms(1) that(1)] False by (auto simp: fl_pos_def obytes_def opos_def)
  qed
qed

section \<open>What a change elsewhere keeps\<close>

lemma set_active_simps [simp]:
  "kcaches (set_active p v S) = kcaches S" "knodes (set_active p v S) = knodes S" "kcpus (set_active p v S) = kcpus S"
  "page_cache (set_active p v S) = page_cache S" "freelist (set_active p v S) = freelist S" "s_mem (set_active p v S) = s_mem S"
  "kram (set_active p v S) = kram S" "offs (set_active p v S) = offs S" "page_active (set_active p v S) p = v"
  "q \<noteq> p \<Longrightarrow> mem_map (slmm (set_active p v S)) q = mem_map (slmm S) q"
  "PageSlab (mem_map (slmm (set_active p v S)) q) = PageSlab (mem_map (slmm S) q)"
  "zonerefs (slmm (set_active p v S)) = zonerefs (slmm S)" "kmalloc_caches (set_active p v S) = kmalloc_caches S"
  "size_index (set_active p v S) = size_index S"
  by (simp_all add: set_active_def page_active_def PageSlab_def)

lemma set_active_other [simp]: "q \<noteq> p \<Longrightarrow> page_active (set_active p v S) q = page_active S q"
  by (simp add: page_active_def)

lemma set_active_twice [simp]: "set_active p v (set_active p w S) = set_active p v S"
  by (simp add: set_active_def)

lemma set_active_same [simp]: "set_active p (page_active S p) S = S"
  by (simp add: set_active_def page_active_def)

lemma set_ram_simps [simp]:
  "kcaches (set_ram r S) = kcaches S" "knodes (set_ram r S) = knodes S" "kcpus (set_ram r S) = kcpus S"
  "page_cache (set_ram r S) = page_cache S" "freelist (set_ram r S) = freelist S" "s_mem (set_ram r S) = s_mem S"
  "kram (set_ram r S) = r" "offs (set_ram r S) = offs S" "mem_map (slmm (set_ram r S)) = mem_map (slmm S)"
  "page_active (set_ram r S) p = page_active S p" "zonerefs (slmm (set_ram r S)) = zonerefs (slmm S)"
  "kmalloc_caches (set_ram r S) = kmalloc_caches S" "size_index (set_ram r S) = size_index S"
  by (simp_all add: set_ram_def page_active_def)

text \<open>
  A change of cache \<open>c\<close> that touches the structures of the pages \<open>P\<close> and the memory at the positions \<open>Y\<close>
  only.
\<close>

definition touched :: "addr \<Rightarrow> nat set \<Rightarrow> nat set \<Rightarrow> slab \<Rightarrow> slab \<Rightarrow> bool" where
  "touched c P Y S S' \<longleftrightarrow> kcaches S' = kcaches S \<and> offs S' = offs S \<and> zonerefs (slmm S') = zonerefs (slmm S)
     \<and> kmalloc_caches S' = kmalloc_caches S \<and> size_index S' = size_index S
     \<and> (\<forall>n. n \<noteq> kc_node (kcaches S c) \<longrightarrow> knodes S' n = knodes S n)
     \<and> (\<forall>a. a \<noteq> cpu_cache (kcaches S c) \<longrightarrow> kcpus S' a = kcpus S a)
     \<and> (\<forall>q. q \<notin> P \<longrightarrow> page_cache S' q = page_cache S q \<and> freelist S' q = freelist S q \<and> s_mem S' q = s_mem S q
           \<and> mem_map (slmm S') q = mem_map (slmm S) q)
     \<and> (\<forall>y < 2 ^ 64. y \<notin> Y \<longrightarrow> kram S' (kat (offs S) y) = kram S (kat (offs S) y))"

lemma touched_refl [simp]: "touched c P Y S S"
  by (simp add: touched_def)

lemma touched_mono: "touched c P Y S S' \<Longrightarrow> P \<subseteq> P' \<Longrightarrow> Y \<subseteq> Y' \<Longrightarrow> touched c P' Y' S S'"
  unfolding touched_def by (meson subsetD)

lemma touched_trans [trans]: "touched c P Y S T \<Longrightarrow> touched c P Y T U \<Longrightarrow> touched c P Y S U"
  unfolding touched_def by simp

lemma touched_caches: "touched c P Y S S' \<Longrightarrow> kcaches S' = kcaches S \<and> offs S' = offs S"
  by (simp add: touched_def)

lemma slab_rep_bytes:
  assumes "slab_rep S c p F" "k < onum (kcaches S c)" "onum (kcaches S c) - length F \<le> k"
  shows "freelist S p + of_nat k = kat (offs S) (fl_pos (kcaches S c) p F + k)"
    "fl_pos (kcaches S c) p F + k \<in> fl_bytes (kcaches S c) p F"
proof -
  have "F \<noteq> []" using assms by auto
  then show "freelist S p + of_nat k = kat (offs S) (fl_pos (kcaches S c) p F + k)"
    using assms(1) by (simp add: slab_rep_def fl_addr_def kat_add)
  show "fl_pos (kcaches S c) p F + k \<in> fl_bytes (kcaches S c) p F" using assms(2,3) by (simp add: fl_bytes_def)
qed

lemma slab_rep_in: "slab_rep S c p F \<Longrightarrow> i \<in> set F \<Longrightarrow> i < onum (kcaches S c)"
  by (simp add: slab_rep_def slab_core_def)

lemma fl_bytes_block:
  assumes "slab_rep S c p F" "place_ok S c p"
  shows "fl_bytes (kcaches S c) p F \<subseteq> bytes p (gfporder (kcaches S c))"
proof (cases "F = []")
  case False
  then show ?thesis using fl_bytes_in(1) [of "kcaches S c" F p] slab_rep_in [OF assms(1)] assms(2)
    by (auto simp: place_ok_def fl_bytes_def)
qed (simp add: fl_bytes_def)

lemma slab_rep_touched:
  assumes rep: "slab_rep S c p F" and pl: "place_ok S c p" and t: "touched c' P Y S S'"
    and "p \<notin> P" and "fl_bytes (kcaches S c) p F \<inter> Y = {}"
  shows "slab_rep S' c p F"
proof -
  have e: "kcaches S' = kcaches S" "offs S' = offs S" "page_cache S' p = page_cache S p" "freelist S' p = freelist S p"
    "s_mem S' p = s_mem S p" "mem_map (slmm S') p = mem_map (slmm S) p"
    using t assms(4) by (simp_all add: touched_def)
  have "kram S' (freelist S p + of_nat k) = kram S (freelist S p + of_nat k)"
    if "k < onum (kcaches S c)" "onum (kcaches S c) - length F \<le> k" for k
  proof -
    note b = slab_rep_bytes [OF rep that]
    show ?thesis unfolding b(1) using t b(2) assms(5) place_small(1) [OF pl] fl_bytes_block [OF rep pl]
      unfolding touched_def by blast
  qed
  then show ?thesis using rep unfolding slab_rep_def slab_core_def page_active_def e by auto
qed

lemma place_ok_same: "kcaches S' = kcaches S \<Longrightarrow> offs S' = offs S \<Longrightarrow> place_ok S' c p = place_ok S c p"
  by (simp add: place_ok_def mapped_def)

text \<open>A cache with its slabs elsewhere is kept.\<close>

lemma cache_rep_touched:
  assumes rep: "cache_rep S c A F d" and t: "touched c' P Y S S'"
    and "knodes S' (kc_node (kcaches S c)) = node_of S c" and "kcpus S' (cpu_cache (kcaches S c)) = cpu_of S c"
    and P: "\<And>p. p \<in> A \<Longrightarrow> p \<notin> P" and Y: "\<And>p. p \<in> A \<Longrightarrow> fl_bytes (kcaches S c) p (F p) \<inter> Y = {}"
  shows "cache_rep S' c A F d"
proof -
  have e: "kcaches S' = kcaches S" "offs S' = offs S" "node_of S' c = node_of S c" "cpu_of S' c = cpu_of S c"
    using t assms(3,4) by (simp_all add: touched_def)
  have w: "waiting S' c = waiting S c" using e by (simp add: waiting_def)
  have "slab_rep S' c p (F p) \<and> place_ok S' c p" if "p \<in> A" for p
    using slab_rep_touched [OF _ _ t P Y] that rep place_ok_same [OF e(1,2)] by (simp add: cache_rep_def)
  then show ?thesis using rep e w by (simp add: cache_rep_def)
qed

end
