(* ===== verification/SlabAlloc.thy ===== *)
theory SlabAlloc
  imports SlabInv
begin

text \<open>
  Taking objects: the loop that moves free objects of a slab to the array cache in closed form, the
  lists of the node after it, and the refill of an array cache.
\<close>

section \<open>Small numbers as words\<close>

lemma u32_add: "unat a + k < 4294967296 \<Longrightarrow> unat (a + of_nat k :: u32) = unat a + k"
  by (simp add: unat_word_ariths unat_of_nat mod_add_right_eq)

lemma ucast_byte: "i < 256 \<Longrightarrow> (ucast (of_nat i :: u8) :: u32) = of_nat i"
proof -
  assume "i < 256"
  then have "unat (of_nat i :: u8) = i" by (simp add: unat_of_nat)
  then show ?thesis by (metis of_nat_unat)
qed

section \<open>Taking objects from a slab\<close>

lemma index_to_obj_eq:
  assumes "s_mem S p = kat (offs S) (4096 * p)" "geom_ok (kcaches S c)" "i < onum (kcaches S c)"
  shows "index_to_obj S c p (of_nat i) = objat (offs S) (kcaches S c) p i"
proof -
  let ?x = "kcaches S c"
  have l: "osz ?x * i < 4294967296" using obytes_in(1) [OF assms(2,3)] geom_bounds(1,2) [OF assms(2)] by linarith
  have "(of_nat (osz ?x * i) :: u32) = kc_size ?x * of_nat i" by simp
  moreover have "unat (of_nat (osz ?x * i) :: u32) = osz ?x * i" using l by (simp add: unat_of_nat del: of_nat_mult)
  ultimately have "unat (kc_size ?x * of_nat i) = osz ?x * i" by (simp only:)
  then have "(ucast (kc_size ?x * of_nat i) :: u64) = of_nat (osz ?x * i)" by (metis of_nat_unat)
  then show ?thesis using assms(1) by (simp add: index_to_obj_def objat_def opos_def kat_add del: of_nat_mult)
qed

lemma slab_get_obj_eq:
  assumes "slab_core S c p (i # F)" "geom_ok (kcaches S c)" "freelist S p \<noteq> 0"
  shows "slab_get_obj c p S = Inr (set_active p (page_active S p + 1) S, objat (offs S) (kcaches S c) p i)"
    "slab_core (set_active p (page_active S p + 1) S) c p F"
proof -
  let ?x = "kcaches S c" and ?a = "unat (page_active S p)"
  have a: "?a + length (i # F) = onum ?x" and i: "i < onum ?x" using assms(1) by (auto simp: slab_core_def)
  have n: "onum ?x \<le> 255" using geom_bounds [OF assms(2)] by simp
  have s: "unat (page_active S p + 1) = ?a + 1" using u32_add [of "page_active S p" 1] a n by simp
  have "kram S (freelist S p + of_nat ?a) = of_nat i"
  proof -
    have "?a < onum ?x" "onum ?x - length (i # F) \<le> ?a" "?a + length (i # F) - onum ?x = 0" using a by auto
    then show ?thesis using assms(1) unfolding slab_core_def by (metis nth_Cons_0)
  qed
  then have "get_free_obj S p (page_active S p) = Inr (of_nat i)" using assms(3) by (simp add: get_free_obj_def)
  moreover have "(ucast (of_nat i :: u8) :: u32) = of_nat i" using ucast_byte i n by simp
  ultimately show "slab_get_obj c p S = Inr (set_active p (page_active S p + 1) S, objat (offs S) ?x p i)"
    using index_to_obj_eq [OF _ assms(2) i, of p] assms(1) by (simp add: slab_get_obj_def slab_core_def)
  show "slab_core (set_active p (page_active S p + 1) S) c p F"
    unfolding slab_core_def
  proof (intro conjI allI impI)
    fix k assume "k < onum (kcaches (set_active p (page_active S p + 1) S) c)"
      and "onum (kcaches (set_active p (page_active S p + 1) S) c) - length F \<le> k"
    then have k: "k < onum ?x" "onum ?x - length F \<le> k" by simp_all
    then have "onum ?x - length (i # F) \<le> k" "k + length (i # F) - onum ?x = Suc (k + length F - onum ?x)" using a by auto
    then show "kram (set_active p (page_active S p + 1) S) (freelist (set_active p (page_active S p + 1) S) p + of_nat k)
        = of_nat (F ! (k + length F - onum (kcaches (set_active p (page_active S p + 1) S) c)))"
      using assms(1) k(1) unfolding slab_core_def by simp
  qed (use assms(1) a s in \<open>auto simp: slab_core_def\<close>)
qed

lemma ac_push_simps [simp]:
  "kcaches (ac_push ac a S) = kcaches S" "knodes (ac_push ac a S) = knodes S" "slmm (ac_push ac a S) = slmm S"
  "page_cache (ac_push ac a S) = page_cache S" "freelist (ac_push ac a S) = freelist S" "s_mem (ac_push ac a S) = s_mem S"
  "page_active (ac_push ac a S) = page_active S" "b \<noteq> ac \<Longrightarrow> kcpus (ac_push ac a S) b = kcpus S b"
  "kmalloc_caches (ac_push ac a S) = kmalloc_caches S" "size_index (ac_push ac a S) = size_index S"
  by (simp_all add: ac_push_def page_active_def fun_eq_iff)

lemma pushes_simps [simp]:
  "kcaches (fold (ac_push ac) xs S) = kcaches S" "knodes (fold (ac_push ac) xs S) = knodes S" "slmm (fold (ac_push ac) xs S) = slmm S"
  "page_cache (fold (ac_push ac) xs S) = page_cache S" "freelist (fold (ac_push ac) xs S) = freelist S"
  "s_mem (fold (ac_push ac) xs S) = s_mem S" "page_active (fold (ac_push ac) xs S) = page_active S"
  "b \<noteq> ac \<Longrightarrow> kcpus (fold (ac_push ac) xs S) b = kcpus S b"
  "kmalloc_caches (fold (ac_push ac) xs S) = kmalloc_caches S" "size_index (fold (ac_push ac) xs S) = size_index S"
  by (induction xs arbitrary: S) simp_all

lemma ac_push_cpu:
  "ac_list (kcpus (ac_push ac a S) ac) = ac_list (kcpus S ac) @ [a]"
  "ac_avail (kcpus (ac_push ac a S) ac) = Suc (ac_avail (kcpus S ac))"
  "ac_limit (kcpus (ac_push ac a S) ac) = ac_limit (kcpus S ac)" "ac_batchcount (kcpus (ac_push ac a S) ac) = ac_batchcount (kcpus S ac)"
  by (simp_all add: ac_push_def ac_list_def ac_entries_def)

lemma pushes_cpu:
  "ac_list (kcpus (fold (ac_push ac) xs S) ac) = ac_list (kcpus S ac) @ xs"
  "ac_avail (kcpus (fold (ac_push ac) xs S) ac) = ac_avail (kcpus S ac) + length xs"
  "ac_limit (kcpus (fold (ac_push ac) xs S) ac) = ac_limit (kcpus S ac)"
  "ac_batchcount (kcpus (fold (ac_push ac) xs S) ac) = ac_batchcount (kcpus S ac)"
  by (induction xs arbitrary: S) (simp_all add: ac_push_cpu)

lemma ac_push_active: "ac_push ac a (set_active p v S) = set_active p v (ac_push ac a S)"
  by (simp add: ac_push_def set_active_def)

lemma slab_core_push [simp]: "slab_core (ac_push ac a S) c p F = slab_core S c p F"
  by (simp add: slab_core_def)

text \<open>The state after \<open>k\<close> free objects of a slab have gone to the array cache.\<close>

definition took :: "nat \<Rightarrow> addr \<Rightarrow> addr \<Rightarrow> nat \<Rightarrow> nat list \<Rightarrow> slab \<Rightarrow> slab" where
  "took k c ac p F S = set_active p (page_active S p + of_nat k) (fold (ac_push ac) (map (objat (offs S) (kcaches S c) p) (take k F)) S)"

lemma alloc_block_loop_eq:
  assumes "slab_core S c p F" "geom_ok (kcaches S c)" "freelist S p \<noteq> 0" "0 \<le> bc"
  shows "alloc_block_loop (length F) c ac p bc S =
      Inr (took (min (nat bc) (length F)) c ac p F S, if int (length F) \<le> bc then bc - int (length F) else - 1)"
    "k \<le> length F \<Longrightarrow> slab_core (took k c ac p F S) c p (drop k F)"
proof -
  show "alloc_block_loop (length F) c ac p bc S =
      Inr (took (min (nat bc) (length F)) c ac p F S, if int (length F) \<le> bc then bc - int (length F) else - 1)"
    using assms
  proof (induction F arbitrary: S bc)
    case (Cons i F)
    define T where "T = ac_push ac (objat (offs S) (kcaches S c) p i) (set_active p (page_active S p + 1) S)"
    note g = slab_get_obj_eq [OF Cons.prems(1,2,3)]
    show ?case
    proof (cases "bc = 0")
      case False
      have k: "min (nat bc) (length (i # F)) = Suc (min (nat (bc - 1)) (length F))" using False Cons.prems(4) by auto
      have e: "kcaches T = kcaches S" "offs T = offs S" "page_active T p = page_active S p + 1" by (simp_all add: T_def)
      have sa: "fold (ac_push ac) xs (set_active p v U) = set_active p v (fold (ac_push ac) xs U)" for xs v U
        by (induction xs arbitrary: U) (simp_all add: ac_push_active)
      have "took (min (nat (bc - 1)) (length F)) c ac p F T = took (min (nat bc) (length (i # F))) c ac p (i # F) S"
        unfolding k by (simp add: took_def e) (simp add: T_def ac_push_active sa add.assoc)
      moreover have "slab_core T c p F" using g(2) by (simp add: T_def)
      moreover have "freelist T p \<noteq> 0" "geom_ok (kcaches T c)" using Cons.prems(2,3) by (simp_all add: T_def)
      ultimately show ?thesis
        using Cons.IH [of T "bc - 1"] False Cons.prems(4) by (simp add: g(1) T_def [symmetric] del: of_nat_Suc)
    qed (simp add: took_def)
  qed (simp add: took_def)
next
  show "slab_core (took k c ac p F S) c p (drop k F)" if "k \<le> length F"
    using that
  proof (induction k)
    case (Suc k)
    let ?T = "took k c ac p F S" and ?U = "fold (ac_push ac) (map (objat (offs S) (kcaches S c) p) (take (Suc k) F)) S"
    have d: "drop k F = F ! k # drop (Suc k) F" using Suc.prems by (simp add: Cons_nth_drop_Suc)
    have e: "kcaches ?T = kcaches S" "freelist ?T = freelist S" "page_active ?T p = page_active S p + of_nat k"
      by (simp_all add: took_def)
    have c: "slab_core (set_active p (page_active ?T p + 1) ?T) c p (drop (Suc k) F)"
      using slab_get_obj_eq(2) [of ?T c p "F ! k" "drop (Suc k) F"] Suc assms(2,3) d e by simp
    have "slab_core (set_active p v (fold (ac_push ac) xs S)) c p G = slab_core (set_active p v S) c p G" for v xs G
      by (simp add: slab_core_def)
    then show ?case using c by (simp add: took_def ac_simps)
  qed (use assms(1) in \<open>simp add: took_def\<close>)
qed

section \<open>The lists of a node\<close>

definition moved :: "nat \<Rightarrow> bool \<Rightarrow> kmem_cache_node \<Rightarrow> kmem_cache_node" where
  "moved p full n = n\<lparr>slabs_partial := (if full then id else Cons p) (remove1 p (slabs_partial n)),
     slabs_full := (if full then Cons p else id) (remove1 p (slabs_full n)), slabs_free := remove1 p (slabs_free n)\<rparr>"

definition picked :: "nat \<Rightarrow> kmem_cache_node \<Rightarrow> kmem_cache_node" where
  "picked p n = (if p \<in> set (slabs_free n) then n\<lparr>free_slabs := free_slabs n - 1\<rparr> else n)"

lemma fixup_eq:
  "fixup_slab_list c n p S =
     (let b = page_active S p = kc_num (kcaches S c)
      in S\<lparr>knodes := (knodes S)(n := moved p b (knodes S n)),
           freelist := if b \<and> OBJFREELIST_SLAB (kcaches S c) then (freelist S)(p := 0) else freelist S\<rparr>)"
  by (cases "knodes S n") (simp add: fixup_slab_list_def slab_list_del_def moved_def Let_def page_active_def)

lemma sum_taken:
  assumes "finite A" "p \<in> A" "k \<le> length (F p)"
  shows "(\<Sum>q \<in> A. length ((F(p := drop k (F p))) q)) + k = (\<Sum>q \<in> A. length (F q))"
proof -
  have "(\<Sum>q \<in> A. length ((F(p := drop k (F p))) q)) = (\<Sum>q \<in> A - {p}. length (F q)) + (length (F p) - k)"
    using assms by (subst sum.remove [of A p]) auto
  moreover have "(\<Sum>q \<in> A. length (F q)) = length (F p) + (\<Sum>q \<in> A - {p}. length (F q))"
    using assms by (subst sum.remove [of A p]) auto
  ultimately show ?thesis using assms(3) by simp
qed

lemma node_taken:
  assumes rep: "node_rep num A F d n" and "finite A" "p \<in> A" and k: "0 < k" "k \<le> length (F p)" "length (F p) \<le> num"
  shows "node_rep num A (F(p := drop k (F p))) (d + k) (moved p (k = length (F p)) (picked p n))"
proof -
  let ?G = "F(p := drop k (F p))"
  have s: "(\<Sum>q \<in> A. length (?G q)) + (d + k) = (\<Sum>q \<in> A. length (F q)) + d" using sum_taken [of A p k F] assms by simp
  have l: "set (slabs_partial n) = {p \<in> A. 0 < length (F p) \<and> length (F p) < num}"
    "set (slabs_full n) = {p \<in> A. length (F p) = 0}" "set (slabs_free n) = {p \<in> A. length (F p) = num}"
    and d: "distinct (slabs_partial n)" "distinct (slabs_full n)" "distinct (slabs_free n)"
    and r: "free_slabs n = of_nat (length (slabs_free n))" "total_slabs n = of_nat (card A)" "free_objects n = of_nat ((\<Sum>p \<in> A. length (F p)) + d)"
    using rep by (auto simp: node_rep_def)
  have fr: "free_slabs (picked p n) = of_nat (length (remove1 p (slabs_free n)))"
  proof (cases "p \<in> set (slabs_free n)")
    case True
    then obtain m where "length (slabs_free n) = Suc m" by (cases "slabs_free n") auto
    then show ?thesis using True r(1) by (simp add: picked_def length_remove1)
  qed (use r(1) in \<open>simp add: picked_def remove1_idem\<close>)
  have e: "slabs_partial (picked p n) = slabs_partial n" "slabs_full (picked p n) = slabs_full n" "slabs_free (picked p n) = slabs_free n"
    "total_slabs (picked p n) = total_slabs n" "free_objects (picked p n) = free_objects n" by (simp_all add: picked_def)
  define n' where "n' = moved p (k = length (F p)) (picked p n)"
  have n': "slabs_partial n' = (if k = length (F p) then id else Cons p) (remove1 p (slabs_partial n))"
    "slabs_full n' = (if k = length (F p) then Cons p else id) (remove1 p (slabs_full n))"
    "slabs_free n' = remove1 p (slabs_free n)" "free_slabs n' = free_slabs (picked p n)"
    "total_slabs n' = total_slabs n" "free_objects n' = free_objects n"
    by (simp_all add: n'_def moved_def e)
  have g: "length (?G p) = length (F p) - k" "length (F p) - k < num" "\<And>q. q \<noteq> p \<Longrightarrow> ?G q = F q" using k by simp_all
  have "set (slabs_partial n') = {q \<in> A. 0 < length (?G q) \<and> length (?G q) < num}"
  proof (rule set_eqI)
    fix q show "q \<in> set (slabs_partial n') \<longleftrightarrow> q \<in> {q \<in> A. 0 < length (?G q) \<and> length (?G q) < num}"
      unfolding n'(1) using d(1) l(1) k assms(3) g by (cases "q = p") simp_all
  qed
  moreover have "set (slabs_full n') = {q \<in> A. length (?G q) = 0}"
  proof (rule set_eqI)
    fix q show "q \<in> set (slabs_full n') \<longleftrightarrow> q \<in> {q \<in> A. length (?G q) = 0}"
      unfolding n'(2) using d(2) l(2) k assms(3) g by (cases "q = p") simp_all
  qed
  moreover have "set (slabs_free n') = {q \<in> A. length (?G q) = num}"
  proof (rule set_eqI)
    fix q show "q \<in> set (slabs_free n') \<longleftrightarrow> q \<in> {q \<in> A. length (?G q) = num}"
      unfolding n'(3) using d(3) l(3) k assms(3) g by (cases "q = p") simp_all
  qed
  moreover have "distinct (slabs_partial n')" "distinct (slabs_full n')" "distinct (slabs_free n')"
    unfolding n' using d by auto
  ultimately show ?thesis unfolding n'_def [symmetric] node_rep_def s using r n'(3-6) fr by simp
qed

lemma node_rep_lists:
  assumes "node_rep num A F d n"
  shows "set (slabs_partial n) = {p \<in> A. 0 < length (F p) \<and> length (F p) < num}"
    "set (slabs_full n) = {p \<in> A. length (F p) = 0}" "set (slabs_free n) = {p \<in> A. length (F p) = num}"
  using assms unfolding node_rep_def by blast+

lemma get_first_slab_cases:
  assumes rep: "node_rep num A F d (knodes S n)" and "0 < num"
  shows "case get_first_slab n S of
      (S', None) \<Rightarrow> S' = S \<and> (\<forall>p \<in> A. length (F p) \<le> num \<longrightarrow> F p = [])
    | (S', Some p) \<Rightarrow> S' = upd_knode n (picked p) S \<and> p \<in> A \<and> F p \<noteq> []"
proof -
  note l = node_rep_lists [OF rep]
  consider (part) p ps where "slabs_partial (knodes S n) = p # ps"
    | (free) p ps where "slabs_partial (knodes S n) = []" "slabs_free (knodes S n) = p # ps"
    | (none) "slabs_partial (knodes S n) = []" "slabs_free (knodes S n) = []"
    by (meson list.exhaust)
  then show ?thesis
  proof cases
    case part
    then have p: "p \<in> {p \<in> A. 0 < length (F p) \<and> length (F p) < num}" unfolding l(1) [symmetric] by simp
    then have "p \<notin> set (slabs_free (knodes S n))" unfolding l(3) by simp
    then show ?thesis using p part by (simp add: get_first_slab_def picked_def)
  next
    case free
    have p: "p \<in> set (slabs_free (knodes S n))" using free by simp
    then have "p \<in> A" "F p \<noteq> []" using l(3) assms(2) by auto
    then show ?thesis using free p by (simp add: get_first_slab_def picked_def)
  next
    case none
    then have e: "{p \<in> A. 0 < length (F p) \<and> length (F p) < num} = {}" "{p \<in> A. length (F p) = num} = {}" using l by simp_all
    have "F p = []" if "length (F p) \<le> num" "p \<in> A" for p
    proof (rule ccontr)
      assume "F p \<noteq> []"
      then have "p \<in> {p \<in> A. 0 < length (F p) \<and> length (F p) < num} \<or> p \<in> {p \<in> A. length (F p) = num}" using that by auto
      then show False unfolding e by simp
    qed
    then show ?thesis using none by (simp add: get_first_slab_def)
  qed
qed

section \<open>One slab of a refill\<close>

lemma cache_repD:
  assumes "cache_rep S c A F d"
  shows "finite A" "geom_ok (kcaches S c)" "ctor_ok (kcaches S c)" "node_rep (onum (kcaches S c)) A F d (node_of S c)"
    "distinct (waiting S c)" "set (waiting S c) \<subseteq> taken (offs S) (kcaches S c) A F"
    "ac_avail (cpu_of S c) \<le> ac_limit (cpu_of S c)" "0 < ac_batchcount (cpu_of S c)" "ac_batchcount (cpu_of S c) \<le> ac_limit (cpu_of S c)"
    "p \<in> A \<Longrightarrow> slab_rep S c p (F p)" "p \<in> A \<Longrightarrow> place_ok S c p"
    "p \<in> A \<Longrightarrow> q \<in> A \<Longrightarrow> p \<noteq> q \<Longrightarrow> blk_of (kcaches S c) p \<inter> blk_of (kcaches S c) q = {}"
  using assms unfolding cache_rep_def by blast+

lemma page_active_upd [simp]:
  "page_active (S\<lparr>knodes := N\<rparr>) = page_active S" "page_active (S\<lparr>kcpus := K\<rparr>) = page_active S"
  "page_active (S\<lparr>freelist := f\<rparr>) = page_active S" "page_active (S\<lparr>page_cache := f\<rparr>) = page_active S"
  "page_active (S\<lparr>s_mem := f\<rparr>) = page_active S"
  by (simp_all add: page_active_def fun_eq_iff)

lemma slab_rep_upd [simp]:
  "slab_rep (S\<lparr>knodes := N\<rparr>) c p F = slab_rep S c p F" "place_ok (S\<lparr>knodes := N\<rparr>) c p = place_ok S c p"
  "slab_rep (S\<lparr>kcpus := K\<rparr>) c p F = slab_rep S c p F" "place_ok (S\<lparr>kcpus := K\<rparr>) c p = place_ok S c p"
  "waiting (S\<lparr>knodes := N\<rparr>) c = waiting S c"
  by (simp_all add: slab_rep_def slab_core_def place_ok_def waiting_def)

lemma slab_repD:
  assumes "slab_rep S c p F"
  shows "slab_core S c p F" "freelist S p = fl_addr (offs S) (kcaches S c) p F" "distinct F" "length F \<le> onum (kcaches S c)"
    "unat (page_active S p) = onum (kcaches S c) - length F"
  using assms by (auto simp: slab_rep_def slab_core_def)

lemma freelist_nonzero:
  assumes "slab_rep S c p F" "place_ok S c p" "F \<noteq> []"
  shows "16 < freelist S p"
proof -
  have g: "geom_ok (kcaches S c)" using assms(2) by (simp add: place_ok_def)
  have "fl_pos (kcaches S c) p F \<in> bytes p (gfporder (kcaches S c))"
    using fl_bytes_in(1) [OF g assms(3), of p] slab_rep_in [OF assms(1)] geom_bounds(3) [OF g] by auto
  then show ?thesis using place_small(2) [OF assms(2)] slab_repD(2) [OF assms(1)] assms(3) by (simp add: fl_addr_def)
qed

lemma taken_mono: "(\<And>p. p \<in> A \<Longrightarrow> set (G p) \<subseteq> set (F p)) \<Longrightarrow> taken V x A F \<subseteq> taken V x A G"
  unfolding taken_def by blast

text \<open>The state after \<open>k\<close> objects of slab \<open>p\<close> were taken and the slab was put on its new list.\<close>

definition taken_from :: "nat \<Rightarrow> addr \<Rightarrow> nat \<Rightarrow> nat list \<Rightarrow> slab \<Rightarrow> slab" where
  "taken_from k c p F S = fixup_slab_list c (kc_node (kcaches S c)) p
     (took k c (cpu_cache (kcaches S c)) p F (upd_knode (kc_node (kcaches S c)) (picked p) S))"

lemma took_simps [simp]:
  "kcaches (took k c ac p F S) = kcaches S" "knodes (took k c ac p F S) = knodes S" "freelist (took k c ac p F S) = freelist S"
  "page_cache (took k c ac p F S) = page_cache S" "s_mem (took k c ac p F S) = s_mem S" "offs (took k c ac p F S) = offs S"
  "kram (took k c ac p F S) = kram S" "page_active (took k c ac p F S) p = page_active S p + of_nat k"
  "b \<noteq> ac \<Longrightarrow> kcpus (took k c ac p F S) b = kcpus S b" "q \<noteq> p \<Longrightarrow> mem_map (slmm (took k c ac p F S)) q = mem_map (slmm S) q"
  "zonerefs (slmm (took k c ac p F S)) = zonerefs (slmm S)" "kmalloc_caches (took k c ac p F S) = kmalloc_caches S"
  "size_index (took k c ac p F S) = size_index S"
  by (simp_all add: took_def)

lemma took_cpu:
  "ac_list (kcpus (took k c ac p F S) ac) = ac_list (kcpus S ac) @ map (objat (offs S) (kcaches S c) p) (take k F)"
  "k \<le> length F \<Longrightarrow> ac_avail (kcpus (took k c ac p F S) ac) = ac_avail (kcpus S ac) + k"
  "ac_limit (kcpus (took k c ac p F S) ac) = ac_limit (kcpus S ac)"
  "ac_batchcount (kcpus (took k c ac p F S) ac) = ac_batchcount (kcpus S ac)"
  by (simp_all add: took_def pushes_cpu)

lemma taken_from_slab:
  assumes rep: "slab_rep S c p F" and pl: "place_ok S c p" and k: "0 < k" "k \<le> length F"
  shows "slab_rep (taken_from k c p F S) c p (drop k F)"
    "page_active (took k c ac p F S) p = kc_num (kcaches S c) \<longleftrightarrow> k = length F"
proof -
  let ?x = "kcaches S c"
  have g: "geom_ok ?x" using pl by (simp add: place_ok_def)
  have a: "unat (page_active S p + of_nat k) = onum ?x - length F + k"
    using slab_repD(4,5) [OF rep] k(2) geom_bounds(5) [OF g] u32_add [of "page_active S p" k] by simp
  show full: "page_active (took k c ac p F S) p = kc_num ?x \<longleftrightarrow> k = length F" for ac
    using a slab_repD(4) [OF rep] k(2) by (auto simp: word_unat_eq_iff)
  let ?T = "took k c (cpu_cache ?x) p F (upd_knode (kc_node ?x) (picked p) S)"
  have "F \<noteq> []" using k by auto
  then have fz: "freelist S p \<noteq> 0" using freelist_nonzero [OF rep pl] by auto
  have "slab_core (upd_knode (kc_node ?x) (picked p) S) c p F" using slab_repD(1) [OF rep] by (simp add: slab_core_def page_active_def)
  then have core: "slab_core ?T c p (drop k F)"
    using fz k g by (intro alloc_block_loop_eq(2) [of _ _ _ _ 0]) simp_all
  have b: "page_active ?T p = kc_num (kcaches ?T c) \<longleftrightarrow> k = length F"
    using full by simp
  show "slab_rep (taken_from k c p F S) c p (drop k F)"
  proof (cases "k = length F")
    case True
    then show ?thesis using core b rep
      by (auto simp: taken_from_def fixup_eq Let_def slab_rep_def slab_core_def page_active_def fl_addr_def fl_pos_def)
  next
    case False
    then show ?thesis using core b rep k
      by (auto simp: taken_from_def fixup_eq Let_def slab_rep_def slab_core_def page_active_def fl_addr_def fl_pos_def last_drop)
  qed
qed

lemma taken_from_touched: "touched c {p} {} S (taken_from k c p F S)"
  unfolding touched_def taken_from_def fixup_eq Let_def by simp

lemma cache_inj:
  assumes "cache_rep S c A F d" "p \<in> A" "q \<in> A" "i < onum (kcaches S c)" "j < onum (kcaches S c)"
    and "objat (offs S) (kcaches S c) p i = objat (offs S) (kcaches S c) q j"
  shows "p = q \<and> i = j"
  using objat_inj [OF cache_repD(11) [OF assms(1,2)] cache_repD(11) [OF assms(1,3)] _ assms(4-6)] cache_repD(12) [OF assms(1-3)] by blast

lemma taken_iff:
  assumes "cache_rep S c A F d" "p \<in> A" "i < onum (kcaches S c)"
  shows "objat (offs S) (kcaches S c) p i \<in> taken (offs S) (kcaches S c) A G \<longleftrightarrow> i \<notin> set (G p)"
proof
  assume "objat (offs S) (kcaches S c) p i \<in> taken (offs S) (kcaches S c) A G"
  then obtain q j where q: "q \<in> A" "j < onum (kcaches S c)" "j \<notin> set (G q)"
    "objat (offs S) (kcaches S c) p i = objat (offs S) (kcaches S c) q j" by (auto simp: taken_def)
  show "i \<notin> set (G p)" using cache_inj [OF assms(1,2) q(1) assms(3) q(2,4)] q(3) by simp
qed (use assms in \<open>auto simp: taken_def\<close>)

lemma taken_from_cpu:
  assumes "k \<le> length F"
  shows "waiting (taken_from k c p F S) c = waiting S c @ map (objat (offs S) (kcaches S c) p) (take k F)"
    "ac_avail (cpu_of (taken_from k c p F S) c) = ac_avail (cpu_of S c) + k"
    "ac_limit (cpu_of (taken_from k c p F S) c) = ac_limit (cpu_of S c)"
    "ac_batchcount (cpu_of (taken_from k c p F S) c) = ac_batchcount (cpu_of S c)"
  using assms by (simp_all add: taken_from_def fixup_eq Let_def waiting_def took_cpu)

lemma cache_taken:
  assumes rep: "cache_rep S c A F d" and p: "p \<in> A" and k: "0 < k" "k \<le> length (F p)"
    and room: "ac_avail (cpu_of S c) + k \<le> ac_limit (cpu_of S c)"
  shows "cache_rep (taken_from k c p (F p) S) c A (F(p := drop k (F p))) (d + k)"
proof -
  let ?x = "kcaches S c" and ?T = "taken_from k c p (F p) S" and ?G = "F(p := drop k (F p))"
  note r = cache_repD [OF rep] and t = taken_from_touched [of c p S k "F p"]
  have e: "kcaches ?T = kcaches S" "offs ?T = offs S" using touched_caches [OF t] by auto
  have slabs: "slab_rep ?T c q (?G q) \<and> place_ok ?T c q" if "q \<in> A" for q
  proof (cases "q = p")
    case True
    then show ?thesis using taken_from_slab(1) [OF r(10,11) [OF p] k] place_ok_same [OF e] r(11) [OF p] by simp
  next
    case False
    then show ?thesis using slab_rep_touched [OF r(10,11) [OF that] t] place_ok_same [OF e] r(11) [OF that] by simp
  qed
  have nd: "node_of ?T c = moved p (k = length (F p)) (picked p (node_of S c))"
    using taken_from_slab(2) [OF r(10,11) [OF p] k] by (simp add: taken_from_def fixup_eq Let_def)
  have node: "node_rep (onum ?x) A ?G (d + k) (node_of ?T c)"
    unfolding nd using node_taken [OF r(4,1) p k] slab_repD(4) [OF r(10) [OF p]] by simp
  have i: "i < onum ?x" if "i \<in> set (F p)" for i using slab_rep_in [OF r(10) [OF p] that] .
  note w = taken_from_cpu [OF k(2), of c p S]
  have new: "objat (offs S) ?x p i \<notin> set (waiting S c)" if "i \<in> set (F p)" for i
    using r(6) taken_iff [OF rep p i [OF that], of F] that by blast
  have tk: "set (take k (F p)) \<subseteq> set (F p)" by (rule set_take_subset)
  have inj: "inj_on (objat (offs S) ?x p) (set (take k (F p)))"
    using cache_inj [OF rep p p] i tk by (intro inj_onI) blast
  have "distinct (waiting ?T c)"
    using r(5) new tk inj slab_repD(3) [OF r(10) [OF p]] by (auto simp: w(1) distinct_map)
  moreover have "set (waiting ?T c) \<subseteq> taken (offs S) ?x A ?G"
  proof -
    have "taken (offs S) ?x A F \<subseteq> taken (offs S) ?x A ?G" by (rule taken_mono) (simp add: set_drop_subset)
    moreover have "objat (offs S) ?x p i \<in> taken (offs S) ?x A ?G" if "i \<in> set (take k (F p))" for i
    proof -
      have "i \<notin> set (drop k (F p))" using that slab_repD(3) [OF r(10) [OF p]] set_take_disj_set_drop_if_distinct [of "F p" k k] by blast
      then show ?thesis using taken_iff [OF rep p i, of i ?G] that tk by auto
    qed
    ultimately show ?thesis using r(6) by (auto simp: w(1))
  qed
  ultimately show ?thesis
    unfolding cache_rep_def w(2-4) unfolding e using r slabs node [unfolded e] room by auto
qed

lemma taken_split:
  assumes "p \<in> A"
  shows "taken V x A F = taken V x (A - {p}) F \<union> objat V x p ` ({..<onum x} - set (F p))"
  using assms by (auto simp: taken_def)

lemma taken_cong: "(\<And>q. q \<in> A \<Longrightarrow> F q = G q) \<Longrightarrow> taken V x A F = taken V x A G"
  by (simp add: taken_def)

lemma taken_upd:
  assumes "p \<in> A"
  shows "taken V x A (F(p := f)) = taken V x (A - {p}) F \<union> objat V x p ` ({..<onum x} - set f)"
  using taken_split [OF assms, of V x "F(p := f)"] taken_cong [of "A - {p}" "F(p := f)" F V x] by simp

text \<open>The objects that the users of a cache hold.\<close>

definition users :: "slab \<Rightarrow> addr \<Rightarrow> nat set \<Rightarrow> (nat \<Rightarrow> nat list) \<Rightarrow> addr set" where
  "users S c A F = taken (offs S) (kcaches S c) A F - set (waiting S c)"

lemma users_taken:
  assumes rep: "cache_rep S c A F d" and p: "p \<in> A" and k: "k \<le> length (F p)"
  shows "users (taken_from k c p (F p) S) c A (F(p := drop k (F p))) = users S c A F"
proof -
  let ?x = "kcaches S c" and ?G = "F(p := drop k (F p))"
  have e: "kcaches (taken_from k c p (F p) S) = kcaches S" "offs (taken_from k c p (F p) S) = offs S"
    using touched_caches [OF taken_from_touched] by auto
  have d: "distinct (F p)" using slab_repD(3) [OF cache_repD(10) [OF rep p]] .
  have f: "set (F p) = set (take k (F p)) \<union> set (drop k (F p))" "set (take k (F p)) \<inter> set (drop k (F p)) = {}"
    using d by (metis append_take_drop_id set_append) (simp add: d set_take_disj_set_drop_if_distinct)
  have i: "i < onum ?x" if "i \<in> set (F p)" for i using slab_rep_in [OF cache_repD(10) [OF rep p] that] .
  have "({..<onum ?x} - set (drop k (F p))) = ({..<onum ?x} - set (F p)) \<union> set (take k (F p))" using f i by auto
  then have "taken (offs S) ?x A ?G = taken (offs S) ?x A F \<union> objat (offs S) ?x p ` set (take k (F p))"
    unfolding taken_upd [OF p] taken_split [OF p, of _ _ F] by (simp add: image_Un Un_assoc)
  moreover have "objat (offs S) ?x p j \<notin> taken (offs S) ?x A F" if "j \<in> set (take k (F p))" for j
    using taken_iff [OF rep p i, of j F] that f(1) by blast
  ultimately show ?thesis unfolding users_def e taken_from_cpu(1) [OF k] by auto
qed

lemma pages_ok_active:
  assumes "pages_ok z (slmm S)" "unat v \<le> 255"
  shows "pages_ok z (slmm (set_active p v S))" "avail_of z (slmm (set_active p v S)) = avail_of z (slmm S)"
  using pages_ok_upd [OF assms(1), of "\<lambda>q. q\<lparr>page_type := v\<rparr>" p] small_type_not_buddy [of "(mem_map (slmm S) p)\<lparr>page_type := v\<rparr>"] assms(2)
  by (simp_all add: set_active_def)

lemma took_pages:
  assumes ok: "pages_ok z (slmm S)" and rep: "slab_rep S c p F" and g: "geom_ok (kcaches S c)" and k: "k \<le> length F"
  shows "pages_ok z (slmm (taken_from k c p F S))" "avail_of z (slmm (taken_from k c p F S)) = avail_of z (slmm S)"
proof -
  have "unat (page_active S p + of_nat k) \<le> 255"
    using slab_repD(4,5) [OF rep] k geom_bounds(5) [OF g] u32_add [of "page_active S p" k] by simp
  moreover have "slmm (taken_from k c p F S) = slmm (set_active p (page_active S p + of_nat k) S)"
    by (simp add: taken_from_def fixup_eq Let_def took_def) (simp add: set_active_def)
  ultimately show "pages_ok z (slmm (taken_from k c p F S))" "avail_of z (slmm (taken_from k c p F S)) = avail_of z (slmm S)"
    using pages_ok_active [OF ok] by simp_all
qed

lemma alloc_block_slab:
  assumes rep: "slab_rep S c p F" and pl: "place_ok S c p" and F: "F \<noteq> []" and bc: "0 < bc"
  shows "alloc_block c ac p bc S = Inr (took (min (nat bc) (length F)) c ac p F S, if int (length F) \<le> bc then bc - int (length F) else - 1)"
proof -
  let ?x = "kcaches S c"
  have g: "geom_ok ?x" using pl by (simp add: place_ok_def)
  have a: "unat (page_active S p) = onum ?x - length F" "length F \<le> onum ?x" using slab_repD(4,5) [OF rep] by auto
  then have "\<not> kc_num ?x \<le> page_active S p" "onum ?x - unat (page_active S p) = length F"
    using length_greater_0_conv [of F] F unfolding word_le_nat_alt by linarith+
  moreover have "freelist S p \<noteq> 0" using freelist_nonzero [OF rep pl F] by auto
  ultimately show ?thesis
    using alloc_block_loop_eq(1) [OF slab_repD(1) [OF rep] g, of bc ac] bc by (simp add: alloc_block_def)
qed

lemma alloc_block_eq:
  assumes rep: "cache_rep S c A F d" and p: "p \<in> A" "F p \<noteq> []" and "0 < bc"
  defines "k \<equiv> min (nat bc) (length (F p))" and "n \<equiv> kc_node (kcaches S c)"
  shows "\<exists>T. alloc_block c (cpu_cache (kcaches S c)) p bc (upd_knode n (picked p) S)
        = Inr (T, if int (length (F p)) \<le> bc then bc - int (length (F p)) else - 1)
      \<and> fixup_slab_list c n p T = taken_from k c p (F p) S"
proof -
  let ?S = "upd_knode n (picked p) S"
  have "slab_rep ?S c p (F p)" "place_ok ?S c p"
    using cache_repD(10,11) [OF rep p(1)] by simp_all
  then show ?thesis using alloc_block_slab [OF _ _ p(2) assms(4)] by (auto simp: taken_from_def n_def k_def)
qed

section \<open>The refill loop\<close>

text \<open>A number of objects has moved from the slabs of a cache to its array cache.\<close>

definition refilled :: "nat \<Rightarrow> addr \<Rightarrow> nat set \<Rightarrow> nat \<Rightarrow> slab \<Rightarrow> (nat \<Rightarrow> nat list) \<Rightarrow> slab \<Rightarrow> (nat \<Rightarrow> nat list) \<Rightarrow> nat \<Rightarrow> bool" where
  "refilled z c A d S F S' G k \<longleftrightarrow> cache_rep S' c A G (d + k) \<and> pages_ok z (slmm S') \<and> avail_of z (slmm S') = avail_of z (slmm S)
     \<and> touched c A {} S S' \<and> users S' c A G = users S c A F \<and> (\<forall>q. q \<notin> A \<longrightarrow> G q = F q)
     \<and> ac_avail (cpu_of S' c) = ac_avail (cpu_of S c) + k \<and> ac_limit (cpu_of S' c) = ac_limit (cpu_of S c)"

lemma refilled_refl: "cache_rep S c A F d \<Longrightarrow> pages_ok z (slmm S) \<Longrightarrow> refilled z c A d S F S F 0"
  by (simp add: refilled_def)

lemma refilled_trans:
  assumes "refilled z c A d S F T G k" "refilled z c A (d + k) T G U H l"
  shows "refilled z c A d S F U H (k + l)"
proof -
  have "kcaches T = kcaches S" "kcaches U = kcaches T" using assms touched_caches by (auto simp: refilled_def)
  moreover have "touched c A {} S U" using assms touched_trans by (auto simp: refilled_def)
  ultimately show ?thesis using assms unfolding refilled_def by (simp add: add.assoc)
qed

lemma refilled_step:
  assumes rep: "cache_rep S c A F d" and ok: "pages_ok z (slmm S)" and p: "p \<in> A" and k: "0 < k" "k \<le> length (F p)"
    and room: "ac_avail (cpu_of S c) + k \<le> ac_limit (cpu_of S c)"
  shows "refilled z c A d S F (taken_from k c p (F p) S) (F(p := drop k (F p))) k"
proof -
  note r = cache_repD [OF rep]
  have "touched c A {} S (taken_from k c p (F p) S)" using taken_from_touched by (rule touched_mono) (use p in auto)
  then show ?thesis
    using cache_taken [OF rep p k room] took_pages [OF ok r(10) [OF p] r(2) k(2)] users_taken [OF rep p k(2)] taken_from_cpu [OF k(2)] p
    by (auto simp: refilled_def)
qed

lemma refill_loop_ok:
  assumes "cache_rep S c A F d" "pages_ok z (slmm S)" "ac_avail (cpu_of S c) + nat bc \<le> ac_limit (cpu_of S c)"
  shows "\<exists>S' bc' G k. refill_loop c (cpu_cache (kcaches S c)) (kc_node (kcaches S c)) bc S = Inr (S', bc')
     \<and> refilled z c A d S F S' G k \<and> (k = 0 \<longrightarrow> S' = S \<and> G = F \<and> bc' = bc \<and> (0 < bc \<longrightarrow> (\<forall>p \<in> A. F p = [])))"
  using assms
proof (induction "nat bc" arbitrary: bc S F d rule: less_induct)
  case less
  let ?x = "kcaches S c" and ?n = "kc_node (kcaches S c)"
  note r = cache_repD [OF less.prems(1)]
  note first = get_first_slab_cases [OF r(4) geom_bounds(3) [OF r(2)]]
  show ?case
  proof (cases "0 < bc")
    case False
    then show ?thesis using refilled_refl [OF less.prems(1,2)] by (subst refill_loop.simps) auto
  next
    case bc: True
    show ?thesis
    proof (cases "snd (get_first_slab ?n S)")
      case None
      then have g: "get_first_slab ?n S = (S, None)" "\<forall>p \<in> A. length (F p) \<le> onum ?x \<longrightarrow> F p = []"
        using first by (auto split: prod.splits)
      then have "\<forall>p \<in> A. F p = []" using slab_repD(4) [OF r(10)] by blast
      then show ?thesis using g(1) bc refilled_refl [OF less.prems(1,2)] by (subst refill_loop.simps) auto
    next
      case (Some p)
      then have g: "get_first_slab ?n S = (upd_knode ?n (picked p) S, Some p)" and p: "p \<in> A" "F p \<noteq> []"
        using first by (auto split: prod.splits)
      define k where "k = min (nat bc) (length (F p))"
      define bc1 where "bc1 = (if int (length (F p)) \<le> bc then bc - int (length (F p)) else - 1)"
      define T where "T = taken_from k c p (F p) S"
      have k: "0 < k" "k \<le> length (F p)" "nat bc1 + k \<le> nat bc" using p(2) bc by (auto simp: k_def bc1_def)
      obtain U where U: "alloc_block c (cpu_cache ?x) p bc (upd_knode ?n (picked p) S) = Inr (U, bc1)" "fixup_slab_list c ?n p U = T"
        using alloc_block_eq [OF less.prems(1) p bc] unfolding k_def bc1_def T_def by blast
      have eq: "refill_loop c (cpu_cache ?x) ?n bc S = refill_loop c (cpu_cache ?x) ?n bc1 T"
        using bc g U by (subst refill_loop.simps) simp
      have st: "refilled z c A d S F T (F(p := drop k (F p))) k"
        unfolding T_def using less.prems(3) k by (intro refilled_step [OF less.prems(1,2) p(1)]) linarith+
      then have T: "cache_rep T c A (F(p := drop k (F p))) (d + k)" "pages_ok z (slmm T)" "kcaches T = kcaches S"
        "ac_avail (cpu_of T c) + nat bc1 \<le> ac_limit (cpu_of T c)"
        using k(3) less.prems(3) touched_caches by (auto simp: refilled_def)
      have lt: "nat bc1 < nat bc" using k by linarith
      obtain S' bc' G l where IH: "refill_loop c (cpu_cache ?x) ?n bc1 T = Inr (S', bc')"
        "refilled z c A (d + k) T (F(p := drop k (F p))) S' G l"
        using less.hyps [OF lt T(1,2,4), unfolded T(3)] by blast
      show ?thesis using IH(1) eq refilled_trans [OF st IH(2)] k(1) by (intro exI conjI) auto
    qed
  qed
qed

end
