(* ===== verification/SlabGrow.thy ===== *)
theory SlabGrow
  imports SlabAlloc
begin

text \<open>
  A new slab: its pages, the initialisation of its objects and of its free list, and an allocation
  from a cache, from the array cache, the slabs or a new slab.
\<close>

section \<open>A new slab\<close>

lemma kat_range:
  assumes "\<not> kat V y - kat V a < of_nat n \<longrightarrow> P" "y \<notin> {a..<a + n}" "y < 2 ^ 64" "a + n \<le> 2 ^ 64" "n < 2 ^ 64"
  shows P
proof -
  have "\<not> kat V y - kat V a < of_nat n"
  proof
    assume l: "kat V y - kat V a < of_nat n"
    define k where "k = unat (kat V y - kat V a)"
    have k: "k < n" using l assms(5) by (simp add: word_less_nat_alt k_def)
    have "kat V y = kat V (a + k)" using kat_add [of V a k] by (simp add: k_def)
    then have "y = a + k" using kat_inj [of y "a + k" V] assms(3,4) k by simp
    then show False using assms(2) k by simp
  qed
  then show P using assms(1) by blast
qed

lemma ctor_outside:
  assumes "ctor_ok x" "kc_ctor x = Some f" "y \<notin> obytes x p i" "y < 2 ^ 64" "opos x p i + osz x \<le> 2 ^ 64"
  shows "f (objat V x p i) r (kat V y) = r (kat V y)"
proof (rule kat_range [of V y "opos x p i" "osz x"])
  show "\<not> kat V y - kat V (opos x p i) < of_nat (osz x) \<longrightarrow> f (objat V x p i) r (kat V y) = r (kat V y)"
    using assms(1,2) by (simp add: ctor_ok_def objat_def)
  show "osz x < 2 ^ 64" using unat_u32_less [of "kc_size x"] by simp
qed (use assms in \<open>simp_all add: obytes_def\<close>)

lemma init_objs:
  assumes g: "place_ok T c p" "ctor_ok (kcaches T c)" and s: "s_mem T p = kat (offs T) (4096 * p)"
    and fl: "freelist T p = kat (offs T) (fl_pos (kcaches T c) p [0..<onum (kcaches T c)])" and "n \<le> onum (kcaches T c)"
  shows "\<exists>r. fold (init_obj c p) [0..<n] T = set_ram r T \<and> (\<forall>j < n. r (freelist T p + of_nat j) = of_nat j)
     \<and> (\<forall>y < 2 ^ 64. y \<notin> bytes p (gfporder (kcaches T c)) \<longrightarrow> r (kat (offs T) y) = kram T (kat (offs T) y))"
  using assms(5)
proof (induction n)
  case 0
  have "T = set_ram (kram T) T" by (simp add: set_ram_def)
  then show ?case by auto
next
  case (Suc n)
  let ?x = "kcaches T c" and ?V = "offs T"
  let ?F = "[0..<onum ?x]"
  have go: "geom_ok ?x" using g(1) by (simp add: place_ok_def)
  obtain r where r: "fold (init_obj c p) [0..<n] T = set_ram r T" "\<forall>j < n. r (freelist T p + of_nat j) = of_nat j"
    "\<forall>y < 2 ^ 64. y \<notin> bytes p (gfporder ?x) \<longrightarrow> r (kat ?V y) = kram T (kat ?V y)"
    using Suc by auto
  define r1 where "r1 = (case kc_ctor ?x of None \<Rightarrow> r | Some f \<Rightarrow> f (objat ?V ?x p n) r)"
  have n: "n < onum ?x" using Suc.prems by simp
  have io: "index_to_obj (set_ram r T) c p (of_nat n) = objat ?V ?x p n" using index_to_obj_eq [of "set_ram r T" p c n] s go n by simp
  have step: "fold (init_obj c p) [0..<Suc n] T = set_ram (r1(freelist T p + of_nat n := of_nat n)) T"
  proof -
    have "unat (of_nat n :: u32) = n" using n by (intro le_unat_uoi [of n "kc_num ?x"]) simp
    then have u: "(ucast (of_nat n :: u32) :: u64) = of_nat n" by (metis of_nat_unat)
    have "init_obj c p n (set_ram r T) = set_free_obj p (of_nat n) (of_nat n) (set_ram r1 T)"
      unfolding init_obj_def io Let_def by (simp add: r1_def set_ram_def split: option.split)
    also have "\<dots> = set_ram (r1(freelist T p + of_nat n := of_nat n)) T" by (simp add: set_free_obj_def u) (simp add: set_ram_def)
    finally show ?thesis using r(1) by simp
  qed
  have F: "?F \<noteq> []" "\<forall>i \<in> set ?F. i < onum ?x" using n by auto
  have fb: "{fl_pos ?x p ?F..<fl_pos ?x p ?F + onum ?x} \<subseteq> bytes p (gfporder ?x)" using fl_bytes_in(1) [OF go F] .
  have fa: "freelist T p + of_nat j = kat ?V (fl_pos ?x p ?F + j)" for j using fl by (simp add: kat_add)
  have small: "fl_pos ?x p ?F + j < 2 ^ 64" if "j < onum ?x" for j
    using place_small(1) [OF g(1)] fb that by (simp add: subset_eq)
  have r1: "r1 (kat ?V y) = r (kat ?V y)" if "y < 2 ^ 64" "y \<notin> obytes ?x p n \<or> kc_ctor ?x = None" for y
  proof (cases "kc_ctor ?x")
    case (Some f)
    have "opos ?x p n + osz ?x - 1 \<in> obytes ?x p n" using geom_bounds(4) [OF go] by (auto simp: obytes_def)
    then have "opos ?x p n + osz ?x - 1 < 2 ^ 64" using obytes_in(2) [OF go n, of p] place_small(1) [OF g(1)] by blast
    then show ?thesis using ctor_outside [OF g(2) Some _ that(1)] that(2) Some by (simp add: r1_def)
  qed (simp add: r1_def)
  have old: "r1 (freelist T p + of_nat j) = of_nat j" if j: "j < n" for j
  proof -
    have "fl_pos ?x p ?F + j \<notin> obytes ?x p n \<or> kc_ctor ?x = None"
    proof (cases "OBJFREELIST_SLAB ?x")
      case False
      have "fl_pos ?x p ?F + j \<in> {fl_pos ?x p ?F..<fl_pos ?x p ?F + onum ?x}" using j n by simp
      then show ?thesis using fl_bytes_in(2) [OF go F n, of p] False by blast
    qed (use go in \<open>simp add: geom_ok_def\<close>)
    then show ?thesis using r1 [of "fl_pos ?x p ?F + j"] r(2) small [of j] j n by (simp add: fa)
  qed
  show ?case
  proof (intro exI conjI allI impI)
    show "(r1(freelist T p + of_nat n := of_nat n)) (freelist T p + of_nat j) = of_nat j" if "j < Suc n" for j
    proof (cases "j = n")
      case False
      then have "freelist T p + of_nat j \<noteq> freelist T p + of_nat n"
        using kat_inj [OF small small, of j n ?V] that n by (simp add: fa)
      then show ?thesis using old [of j] that False by simp
    qed simp
    show "(r1(freelist T p + of_nat n := of_nat n)) (kat ?V y) = kram T (kat ?V y)"
      if "y < 2 ^ 64" "y \<notin> bytes p (gfporder ?x)" for y
    proof -
      have "fl_pos ?x p ?F + n \<in> bytes p (gfporder ?x)" using fb n by auto
      then have "kat ?V y \<noteq> freelist T p + of_nat n" using that kat_inj [OF that(1) small [OF n]] by (auto simp: fa)
      moreover have "y \<notin> obytes ?x p n" using that(2) obytes_in(2) [OF go n] by blast
      ultimately show ?thesis using r1 [OF that(1)] r(3) that by simp
    qed
  qed (rule step)
qed

text \<open>The state of a new slab before its objects are initialised, and after.\<close>

definition new_slab :: "addr \<Rightarrow> nat \<Rightarrow> mm \<Rightarrow> slab \<Rightarrow> slab" where
  "new_slab c p m S = S\<lparr>s_mem := (s_mem S)(p := kat (va_pa_offset m) (4096 * p)),
     slmm := upd_page p (\<lambda>q. q\<lparr>page_type := 0\<rparr>) (upd_page p SetPageSlab m), page_cache := (page_cache S)(p := c),
     freelist := (freelist S)(p := kat (va_pa_offset m) (fl_pos (kcaches S c) p [0..<onum (kcaches S c)]))\<rparr>"

lemma grow_begin_eq:
  assumes got: "alloc_pages_nodemask fl (gfporder (kcaches S c)) (slmm S) = Inr (m, p)" and g: "geom_ok (kcaches S c)"
  shows "cache_grow_begin c fl S = Inr (fold (init_obj c p) [0..<onum (kcaches S c)] (new_slab c p m S), p)"
proof -
  let ?x = "kcaches S c"
  have n: "0 < onum ?x" using geom_bounds(3) [OF g] .
  then have k: "kc_num ?x - 1 = of_nat (onum ?x - 1)" by (simp add: of_nat_diff)
  show ?thesis
  proof (cases "OBJFREELIST_SLAB ?x")
    case True
    define T where "T = S\<lparr>s_mem := (s_mem S)(p := kat (va_pa_offset m) (4096 * p)),
      slmm := upd_page p (\<lambda>q. q\<lparr>page_type := 0\<rparr>) (upd_page p SetPageSlab m), page_cache := (page_cache S)(p := c), freelist := (freelist S)(p := 0)\<rparr>"
    have T: "s_mem T p = kat (offs T) (4096 * p)" "kcaches T = kcaches S" "offs T = va_pa_offset m" by (simp_all add: T_def)
    have "index_to_obj T c p (of_nat (onum ?x - 1)) = objat (va_pa_offset m) ?x p (onum ?x - 1)"
      using index_to_obj_eq [OF T(1), of c "onum ?x - 1"] g n by (simp only: T)
    then have "index_to_obj T c p (kc_num ?x - 1) = objat (va_pa_offset m) ?x p (onum ?x - 1)" unfolding k .
    then show ?thesis
      using got True n by (simp add: cache_grow_begin_def kmem_getpages_def alloc_slabmgmt_def slab_map_pages_def set_active_def
          cache_init_objs_def Let_def page_address_kat T_def new_slab_def fl_pos_def objat_def)
  next
    case False
    have l: "onum ?x \<le> 4096 * 2 ^ gfporder ?x" using g False by (simp add: geom_ok_def)
    have "kat V (4096 * p) + push_bit (gfporder ?x) 4096 - ucast (kc_num ?x) = kat V (4096 * p + (4096 * 2 ^ gfporder ?x - onum ?x))" for V
      using l by (simp add: kat_def push_bit_eq_mult of_nat_diff mult.commute)
    then show ?thesis
      using got False g by (simp add: cache_grow_begin_def kmem_getpages_def alloc_slabmgmt_def slab_map_pages_def set_active_def
          cache_init_objs_def Let_def page_address_kat new_slab_def fl_pos_def geom_ok_def)
  qed
qed

lemma grow_begin_ok:
  assumes g: "geom_ok (kcaches S c)" "ctor_ok (kcaches S c)" and ok: "pages_ok z (slmm S)" "first_zone z (slmm S) fl"
  shows "case cache_grow_begin c fl S of
      Inl f \<Rightarrow> f = Panic \<and> \<not> has_block z (slmm S) (gfporder (kcaches S c))
    | Inr (S', p) \<Rightarrow> slab_rep S' c p [0..<onum (kcaches S c)] \<and> place_ok S' c p \<and> pages_ok z (slmm S')
        \<and> blk_of (kcaches S c) p \<subseteq> avail_of z (slmm S) \<and> avail_of z (slmm S') = avail_of z (slmm S) - blk_of (kcaches S c) p
        \<and> touched c (avail_of z (slmm S)) (bytes p (gfporder (kcaches S c))) S S' \<and> knodes S' = knodes S \<and> kcpus S' = kcpus S"
proof (cases "alloc_pages_nodemask fl (gfporder (kcaches S c)) (slmm S)")
  case (Inl f)
  then show ?thesis
    using alloc_pages_failed [OF ok _ Inl] g(1) by (simp add: cache_grow_begin_def kmem_getpages_def geom_ok_def)
next
  case (Inr a)
  let ?x = "kcaches S c"
  obtain m p where a: "alloc_pages_nodemask fl (gfporder ?x) (slmm S) = Inr (m, p)" using Inr by (cases a) auto
  note got = alloc_pages_got [OF ok a]
  define T where "T = new_slab c p m S"
  have T: "kcaches T = kcaches S" "offs T = offs S" "s_mem T p = kat (offs S) (4096 * p)"
    "freelist T p = kat (offs S) (fl_pos ?x p [0..<onum ?x])" "page_active T p = 0" "PageSlab (mem_map (slmm T) p)" "page_cache T p = c"
    "knodes T = knodes S" "kcpus T = kcpus S"
    using got(4) by (simp_all add: T_def new_slab_def page_active_def PageSlab_def SetPageSlab_def bit_simps)
  have b: "p \<in> avail_of z (slmm S)" using got(2) by (auto simp: blk_pages)
  have pl: "place_ok T c p" using g(1) got(2) ok(1) T(1,2) by (auto simp: place_ok_def pages_ok_def mapped_def)
  obtain r where r: "fold (init_obj c p) [0..<onum ?x] T = set_ram r T" "\<forall>j < onum ?x. r (freelist T p + of_nat j) = of_nat j"
    "\<forall>y < 2 ^ 64. y \<notin> bytes p (gfporder ?x) \<longrightarrow> r (kat (offs T) y) = kram T (kat (offs T) y)"
    using init_objs [OF pl, of "onum ?x"] g(2) T by auto
  have eq: "cache_grow_begin c fl S = Inr (set_ram r T, p)" using grow_begin_eq [OF a g(1)] r(1) by (simp add: T_def)
  have "slab_rep (set_ram r T) c p [0..<onum ?x]"
    using T r(2) geom_bounds(3) [OF g(1)] by (auto simp: slab_rep_def slab_core_def fl_addr_def)
  moreover have "place_ok (set_ram r T) c p" using pl by (simp add: place_ok_same [of "set_ram r T" T])
  moreover have "pages_ok z (slmm (set_ram r T)) \<and> avail_of z (slmm (set_ram r T)) = avail_of z m"
    using pages_ok_upd [of z "upd_page p SetPageSlab m" "\<lambda>q. q\<lparr>page_type := 0\<rparr>" p] got(1) small_type_not_buddy
    by (simp add: set_ram_def T_def new_slab_def)
  moreover have "touched c (avail_of z (slmm S)) (bytes p (gfporder ?x)) S (set_ram r T)"
  proof -
    have "q \<noteq> p" if "q \<notin> avail_of z (slmm S)" for q using that b by auto
    moreover have "kram (set_ram r T) (kat (offs S) y) = kram S (kat (offs S) y)" if "y < 2 ^ 64" "y \<notin> bytes p (gfporder ?x)" for y
      using r(3) that T(2) got(6) [OF that] by (simp add: T_def new_slab_def)
    ultimately show ?thesis using got(4,5) unfolding touched_def by (simp add: T_def new_slab_def)
  qed
  ultimately show ?thesis using eq got(2,3) T by simp
qed

section \<open>A slab more\<close>

lemma cache_rep_objects:
  assumes "cache_rep S c A F (d + k)"
  shows "cache_rep (upd_knode (kc_node (kcaches S c)) (\<lambda>x. x\<lparr>free_objects := free_objects x - of_nat k\<rparr>) S) c A F d"
proof -
  let ?S = "upd_knode (kc_node (kcaches S c)) (\<lambda>x. x\<lparr>free_objects := free_objects x - of_nat k\<rparr>) S"
  have "node_rep (onum (kcaches S c)) A F d (node_of ?S c)"
    using cache_repD(4) [OF assms] by (simp add: node_rep_def)
  moreover have "slab_rep ?S c p f = slab_rep S c p f" "place_ok ?S c p = place_ok S c p" "waiting ?S c = waiting S c" for p f
    by (simp_all add: slab_rep_def slab_core_def place_ok_def waiting_def)
  ultimately show ?thesis using assms by (simp add: cache_rep_def)
qed

lemma users_node [simp]: "users (S\<lparr>knodes := N\<rparr>) c A F = users S c A F"
  by (simp add: users_def waiting_def)

definition add_slab :: "nat \<Rightarrow> u32 \<Rightarrow> kmem_cache_node \<Rightarrow> kmem_cache_node" where
  "add_slab p num x = x\<lparr>slabs_free := slabs_free x @ [p], free_slabs := free_slabs x + 1, total_slabs := total_slabs x + 1,
     free_objects := free_objects x + ucast num\<rparr>"

lemma node_added:
  assumes rep: "node_rep num A F d n" and "finite A" "p \<notin> A" and l: "length f = num" "0 < num" "unat w = num"
  shows "node_rep num (insert p A) (F(p := f)) d (add_slab p w n)"
proof -
  have "(\<Sum>q \<in> insert p A. length ((F(p := f)) q)) = num + (\<Sum>q \<in> A. length (F q))"
  proof -
    have "(\<Sum>q \<in> A. length ((F(p := f)) q)) = (\<Sum>q \<in> A. length (F q))" using assms(3) by (intro sum.cong) auto
    then show ?thesis using assms by simp
  qed
  moreover have "(of_nat num :: u64) = ucast w" using l(3) by (metis of_nat_unat)
  moreover have s: "{q \<in> insert p A. P (length ((F(p := f)) q))} = {q \<in> A. P (length (F q))} \<union> (if P num then {p} else {})" for P
    using assms(3) l(1) by auto
  moreover have "p \<notin> set (slabs_free n)" using node_rep_lists(3) [OF rep] assms(3) by simp
  ultimately show ?thesis
    using rep assms(2,3) l(2) s [of "\<lambda>k. 0 < k \<and> k < num"] s [of "\<lambda>k. k = 0"] s [of "\<lambda>k. k = num"]
    unfolding node_rep_def add_slab_def by (simp add: ac_simps)
qed

lemma cache_added:
  assumes rep: "cache_rep S c A F d" and p: "p \<notin> A" and s: "slab_rep S c p [0..<onum (kcaches S c)]" "place_ok S c p"
    and dis: "\<And>q. q \<in> A \<Longrightarrow> blk_of (kcaches S c) p \<inter> blk_of (kcaches S c) q = {}"
  defines "T \<equiv> upd_knode (kc_node (kcaches S c)) (add_slab p (kc_num (kcaches S c))) S"
  shows "cache_rep T c (insert p A) (F(p := [0..<onum (kcaches S c)])) d"
    "users T c (insert p A) (F(p := [0..<onum (kcaches S c)])) = users S c A F"
proof -
  let ?x = "kcaches S c" and ?G = "F(p := [0..<onum (kcaches S c)])"
  note r = cache_repD [OF rep]
  have e: "kcaches T = kcaches S" "offs T = offs S" "waiting T c = waiting S c" "cpu_of T c = cpu_of S c"
    by (simp_all add: T_def waiting_def)
  have sr: "slab_rep T c q f = slab_rep S c q f" "place_ok T c q = place_ok S c q" for q f
    by (simp_all add: T_def slab_rep_def slab_core_def place_ok_def)
  have n: "node_rep (onum ?x) (insert p A) ?G d (node_of T c)"
    using node_added [OF r(4,1) p _ geom_bounds(3) [OF r(2)] refl, of "[0..<onum ?x]"] by (simp add: T_def)
  have tk: "taken (offs S) ?x (insert p A) ?G = taken (offs S) ?x A F"
    using taken_upd [of p "insert p A" "offs S" ?x F "[0..<onum ?x]"] p by (simp add: lessThan_atLeast0)
  show "users T c (insert p A) ?G = users S c A F" by (simp add: users_def e tk)
  have sl: "slab_rep S c q (?G q) \<and> place_ok S c q" if "q \<in> insert p A" for q using that s r(10,11) p by auto
  have bl: "blk_of ?x q \<inter> blk_of ?x q' = {}" if "q \<in> insert p A" "q' \<in> insert p A" "q \<noteq> q'" for q q'
    using that r(12) dis by blast
  show "cache_rep T c (insert p A) ?G d"
    unfolding cache_rep_def e(3,4) unfolding sr e(1,2) using r(1-3,5-9) n [unfolded e] tk sl bl by auto
qed

text \<open>Taking objects from a new slab and putting it on its list, as \<^verbatim>\<open>cache_grow_end\<close> does.\<close>

lemma ac_push_node: "ac_push ac a (S\<lparr>knodes := N\<rparr>) = (ac_push ac a S)\<lparr>knodes := N\<rparr>"
  by (simp add: ac_push_def)

lemma grow_end_eq:
  assumes x: "kcaches S c = x" and n: "n = kc_node x" and core: "slab_rep S c p [0..<onum x]" and pl: "place_ok S c p"
    and k: "0 < k" "k \<le> onum x" and fresh: "p \<notin> set (slabs_partial (knodes S n))" "p \<notin> set (slabs_full (knodes S n))" "p \<notin> set (slabs_free (knodes S n))"
  shows "cache_grow_end c p (took k c (cpu_cache x) p [0..<onum x] S)
    = upd_knode n (\<lambda>y. y\<lparr>free_objects := free_objects y - of_nat k\<rparr>)
        (taken_from k c p [0..<onum x] (upd_knode n (add_slab p (kc_num x)) S))"
proof -
  let ?T = "took k c (cpu_cache x) p [0..<onum x] S"
  have g: "geom_ok x" using pl x by (simp add: place_ok_def)
  have u: "unat (page_active S p) = 0" using slab_repD(5) [OF core] x by simp
  then have a: "page_active S p = 0" by (simp add: unat_eq_zero)
  then have at: "page_active ?T p = of_nat k" by simp
  have uk: "unat (of_nat k :: u32) = k" using k(2) by (intro le_unat_uoi [of k "kc_num x"])
  then have nz: "(of_nat k :: u32) \<noteq> 0" using k(1) by (metis neq0_conv unat_0)
  have le: "of_nat k \<le> kc_num x" using uk k(2) by (simp add: word_le_nat_alt)
  have "unat (kc_num x - of_nat k) = onum x - k" using le uk by (simp add: unat_sub)
  then have fo: "(ucast (kc_num x - of_nat k) :: u64) = ucast (kc_num x) - of_nat k"
    using k(2) by (metis of_nat_diff of_nat_unat)
  have tk: "took k c ac p [0..<onum x] (S\<lparr>knodes := N\<rparr>) = (took k c ac p [0..<onum x] S)\<lparr>knodes := N\<rparr>" for ac N
  proof -
    have "fold (ac_push ac) xs (S\<lparr>knodes := N\<rparr>) = (fold (ac_push ac) xs S)\<lparr>knodes := N\<rparr>" for xs S
      by (induction xs arbitrary: S) (simp_all add: ac_push_node)
    then show ?thesis by (simp add: took_def set_active_def)
  qed
  have rm: "remove1 p (slabs_partial (knodes S n)) = slabs_partial (knodes S n)" "remove1 p (slabs_full (knodes S n)) = slabs_full (knodes S n)"
    "remove1 p (slabs_free (knodes S n)) = slabs_free (knodes S n)" "remove1 p (slabs_free (knodes S n) @ [p]) = slabs_free (knodes S n)"
    using fresh by (simp_all add: remove1_idem remove1_append)
  show ?thesis
    using x n at nz rm
    by (simp add: cache_grow_end_def fixup_eq Let_def taken_from_def tk fo) (simp add: moved_def picked_def add_slab_def add_diff_eq)
qed

section \<open>Allocation from a cache\<close>

lemma ac_pop_ok:
  assumes rep: "cache_rep S c A F d" and av: "0 < ac_avail (cpu_of S c)" and pop: "ac_pop (cpu_cache (kcaches S c)) S = (S', obj)"
  shows "cache_rep S' c A F d" "users S' c A F = insert obj (users S c A F)" "obj \<notin> users S c A F"
    "touched c {} {} S S'" "slmm S' = slmm S"
proof -
  let ?ac = "cpu_cache (kcaches S c)"
  note r = cache_repD [OF rep]
  obtain k where k: "ac_avail (cpu_of S c) = Suc k" using av by (cases "ac_avail (cpu_of S c)") auto
  have S': "S' = upd_cpu ?ac (\<lambda>a. a\<lparr>ac_avail := ac_avail a - 1\<rparr>) S" "obj = ac_entry (cpu_of S c) k"
    using pop k by (auto simp: ac_pop_def Let_def)
  have w: "waiting S c = waiting S' c @ [obj]" by (simp add: waiting_def ac_list_def ac_entries_def S' k)
  have e: "kcaches S' = kcaches S" "offs S' = offs S" "knodes S' = knodes S" by (simp_all add: S'(1))
  have sr: "slab_rep S' c p f = slab_rep S c p f" "place_ok S' c p = place_ok S c p" for p f
    by (simp_all add: S'(1) slab_rep_def slab_core_def place_ok_def)
  have cpu: "ac_avail (cpu_of S' c) = k" "ac_limit (cpu_of S' c) = ac_limit (cpu_of S c)" "ac_batchcount (cpu_of S' c) = ac_batchcount (cpu_of S c)"
    using k by (simp_all add: S'(1))
  show "cache_rep S' c A F d"
    unfolding cache_rep_def cpu unfolding sr e using r k w by auto
  have "obj \<in> taken (offs S) (kcaches S c) A F" "obj \<notin> set (waiting S' c)" "set (waiting S c) = insert obj (set (waiting S' c))"
    using r(5,6) w by auto
  then show "users S' c A F = insert obj (users S c A F)" "obj \<notin> users S c A F" by (auto simp: users_def e)
  show "touched c {} {} S S'" by (simp add: touched_def S'(1))
  show "slmm S' = slmm S" by (simp add: S'(1))
qed

text \<open>What an operation on a cache keeps of the rest: it may add slabs from the available pages.\<close>

definition cache_step :: "nat \<Rightarrow> addr \<Rightarrow> slab \<Rightarrow> nat set \<Rightarrow> (nat \<Rightarrow> nat list) \<Rightarrow> nat set \<Rightarrow> slab \<Rightarrow> nat set \<Rightarrow> (nat \<Rightarrow> nat list) \<Rightarrow> bool" where
  "cache_step z c S A F Y S' A' F' \<longleftrightarrow> cache_rep S' c A' F' 0 \<and> pages_ok z (slmm S')
     \<and> touched c (A \<union> avail_of z (slmm S)) Y S S'
     \<and> avail_of z (slmm S') \<subseteq> avail_of z (slmm S) \<and> A \<subseteq> A'
     \<and> (\<forall>p \<in> A' - A. blk_of (kcaches S c) p \<subseteq> avail_of z (slmm S) - avail_of z (slmm S')) \<and> (\<forall>q. q \<notin> A' \<longrightarrow> F' q = F q)"

definition page_bytes :: "nat set \<Rightarrow> nat set" where
  "page_bytes P = {y. y div 4096 \<in> P}"

lemma page_bytes_mono: "P \<subseteq> Q \<Longrightarrow> page_bytes P \<subseteq> page_bytes Q"
  by (auto simp: page_bytes_def)

lemma bytes_page_bytes: "bytes p ord = page_bytes (blk (p, ord))"
  by (auto simp: page_bytes_def bytes_page)

lemma pop_step:
  assumes rep: "cache_rep S c A F 0" "pages_ok z (slmm S)" and av: "0 < ac_avail (cpu_of S c)"
    and pop: "ac_pop (cpu_cache (kcaches S c)) S = (S', obj)"
  shows "cache_step z c S A F {} S' A F" "users S' c A F = insert obj (users S c A F)" "obj \<notin> users S c A F"
  using ac_pop_ok [OF rep(1) av pop] rep(2) touched_mono [of c "{}" "{}" S S' "A \<union> avail_of z (slmm S)" "{}"] by (simp_all add: cache_step_def)

lemma cache_stepD:
  assumes "cache_step z c S A F Y S' A' F'"
  shows "cache_rep S' c A' F' 0" "pages_ok z (slmm S')" "touched c (A \<union> avail_of z (slmm S)) Y S S'"
    "avail_of z (slmm S') \<subseteq> avail_of z (slmm S)" "A \<subseteq> A'"
    "p \<in> A' \<Longrightarrow> p \<notin> A \<Longrightarrow> blk_of (kcaches S c) p \<subseteq> avail_of z (slmm S) - avail_of z (slmm S')" "q \<notin> A' \<Longrightarrow> F' q = F q"
  using assms unfolding cache_step_def by simp_all

lemma cache_step_trans:
  assumes "cache_step z c S A F Y T B G" "cache_step z c T B G Z U D H"
    and "Y \<subseteq> W" "Z \<subseteq> W" "\<And>p. p \<in> B \<Longrightarrow> p \<notin> A \<Longrightarrow> p \<in> avail_of z (slmm S)"
  shows "cache_step z c S A F W U D H"
proof -
  let ?P = "A \<union> avail_of z (slmm S)"
  note a = cache_stepD [OF assms(1)] and b = cache_stepD [OF assms(2)]
  have e: "kcaches T = kcaches S" using touched_caches [OF a(3)] by simp
  have "touched c ?P W S T" using touched_mono [OF a(3) subset_refl assms(3)] .
  moreover have "B \<union> avail_of z (slmm T) \<subseteq> ?P" using a(4) assms(5) by blast
  then have "touched c ?P W T U" using touched_mono [OF b(3) _ assms(4)] by blast
  ultimately have t: "touched c ?P W S U" by (rule touched_trans)
  have n: "blk_of (kcaches S c) p \<subseteq> avail_of z (slmm S) - avail_of z (slmm U)" if "p \<in> D - A" for p
  proof (cases "p \<in> B")
    case True
    then show ?thesis using a(6) [of p] b(4) that by blast
  next
    case False
    then show ?thesis using b(6) [of p] a(4) that unfolding e by blast
  qed
  have "H q = F q" if "q \<notin> D" for q using a(7) [of q] b(7) [OF that] b(5) that by auto
  then show ?thesis unfolding cache_step_def using t n b(1,2) a(4,5) b(4,5) by auto
qed

end
