(* ===== verification/SlabOps.thy ===== *)
theory SlabOps
  imports SlabGrow
begin

text \<open>
  Allocation from one cache: from the array cache, from its slabs, or from a new slab.
\<close>

section \<open>No free object\<close>

lemma place_page: "place_ok S c p \<Longrightarrow> p < 2 ^ 52"
proof -
  assume "place_ok S c p"
  moreover have "p \<in> blk_of (kcaches S c) p" by (simp add: blk_pages)
  ultimately show ?thesis unfolding place_ok_def mapped_def by blast
qed

lemma no_free_objects:
  assumes rep: "cache_rep S c A F 0" and "free_objects (node_of S c) = 0" and p: "p \<in> A"
  shows "F p = []"
proof -
  note r = cache_repD [OF rep]
  let ?s = "\<Sum>p \<in> A. length (F p)"
  have "A \<subseteq> {..<2 ^ 52}" using place_page r(11) by blast
  then have "card A \<le> 2 ^ 52" using card_mono [of "{..<2 ^ 52 :: nat}" A] by simp
  moreover have "?s \<le> (\<Sum>p \<in> A. 255)"
    using slab_repD(4) [OF r(10)] geom_bounds(5) [OF r(2)] by (intro sum_mono) (meson le_trans)
  ultimately have "?s < 2 ^ 64" by simp
  moreover have "(of_nat ?s :: u64) = 0" using r(4) assms(2) by (simp add: node_rep_def)
  ultimately have "?s = 0" using unat_of_nat64 [of ?s] by (metis unat_0)
  then show ?thesis using r(1) p by simp
qed

section \<open>Growing a cache\<close>

lemma grown_kept:
  assumes rep: "cache_rep S c A F 0" and dis: "\<forall>p \<in> A. blk_of (kcaches S c) p \<inter> av = {}"
    and p: "blk_of (kcaches S c) p \<subseteq> av" and t: "touched c av (bytes p (gfporder (kcaches S c))) S T" "knodes T = knodes S" "kcpus T = kcpus S"
  shows "cache_rep T c A F 0" "p \<notin> A" "p \<in> av" "\<forall>q \<in> A. blk_of (kcaches S c) p \<inter> blk_of (kcaches S c) q = {}"
    "users T c A F = users S c A F"
proof -
  let ?x = "kcaches S c"
  note r = cache_repD [OF rep]
  have self: "q \<in> blk_of ?x q" for q by (simp add: blk_pages)
  have bl: "blk_of ?x p \<inter> blk_of ?x q = {}" if "q \<in> A" for q using dis that p by blast
  then show "\<forall>q \<in> A. blk_of ?x p \<inter> blk_of ?x q = {}" by blast
  show "p \<in> av" using self [of p] p by blast
  show "p \<notin> A" using bl self by blast
  show "cache_rep T c A F 0"
  proof (rule cache_rep_touched [OF rep t(1)])
    fix q assume q: "q \<in> A"
    show "q \<notin> av" using dis q self by blast
    show "fl_bytes ?x q (F q) \<inter> bytes p (gfporder ?x) = {}"
      using fl_bytes_block [OF r(10,11) [OF q]] bytes_disjoint [OF bl [OF q]] by blast
  qed (simp_all add: t)
  show "users T c A F = users S c A F" using touched_caches [OF t(1)] t(3) by (simp add: users_def waiting_def)
qed

text \<open>The objects a new slab gives to the array cache, and the slab on its list.\<close>

lemma grown_filled:
  assumes rep: "cache_rep T c A F 0" and ok: "pages_ok z (slmm T)" and s: "slab_rep T c p [0..<onum (kcaches T c)]" "place_ok T c p"
    and dis: "p \<notin> A" "\<forall>q \<in> A. blk_of (kcaches T c) p \<inter> blk_of (kcaches T c) q = {}"
    and k: "0 < k" "k \<le> onum (kcaches T c)" "ac_avail (cpu_of T c) + k \<le> ac_limit (cpu_of T c)"
  defines "W \<equiv> cache_grow_end c p (took k c (cpu_cache (kcaches T c)) p [0..<onum (kcaches T c)] T)"
    and "G \<equiv> F(p := drop k [0..<onum (kcaches T c)])"
  shows "cache_rep W c (insert p A) G 0" "users W c (insert p A) G = users T c A F" "pages_ok z (slmm W)"
    "avail_of z (slmm W) = avail_of z (slmm T)" "touched c (insert p A) {} T W" "ac_avail (cpu_of W c) = ac_avail (cpu_of T c) + k"
proof -
  let ?x = "kcaches T c" and ?n = "kc_node (kcaches T c)" and ?I = "[0..<onum (kcaches T c)]"
  define V where "V = upd_knode ?n (add_slab p (kc_num ?x)) T"
  note V = cache_added [OF rep dis(1) s bspec [OF dis(2)], folded V_def]
  have eV: "kcaches V = kcaches T" "kcpus V = kcpus T" "slmm V = slmm T" "touched c (insert p A) {} T V"
    by (simp_all add: V_def touched_def)
  define U where "U = taken_from k c p ?I V"
  have "refilled z c (insert p A) 0 V (F(p := ?I)) U G k"
    using refilled_step [OF V(1), of z p k] ok k eV by (simp add: G_def U_def)
  note U = this [unfolded refilled_def]
  have eU: "kcaches U = kcaches T" using touched_caches [of c "insert p A" "{}" V U] U eV by simp
  have fresh: "p \<notin> set (slabs_partial (knodes T ?n))" "p \<notin> set (slabs_full (knodes T ?n))" "p \<notin> set (slabs_free (knodes T ?n))"
    using node_rep_lists [OF cache_repD(4) [OF rep]] dis(1) by auto
  have W: "W = upd_knode ?n (\<lambda>y. y\<lparr>free_objects := free_objects y - of_nat k\<rparr>) U"
    using grow_end_eq [OF refl refl s k(1,2) fresh] by (simp add: W_def U_def V_def)
  show "cache_rep W c (insert p A) G 0" using cache_rep_objects [of U c "insert p A" G 0 k] U eU W by simp
  show "users W c (insert p A) G = users T c A F" using U V(2) by (simp add: W)
  show "pages_ok z (slmm W)" "avail_of z (slmm W) = avail_of z (slmm T)" using U eV by (simp_all add: W)
  show "ac_avail (cpu_of W c) = ac_avail (cpu_of T c) + k" using U eU eV by (simp add: W)
  have "touched c (insert p A) {} U W" using eU by (simp add: W touched_def)
  then show "touched c (insert p A) {} T W" using U eV(4) by (meson touched_trans)
qed

text \<open>A new slab for the cache, some of its objects in the array cache.\<close>

lemma grow_step:
  assumes rep: "cache_rep S c A F 0" and ok: "pages_ok z (slmm S)" "first_zone z (slmm S) fl"
    and dis: "\<forall>p \<in> A. blk_of (kcaches S c) p \<inter> avail_of z (slmm S) = {}"
    and av: "ac_avail (cpu_of S c) = 0" and bc: "0 < bc" "nat bc \<le> ac_limit (cpu_of S c)"
    and gr: "cache_grow_begin c fl S = Inr (T, p)"
  shows "\<exists>U b F'. alloc_block c (cpu_cache (kcaches S c)) p bc T = Inr (U, b) \<and> kcpus T = kcpus S \<and> p \<in> avail_of z (slmm S)
     \<and> cache_step z c S A F (page_bytes (avail_of z (slmm S))) (cache_grow_end c p U) (insert p A) F'
     \<and> users (cache_grow_end c p U) c (insert p A) F' = users S c A F \<and> 0 < ac_avail (cpu_of (cache_grow_end c p U) c)"
proof -
  let ?x = "kcaches S c" and ?ac = "cpu_cache (kcaches S c)" and ?av = "avail_of z (slmm S)" and ?I = "[0..<onum (kcaches S c)]"
  note r = cache_repD [OF rep]
  from grow_begin_ok [OF r(2,3) ok] have g: "slab_rep T c p ?I" "place_ok T c p" "pages_ok z (slmm T)" "blk_of ?x p \<subseteq> ?av"
    "avail_of z (slmm T) = ?av - blk_of ?x p" "touched c ?av (bytes p (gfporder ?x)) S T" "knodes T = knodes S" "kcpus T = kcpus S"
    unfolding gr by simp_all
  have e: "kcaches T = kcaches S" using touched_caches [OF g(6)] by auto
  note kp = grown_kept [OF rep dis g(4,6-8)]
  define k where "k = min (nat bc) (onum ?x)"
  have k: "0 < k" "k \<le> onum ?x" "k \<le> nat bc" using bc(1) geom_bounds(3) [OF r(2)] by (auto simp: k_def)
  define W where "W = cache_grow_end c p (took k c ?ac p ?I T)"
  have room: "ac_avail (cpu_of T c) + k \<le> ac_limit (cpu_of T c)" using e g(8) av bc(2) k(3) by simp
  note W = grown_filled [OF kp(1) g(3), unfolded e, OF g(1,2) kp(2,4) k(1,2) room [unfolded e], folded W_def]
  have tW: "touched c (A \<union> ?av) (page_bytes ?av) S W"
  proof (rule touched_trans)
    show "touched c (A \<union> ?av) (page_bytes ?av) S T"
      using touched_mono [OF g(6)] page_bytes_mono [OF g(4)] by (simp add: bytes_page_bytes)
    show "touched c (A \<union> ?av) (page_bytes ?av) T W" using touched_mono [OF W(5)] kp(3) by simp
  qed
  have "cache_step z c S A F (page_bytes ?av) W (insert p A) (F(p := drop k ?I))"
    unfolding cache_step_def using W(1,3,4) tW g(4,5) by auto
  moreover have "alloc_block c ?ac p bc T = Inr (took k c ?ac p ?I T, if int (onum ?x) \<le> bc then bc - int (onum ?x) else - 1)"
    using alloc_block_slab [OF g(1,2) _ bc(1)] geom_bounds(3) [OF r(2)] by (simp add: k_def)
  moreover have "0 < ac_avail (cpu_of W c)" using W(6) k(1) touched_caches [OF tW] by simp
  ultimately show ?thesis using W(2) kp(3,5) g(8) unfolding W_def by blast
qed

section \<open>Allocating one object\<close>

text \<open>The contract of an allocation, and of its failure.\<close>

definition allocated :: "nat \<Rightarrow> addr \<Rightarrow> slab \<Rightarrow> nat set \<Rightarrow> (nat \<Rightarrow> nat list) \<Rightarrow> slab \<Rightarrow> addr \<Rightarrow> bool" where
  "allocated z c S A F S' obj \<longleftrightarrow> (\<exists>A' F'. cache_step z c S A F (page_bytes (avail_of z (slmm S))) S' A' F'
     \<and> users S' c A' F' = insert obj (users S c A F) \<and> obj \<notin> users S c A F)"

definition exhausted :: "nat \<Rightarrow> addr \<Rightarrow> slab \<Rightarrow> nat set \<Rightarrow> (nat \<Rightarrow> nat list) \<Rightarrow> bool" where
  "exhausted z c S A F \<longleftrightarrow> waiting S c = [] \<and> (\<forall>p \<in> A. F p = []) \<and> \<not> has_block z (slmm S) (gfporder (kcaches S c))"

lemma waiting_Nil: "waiting S c = [] \<longleftrightarrow> ac_avail (cpu_of S c) = 0"
  by (simp add: waiting_def ac_list_def ac_entries_def)

lemma first_zone_touched: "touched c P Y S S' \<Longrightarrow> first_zone z (slmm S') fl = first_zone z (slmm S) fl"
  by (simp add: touched_def first_zone_def)

lemma pop_allocated:
  assumes "cache_rep S c A F 0" "pages_ok z (slmm S)" "0 < ac_avail (cpu_of S c)" "ac_pop (cpu_cache (kcaches S c)) S = (S', obj)"
  shows "allocated z c S A F S' obj"
proof -
  note p = pop_step [OF assms]
  have "cache_step z c S A F (page_bytes (avail_of z (slmm S))) S' A F"
    using p(1) touched_mono [of c "A \<union> avail_of z (slmm S)" "{}"] unfolding cache_step_def by blast
  then show ?thesis using p(2,3) unfolding allocated_def by blast
qed

lemma allocated_after:
  assumes st: "cache_step z c S A F (page_bytes (avail_of z (slmm S))) T B G" "users T c B G = users S c A F"
    and new: "\<forall>p \<in> B - A. p \<in> avail_of z (slmm S)" and al: "allocated z c T B G S' obj"
  shows "allocated z c S A F S' obj"
proof -
  obtain A' F' where a: "cache_step z c T B G (page_bytes (avail_of z (slmm T))) S' A' F'"
    "users S' c A' F' = insert obj (users T c B G)" "obj \<notin> users T c B G"
    using al unfolding allocated_def by blast
  have "page_bytes (avail_of z (slmm T)) \<subseteq> page_bytes (avail_of z (slmm S))" using cache_stepD(4) [OF st(1)] by (rule page_bytes_mono)
  then have "cache_step z c S A F (page_bytes (avail_of z (slmm S))) S' A' F'"
    using new by (intro cache_step_trans [OF st(1) a(1)]) auto
  then show ?thesis using a(2,3) st(2) unfolding allocated_def by auto
qed

lemma direct_grow_ok:
  assumes rep: "cache_rep S c A F 0" and ok: "pages_ok z (slmm S)" "first_zone z (slmm S) (gfp_exact_node fl)"
    and dis: "\<forall>p \<in> A. blk_of (kcaches S c) p \<inter> avail_of z (slmm S) = {}"
    and bc: "ac_avail (cpu_of S c) = 0 \<Longrightarrow> 0 < bc \<and> nat bc \<le> ac_limit (cpu_of S c)"
  shows "case direct_grow c (cpu_cache (kcaches S c)) fl bc S of
      Inl f \<Rightarrow> f = Panic \<and> ac_avail (cpu_of S c) = 0 \<and> \<not> has_block z (slmm S) (gfporder (kcaches S c))
    | Inr (S', obj) \<Rightarrow> allocated z c S A F S' obj"
proof (cases "ac_avail (cpu_of S c) = 0")
  case False
  obtain S' obj where p: "ac_pop (cpu_cache (kcaches S c)) S = (S', obj)" by fastforce
  then show ?thesis using pop_allocated [OF rep ok(1) _ p] False by (simp add: direct_grow_def)
next
  case True
  note b = bc [OF True]
  show ?thesis
  proof (cases "cache_grow_begin c (gfp_exact_node fl) S")
    case (Inl f)
    then show ?thesis using grow_begin_ok [OF cache_repD(2,3) [OF rep] ok] True by (simp add: direct_grow_def)
  next
    case (Inr a)
    then obtain T p where gr: "cache_grow_begin c (gfp_exact_node fl) S = Inr (T, p)" by (cases a) auto
    obtain U b' G where u: "alloc_block c (cpu_cache (kcaches S c)) p bc T = Inr (U, b')" "kcpus T = kcpus S" "p \<in> avail_of z (slmm S)"
      "cache_step z c S A F (page_bytes (avail_of z (slmm S))) (cache_grow_end c p U) (insert p A) G"
      "users (cache_grow_end c p U) c (insert p A) G = users S c A F" "0 < ac_avail (cpu_of (cache_grow_end c p U) c)"
      using grow_step [OF rep ok dis True _ _ gr, of bc] b by blast
    define W where "W = cache_grow_end c p U"
    have e: "kcaches W = kcaches S" using touched_caches [OF cache_stepD(3) [OF u(4)]] by (simp add: W_def)
    obtain S' obj where q: "ac_pop (cpu_cache (kcaches W c)) W = (S', obj)" by fastforce
    have "allocated z c W (insert p A) G S' obj"
      using pop_allocated [OF cache_stepD(1,2) [OF u(4)] u(6), folded W_def, OF q] .
    then have "allocated z c S A F S' obj"
      using allocated_after [OF u(4,5)] u(3) by (auto simp: W_def)
    moreover have "direct_grow c (cpu_cache (kcaches S c)) fl bc S = Inr (S', obj)"
      using True gr u(1,2,6) q e by (simp add: direct_grow_def W_def [symmetric] Let_def)
    ultimately show ?thesis by simp
  qed
qed

text \<open>The refill of an empty array cache from the slabs, up to \<^verbatim>\<open>direct_grow\<close>.\<close>

lemma refill_step:
  assumes rep: "cache_rep S c A F 0" and ok: "pages_ok z (slmm S)" and av: "ac_avail (cpu_of S c) = 0"
  defines "bc \<equiv> int (ac_batchcount (cpu_of S c))"
  shows "\<exists>T b U G. refill_loop c (cpu_cache (kcaches S c)) (kc_node (kcaches S c)) bc S = Inr (T, b)
     \<and> U = upd_knode (kc_node (kcaches S c)) (\<lambda>x. x\<lparr>free_objects := free_objects x - of_nat (ac_avail (kcpus T (cpu_cache (kcaches S c))))\<rparr>) T
     \<and> cache_step z c S A F (page_bytes (avail_of z (slmm S))) U A G \<and> users U c A G = users S c A F
     \<and> avail_of z (slmm U) = avail_of z (slmm S)
     \<and> (ac_avail (cpu_of U c) = 0 \<longrightarrow> slmm U = slmm S \<and> (\<forall>p \<in> A. F p = []) \<and> 0 < b \<and> nat b \<le> ac_limit (cpu_of U c))"
proof -
  note r = cache_repD [OF rep]
  have bc: "0 < bc" "nat bc \<le> ac_limit (cpu_of S c)" using r(8,9) by (simp_all add: bc_def)
  obtain T b G k where t: "refill_loop c (cpu_cache (kcaches S c)) (kc_node (kcaches S c)) bc S = Inr (T, b)" "refilled z c A 0 S F T G k"
    "k = 0 \<longrightarrow> T = S \<and> G = F \<and> b = bc \<and> (0 < bc \<longrightarrow> (\<forall>p \<in> A. F p = []))"
    using refill_loop_ok [OF rep ok, of bc] av bc(2) by auto
  note f = t(2) [unfolded refilled_def]
  have e: "kcaches T = kcaches S" using f touched_caches by blast
  have k: "ac_avail (kcpus T (cpu_cache (kcaches S c))) = k" using f av e by simp
  define U where "U = upd_knode (kc_node (kcaches S c)) (\<lambda>x. x\<lparr>free_objects := free_objects x - of_nat k\<rparr>) T"
  have U: "cache_rep U c A G 0" "slmm U = slmm T" "kcaches U = kcaches S" "users U c A G = users S c A F" "kcpus U = kcpus T"
    using cache_rep_objects [of T c A G 0 k] f e by (simp_all add: U_def)
  have "touched c A {} T U" using e by (simp add: U_def touched_def)
  then have "touched c A {} S U" using f touched_trans by blast
  then have st: "cache_step z c S A F (page_bytes (avail_of z (slmm S))) U A G"
    using U(1,2) f touched_mono [of c A "{}" S U "A \<union> avail_of z (slmm S)" "page_bytes (avail_of z (slmm S))"] by (simp add: cache_step_def)
  have z: "slmm U = slmm S \<and> (\<forall>p \<in> A. F p = []) \<and> 0 < b \<and> nat b \<le> ac_limit (cpu_of U c)" if "ac_avail (cpu_of U c) = 0"
    using that t(3) k U(2,3,5) bc by simp
  have Ue: "U = upd_knode (kc_node (kcaches S c)) (\<lambda>x. x\<lparr>free_objects := free_objects x - of_nat (ac_avail (kcpus T (cpu_cache (kcaches S c))))\<rparr>) T"
    by (simp add: U_def k)
  have av': "avail_of z (slmm U) = avail_of z (slmm S)" using U(2) f by simp
  show ?thesis
    by (rule exI [of _ T], rule exI [of _ b], rule exI [of _ U], rule exI [of _ G]) (intro conjI impI; fact t(1) Ue st U(4) av' z [THEN conjunct1]
      z [THEN conjunct2, THEN conjunct1] z [THEN conjunct2, THEN conjunct2, THEN conjunct1] z [THEN conjunct2, THEN conjunct2, THEN conjunct2])
qed

lemma cache_alloc_ok:
  assumes rep: "cache_rep S c A F 0" and ok: "pages_ok z (slmm S)" "first_zone z (slmm S) (gfp_exact_node fl)"
    and dis: "\<forall>p \<in> A. blk_of (kcaches S c) p \<inter> avail_of z (slmm S) = {}" and node: "kc_node (kcaches S c) \<noteq> 0"
  shows "case cache_alloc c fl S of Inl f \<Rightarrow> f = Panic \<and> exhausted z c S A F | Inr (S', obj) \<Rightarrow> allocated z c S A F S' obj"
proof (cases "ac_avail (cpu_of S c) = 0")
  case False
  obtain S' obj where p: "ac_pop (cpu_cache (kcaches S c)) S = (S', obj)" by fastforce
  then show ?thesis using pop_allocated [OF rep ok(1) _ p] False by (simp add: cache_alloc_def Let_def)
next
  case av: True
  let ?n = "kc_node (kcaches S c)" and ?ac = "cpu_cache (kcaches S c)"
  define bc where "bc = int (ac_batchcount (cpu_of S c))"
  have w: "waiting S c = []" using av by (simp add: waiting_Nil)
  show ?thesis
  proof (cases "free_objects (node_of S c) = 0")
    case True
    then have "\<forall>p \<in> A. F p = []" using no_free_objects [OF rep] by blast
    moreover have "cache_alloc c fl S = direct_grow c ?ac fl bc S"
      using av node True by (simp add: cache_alloc_def cache_alloc_refill_def bc_def Let_def)
    moreover have "0 < bc \<and> nat bc \<le> ac_limit (cpu_of S c)" using cache_repD(8,9) [OF rep] by (simp add: bc_def)
    ultimately show ?thesis using direct_grow_ok [OF rep ok dis, of bc] w by (simp add: exhausted_def split: sum.splits prod.splits)
  next
    case False
    obtain T b U G where t: "refill_loop c ?ac ?n bc S = Inr (T, b)"
      "U = upd_knode ?n (\<lambda>x. x\<lparr>free_objects := free_objects x - of_nat (ac_avail (kcpus T ?ac))\<rparr>) T"
      "cache_step z c S A F (page_bytes (avail_of z (slmm S))) U A G" "users U c A G = users S c A F"
      "avail_of z (slmm U) = avail_of z (slmm S)"
      "ac_avail (cpu_of U c) = 0 \<longrightarrow> slmm U = slmm S \<and> (\<forall>p \<in> A. F p = []) \<and> 0 < b \<and> nat b \<le> ac_limit (cpu_of U c)"
      using refill_step [OF rep ok(1) av, folded bc_def] by (elim exE conjE)
    note s = cache_stepD [OF t(3)]
    have e: "kcaches U = kcaches S" using touched_caches [OF s(3)] by simp
    have eq: "cache_alloc c fl S = direct_grow c ?ac fl b U"
      using av node False t(1,2) by (simp add: cache_alloc_def cache_alloc_refill_def bc_def [symmetric] Let_def)
    have zo: "first_zone z (slmm U) (gfp_exact_node fl)" using first_zone_touched [OF s(3)] ok(2) by simp
    have "\<forall>p \<in> A. blk_of (kcaches U c) p \<inter> avail_of z (slmm U) = {}" using dis t(5) e by simp
    moreover have "0 < b \<and> nat b \<le> ac_limit (cpu_of U c)" if "ac_avail (cpu_of U c) = 0" using t(6) that by simp
    ultimately have dg: "case direct_grow c ?ac fl b U of
        Inl f \<Rightarrow> f = Panic \<and> ac_avail (cpu_of U c) = 0 \<and> \<not> has_block z (slmm U) (gfporder (kcaches U c))
      | Inr (S', obj) \<Rightarrow> allocated z c U A G S' obj"
      using direct_grow_ok [OF s(1,2) zo, of b] unfolding e by (simp only: simp_thms)
    show ?thesis
    proof (cases "direct_grow c ?ac fl b U")
      case (Inl f)
      then have "f = Panic" "ac_avail (cpu_of U c) = 0" "\<not> has_block z (slmm U) (gfporder (kcaches S c))" using dg e by simp_all
      then show ?thesis using Inl mp [OF t(6)] w by (simp add: eq exhausted_def)
    next
      case (Inr a)
      then obtain S' obj where a: "direct_grow c ?ac fl b U = Inr (S', obj)" by (cases a) auto
      then have "allocated z c U A G S' obj" using dg by simp
      then show ?thesis using a allocated_after [OF t(3,4)] by (simp add: eq)
    qed
  qed
qed

end
