(* ===== verification/SlabSystem.thy ===== *)
theory SlabSystem
  imports SlabOps
begin

text \<open>
  The caches together: their slabs and the available pages do not overlap, so an operation on one
  cache keeps the others, and a user may write to the objects it holds.
\<close>

section \<open>The objects in use\<close>

lemma frees_eq:
  assumes rep: "slab_rep S c p F" and g: "geom_ok (kcaches S c)"
  shows "frees S c p = F"
proof (rule nth_equalityI)
  note d = slab_repD [OF rep]
  show "length (frees S c p) = length F" using d(4,5) by (simp add: frees_def)
  fix j assume "j < length (frees S c p)"
  then have j: "j < length F" using d(4,5) by (simp add: frees_def)
  let ?k = "unat (page_active S p) + j"
  have k: "?k < onum (kcaches S c)" "onum (kcaches S c) - length F \<le> ?k" "?k + length F - onum (kcaches S c) = j" using j d(4,5) by auto
  then have "kram S (freelist S p + of_nat ?k) = of_nat (F ! j)" using d(1) unfolding slab_core_def by metis
  moreover have "F ! j < 256" using slab_rep_in [OF rep, of "F ! j"] j geom_bounds(5) [OF g] by simp
  then have "unat (of_nat (F ! j) :: u8) = F ! j" by (simp add: unat_of_nat)
  moreover have "frees S c p ! j = unat (kram S (freelist S p + of_nat ?k))"
    unfolding frees_def using k(1) by (subst nth_map) (simp_all add: nth_upt del: of_nat_add)
  ultimately show "frees S c p ! j = F ! j" by simp
qed

lemma slabs_of_eq:
  assumes "cache_rep S c A F d"
  shows "set (slabs_of S c) = A"
proof -
  note r = cache_repD [OF assms]
  show ?thesis
  proof (rule set_eqI)
    fix p show "p \<in> set (slabs_of S c) \<longleftrightarrow> p \<in> A"
      using slab_repD(4) [OF r(10), of p] by (auto simp: slabs_of_def node_rep_lists [OF r(4)])
  qed
qed

lemma in_use_eq:
  assumes rep: "cache_rep S c A F d"
  shows "set (in_use S c) = users S c A F"
proof -
  note r = cache_repD [OF rep]
  have "set (filter (\<lambda>i. i \<notin> set (frees S c p)) [0..<onum (kcaches S c)]) = {..<onum (kcaches S c)} - set (F p)" if "p \<in> A" for p
    using frees_eq [OF r(10) [OF that] r(2)] by auto
  then have L: "set L = taken (offs S) (kcaches S c) A F"
    if "L = concat (map (\<lambda>p. map (objat (offs S) (kcaches S c) p) (filter (\<lambda>i. i \<notin> set (frees S c p)) [0..<onum (kcaches S c)])) (slabs_of S c))" for L
    unfolding that by (simp add: taken_def slabs_of_eq [OF rep] del: set_filter)
  show ?thesis unfolding in_use_def users_def L [OF refl, symmetric] by (simp only: set_filter set_diff_eq)
qed

text \<open>Only the free lists of its own slabs matter to the representation of a cache.\<close>

lemma cache_rep_cong:
  assumes "cache_rep S c A F d" "\<And>p. p \<in> A \<Longrightarrow> G p = F p"
  shows "cache_rep S c A G d" "users S c A G = users S c A F"
proof -
  have s: "{p \<in> A. P (length (G p))} = {p \<in> A. P (length (F p))}" for P using assms(2) by auto
  have "(\<Sum>p \<in> A. length (G p)) = (\<Sum>p \<in> A. length (F p))" using assms(2) by (intro sum.cong) auto
  then have n: "node_rep m A G d n = node_rep m A F d n" for m n
    unfolding node_rep_def using s [of "\<lambda>k. 0 < k \<and> k < m"] s [of "\<lambda>k. k = 0"] s [of "\<lambda>k. k = m"] by simp
  have t: "taken V x A G = taken V x A F" for V x using assms(2) by (rule taken_cong)
  show "cache_rep S c A G d" using assms unfolding cache_rep_def n t by simp
  show "users S c A G = users S c A F" by (simp add: users_def t)
qed

section \<open>All caches\<close>

definition slabs_ok :: "nat \<Rightarrow> addr set \<Rightarrow> slab \<Rightarrow> (addr \<Rightarrow> nat set) \<Rightarrow> (nat \<Rightarrow> nat list) \<Rightarrow> bool" where
  "slabs_ok z C S A F \<longleftrightarrow> pages_ok z (slmm S)
     \<and> (\<forall>c \<in> C. 16 < c \<and> kc_node (kcaches S c) \<noteq> 0 \<and> cache_rep S c (A c) F 0)
     \<and> inj_on (\<lambda>c. kc_node (kcaches S c)) C \<and> inj_on (\<lambda>c. cpu_cache (kcaches S c)) C
     \<and> (\<forall>c \<in> C. \<forall>p \<in> A c. blk_of (kcaches S c) p \<inter> avail_of z (slmm S) = {})
     \<and> (\<forall>c \<in> C. \<forall>c' \<in> C. c \<noteq> c' \<longrightarrow> (\<forall>p \<in> A c. \<forall>q \<in> A c'. blk_of (kcaches S c) p \<inter> blk_of (kcaches S c') q = {}))"

definition slabs_inv :: "nat \<Rightarrow> addr set \<Rightarrow> slab \<Rightarrow> bool" where
  "slabs_inv z C S \<longleftrightarrow> (\<exists>A F. slabs_ok z C S A F)"

lemma slabs_okD:
  assumes "slabs_ok z C S A F"
  shows "pages_ok z (slmm S)" "c \<in> C \<Longrightarrow> kc_node (kcaches S c) \<noteq> 0" "c \<in> C \<Longrightarrow> cache_rep S c (A c) F 0"
    "c \<in> C \<Longrightarrow> p \<in> A c \<Longrightarrow> blk_of (kcaches S c) p \<inter> avail_of z (slmm S) = {}"
    "c \<in> C \<Longrightarrow> c' \<in> C \<Longrightarrow> c \<noteq> c' \<Longrightarrow> p \<in> A c \<Longrightarrow> q \<in> A c' \<Longrightarrow> blk_of (kcaches S c) p \<inter> blk_of (kcaches S c') q = {}"
    "c \<in> C \<Longrightarrow> c' \<in> C \<Longrightarrow> c \<noteq> c' \<Longrightarrow> kc_node (kcaches S c) \<noteq> kc_node (kcaches S c') \<and> cpu_cache (kcaches S c) \<noteq> cpu_cache (kcaches S c')"
    "c \<in> C \<Longrightarrow> 16 < c"
proof -
  show "pages_ok z (slmm S)" using assms unfolding slabs_ok_def by (elim conjE)
  show "kc_node (kcaches S c) \<noteq> 0" "cache_rep S c (A c) F 0" "16 < c" if "c \<in> C" using assms that unfolding slabs_ok_def by simp_all
  show "blk_of (kcaches S c) p \<inter> avail_of z (slmm S) = {}" if "c \<in> C" "p \<in> A c" using assms that unfolding slabs_ok_def by simp
  show "blk_of (kcaches S c) p \<inter> blk_of (kcaches S c') q = {}" if "c \<in> C" "c' \<in> C" "c \<noteq> c'" "p \<in> A c" "q \<in> A c'"
    using assms that unfolding slabs_ok_def by simp
  have "inj_on (\<lambda>c. kc_node (kcaches S c)) C" "inj_on (\<lambda>c. cpu_cache (kcaches S c)) C" using assms unfolding slabs_ok_def by simp_all
  then show "kc_node (kcaches S c) \<noteq> kc_node (kcaches S c') \<and> cpu_cache (kcaches S c) \<noteq> cpu_cache (kcaches S c')"
    if "c \<in> C" "c' \<in> C" "c \<noteq> c'" using that by (auto dest: inj_onD)
qed

definition slab_pages :: "slab \<Rightarrow> (addr \<Rightarrow> nat set) \<Rightarrow> addr \<Rightarrow> nat set" where
  "slab_pages S A c = (\<Union>p \<in> A c. blk_of (kcaches S c) p)"

lemma other_far:
  assumes ok: "slabs_ok z C S A F" and c: "c \<in> C" "c' \<in> C" "c' \<noteq> c" and p: "p \<in> A c'"
  shows "p \<notin> A c" "p \<notin> avail_of z (slmm S)" "bytes p (gfporder (kcaches S c')) \<inter> page_bytes (avail_of z (slmm S) \<union> slab_pages S A c) = {}"
proof -
  note d = slabs_okD [OF ok]
  have self: "q \<in> blk_of x q" for q x by (simp add: blk_pages)
  show "p \<notin> A c" using d(5) [OF c(2,1,3) p, of p] self by blast
  show "p \<notin> avail_of z (slmm S)" using d(4) [OF c(2) p] self by blast
  have "blk_of (kcaches S c') p \<inter> (avail_of z (slmm S) \<union> slab_pages S A c) = {}"
    using d(4) [OF c(2) p] d(5) [OF c(2,1,3) p] by (auto simp: slab_pages_def)
  then show "bytes p (gfporder (kcaches S c')) \<inter> page_bytes (avail_of z (slmm S) \<union> slab_pages S A c) = {}"
    by (auto simp: bytes_page_bytes page_bytes_def)
qed

text \<open>A step of one cache keeps the others.\<close>

lemma other_kept:
  assumes ok: "slabs_ok z C S A F" and c: "c \<in> C" "c' \<in> C" "c' \<noteq> c" and t: "touched c (A c \<union> avail_of z (slmm S)) Y S S'"
    and Y: "Y \<subseteq> page_bytes (avail_of z (slmm S) \<union> slab_pages S A c)" and G: "\<And>p. p \<in> A c' \<Longrightarrow> G p = F p"
  shows "cache_rep S' c' (A c') G 0" "users S' c' (A c') G = users S c' (A c') F"
proof -
  note d = slabs_okD [OF ok] and far = other_far [OF ok c]
  note r = cache_repD [OF d(3) [OF c(2)]]
  have e: "kcaches S' = kcaches S" "offs S' = offs S" using touched_caches [OF t] by auto
  have n: "knodes S' (kc_node (kcaches S c')) = node_of S c'" "kcpus S' (cpu_cache (kcaches S c')) = cpu_of S c'"
    using t d(6) [OF c(2,1,3)] by (simp_all add: touched_def)
  have rep: "cache_rep S' c' (A c') F 0"
  proof (rule cache_rep_touched [OF d(3) [OF c(2)] t n])
    fix p assume p: "p \<in> A c'"
    show "p \<notin> A c \<union> avail_of z (slmm S)" using far(1,2) [OF p] by blast
    show "fl_bytes (kcaches S c') p (F p) \<inter> Y = {}" using far(3) [OF p] Y fl_bytes_block [OF r(10,11) [OF p]] by blast
  qed
  show "cache_rep S' c' (A c') G 0" using cache_rep_cong(1) [OF rep] G by blast
  have "users S' c' (A c') F = users S c' (A c') F" using e n by (simp add: users_def waiting_def)
  then show "users S' c' (A c') G = users S c' (A c') F" using cache_rep_cong(2) [OF rep] G by blast
qed

lemma slabs_step:
  assumes ok: "slabs_ok z C S A F" and c: "c \<in> C" and st: "cache_step z c S (A c) F Y S' A' F'"
    and Y: "Y \<subseteq> page_bytes (avail_of z (slmm S) \<union> slab_pages S A c)"
  shows "slabs_ok z C S' (A(c := A')) F'" "\<And>c'. c' \<in> C \<Longrightarrow> c' \<noteq> c \<Longrightarrow> users S' c' (A c') F' = users S c' (A c') F"
proof -
  note d = slabs_okD [OF ok] and s = cache_stepD [OF st]
  have e: "kcaches S' = kcaches S" using touched_caches [OF s(3)] by auto
  have self: "q \<in> blk_of x q" for q x by (simp add: blk_pages)
  have new: "p \<in> A c \<or> blk_of (kcaches S c) p \<subseteq> avail_of z (slmm S) - avail_of z (slmm S')" if "p \<in> A'" for p using s(6) that by blast
  have G: "F' p = F p" if "c' \<in> C" "c' \<noteq> c" "p \<in> A c'" for c' p
  proof -
    have "p \<notin> A'" using new [of p] other_far(1,2) [OF ok c that] self by blast
    then show ?thesis by (rule s(7))
  qed
  show "users S' c' (A c') F' = users S c' (A c') F" if "c' \<in> C" "c' \<noteq> c" for c'
    by (rule other_kept(2) [OF ok c that s(3) Y]) (rule G [OF that])
  have reps: "cache_rep S' c' ((A(c := A')) c') F' 0" if "c' \<in> C" for c'
  proof (cases "c' = c")
    case False
    then have "cache_rep S' c' (A c') F' 0" by (rule other_kept(1) [OF ok c that _ s(3) Y]) (rule G [OF that False])
    then show ?thesis using False by simp
  qed (use s(1) in simp)
  have av: "blk_of (kcaches S c') p \<inter> avail_of z (slmm S') = {}" if "c' \<in> C" "p \<in> (A(c := A')) c'" for c' p
    using that new [of p] d(4) [of c' p] s(4) by (cases "c' = c") auto
  have xd: "blk_of (kcaches S c1) p \<inter> blk_of (kcaches S c2) q = {}"
    if "c1 \<in> C" "c2 \<in> C" "c1 \<noteq> c2" "p \<in> (A(c := A')) c1" "q \<in> (A(c := A')) c2" for c1 c2 p q
  proof -
    have *: "blk_of (kcaches S c) p \<inter> blk_of (kcaches S c2) q = {}" if "c2 \<in> C" "c2 \<noteq> c" "p \<in> A'" "q \<in> A c2" for c2 p q
      using new [OF that(3)] d(5) [OF c that(1) _ _ that(4), of p] d(4) [OF that(1,4)] that(2) by blast
    consider "c1 = c" | "c2 = c" | "c1 \<noteq> c" "c2 \<noteq> c" by blast
    then show ?thesis using that * [of c2 p q] * [of c1 q p] d(5) [of c1 c2 p q] by cases auto
  qed
  have inj: "inj_on (\<lambda>c. kc_node (kcaches S c)) C" "inj_on (\<lambda>c. cpu_cache (kcaches S c)) C"
    using d(6) by (auto intro!: inj_onI)
  show "slabs_ok z C S' (A(c := A')) F'"
    unfolding slabs_ok_def e using s(2) reps d(2,7) inj av xd by blast
qed

text \<open>A change inside an object that is in use keeps everything.\<close>

lemma slabs_write:
  assumes ok: "slabs_ok z C S A F" and c: "c \<in> C" "p \<in> A c" "i < onum (kcaches S c)" "i \<notin> set (F p)"
    and r: "\<And>y. y < 2 ^ 64 \<Longrightarrow> y \<notin> obytes (kcaches S c) p i \<Longrightarrow> r (kat (offs S) y) = kram S (kat (offs S) y)"
  shows "slabs_ok z C (set_ram r S) A F"
proof -
  note d = slabs_okD [OF ok]
  note rc = cache_repD [OF d(3) [OF c(1)]]
  let ?Y = "obytes (kcaches S c) p i"
  have t: "touched c' {} ?Y S (set_ram r S)" for c' using r by (simp add: touched_def)
  have b: "?Y \<subseteq> bytes p (gfporder (kcaches S c))" using obytes_in(2) [OF rc(2) c(3)] .
  have fl: "fl_bytes (kcaches S c') q (F q) \<inter> ?Y = {}" if q: "c' \<in> C" "q \<in> A c'" for c' q
  proof (cases "c' = c \<and> q = p")
    case True
    show ?thesis
    proof (cases "F p = []")
      case False
      then have "{fl_pos (kcaches S c) p (F p)..<fl_pos (kcaches S c) p (F p) + onum (kcaches S c)} \<inter> ?Y = {}"
        using fl_bytes_in(2) [OF rc(2) False _ c(3)] slab_rep_in [OF rc(10) [OF c(2)]] c(4) last_in_set [OF False] by blast
      moreover have "fl_bytes (kcaches S c) p (F p) \<subseteq> {fl_pos (kcaches S c) p (F p)..<fl_pos (kcaches S c) p (F p) + onum (kcaches S c)}"
        by (auto simp: fl_bytes_def)
      ultimately show ?thesis using True by blast
    qed (use True in \<open>simp add: fl_bytes_def\<close>)
  next
    case False
    note rq = cache_repD [OF d(3) [OF q(1)]]
    have "blk_of (kcaches S c') q \<inter> blk_of (kcaches S c) p = {}"
      using False d(5) [OF q(1) c(1) _ q(2) c(2)] rq(12) [OF q(2), of p] c(2) by (cases "c' = c") auto
    then have "bytes q (gfporder (kcaches S c')) \<inter> bytes p (gfporder (kcaches S c)) = {}" by (rule bytes_disjoint)
    then show ?thesis using fl_bytes_block [OF rq(10,11) [OF q(2)]] b by blast
  qed
  have "cache_rep (set_ram r S) c' (A c') F 0" if "c' \<in> C" for c'
    using fl [OF that] by (intro cache_rep_touched [OF d(3) [OF that] t]) simp_all
  moreover have "pages_ok z (slmm (set_ram r S))" "avail_of z (slmm (set_ram r S)) = avail_of z (slmm S)"
    using d(1) by (simp_all add: set_ram_def)
  ultimately show ?thesis using ok unfolding slabs_ok_def by simp
qed

lemma users_ram [simp]: "users (set_ram r S) c A F = users S c A F"
  by (simp add: users_def waiting_def)

section \<open>Allocation with all caches\<close>

lemma sint_small:
  fixes w :: "'a::len word"
  assumes "unat w < 2 ^ (LENGTH('a) - 1)"
  shows "sint w = int (unat w)"
proof -
  have "int (unat w) < int (2 ^ (LENGTH('a) - 1))" using assms by (simp only: of_nat_less_iff)
  then have "int (unat w) < 2 ^ (LENGTH('a) - 1)" by (simp only: of_nat_power of_nat_numeral)
  moreover have "- (2 ^ (LENGTH('a) - 1)) \<le> int (unat w)" by (rule order_trans [of _ 0]) simp_all
  ultimately have "signed_take_bit (LENGTH('a) - 1) (int (unat w)) = int (unat w)" by (intro signed_take_bit_int_eq_self)
  then show ?thesis by (simp only: sint_uint uint_nat One_nat_def)
qed

lemma scast_small: "unat (w :: u32) < 2147483648 \<Longrightarrow> (scast w :: u64) = of_nat (unat w)"
  using sint_small [of w] by (simp add: scast_eq)

lemma usersE:
  assumes "obj \<in> users S c A F"
  obtains p i where "p \<in> A" "i < onum (kcaches S c)" "i \<notin> set (F p)" "obj = objat (offs S) (kcaches S c) p i"
  using assms by (auto simp: users_def taken_def)

lemma object_byte: "objat V x p i + of_nat j = kat V (opos x p i + j)"
  by (simp add: objat_def kat_add)

lemma object_pos:
  assumes "cache_rep S c A F d" "p \<in> A" "i < onum (kcaches S c)" "j < osz (kcaches S c)"
  shows "opos (kcaches S c) p i + j \<in> obytes (kcaches S c) p i" "opos (kcaches S c) p i + j \<in> bytes p (gfporder (kcaches S c))"
    "opos (kcaches S c) p i + j < 2 ^ 64" "16 < objat (offs S) (kcaches S c) p i"
proof -
  note r = cache_repD [OF assms(1)]
  have o: "opos (kcaches S c) p i + k \<in> obytes (kcaches S c) p i" if "k < osz (kcaches S c)" for k using that by (simp add: obytes_def)
  then show "opos (kcaches S c) p i + j \<in> obytes (kcaches S c) p i" using assms(4) .
  then show b: "opos (kcaches S c) p i + j \<in> bytes p (gfporder (kcaches S c))" using obytes_in(2) [OF r(2) assms(3)] by blast
  show "opos (kcaches S c) p i + j < 2 ^ 64" using place_small(1) [OF r(11) [OF assms(2)] b] .
  have "opos (kcaches S c) p i \<in> bytes p (gfporder (kcaches S c))" using o [of 0] obytes_in(2) [OF r(2) assms(3), of p] assms(4) by auto
  then show "16 < objat (offs S) (kcaches S c) p i" using place_small(2) [OF r(11) [OF assms(2)]] by (simp add: objat_def)
qed

lemma memset_outside:
  assumes rep: "cache_rep S c A F d" and p: "p \<in> A" "i < onum (kcaches S c)"
  defines "r \<equiv> memset (kram S) (objat (offs S) (kcaches S c) p i) 0 (scast (object_size (kcaches S c)))"
  shows "\<And>y. y < 2 ^ 64 \<Longrightarrow> y \<notin> obytes (kcaches S c) p i \<Longrightarrow> r (kat (offs S) y) = kram S (kat (offs S) y)"
    "\<And>j. j < unat (object_size (kcaches S c)) \<Longrightarrow> r (objat (offs S) (kcaches S c) p i + of_nat j) = 0"
proof -
  let ?x = "kcaches S c" and ?V = "offs S"
  note g = cache_repD(2) [OF rep]
  have le: "unat (object_size ?x) \<le> osz ?x" using g by (simp add: geom_ok_def)
  have sz: "osz ?x \<le> 4194304" using obytes_in(1) [OF g p(2)] geom_bounds(1,2) [OF g] by linarith
  then have sc: "(scast (object_size ?x) :: u64) = of_nat (unat (object_size ?x))" using le by (intro scast_small) simp
  have big: "unat (object_size ?x) < 2 ^ 64" using le sz by simp
  have last: "opos ?x p i + osz ?x \<le> 2 ^ 64"
    using object_pos(3) [OF rep p, of "osz ?x - 1"] geom_bounds(4) [OF g] by simp
  show "r (kat ?V y) = kram S (kat ?V y)" if "y < 2 ^ 64" "y \<notin> obytes ?x p i" for y
  proof (rule kat_range [of ?V y "opos ?x p i" "unat (object_size ?x)"])
    show "\<not> kat ?V y - kat ?V (opos ?x p i) < of_nat (unat (object_size ?x)) \<longrightarrow> r (kat ?V y) = kram S (kat ?V y)"
      by (simp add: r_def memset_def sc objat_def)
    show "y \<notin> {opos ?x p i..<opos ?x p i + unat (object_size ?x)}" using that(2) le by (auto simp: obytes_def)
    show "opos ?x p i + unat (object_size ?x) \<le> 2 ^ 64" using last le by linarith
  qed (fact that(1) big)+
  show "r (objat ?V ?x p i + of_nat j) = 0" if "j < unat (object_size ?x)" for j
  proof -
    have "(of_nat j :: u64) < of_nat (unat (object_size ?x))" 
      using that unat_of_nat64 [OF big] unat_of_nat64 [of j] big by (simp only: word_less_nat_alt)
    then show ?thesis by (simp add: r_def memset_def sc)
  qed
qed

lemma kept_memory:
  assumes ok: "slabs_ok z C S A F" and a: "c \<in> C" "a \<in> users S c (A c) F" "j < osz (kcaches S c)"
    and t: "touched c' P (page_bytes (avail_of z (slmm S))) S S'"
  shows "kram S' (a + of_nat j) = kram S (a + of_nat j)"
proof -
  note d = slabs_okD [OF ok]
  obtain p i where p: "p \<in> A c" "i < onum (kcaches S c)" "a = objat (offs S) (kcaches S c) p i" using a(2) by (rule usersE)
  note o = object_pos [OF d(3) [OF a(1)] p(1,2) a(3)]
  have "opos (kcaches S c) p i + j \<notin> page_bytes (avail_of z (slmm S))"
    using o(2) d(4) [OF a(1) p(1)] by (auto simp: bytes_page_bytes page_bytes_def)
  then show ?thesis using t o(3) unfolding p(3) object_byte touched_def by blast
qed

text \<open>The objects of one cache that are in use do not overlap, nor do those of two caches.\<close>

lemma users_apart:
  assumes ok: "slabs_ok z C S A F" and a: "c \<in> C" "a \<in> users S c (A c) F" "j < osz (kcaches S c)"
    and b: "c' \<in> C" "b \<in> users S c' (A c') F" "k < osz (kcaches S c')" and ne: "(c, a) \<noteq> (c', b)"
  shows "a + of_nat j \<noteq> b + of_nat k"
proof -
  note d = slabs_okD [OF ok]
  obtain p i where p: "p \<in> A c" "i < onum (kcaches S c)" "a = objat (offs S) (kcaches S c) p i" using a(2) by (rule usersE)
  obtain q l where q: "q \<in> A c'" "l < onum (kcaches S c')" "b = objat (offs S) (kcaches S c') q l" using b(2) by (rule usersE)
  note o = object_pos [OF d(3) [OF a(1)] p(1,2) a(3)] and o' = object_pos [OF d(3) [OF b(1)] q(1,2) b(3)]
  have "opos (kcaches S c) p i + j \<noteq> opos (kcaches S c') q l + k"
  proof (cases "c' = c \<and> q = p")
    case True
    then have "i \<noteq> l" using ne p(3) q(3) by auto
    then show ?thesis using obytes_disjoint [of i l "kcaches S c" p] o(1) o'(1) True by auto
  next
    case False
    have "blk_of (kcaches S c') q \<inter> blk_of (kcaches S c) p = {}"
      using False d(5) [OF b(1) a(1) _ q(1) p(1)] cache_repD(12) [OF d(3) [OF b(1)] q(1), of p] p(1) by (cases "c' = c") auto
    then show ?thesis using bytes_disjoint o(2) o'(2) by fastforce
  qed
  then show ?thesis unfolding p(3) q(3) object_byte using kat_inj [OF o(3) o'(3)] by simp
qed

lemma write_apart:
  assumes ok: "slabs_ok z C S A F" and o: "c \<in> C" "objat (offs S) (kcaches S c) p i \<in> users S c (A c) F"
    and r: "\<And>y. y < 2 ^ 64 \<Longrightarrow> y \<notin> obytes (kcaches S c) p i \<Longrightarrow> r (kat (offs S) y) = kram S (kat (offs S) y)"
    and a: "c' \<in> C" "a \<in> users S c' (A c') F" "j < osz (kcaches S c')" and ne: "(c', a) \<noteq> (c, objat (offs S) (kcaches S c) p i)"
  shows "r (a + of_nat j) = kram S (a + of_nat j)"
proof -
  obtain y where y: "y < 2 ^ 64" "a + of_nat j = kat (offs S) y" using kat_surj by blast
  have "y \<notin> obytes (kcaches S c) p i"
  proof
    assume "y \<in> obytes (kcaches S c) p i"
    then obtain k where "k < osz (kcaches S c)" "y = opos (kcaches S c) p i + k"
      unfolding obytes_def by (metis add_diff_inverse_nat atLeastLessThan_iff nat_add_left_cancel_less not_le)
    then show False using users_apart [OF ok a o _ ne, of k] y(2) by (simp add: object_byte)
  qed
  then show ?thesis using r y by simp
qed

definition same_config :: "slab \<Rightarrow> slab \<Rightarrow> bool" where
  "same_config S S' \<longleftrightarrow> kcaches S' = kcaches S \<and> zonerefs (slmm S') = zonerefs (slmm S) \<and> kmalloc_caches S' = kmalloc_caches S \<and> size_index S' = size_index S"

lemma touched_config: "touched c P Y S S' \<Longrightarrow> same_config S S'"
  by (simp add: touched_def same_config_def)

definition alloc_post :: "nat \<Rightarrow> addr set \<Rightarrow> addr \<Rightarrow> u32 \<Rightarrow> slab \<Rightarrow> (addr \<Rightarrow> nat set) \<Rightarrow> (nat \<Rightarrow> nat list) \<Rightarrow> slab \<Rightarrow> addr \<Rightarrow> bool" where
  "alloc_post z C c fl S A F S' obj \<longleftrightarrow> (\<exists>A' F'. slabs_ok z C S' A' F' \<and> users S' c (A' c) F' = insert obj (users S c (A c) F)
       \<and> (\<forall>c' \<in> C. c' \<noteq> c \<longrightarrow> users S' c' (A' c') F' = users S c' (A c') F))
     \<and> obj \<notin> users S c (A c) F \<and> 16 < obj \<and> same_config S S'
     \<and> (\<forall>c' \<in> C. \<forall>a \<in> users S c' (A c') F. \<forall>j < osz (kcaches S c'). kram S' (a + of_nat j) = kram S (a + of_nat j))
     \<and> (fl AND GFP_ZERO \<noteq> 0 \<longrightarrow> (\<forall>j < unat (object_size (kcaches S c)). kram S' (obj + of_nat j) = 0))"

lemma slab_alloc_ok:
  assumes ok: "slabs_ok z C S A F" and c: "c \<in> C" and fz: "first_zone z (slmm S) (gfp_exact_node fl)"
  shows "case slab_alloc c fl S of Inl f \<Rightarrow> f = Panic \<and> exhausted z c S (A c) F | Inr (S', obj) \<Rightarrow> alloc_post z C c fl S A F S' obj"
proof -
  note d = slabs_okD [OF ok]
  have "\<forall>p \<in> A c. blk_of (kcaches S c) p \<inter> avail_of z (slmm S) = {}" using d(4) [OF c] by blast
  note al = cache_alloc_ok [OF d(3) [OF c] d(1) fz this d(2) [OF c]]
  show ?thesis
  proof (cases "cache_alloc c fl S")
    case (Inl f)
    then show ?thesis using al by (simp add: slab_alloc_def)
  next
    case (Inr a)
    then obtain T obj where T: "cache_alloc c fl S = Inr (T, obj)" by (cases a) auto
    then obtain A' F' where st: "cache_step z c S (A c) F (page_bytes (avail_of z (slmm S))) T A' F'"
      "users T c A' F' = insert obj (users S c (A c) F)" "obj \<notin> users S c (A c) F"
      using al by (auto simp: allocated_def)
    note s = slabs_step [OF ok c st(1) page_bytes_mono [OF Un_upper1]] and t = cache_stepD(3) [OF st(1)]
    note dT = slabs_okD [OF s(1)]
    have e: "kcaches T = kcaches S" "offs T = offs S" using touched_caches [OF t] by auto
    obtain p i where o: "p \<in> A'" "i < onum (kcaches T c)" "i \<notin> set (F' p)" "obj = objat (offs T) (kcaches T c) p i"
      using st(2) usersE [of obj T c A' F'] by blast
    have repT: "cache_rep T c A' F' 0" using dT(3) [OF c] by simp
    have pos: "16 < obj" using object_pos(4) [OF repT o(1,2), of 0] geom_bounds(4) [OF cache_repD(2) [OF repT]] o(4) by simp
    have kept: "kram T (a + of_nat j) = kram S (a + of_nat j)" if "c' \<in> C" "a \<in> users S c' (A c') F" "j < osz (kcaches S c')" for c' a j
      using kept_memory [OF ok that t] .
    define r where "r = (if fl AND GFP_ZERO \<noteq> 0 then memset (kram T) obj 0 (scast (object_size (kcaches T c))) else kram T)"
    have eq: "slab_alloc c fl S = Inr (set_ram r T, obj)"
      using T pos by (auto simp: slab_alloc_def slab_want_init_on_alloc_def r_def set_ram_def)
    note mo = memset_outside [OF repT o(1,2), folded o(4)]
    have ro: "r (kat (offs T) y) = kram T (kat (offs T) y)" if "y < 2 ^ 64" "y \<notin> obytes (kcaches T c) p i" for y
      using mo(1) [OF that] by (simp add: r_def)
    have ok': "slabs_ok z C (set_ram r T) (A(c := A')) F'"
      using slabs_write [OF s(1) c _ o(2,3) ro] o(1) by simp
    have un: "users T c ((A(c := A')) c) F' = insert obj (users S c (A c) F)" using st(2) by simp
    have mem: "r (a + of_nat j) = kram S (a + of_nat j)" if a: "c' \<in> C" "a \<in> users S c' (A c') F" "j < osz (kcaches S c')" for c' a j
    proof -
      have "a \<in> users T c' ((A(c := A')) c') F'" using un s(2) [OF a(1)] a(2) by (cases "c' = c") simp_all
      moreover have "(c', a) \<noteq> (c, objat (offs T) (kcaches T c) p i)" using st(3) a(2) o(4) by auto
      moreover have "objat (offs T) (kcaches T c) p i \<in> users T c ((A(c := A')) c) F'" using un o(4) by simp
      moreover have "j < osz (kcaches T c')" using a(3) e by simp
      ultimately have "r (a + of_nat j) = kram T (a + of_nat j)" using write_apart [OF s(1) c _ ro a(1)] by blast
      then show ?thesis using kept [OF a] by simp
    qed
    have cfg: "same_config S (set_ram r T)" using touched_config [OF t] by (simp add: same_config_def)
    have "alloc_post z C c fl S A F (set_ram r T) obj"
      unfolding alloc_post_def
    proof (intro conjI exI [of _ "A(c := A')"] exI [of _ F'] ballI allI impI)
      show "users (set_ram r T) c' ((A(c := A')) c') F' = users S c' (A c') F" if "c' \<in> C" "c' \<noteq> c" for c' using s(2) that by simp
      show "kram (set_ram r T) (obj + of_nat j) = 0" if "fl AND GFP_ZERO \<noteq> 0" "j < unat (object_size (kcaches S c))" for j
        using mo(2) that e by (simp add: r_def)
    qed (use ok' un st(3) pos cfg mem in simp_all)
    then show ?thesis by (simp add: eq)
  qed
qed

end
