(* ===== verification/SlabFree.thy ===== *)
theory SlabFree
  imports SlabSystem
begin

text \<open>
  Freeing: an object back to its slab, a batch of objects of the array cache back to their slabs, and
  an object to the array cache.
\<close>

section \<open>The slabs of a cache without its array cache\<close>

definition slabs_rep :: "slab \<Rightarrow> addr \<Rightarrow> nat set \<Rightarrow> (nat \<Rightarrow> nat list) \<Rightarrow> nat \<Rightarrow> bool" where
  "slabs_rep S c A F d \<longleftrightarrow> finite A \<and> geom_ok (kcaches S c) \<and> ctor_ok (kcaches S c)
     \<and> (\<forall>p \<in> A. slab_rep S c p (F p) \<and> place_ok S c p)
     \<and> (\<forall>p \<in> A. \<forall>q \<in> A. p \<noteq> q \<longrightarrow> blk_of (kcaches S c) p \<inter> blk_of (kcaches S c) q = {})
     \<and> node_rep (onum (kcaches S c)) A F d (node_of S c)"

lemma cache_rep_slabs:
  "cache_rep S c A F d \<longleftrightarrow> slabs_rep S c A F d
     \<and> distinct (waiting S c) \<and> set (waiting S c) \<subseteq> taken (offs S) (kcaches S c) A F
     \<and> ac_avail (cpu_of S c) \<le> ac_limit (cpu_of S c)
     \<and> 0 < ac_batchcount (cpu_of S c) \<and> ac_batchcount (cpu_of S c) \<le> ac_limit (cpu_of S c)"
  unfolding cache_rep_def slabs_rep_def by (simp only: conj_assoc)

lemma slabs_repD:
  assumes "slabs_rep S c A F d"
  shows "finite A" "geom_ok (kcaches S c)" "ctor_ok (kcaches S c)" "node_rep (onum (kcaches S c)) A F d (node_of S c)"
    "p \<in> A \<Longrightarrow> slab_rep S c p (F p)" "p \<in> A \<Longrightarrow> place_ok S c p"
    "p \<in> A \<Longrightarrow> q \<in> A \<Longrightarrow> p \<noteq> q \<Longrightarrow> blk_of (kcaches S c) p \<inter> blk_of (kcaches S c) q = {}"
  using assms unfolding slabs_rep_def by blast+

lemma slabs_inj:
  assumes "slabs_rep S c A F d" "p \<in> A" "q \<in> A" "i < onum (kcaches S c)" "j < onum (kcaches S c)"
    and "objat (offs S) (kcaches S c) p i = objat (offs S) (kcaches S c) q j"
  shows "p = q \<and> i = j"
  using objat_inj [OF slabs_repD(6) [OF assms(1,2)] slabs_repD(6) [OF assms(1,3)] _ assms(4-6)] slabs_repD(7) [OF assms(1-3)] by blast

section \<open>An object back to its slab\<close>

lemma head_page:
  assumes pl: "place_ok S c p" and i: "i < onum (kcaches S c)"
  shows "virt_to_head_page S (objat (offs S) (kcaches S c) p i) = p"
proof -
  let ?x = "kcaches S c"
  have g: "geom_ok ?x" using pl by (simp add: place_ok_def)
  have "osz ?x * i < 4096"
  proof (cases "gfporder ?x = 0")
    case True
    then show ?thesis using obytes_in(1) [OF g i] geom_bounds(1,4) [OF g] by simp
  next
    case False
    then have "onum ?x = 1" using g by (simp add: geom_ok_def)
    then show ?thesis using i by simp
  qed
  moreover have "opos ?x p i \<in> obytes ?x p i" using geom_bounds(4) [OF g] by (simp add: obytes_def)
  then have "opos ?x p i < 2 ^ 64" using place_small(1) [OF pl] obytes_in(2) [OF g i] by blast
  ultimately show ?thesis using virt_to_page_kat [of p "osz ?x * i"] by (simp add: virt_to_head_page_def objat_def opos_def)
qed

lemma sdiv_nat: "int a sdiv int b = int (a div b)"
  by (cases "a = 0"; cases "b = 0") (simp_all add: signed_divide_int_def zdiv_int)

lemma obj_index:
  assumes s: "s_mem S p = kat (offs S) (4096 * p)" and g: "geom_ok (kcaches S c)" and i: "i < onum (kcaches S c)"
  shows "obj_to_index S c p (objat (offs S) (kcaches S c) p i) = of_nat i"
proof -
  let ?x = "kcaches S c"
  define k where "k = osz ?x * i"
  have l: "k < 4194304" using obytes_in(1) [OF g i] geom_bounds(1,2,4) [OF g] by (simp add: k_def)
  have e: "objat (offs S) ?x p i - s_mem S p = of_nat k"
    using kat_diff [of "4096 * p" "4096 * p + k" "offs S"] s by (simp add: objat_def opos_def k_def del: of_nat_mult)
  have u: "unat (of_nat k :: u64) = k" using l by (intro unat_of_nat64) simp
  have "sint (of_nat k :: u64) = int k" using sint_small [of "of_nat k :: u64", unfolded u] l by simp
  moreover have "k div osz ?x = i" using geom_bounds(4) [OF g] by (simp add: k_def)
  ultimately show ?thesis unfolding obj_to_index_def e uint_nat using sdiv_nat [of k "osz ?x"] by (simp only:) simp
qed

text \<open>The byte of the free list that a freed object takes.\<close>

definition put_pos :: "kmem_cache \<Rightarrow> nat \<Rightarrow> nat \<Rightarrow> nat list \<Rightarrow> nat" where
  "put_pos x p i F = fl_pos x p (i # F) + (onum x - length F - 1)"

definition put_back :: "addr \<Rightarrow> nat \<Rightarrow> nat \<Rightarrow> nat list \<Rightarrow> slab \<Rightarrow> slab" where
  "put_back c p i F S = set_ram ((kram S)(kat (offs S) (put_pos (kcaches S c) p i F) := of_nat i))
     ((set_active p (page_active S p - 1) S)\<lparr>freelist := (freelist S)(p := fl_addr (offs S) (kcaches S c) p (i # F))\<rparr>)"

lemma put_facts:
  assumes rep: "slab_rep S c p F" and pl: "place_ok S c p" and i: "i < onum (kcaches S c)" "i \<notin> set F"
  shows "length F < onum (kcaches S c)" "unat (page_active S p - 1) = onum (kcaches S c) - length F - 1"
    "16 < fl_addr (offs S) (kcaches S c) p (i # F)" "\<forall>j \<in> set (i # F). j < onum (kcaches S c)"
    "fl_addr (offs S) (kcaches S c) p (i # F) = kat (offs S) (fl_pos (kcaches S c) p (i # F))"
    "put_pos (kcaches S c) p i F \<in> fl_bytes (kcaches S c) p (i # F)"
    "put_pos (kcaches S c) p i F \<in> bytes p (gfporder (kcaches S c))"
proof -
  let ?x = "kcaches S c"
  note d = slab_repD [OF rep]
  have g: "geom_ok ?x" using pl by (simp add: place_ok_def)
  show F: "\<forall>j \<in> set (i # F). j < onum ?x" using slab_rep_in [OF rep] i(1) by auto
  have "card (set (i # F)) \<le> card {..<onum ?x}" using F by (intro card_mono) auto
  then show l: "length F < onum ?x" using i(2) distinct_card [OF d(3)] by simp
  then have "page_active S p \<noteq> 0" using d(5) by (auto simp: unat_eq_zero [symmetric])
  then show "unat (page_active S p - 1) = onum ?x - length F - 1" using d(5) by (simp add: unat_minus_one)
  have "fl_pos ?x p (i # F) \<in> bytes p (gfporder ?x)" using fl_bytes_in(1) [OF g _ F, of p] geom_bounds(3) [OF g] by auto
  then show "16 < fl_addr (offs S) ?x p (i # F)" using place_small(2) [OF pl] by (simp add: fl_addr_def)
  show "fl_addr (offs S) ?x p (i # F) = kat (offs S) (fl_pos ?x p (i # F))" by (simp add: fl_addr_def)
  show b: "put_pos ?x p i F \<in> fl_bytes ?x p (i # F)" using l by (auto simp: put_pos_def fl_bytes_def)
  have "fl_bytes ?x p (i # F) \<subseteq> {fl_pos ?x p (i # F)..<fl_pos ?x p (i # F) + onum ?x}" by (auto simp: fl_bytes_def)
  then show "put_pos ?x p i F \<in> bytes p (gfporder ?x)" using b fl_bytes_in(1) [OF g _ F, of p] by blast
qed

lemma put_obj_eq:
  assumes rep: "slab_rep S c p F" and pl: "place_ok S c p" and i: "i < onum (kcaches S c)" "i \<notin> set F"
  shows "slab_put_obj c p (objat (offs S) (kcaches S c) p i) S = put_back c p i F S"
proof -
  let ?x = "kcaches S c" and ?V = "offs S" and ?a = "page_active S p - 1"
  note f = put_facts [OF assms]
  have g: "geom_ok ?x" using pl by (simp add: place_ok_def)
  have "s_mem S p = kat ?V (4096 * p)" using rep by (simp add: slab_rep_def slab_core_def)
  note ix = obj_index [OF this g i(1)]
  have fr: "(if freelist S p = 0 then (freelist S)(p := objat ?V ?x p i) else freelist S) = (freelist S)(p := fl_addr ?V ?x p (i # F))"
  proof (cases "OBJFREELIST_SLAB ?x \<and> F = []")
    case True
    then show ?thesis using slab_repD(2) [OF rep] by (simp add: fl_addr_def fl_pos_def objat_def)
  next
    case False
    then have "fl_addr ?V ?x p F = fl_addr ?V ?x p (i # F)" by (auto simp: fl_addr_def fl_pos_def)
    then show ?thesis using slab_repD(2) [OF rep] f(3) by auto
  qed
  have ad: "fl_addr ?V ?x p (i # F) + ucast ?a = kat ?V (put_pos ?x p i F)"
    unfolding f(5) put_pos_def kat_add [symmetric] f(2) [symmetric] by (simp add: kat_add [symmetric])
  have "unat (of_nat i :: u32) = i" using i(1) by (intro le_unat_uoi [of i "kc_num ?x"]) simp
  then have ib: "(ucast (of_nat i :: u32) :: u8) = of_nat i" by (metis of_nat_unat)
  show ?thesis
  proof -
    define T where "T = (set_active p ?a S)\<lparr>freelist := (freelist S)(p := fl_addr ?V ?x p (i # F))\<rparr>"
    have T: "(if freelist (set_active p ?a S) p = 0 then (set_active p ?a S)\<lparr>freelist := (freelist (set_active p ?a S))(p := objat ?V ?x p i)\<rparr>
        else set_active p ?a S) = T"
      using fr by (simp add: T_def split: if_splits)
    have "set_free_obj p (page_active T p) (of_nat i) T = set_ram ((kram S)(kat ?V (put_pos ?x p i F) := of_nat i)) T"
      by (simp add: set_free_obj_def T_def ad)
    then show ?thesis unfolding slab_put_obj_def ix Let_def T ib by (simp add: put_back_def T_def)
  qed
qed

lemma put_back_simps [simp]:
  "kcaches (put_back c p i F S) = kcaches S" "knodes (put_back c p i F S) = knodes S" "kcpus (put_back c p i F S) = kcpus S"
  "page_cache (put_back c p i F S) = page_cache S" "s_mem (put_back c p i F S) = s_mem S" "offs (put_back c p i F S) = offs S"
  "page_active (put_back c p i F S) p = page_active S p - 1"
  by (simp_all add: put_back_def)

lemma put_back_touched:
  assumes rep: "slab_rep S c p F" and pl: "place_ok S c p" and i: "i < onum (kcaches S c)" "i \<notin> set F"
  shows "touched c {p} {put_pos (kcaches S c) p i F} S (put_back c p i F S)"
proof -
  let ?w = "put_pos (kcaches S c) p i F"
  note f = put_facts [OF assms]
  have "?w < 2 ^ 64" using f(7) place_small(1) [OF pl] by blast
  then have "kat (offs S) y \<noteq> kat (offs S) ?w" if "y < 2 ^ 64" "y \<noteq> ?w" for y using kat_inj [OF that(1)] that(2) by blast
  then show ?thesis by (simp add: touched_def put_back_def)
qed

lemma put_back_slab:
  assumes rep: "slab_rep S c p F" and pl: "place_ok S c p" and i: "i < onum (kcaches S c)" "i \<notin> set F"
  shows "slab_rep (put_back c p i F S) c p (i # F)"
proof -
  let ?x = "kcaches S c" and ?V = "offs S" and ?S = "put_back c p i F S" and ?n = "onum (kcaches S c)"
  note f = put_facts [OF assms] and d = slab_repD [OF rep]
  have g: "geom_ok ?x" using pl by (simp add: place_ok_def)
  have fl: "freelist ?S p = fl_addr ?V ?x p (i # F)" by (simp add: put_back_def)
  have pos: "fl_pos ?x p (i # F) + k < 2 ^ 64" if "k < ?n" for k
    using fl_bytes_in(1) [OF g _ f(4), of p] place_small(1) [OF pl] that by (simp add: subset_eq)
  have bts: "kram ?S (freelist ?S p + of_nat k) = of_nat ((i # F) ! (k + length (i # F) - ?n))" if k: "k < ?n" "?n - length (i # F) \<le> k" for k
  proof (cases "k = ?n - length F - 1")
    case True
    then have "k + length (i # F) - ?n = 0" using f(1) by simp
    moreover have "freelist ?S p + of_nat k = kat ?V (put_pos ?x p i F)" unfolding fl f(5) put_pos_def True kat_add ..
    ultimately show ?thesis by (simp add: put_back_def)
  next
    case False
    then have k': "?n - length F \<le> k" "k + length (i # F) - ?n = Suc (k + length F - ?n)" "k \<noteq> ?n - length F - 1" using k(2) f(1) by auto
    have "F \<noteq> []" using k' k(1) by auto
    then have "fl_addr ?V ?x p (i # F) = fl_addr ?V ?x p F" by (simp add: fl_addr_def fl_pos_def)
    then have e: "freelist ?S p + of_nat k = freelist S p + of_nat k" using fl d(2) by simp
    have "freelist ?S p + of_nat k = kat ?V (fl_pos ?x p (i # F) + k)" unfolding fl f(5) kat_add ..
    moreover have "fl_pos ?x p (i # F) + k \<noteq> put_pos ?x p i F" using k'(3) by (simp add: put_pos_def)
    ultimately have "freelist ?S p + of_nat k \<noteq> kat ?V (put_pos ?x p i F)"
      using kat_inj [OF pos [OF k(1)]] pos [of "?n - length F - 1"] f(1) by (simp add: put_pos_def)
    then have "kram ?S (freelist ?S p + of_nat k) = kram S (freelist S p + of_nat k)" using e by (simp add: put_back_def)
    then show ?thesis using d(1) k(1) k'(1,2) by (simp add: slab_core_def)
  qed
  have "PageSlab (mem_map (slmm ?S) p)" using d(1) by (simp add: slab_core_def put_back_def)
  then show ?thesis
    unfolding slab_rep_def slab_core_def using bts fl f d(1) i(2) by (simp add: slab_core_def)
qed

text \<open>The lists of the node after an object came back.\<close>

definition returned :: "nat \<Rightarrow> bool \<Rightarrow> kmem_cache_node \<Rightarrow> kmem_cache_node" where
  "returned p b n = n\<lparr>slabs_full := remove1 p (slabs_full n), slabs_partial := (if b then remove1 p (slabs_partial n) else remove1 p (slabs_partial n) @ [p]),
     slabs_free := (if b then p # remove1 p (slabs_free n) else remove1 p (slabs_free n)), free_slabs := (if b then free_slabs n + 1 else free_slabs n)\<rparr>"

lemma free_obj_eq:
  assumes rep: "slab_rep S c p F" and pl: "place_ok S c p" and i: "i < onum (kcaches S c)" "i \<notin> set F"
  shows "free_obj c (objat (offs S) (kcaches S c) p i) S
     = upd_knode (kc_node (kcaches S c)) (returned p (length (i # F) = onum (kcaches S c))) (put_back c p i F S)"
proof -
  let ?n = "kc_node (kcaches S c)" and ?obj = "objat (offs S) (kcaches S c) p i"
  have hp: "virt_to_head_page S ?obj = p" by (rule head_page [OF pl i(1)])
  define T where "T = slab_list_del ?n p S"
  have T: "kcaches T = kcaches S" "offs T = offs S" "slab_rep T c p F" "place_ok T c p" using rep pl by (simp_all add: T_def slab_list_del_def)
  have po: "slab_put_obj c p ?obj T = put_back c p i F T" using put_obj_eq [OF T(3,4), unfolded T(1,2), OF i] .
  have ac: "page_active T p = page_active S p" by (simp add: T_def slab_list_del_def)
  have b: "page_active S p - 1 = 0 \<longleftrightarrow> length (i # F) = onum (kcaches S c)"
    using put_facts(1,2) [OF assms] by (auto simp: unat_eq_zero [symmetric])
  have pb: "put_back c p i F (S\<lparr>knodes := N\<rparr>) = (put_back c p i F S)\<lparr>knodes := N\<rparr>" for N
    by (simp add: put_back_def set_ram_def set_active_def)
  show ?thesis
    unfolding free_obj_def hp T_def [symmetric] po Let_def
    using b ac by (cases "knodes S ?n") (simp add: T_def slab_list_del_def pb returned_def T(1))
qed

lemma sum_put:
  assumes "finite A" "p \<in> A"
  shows "(\<Sum>q \<in> A. length ((F(p := i # F p)) q)) = Suc (\<Sum>q \<in> A. length (F q))"
proof -
  have "(\<Sum>q \<in> A. length ((F(p := i # F p)) q)) = Suc (length (F p)) + (\<Sum>q \<in> A - {p}. length (F q))"
    using assms by (subst sum.remove [of A p]) auto
  moreover have "(\<Sum>q \<in> A. length (F q)) = length (F p) + (\<Sum>q \<in> A - {p}. length (F q))"
    using assms by (subst sum.remove [of A p]) auto
  ultimately show ?thesis by simp
qed

lemma node_returned:
  assumes rep: "node_rep num A F (Suc d) n" and A: "finite A" "p \<in> A" and l: "length (F p) < num"
  shows "node_rep num A (F(p := i # F p)) d (returned p (length (i # F p) = num) n)"
proof -
  let ?G = "F(p := i # F p)" and ?b = "length (i # F p) = num"
  note ls = node_rep_lists [OF rep]
  have d: "distinct (slabs_partial n)" "distinct (slabs_full n)" "distinct (slabs_free n)"
    and r: "free_slabs n = of_nat (length (slabs_free n))" "total_slabs n = of_nat (card A)"
      "free_objects n = of_nat ((\<Sum>p \<in> A. length (F p)) + Suc d)"
    using rep by (simp_all add: node_rep_def)
  have pf: "p \<notin> set (slabs_free n)" using ls(3) l by auto
  define n' where "n' = returned p ?b n"
  have n': "slabs_partial n' = (if ?b then remove1 p (slabs_partial n) else remove1 p (slabs_partial n) @ [p])"
    "slabs_full n' = remove1 p (slabs_full n)" "slabs_free n' = (if ?b then p # slabs_free n else slabs_free n)"
    "free_slabs n' = (if ?b then free_slabs n + 1 else free_slabs n)" "total_slabs n' = total_slabs n" "free_objects n' = free_objects n"
    using pf by (simp_all add: n'_def returned_def remove1_idem)
  have g: "length (?G p) = Suc (length (F p))" "\<And>q. q \<noteq> p \<Longrightarrow> ?G q = F q" by simp_all
  have "set (slabs_partial n') = {q \<in> A. 0 < length (?G q) \<and> length (?G q) < num}"
  proof (rule set_eqI)
    fix q show "q \<in> set (slabs_partial n') \<longleftrightarrow> q \<in> {q \<in> A. 0 < length (?G q) \<and> length (?G q) < num}"
      unfolding n'(1) using d(1) ls(1) A(2) l g by (cases "q = p") auto
  qed
  moreover have "set (slabs_full n') = {q \<in> A. length (?G q) = 0}"
  proof (rule set_eqI)
    fix q show "q \<in> set (slabs_full n') \<longleftrightarrow> q \<in> {q \<in> A. length (?G q) = 0}"
      unfolding n'(2) using d(2) ls(2) g by (cases "q = p") auto
  qed
  moreover have "set (slabs_free n') = {q \<in> A. length (?G q) = num}"
  proof (rule set_eqI)
    fix q show "q \<in> set (slabs_free n') \<longleftrightarrow> q \<in> {q \<in> A. length (?G q) = num}"
      unfolding n'(3) using ls(3) A(2) l g by (cases "q = p") auto
  qed
  moreover have "distinct (slabs_partial n')" "distinct (slabs_full n')" "distinct (slabs_free n')" unfolding n' using d pf by auto
  moreover have "free_slabs n' = of_nat (length (slabs_free n'))" using r(1) by (simp add: n'(3,4))
  moreover have "free_objects n' = of_nat ((\<Sum>q \<in> A. length (?G q)) + d)" unfolding sum_put [OF A] n'(6) r(3) by simp
  ultimately show ?thesis unfolding node_rep_def n'_def [symmetric] using r(2) n'(5) by simp
qed

text \<open>The positions of the slabs of a cache outside the objects that are taken.\<close>

definition idle :: "kmem_cache \<Rightarrow> nat set \<Rightarrow> (nat \<Rightarrow> nat list) \<Rightarrow> nat set" where
  "idle x A F = (\<Union>p \<in> A. bytes p (gfporder x)) - (\<Union>p \<in> A. \<Union>i \<in> {..<onum x} - set (F p). obytes x p i)"

lemma idle_mono: "(\<And>p. p \<in> A \<Longrightarrow> set (F p) \<subseteq> set (G p)) \<Longrightarrow> idle x A F \<subseteq> idle x A G"
  unfolding idle_def by blast

lemma put_pos_idle:
  assumes rep: "slabs_rep S c A F d" and p: "p \<in> A" and i: "i < onum (kcaches S c)" "i \<notin> set (F p)"
  shows "put_pos (kcaches S c) p i (F p) \<in> idle (kcaches S c) A (F(p := i # F p))"
proof -
  let ?x = "kcaches S c" and ?w = "put_pos (kcaches S c) p i (F p)"
  note r = slabs_repD [OF rep] and f = put_facts [OF slabs_repD(5,6) [OF rep p] i]
  have w: "?w \<in> {fl_pos ?x p (i # F p)..<fl_pos ?x p (i # F p) + onum ?x}" using f(6) by (auto simp: fl_bytes_def)
  note b = f(7)
  have "?w \<notin> obytes ?x q l" if q: "q \<in> A" "l < onum ?x" "l \<notin> set ((F(p := i # F p)) q)" for q l
  proof (cases "q = p")
    case True
    then have "l \<noteq> last (i # F p)" using q(3) last_in_set [of "i # F p"] by (metis fun_upd_same list.distinct(1))
    then show ?thesis using fl_bytes_in(2) [OF r(2) _ f(4) q(2), of p] w True by blast
  next
    case False
    then show ?thesis using bytes_disjoint [OF r(7) [OF p q(1)]] b obytes_in(2) [OF r(2) q(2), of q] by blast
  qed
  then show ?thesis using p b by (auto simp: idle_def)
qed

section \<open>A batch of objects back to their slabs\<close>

text \<open>Some objects of a cache have gone back to their slabs.\<close>

definition given_back :: "nat \<Rightarrow> addr \<Rightarrow> nat set \<Rightarrow> slab \<Rightarrow> (nat \<Rightarrow> nat list) \<Rightarrow> slab \<Rightarrow> (nat \<Rightarrow> nat list) \<Rightarrow> addr set \<Rightarrow> bool" where
  "given_back z c A S F S' G B \<longleftrightarrow> pages_ok z (slmm S') \<and> avail_of z (slmm S') = avail_of z (slmm S) \<and> kcpus S' = kcpus S
     \<and> touched c A (idle (kcaches S c) A G) S S' \<and> (\<forall>q. set (F q) \<subseteq> set (G q)) \<and> (\<forall>q. q \<notin> A \<longrightarrow> G q = F q)
     \<and> taken (offs S) (kcaches S c) A G = taken (offs S) (kcaches S c) A F - B"

lemma given_back_trans:
  assumes "given_back z c A S F T G B" "given_back z c A T G U H D"
  shows "given_back z c A S F U H (B \<union> D)"
proof -
  have e: "kcaches T = kcaches S" "offs T = offs S" using assms(1) touched_caches by (auto simp: given_back_def)
  have "idle (kcaches S c) A G \<subseteq> idle (kcaches S c) A H" using assms(2) by (intro idle_mono) (auto simp: given_back_def)
  then have "touched c A (idle (kcaches S c) A H) S T" using assms(1) touched_mono unfolding given_back_def by blast
  then have "touched c A (idle (kcaches S c) A H) S U" using assms(2) touched_trans e unfolding given_back_def by metis
  moreover have "set (F q) \<subseteq> set (H q)" for q using assms unfolding given_back_def by blast
  ultimately show ?thesis using assms e unfolding given_back_def by (simp add: Diff_Un) blast
qed

lemma free_obj_ok:
  assumes rep: "slabs_rep S c A F (Suc d)" and ok: "pages_ok z (slmm S)" and obj: "obj \<in> taken (offs S) (kcaches S c) A F"
  shows "\<exists>G. slabs_rep (free_obj c obj S) c A G d \<and> given_back z c A S F (free_obj c obj S) G {obj}"
proof -
  let ?x = "kcaches S c"
  note r = slabs_repD [OF rep]
  obtain p i where p: "p \<in> A" and i: "i < onum ?x" "i \<notin> set (F p)" and o: "obj = objat (offs S) ?x p i"
    using obj by (auto simp: taken_def)
  let ?G = "F(p := i # F p)"
  define T where "T = put_back c p i (F p) S"
  define S' where "S' = free_obj c obj S"
  note sp = r(5,6) [OF p] and f = put_facts [OF r(5,6) [OF p] i]
  have S': "S' = upd_knode (kc_node ?x) (returned p (length (i # F p) = onum ?x)) T"
    unfolding S'_def o T_def by (rule free_obj_eq [OF sp i])
  have e: "kcaches S' = kcaches S" "offs S' = offs S" "kcpus S' = kcpus S" "slmm S' = slmm T" by (simp_all add: S' T_def)
  note tT = put_back_touched [OF sp i, folded T_def]
  have "touched c A (idle ?x A ?G) S T" using touched_mono [OF tT] p put_pos_idle [OF rep p i] by simp
  moreover have "touched c A (idle ?x A ?G) T S'" by (simp add: S' T_def touched_def)
  ultimately have t: "touched c A (idle ?x A ?G) S S'" by (rule touched_trans)
  have slabs: "slab_rep S' c q (?G q) \<and> place_ok S' c q" if q: "q \<in> A" for q
  proof (cases "q = p")
    case True
    then show ?thesis using put_back_slab [OF sp i] sp(2) place_ok_same [of T S] by (simp add: S' T_def)
  next
    case False
    have "put_pos ?x p i (F p) \<notin> fl_bytes ?x q (F q)"
      using bytes_disjoint [OF r(7) [OF p q]] False fl_bytes_block [OF r(5,6) [OF q]] f(7) by blast
    then have "slab_rep T c q (F q)" using slab_rep_touched [OF r(5,6) [OF q] tT] False by simp
    then show ?thesis using False r(6) [OF q] place_ok_same [of T S] by (simp add: S' T_def)
  qed
  have node: "node_rep (onum ?x) A ?G d (node_of S' c)"
    using node_returned [OF r(4,1) p f(1)] by (simp add: S' T_def)
  have rep': "slabs_rep S' c A ?G d"
    unfolding slabs_rep_def e using r(1-3,7) slabs node [unfolded e] by auto
  have "unat (page_active S p - 1) \<le> 255" using f(2) geom_bounds(5) [OF r(2)] by simp
  then have pg: "pages_ok z (slmm S')" "avail_of z (slmm S') = avail_of z (slmm S)"
    using pages_ok_active [OF ok, of "page_active S p - 1" p] by (simp_all add: e T_def put_back_def set_ram_def set_active_def)
  have "taken (offs S) ?x A ?G = taken (offs S) ?x A F - {obj}"
  proof -
    have "objat (offs S) ?x p i \<notin> taken (offs S) ?x (A - {p}) F"
      using slabs_inj [OF rep p _ i(1)] by (auto simp: taken_def)
    moreover have "{..<onum ?x} - set (i # F p) = ({..<onum ?x} - set (F p)) - {i}" by auto
    moreover have "inj_on (objat (offs S) ?x p) {..<onum ?x}" using slabs_inj [OF rep p p] by (intro inj_onI) auto
    then have "objat (offs S) ?x p ` (({..<onum ?x} - set (F p)) - {i}) = objat (offs S) ?x p ` ({..<onum ?x} - set (F p)) - {obj}"
      using i unfolding o by (subst inj_on_image_set_diff [of _ "{..<onum ?x}"]) auto
    ultimately show ?thesis unfolding taken_upd [OF p] taken_split [OF p, of _ _ F] o by auto
  qed
  then have "given_back z c A S F S' ?G {obj}" using pg e t p by (auto simp: given_back_def)
  then show ?thesis using rep' unfolding S'_def by blast
qed

lemma free_objs_ok:
  assumes "slabs_rep S c A F (d + length objs)" "pages_ok z (slmm S)" "distinct objs" "set objs \<subseteq> taken (offs S) (kcaches S c) A F"
  shows "\<exists>G. slabs_rep (fold (free_obj c) objs S) c A G d \<and> given_back z c A S F (fold (free_obj c) objs S) G (set objs)"
  using assms
proof (induction objs arbitrary: S F)
  case Nil
  then show ?case by (intro exI [of _ F]) (simp add: given_back_def)
next
  case (Cons obj objs)
  obtain G where G: "slabs_rep (free_obj c obj S) c A G (d + length objs)" "given_back z c A S F (free_obj c obj S) G {obj}"
    using free_obj_ok [of S c A F "d + length objs" z obj] Cons.prems by auto
  have e: "kcaches (free_obj c obj S) = kcaches S" "offs (free_obj c obj S) = offs S"
    using G(2) touched_caches by (auto simp: given_back_def)
  have "set objs \<subseteq> taken (offs S) (kcaches S c) A G" using G(2) Cons.prems(3,4) by (auto simp: given_back_def)
  then obtain H where "slabs_rep (fold (free_obj c) objs (free_obj c obj S)) c A H d"
    "given_back z c A (free_obj c obj S) G (fold (free_obj c) objs (free_obj c obj S)) H (set objs)"
    using Cons.IH [OF G(1)] G(2) Cons.prems(3) e by (auto simp: given_back_def)
  then show ?case using given_back_trans [OF G(2)] by auto
qed

section \<open>Freeing one object\<close>

lemma take_entries: "k \<le> ac_avail a \<Longrightarrow> ac_entries a k = take k (ac_list a)"
  by (simp add: ac_list_def ac_entries_def take_map)

lemma slabs_rep_upd [simp]: "slabs_rep (S\<lparr>kcpus := K\<rparr>) c A F d = slabs_rep S c A F d"
  by (simp add: slabs_rep_def)

lemma slabs_rep_objects:
  assumes "slabs_rep S c A F 0"
  shows "slabs_rep (upd_knode (kc_node (kcaches S c)) (\<lambda>x. x\<lparr>free_objects := free_objects x + of_nat k\<rparr>) S) c A F k"
  using assms by (simp add: slabs_rep_def node_rep_def)

lemma flush_ok:
  assumes rep: "cache_rep S c A F 0" and ok: "pages_ok z (slmm S)" and av: "ac_limit (cpu_of S c) \<le> ac_avail (cpu_of S c)"
  shows "\<exists>S' G. cache_flusharray c (cpu_cache (kcaches S c)) S = Inr S' \<and> cache_step z c S A F (idle (kcaches S c) A G) S' A G
     \<and> users S' c A G = users S c A F \<and> ac_avail (cpu_of S' c) < ac_limit (cpu_of S' c)"
proof -
  let ?x = "kcaches S c" and ?n = "kc_node (kcaches S c)" and ?ac = "cpu_cache (kcaches S c)"
  define bc where "bc = ac_batchcount (cpu_of S c)"
  define objs where "objs = take bc (waiting S c)"
  note r = cache_repD [OF rep]
  have bc: "0 < bc" "bc \<le> ac_avail (cpu_of S c)" "ac_avail (cpu_of S c) = ac_limit (cpu_of S c)" using r(7-9) av by (simp_all add: bc_def)
  have len: "length (waiting S c) = ac_avail (cpu_of S c)" by (simp add: waiting_def ac_list_def ac_entries_def)
  have lo: "length objs = bc" using bc(2) len by (simp add: objs_def)
  define S0 where "S0 = upd_knode ?n (\<lambda>x. x\<lparr>free_objects := free_objects x + of_nat bc\<rparr>) S"
  have S0: "kcaches S0 = kcaches S" "offs S0 = offs S" "slmm S0 = slmm S" "kcpus S0 = kcpus S" "touched c A {} S S0"
    by (simp_all add: S0_def touched_def)
  have "slabs_rep S0 c A F (0 + length objs)" using rep slabs_rep_objects [of S c A F bc] by (simp add: cache_rep_slabs S0_def lo)
  then obtain G where G: "slabs_rep (fold (free_obj c) objs S0) c A G 0" "given_back z c A S0 F (fold (free_obj c) objs S0) G (set objs)"
    using free_objs_ok [of S0 c A F 0 objs z] ok r(5,6) S0 by (auto simp: objs_def dest: in_set_takeD)
  define T where "T = fold (free_obj c) objs S0"
  note g = G(2) [folded T_def, unfolded given_back_def S0(1-4)]
  have eT: "kcaches T = kcaches S" "offs T = offs S" using g touched_caches S0 by auto
  define U where "U = upd_cpu ?ac (\<lambda>a. a\<lparr>ac_avail := ac_avail a - bc,
                  ac_entry := (\<lambda>i. if i < ac_avail a - bc then ac_entry a (i + bc) else ac_entry a i)\<rparr>) T"
  have "ac_entries (cpu_of S c) bc = objs" using take_entries [OF bc(2)] by (simp add: objs_def waiting_def)
  then have fb: "free_block c (ac_entries (cpu_of S c) bc) [] S = (T, [])" by (simp add: free_block_def Let_def lo T_def S0_def)
  have eq: "cache_flusharray c ?ac S = Inr U"
    unfolding cache_flusharray_def Let_def bc_def [symmetric] fb by (simp add: U_def)
  have eU: "kcaches U = kcaches S" "offs U = offs S" "slmm U = slmm T" using eT by (simp_all add: U_def)
  have cpu: "ac_avail (cpu_of U c) = ac_avail (cpu_of S c) - bc" "ac_limit (cpu_of U c) = ac_limit (cpu_of S c)"
    "ac_batchcount (cpu_of U c) = bc" using eU g by (simp_all add: U_def bc_def)
  have w: "waiting U c = drop bc (waiting S c)"
    using eU g by (intro nth_equalityI) (simp_all add: waiting_def ac_list_def ac_entries_def U_def add.commute)
  have du: "set objs \<inter> set (drop bc (waiting S c)) = {}" "set objs \<union> set (drop bc (waiting S c)) = set (waiting S c)"
    unfolding objs_def using r(5) by (simp_all add: set_take_disj_set_drop_if_distinct) (metis append_take_drop_id set_append)
  have repU: "cache_rep U c A G 0"
    unfolding cache_rep_slabs cpu w using G(1) [folded T_def] g du r(5,6) bc eU by (auto simp: U_def)
  have "touched c (A \<union> avail_of z (slmm S)) (idle ?x A G) S S0" "touched c (A \<union> avail_of z (slmm S)) (idle ?x A G) S0 T"
    using touched_mono [OF S0(5)] touched_mono [of c A "idle ?x A G" S0 T] g by auto
  moreover have "touched c (A \<union> avail_of z (slmm S)) (idle ?x A G) T U" using eT by (simp add: U_def touched_def)
  ultimately have tU: "touched c (A \<union> avail_of z (slmm S)) (idle ?x A G) S U" by (meson touched_trans)
  have "cache_step z c S A F (idle ?x A G) U A G" unfolding cache_step_def using repU tU g by (simp add: eU)
  moreover have "taken (offs S) ?x A G = taken (offs S) ?x A F - set objs" using g by (elim conjE)
  then have "users U c A G = users S c A F" unfolding users_def w eU(1,2) using du by auto
  ultimately show ?thesis using eq cpu bc by auto
qed

lemma push_step:
  assumes rep: "cache_rep S c A F 0" "pages_ok z (slmm S)" and av: "ac_avail (cpu_of S c) < ac_limit (cpu_of S c)" and obj: "obj \<in> users S c A F"
  defines "S' \<equiv> ac_push (cpu_cache (kcaches S c)) obj S"
  shows "cache_step z c S A F {} S' A F" "users S' c A F = users S c A F - {obj}"
proof -
  note r = cache_repD [OF rep(1)]
  have e: "kcaches S' = kcaches S" "slmm S' = slmm S" by (simp_all add: S'_def)
  have w: "waiting S' c = waiting S c @ [obj]" by (simp add: waiting_def S'_def ac_push_cpu)
  have cpu: "ac_avail (cpu_of S' c) = Suc (ac_avail (cpu_of S c))" "ac_limit (cpu_of S' c) = ac_limit (cpu_of S c)"
    "ac_batchcount (cpu_of S' c) = ac_batchcount (cpu_of S c)" by (simp_all add: S'_def ac_push_cpu)
  have "slabs_rep S' c A F 0" using rep(1) by (simp add: cache_rep_slabs S'_def ac_push_def)
  moreover have "obj \<in> taken (offs S) (kcaches S c) A F" "obj \<notin> set (waiting S c)" using obj by (auto simp: users_def)
  ultimately have "cache_rep S' c A F 0" unfolding cache_rep_slabs cpu w unfolding e using r(5-9) av by auto
  moreover have "touched c (A \<union> avail_of z (slmm S)) {} S S'" by (simp add: touched_def S'_def)
  ultimately show "cache_step z c S A F {} S' A F" using rep(2) by (simp add: cache_step_def e)
  show "users S' c A F = users S c A F - {obj}" by (auto simp: users_def w e)
qed

lemma cache_free_ok:
  assumes rep: "cache_rep S c A F 0" and ok: "pages_ok z (slmm S)" and obj: "obj \<in> users S c A F"
  shows "\<exists>S' G. cache_free c obj S = Inr S' \<and> cache_step z c S A F (idle (kcaches S c) A G) S' A G \<and> users S' c A G = users S c A F - {obj}"
proof (cases "ac_avail (cpu_of S c) < ac_limit (cpu_of S c)")
  case True
  note p = push_step [OF rep ok True obj]
  have "cache_step z c S A F (idle (kcaches S c) A F) (ac_push (cpu_cache (kcaches S c)) obj S) A F"
    using p(1) touched_mono [of c "A \<union> avail_of z (slmm S)" "{}"] unfolding cache_step_def by blast
  then show ?thesis using p(2) True by (auto simp: cache_free_def Let_def)
next
  case False
  then obtain T G where T: "cache_flusharray c (cpu_cache (kcaches S c)) S = Inr T" "cache_step z c S A F (idle (kcaches S c) A G) T A G"
    "users T c A G = users S c A F" "ac_avail (cpu_of T c) < ac_limit (cpu_of T c)"
    using flush_ok [OF rep ok] by auto
  note s = cache_stepD [OF T(2)]
  have e: "kcaches T = kcaches S" using touched_caches [OF s(3)] by simp
  note p = push_step [OF s(1,2) T(4) obj [folded T(3)], unfolded e]
  have "cache_step z c S A F (idle (kcaches S c) A G) (ac_push (cpu_cache (kcaches S c)) obj T) A G"
    by (rule cache_step_trans [OF T(2) p(1)]) auto
  then show ?thesis using T(1,3) p(2) False by (auto simp: cache_free_def Let_def)
qed

section \<open>Freeing with all caches\<close>

definition free_post :: "nat \<Rightarrow> addr set \<Rightarrow> addr \<Rightarrow> slab \<Rightarrow> (addr \<Rightarrow> nat set) \<Rightarrow> (nat \<Rightarrow> nat list) \<Rightarrow> slab \<Rightarrow> addr \<Rightarrow> bool" where
  "free_post z C c S A F S' obj \<longleftrightarrow> same_config S S' \<and> (\<exists>G. slabs_ok z C S' A G \<and> users S' c (A c) G = users S c (A c) F - {obj}
     \<and> (\<forall>c' \<in> C. c' \<noteq> c \<longrightarrow> users S' c' (A c') G = users S c' (A c') F)
     \<and> (\<forall>c' \<in> C. \<forall>a \<in> users S' c' (A c') G. \<forall>j < osz (kcaches S c'). kram S' (a + of_nat j) = kram S (a + of_nat j)))"

lemma idle_pages: "idle (kcaches S c) (A c) G \<subseteq> page_bytes (slab_pages S A c)"
  by (auto simp: idle_def bytes_page_bytes page_bytes_def slab_pages_def)

lemma cache_free_post:
  assumes ok: "slabs_ok z C S A F" and c: "c \<in> C" and obj: "obj \<in> users S c (A c) F"
  shows "\<exists>S'. cache_free c obj S = Inr S' \<and> free_post z C c S A F S' obj"
proof -
  note d = slabs_okD [OF ok]
  let ?Y = "\<lambda>G. idle (kcaches S c) (A c) G"
  obtain S' G where S': "cache_free c obj S = Inr S'" "cache_step z c S (A c) F (?Y G) S' (A c) G" "users S' c (A c) G = users S c (A c) F - {obj}"
    using cache_free_ok [OF d(3) [OF c] d(1) obj] by blast
  have "?Y G \<subseteq> page_bytes (avail_of z (slmm S) \<union> slab_pages S A c)"
    using idle_pages [of S c A G] page_bytes_mono [of "slab_pages S A c"] by blast
  note s = slabs_step [OF ok c S'(2) this] and t = cache_stepD(3) [OF S'(2)]
  have sok: "slabs_ok z C S' A G" using s(1) by simp
  have e: "kcaches S' = kcaches S" "offs S' = offs S" using touched_caches [OF t] by auto
  have mem: "kram S' (a + of_nat j) = kram S (a + of_nat j)" if a: "c' \<in> C" "a \<in> users S' c' (A c') G" "j < osz (kcaches S c')" for c' a j
  proof -
    obtain p i where p: "p \<in> A c'" "i < onum (kcaches S c')" "i \<notin> set (G p)" "a = objat (offs S) (kcaches S c') p i"
      using usersE [OF a(2)] e by metis
    note o = object_pos [OF d(3) [OF a(1)] p(1,2) a(3)]
    have "opos (kcaches S c') p i + j \<notin> ?Y G"
    proof (cases "c' = c")
      case True
      then show ?thesis using o(1) p(1-3) by (auto simp: idle_def)
    next
      case False
      then show ?thesis using other_far(3) [OF ok c a(1) _ p(1)] idle_pages [of S c A G] page_bytes_mono [of "slab_pages S A c"] o(2) by blast
    qed
    then show ?thesis using t o(3) unfolding p(4) object_byte touched_def by blast
  qed
  have "free_post z C c S A F S' obj"
    unfolding free_post_def using sok S'(3) s(2) mem touched_config [OF t] by blast
  then show ?thesis using S'(1) by blast
qed

lemma kfree_is_cache_free:
  assumes ok: "slabs_ok z C S A F" and c: "c \<in> C" and obj: "obj \<in> users S c (A c) F"
  shows "kfree obj S = cache_free c obj S"
proof -
  note d = slabs_okD [OF ok] and r = cache_repD [OF slabs_okD(3) [OF ok c]]
  obtain p i where p: "p \<in> A c" "i < onum (kcaches S c)" "obj = objat (offs S) (kcaches S c) p i" using obj by (rule usersE)
  have "virt_to_head_page S obj = p" using head_page [OF r(11) [OF p(1)] p(2)] p(3) by simp
  then have "virt_to_cache S obj = Inr c" using slab_repD(1) [OF r(10) [OF p(1)]] by (simp add: virt_to_cache_def slab_core_def)
  moreover have "16 < obj" using object_pos(4) [OF d(3) [OF c] p(1,2), of 0] geom_bounds(4) [OF r(2)] p(3) by simp
  then have "\<not> obj \<le> 16" by (simp only: not_le)
  moreover have "c \<noteq> 0" using d(7) [OF c] by auto
  ultimately show ?thesis by (simp add: kfree_def ZERO_OR_NULL_PTR_def ZERO_SIZE_PTR_def)
qed

lemma kfree_post:
  assumes ok: "slabs_ok z C S A F" and c: "c \<in> C" and obj: "obj \<in> users S c (A c) F"
  shows "\<exists>S'. kfree obj S = Inr S' \<and> free_post z C c S A F S' obj"
  using cache_free_post [OF assms] kfree_is_cache_free [OF assms] by simp

end
