(* ===== verification/SlabProps.thy ===== *)
theory SlabProps
  imports SlabFree Interfaces
begin

text \<open>
  What the slab allocator promises: an allocation hands out an object that nobody holds, a free takes
  exactly this object back, and neither disturbs the contents of any object in use, although the free
  lists are kept in the objects that are free.
\<close>

section \<open>In terms of the objects in use\<close>

lemma users_in_use:
  assumes "slabs_ok z C S A F" "c \<in> C"
  shows "users S c (A c) F = set (in_use S c)"
  using in_use_eq [OF slabs_okD(3) [OF assms]] by simp

definition no_object :: "nat \<Rightarrow> slab \<Rightarrow> addr \<Rightarrow> bool" where
  "no_object z S c \<longleftrightarrow> waiting S c = [] \<and> (\<forall>p \<in> set (slabs_of S c). frees S c p = []) \<and> \<not> has_block z (slmm S) (gfporder (kcaches S c))"

lemma exhausted_no_object:
  assumes "slabs_ok z C S A F" "c \<in> C" "exhausted z c S (A c) F"
  shows "no_object z S c"
proof -
  note rep = slabs_okD(3) [OF assms(1,2)]
  have "frees S c p = []" if "p \<in> A c" for p
    using frees_eq [OF cache_repD(10) [OF rep that] cache_repD(2) [OF rep]] assms(3) that by (simp add: exhausted_def)
  then show ?thesis using assms(3) slabs_of_eq [OF rep] by (simp add: no_object_def exhausted_def)
qed

lemma slab_alloc_cases:
  assumes inv: "slabs_inv z C S" and c: "c \<in> C" and fz: "first_zone z (slmm S) (gfp_exact_node fl)"
  shows "case slab_alloc c fl S of
      Inl f \<Rightarrow> f = Panic \<and> no_object z S c
    | Inr (S', obj) \<Rightarrow> slabs_inv z C S' \<and> same_config S S' \<and> 16 < obj \<and> obj \<notin> set (in_use S c) \<and> set (in_use S' c) = insert obj (set (in_use S c))
        \<and> (\<forall>c' \<in> C. c' \<noteq> c \<longrightarrow> set (in_use S' c') = set (in_use S c'))
        \<and> (\<forall>c' \<in> C. \<forall>a \<in> set (in_use S c'). \<forall>j < osz (kcaches S c'). kram S' (a + of_nat j) = kram S (a + of_nat j))
        \<and> (fl AND GFP_ZERO \<noteq> 0 \<longrightarrow> (\<forall>j < unat (object_size (kcaches S c)). kram S' (obj + of_nat j) = 0))"
proof -
  obtain A F where ok: "slabs_ok z C S A F" using inv by (auto simp: slabs_inv_def)
  note al = slab_alloc_ok [OF ok c fz] and u = users_in_use [OF ok]
  show ?thesis
  proof (cases "slab_alloc c fl S")
    case (Inl f)
    then show ?thesis using al exhausted_no_object [OF ok c] by simp
  next
    case (Inr a)
    then obtain S' obj where S': "slab_alloc c fl S = Inr (S', obj)" by (cases a) auto
    then have post: "alloc_post z C c fl S A F S' obj" using al by simp
    then obtain A' F' where ok': "slabs_ok z C S' A' F'" "users S' c (A' c) F' = insert obj (users S c (A c) F)"
      "\<forall>c' \<in> C. c' \<noteq> c \<longrightarrow> users S' c' (A' c') F' = users S c' (A c') F"
      unfolding alloc_post_def by blast
    have "set (in_use S' c) = insert obj (set (in_use S c))" "\<forall>c' \<in> C. c' \<noteq> c \<longrightarrow> set (in_use S' c') = set (in_use S c')"
      using ok'(2,3) users_in_use [OF ok'(1)] u c by auto
    then show ?thesis using S' post ok'(1) u c unfolding alloc_post_def slabs_inv_def by auto
  qed
qed

lemma kfree_cases:
  assumes inv: "slabs_inv z C S" and c: "c \<in> C" and obj: "obj \<in> set (in_use S c)"
  shows "\<exists>S'. kfree obj S = Inr S' \<and> kmem_cache_free c obj S = Inr S' \<and> slabs_inv z C S' \<and> same_config S S' \<and> set (in_use S' c) = set (in_use S c) - {obj}
     \<and> (\<forall>c' \<in> C. c' \<noteq> c \<longrightarrow> set (in_use S' c') = set (in_use S c'))
     \<and> (\<forall>c' \<in> C. \<forall>a \<in> set (in_use S' c'). \<forall>j < osz (kcaches S c'). kram S' (a + of_nat j) = kram S (a + of_nat j))"
proof -
  obtain A F where ok: "slabs_ok z C S A F" using inv by (auto simp: slabs_inv_def)
  note u = users_in_use [OF ok]
  have o: "obj \<in> users S c (A c) F" using obj u [OF c] by simp
  obtain S' where S': "kfree obj S = Inr S'" "free_post z C c S A F S' obj" using kfree_post [OF ok c o] by blast
  have kf: "kmem_cache_free c obj S = kfree obj S" using kfree_is_cache_free [OF ok c o] slabs_okD(7) [OF ok c] by (auto simp: kmem_cache_free_def)
  obtain G where G: "slabs_ok z C S' A G" "users S' c (A c) G = users S c (A c) F - {obj}"
    "\<forall>c' \<in> C. c' \<noteq> c \<longrightarrow> users S' c' (A c') G = users S c' (A c') F"
    "\<forall>c' \<in> C. \<forall>a \<in> users S' c' (A c') G. \<forall>j < osz (kcaches S c'). kram S' (a + of_nat j) = kram S (a + of_nat j)"
    using S'(2) unfolding free_post_def by blast
  note u' = users_in_use [OF G(1)]
  have "set (in_use S' c) = set (in_use S c) - {obj}" "\<forall>c' \<in> C. c' \<noteq> c \<longrightarrow> set (in_use S' c') = set (in_use S c')"
    using G(2,3) u u' c by auto
  moreover have "\<forall>c' \<in> C. \<forall>a \<in> set (in_use S' c'). \<forall>j < osz (kcaches S c'). kram S' (a + of_nat j) = kram S (a + of_nat j)"
    using G(4) u' by auto
  moreover have "slabs_inv z C S'" "same_config S S'" using G(1) S'(2) by (auto simp: slabs_inv_def free_post_def)
  ultimately show ?thesis using S'(1) kf by auto
qed

text \<open>Where the bytes of the objects in use lie.\<close>

lemma objects_apart:
  assumes "slabs_inv z C S" "c \<in> C" "a \<in> set (in_use S c)" "j < osz (kcaches S c)"
    and "c' \<in> C" "b \<in> set (in_use S c')" "k < osz (kcaches S c')" and "(c, a) \<noteq> (c', b)"
  shows "a + of_nat j \<noteq> b + of_nat k"
proof -
  obtain A F where ok: "slabs_ok z C S A F" using assms(1) by (auto simp: slabs_inv_def)
  show ?thesis using users_apart [OF ok assms(2) _ assms(4,5) _ assms(7,8)] users_in_use [OF ok] assms(2,3,5,6) by simp
qed

lemma object_page:
  assumes "slabs_inv z C S" "c \<in> C" "a \<in> set (in_use S c)" "j < osz (kcaches S c)"
  shows "unat (a + of_nat j - offs S) div 4096 \<notin> avail_of z (slmm S)"
proof -
  obtain A F where ok: "slabs_ok z C S A F" using assms(1) by (auto simp: slabs_inv_def)
  note d = slabs_okD [OF ok]
  have "a \<in> users S c (A c) F" using users_in_use [OF ok assms(2)] assms(3) by simp
  then obtain p i where p: "p \<in> A c" "i < onum (kcaches S c)" "a = objat (offs S) (kcaches S c) p i" by (rule usersE)
  note o = object_pos [OF d(3) [OF assms(2)] p(1,2) assms(4)]
  have "a + of_nat j - offs S = of_nat (opos (kcaches S c) p i + j)" by (simp add: p(3) object_byte kat_def)
  then have "unat (a + of_nat j - offs S) = opos (kcaches S c) p i + j" using o(3) by (simp only: unat_of_nat64)
  moreover have "(opos (kcaches S c) p i + j) div 4096 \<in> blk_of (kcaches S c) p" using o(2) by (auto simp: bytes_def blk_pages)
  ultimately show ?thesis using d(4) [OF assms(2) p(1)] by auto
qed

section \<open>The heap of objects\<close>

definition obj_live :: "addr set \<Rightarrow> slab \<Rightarrow> (addr \<times> addr) set" where
  "obj_live C S = {(c, a). c \<in> C \<and> a \<in> set (in_use S c)}"

definition obj_content :: "slab \<Rightarrow> addr \<times> addr \<Rightarrow> u8 list" where
  "obj_content S x = map (\<lambda>j. kram S (snd x + of_nat j)) [0..<osz (kcaches S (fst x))]"

definition obj_alloc :: "nat \<Rightarrow> addr set \<Rightarrow> slab \<Rightarrow> addr \<times> u32 \<Rightarrow> (slab \<times> addr \<times> addr) option" where
  "obj_alloc z C S r =
     (if fst r \<in> C \<and> first_zone z (slmm S) (gfp_exact_node (snd r))
      then case slab_alloc (fst r) (snd r) S of Inl f \<Rightarrow> None | Inr (S', a) \<Rightarrow> Some (S', (fst r, a))
      else None)"

definition obj_free :: "slab \<Rightarrow> addr \<times> addr \<Rightarrow> slab option" where
  "obj_free S x = (case kfree (snd x) S of Inl f \<Rightarrow> None | Inr S' \<Rightarrow> Some S')"

definition obj_poke :: "slab \<Rightarrow> addr \<times> addr \<Rightarrow> nat \<Rightarrow> u8 \<Rightarrow> slab" where
  "obj_poke S x j v = set_ram ((kram S)(snd x + of_nat j := v)) S"

lemma poke_cases:
  fixes v :: u8
  assumes inv: "slabs_inv z C S" and c: "c \<in> C" and a: "a \<in> set (in_use S c)" and j: "j < osz (kcaches S c)"
  defines "S' \<equiv> obj_poke S (c, a) j v"
  shows "slabs_inv z C S'" "c' \<in> C \<Longrightarrow> set (in_use S' c') = set (in_use S c')"
    "c' \<in> C \<Longrightarrow> b \<in> set (in_use S c') \<Longrightarrow> k < osz (kcaches S c') \<Longrightarrow>
       kram S' (b + of_nat k) = (if (c', b) = (c, a) \<and> k = j then v else kram S (b + of_nat k))"
proof -
  obtain A F where ok: "slabs_ok z C S A F" using inv by (auto simp: slabs_inv_def)
  note d = slabs_okD [OF ok] and u = users_in_use [OF ok]
  have au: "a \<in> users S c (A c) F" using u [OF c] a by simp
  obtain p i where p: "p \<in> A c" "i < onum (kcaches S c)" "i \<notin> set (F p)" "a = objat (offs S) (kcaches S c) p i" using au by (rule usersE)
  note o = object_pos [OF d(3) [OF c] p(1,2) j]
  define r where "r = (kram S)(a + of_nat j := v)"
  have S': "S' = set_ram r S" by (simp add: S'_def obj_poke_def r_def)
  have ro: "r (kat (offs S) y) = kram S (kat (offs S) y)" if "y < 2 ^ 64" "y \<notin> obytes (kcaches S c) p i" for y
    using that o kat_inj [OF that(1) o(3)] by (auto simp: r_def p(4) object_byte)
  have ok': "slabs_ok z C S' A F" unfolding S' by (rule slabs_write [OF ok c p(1-3) ro])
  then show "slabs_inv z C S'" by (auto simp: slabs_inv_def)
  show "set (in_use S' c') = set (in_use S c')" if "c' \<in> C" using users_in_use [OF ok' that] u [OF that] by (simp add: S')
  show "kram S' (b + of_nat k) = (if (c', b) = (c, a) \<and> k = j then v else kram S (b + of_nat k))"
    if b: "c' \<in> C" "b \<in> set (in_use S c')" "k < osz (kcaches S c')"
  proof (cases "(c', b) = (c, a)")
    case True
    note o' = object_pos [OF d(3) [OF c] p(1,2), of k]
    have "a + of_nat k = a + of_nat j \<longleftrightarrow> k = j"
      using o(3) o'(3) b(3) True kat_inj [of "opos (kcaches S c) p i + k" "opos (kcaches S c) p i + j" "offs S"] by (simp add: p(4) object_byte)
    then show ?thesis using True by (simp add: S' r_def)
  next
    case False
    have "b \<in> users S c' (A c') F" using u [OF b(1)] b(2) by simp
    then have "r (b + of_nat k) = kram S (b + of_nat k)"
      using write_apart [OF ok c au [unfolded p(4)] ro b(1) _ b(3)] False p(4) by blast
    then show ?thesis using False by (auto simp: S')
  qed
qed

interpretation slab_heap: object_heap "slabs_inv z C" "obj_live C" obj_content "obj_alloc z C" obj_free obj_poke for z C
proof
  fix S r S' x assume inv: "slabs_inv z C S" and al: "obj_alloc z C S r = Some (S', x)"
  obtain c fl where r: "r = (c, fl)" by fastforce
  from al obtain a where a: "c \<in> C" "first_zone z (slmm S) (gfp_exact_node fl)" "slab_alloc c fl S = Inr (S', a)" "x = (c, a)"
    by (auto simp: r obj_alloc_def split: if_splits sum.splits)
  note ac = slab_alloc_cases [OF inv a(1,2), unfolded a(3), simplified]
  show "slabs_inv z C S' \<and> x \<notin> obj_live C S \<and> obj_live C S' = insert x (obj_live C S) \<and> (\<forall>y \<in> obj_live C S. obj_content S' y = obj_content S y)"
    using ac a(1,4) by (auto simp: obj_live_def obj_content_def same_config_def)
next
  fix S x assume inv: "slabs_inv z C S" and x: "x \<in> obj_live C S"
  obtain c a where ca: "x = (c, a)" "c \<in> C" "a \<in> set (in_use S c)" using x by (auto simp: obj_live_def)
  obtain S' where S': "kfree a S = Inr S'" "slabs_inv z C S'" "same_config S S'" "set (in_use S' c) = set (in_use S c) - {a}"
    "\<forall>c' \<in> C. c' \<noteq> c \<longrightarrow> set (in_use S' c') = set (in_use S c')"
    "\<forall>c' \<in> C. \<forall>b \<in> set (in_use S' c'). \<forall>j < osz (kcaches S c'). kram S' (b + of_nat j) = kram S (b + of_nat j)"
    using kfree_cases [OF inv ca(2,3)] by blast
  have "obj_live C S' = obj_live C S - {x}" using S'(4,5) ca(1) by (auto simp: obj_live_def)
  moreover have "\<forall>y \<in> obj_live C S'. obj_content S' y = obj_content S y"
    using S'(3,6) by (auto simp: obj_live_def obj_content_def same_config_def)
  ultimately show "\<exists>S'. obj_free S x = Some S' \<and> slabs_inv z C S' \<and> obj_live C S' = obj_live C S - {x} \<and> (\<forall>y \<in> obj_live C S'. obj_content S' y = obj_content S y)"
    using S'(1,2) ca(1) by (auto simp: obj_free_def)
next
  fix S x j v assume inv: "slabs_inv z C S" and x: "x \<in> obj_live C S" and j: "j < length (obj_content S x)"
  obtain c a where ca: "x = (c, a)" "c \<in> C" "a \<in> set (in_use S c)" using x by (auto simp: obj_live_def)
  have j': "j < osz (kcaches S c)" using j ca(1) by (simp add: obj_content_def)
  note pc = poke_cases [OF inv ca(2,3) j', where v = v, folded ca(1)]
  have "kcaches (obj_poke S x j v) = kcaches S" by (simp add: obj_poke_def)
  then have "obj_content (obj_poke S x j v) y = (if y = x then (obj_content S x)[j := v] else obj_content S y)" if "y \<in> obj_live C S" for y
    using that pc(3) [of "fst y" "snd y"] ca(1) by (intro nth_equalityI) (auto simp: obj_live_def obj_content_def nth_list_update split: if_splits)
  then show "slabs_inv z C (obj_poke S x j v) \<and> obj_live C (obj_poke S x j v) = obj_live C S
      \<and> (\<forall>y \<in> obj_live C S. obj_content (obj_poke S x j v) y = (if y = x then (obj_content S x)[j := v] else obj_content S y))"
    using pc(1,2) by (auto simp: obj_live_def)
qed

text \<open>Sequences of operations, and what the users of the allocator see.\<close>

primrec slab_op :: "nat \<Rightarrow> addr set \<Rightarrow> (addr \<times> u32, addr \<times> addr, u8) heap_op \<Rightarrow> slab \<Rightarrow> slab option" where
  "slab_op z C (Take r) S = map_option fst (obj_alloc z C S r)"
| "slab_op z C (Drop x) S = (if x \<in> obj_live C S then obj_free S x else None)"
| "slab_op z C (Poke x j v) S = (if x \<in> obj_live C S \<and> j < length (obj_content S x) then Some (obj_poke S x j v) else None)"

primrec slab_ops :: "nat \<Rightarrow> addr set \<Rightarrow> (addr \<times> u32, addr \<times> addr, u8) heap_op list \<Rightarrow> slab \<Rightarrow> slab option" where
  "slab_ops z C [] S = Some S"
| "slab_ops z C (op # ops) S = Option.bind (slab_op z C op S) (slab_ops z C ops)"

definition slab_view :: "addr set \<Rightarrow> slab \<Rightarrow> addr \<times> addr \<rightharpoonup> u8 list" where
  "slab_view C S = (\<lambda>x. if x \<in> obj_live C S then Some (obj_content S x) else None)"

lemma slab_ops_eq: "slab_ops z C ops S = slab_heap.do_ops C z ops S"
proof -
  have "slab_op z C op = slab_heap.do_op C z op" for op by (cases op) (simp_all add: fun_eq_iff)
  then show ?thesis by (induction ops arbitrary: S) (simp_all add: bind_eq_Some_conv cong: Option.bind_cong)
qed

lemma slab_view_eq: "slab_view C = slab_heap.view C"
  by (simp add: fun_eq_iff slab_view_def slab_heap.view_def)

section \<open>A small heap\<close>

text \<open>One cache of objects of 1024 bytes, the free list of a slab inside its objects, and two free pages.\<close>

definition two_pages :: mm where
  "two_pages = free_one_page 0 4 1 (empty_mm typed_page)"

definition small_heap :: slab where
  "small_heap = \<lparr>slmm = two_pages, page_cache = (\<lambda>_. 0), freelist = (\<lambda>_. 0), s_mem = (\<lambda>_. 0),
     kcaches = (\<lambda>_. \<lparr>cpu_cache = 0x2000, kc_limit = 2, kc_size = 1024, kc_flags = 0x40000000, kc_num = 4, gfporder = 0,
       freelist_size = 4, kc_ctor = None, kc_name = 0, object_size = 1024, kc_align = 1024, kc_node = 0x1000\<rparr>),
     knodes = (\<lambda>_. kmem_cache_node_init), kcpus = (\<lambda>_. \<lparr>ac_avail = 0, ac_limit = 2, ac_batchcount = 1, ac_entry = (\<lambda>_. 0)\<rparr>),
     kmem_cache_ptr = 0, kmalloc_caches = (\<lambda>_. 0x3000), size_index = size_index_init, slab_caches = [], slab_state = FULL,
     reserved_chunk_ptr = 0, reserved_chunk_size = 0, kmem_cache_boot = 0, init_kmem_cache_node = (\<lambda>_. 0), kmalloc_name = (\<lambda>_. 0)\<rparr>"

lemma small_heap_simps [simp]:
  "kcaches small_heap c = \<lparr>cpu_cache = 0x2000, kc_limit = 2, kc_size = 1024, kc_flags = 0x40000000, kc_num = 4, gfporder = 0,
     freelist_size = 4, kc_ctor = None, kc_name = 0, object_size = 1024, kc_align = 1024, kc_node = 0x1000\<rparr>"
  "slmm small_heap = two_pages" "knodes small_heap n = kmem_cache_node_init" "kcpus small_heap a = \<lparr>ac_avail = 0, ac_limit = 2, ac_batchcount = 1, ac_entry = (\<lambda>_. 0)\<rparr>"
  by (simp_all add: small_heap_def)

lemma two_pages_simps [simp]: "pcp_lists (boot_pageset two_pages) = []" "pcp_batch (boot_pageset two_pages) = 1" "va_pa_offset two_pages = 0"
  by code_simp+

lemma two_pages_zone_ok: "zone_ok 0 two_pages" and two_pages_avail: "avail_of 0 two_pages = {4, 5}"
proof -
  have "merge_inv 0 (empty_mm typed_page) 4 1"
    using empty_mm_ok [of typed_page 0] by (simp add: merge_inv_def MAX_ORDER_def) (simp add: empty_mm_def)
  note ok = free_one_page_ok [OF this, folded two_pages_def]
  have "free_of 0 (empty_mm typed_page) = {}" using empty_mm_ok [of typed_page 0] by simp
  moreover have "blk (4, 1) = {4, 5}" unfolding blk_pages set_upt [symmetric] by (simp add: upt_rec)
  ultimately show "zone_ok 0 two_pages" "avail_of 0 two_pages = {4, 5}" using ok by (simp_all add: avail_of_def)
qed

lemma two_pages_ok: "pages_ok 0 two_pages"
proof -
  have "mapped two_pages q" if "q \<in> {4, 5}" for q
    using that unat_of_nat64 by (auto simp: mapped_def kat_def word_less_nat_alt simp del: of_nat_add of_nat_mult)
  then show ?thesis using two_pages_zone_ok by (simp add: two_pages_avail pages_ok_def pcp_ok_def)
qed

lemma small_heap_inv: "slabs_inv 0 {0x3000} small_heap"
proof -
  have w: "waiting small_heap 0x3000 = []" by (simp add: waiting_def ac_list_def ac_entries_def)
  have g: "geom_ok (kcaches small_heap 0x3000)" "ctor_ok (kcaches small_heap 0x3000)"
    by (simp_all add: geom_ok_def ctor_ok_def MAX_ORDER_def OBJFREELIST_SLAB_def CFLGS_OBJFREELIST_SLAB_def)
  have "cache_rep small_heap 0x3000 {} (\<lambda>_. []) 0"
    unfolding cache_rep_def w by (simp add: g [simplified] node_rep_def kmem_cache_node_init_def)
  then have "slabs_ok 0 {0x3000} small_heap (\<lambda>_. {}) (\<lambda>_. [])"
    using two_pages_ok by (simp add: slabs_ok_def)
  then show ?thesis unfolding slabs_inv_def by blast
qed

lemma two_pages_zone [simp]: "first_zone 0 two_pages fl"
proof -
  have "zonerefs two_pages = [(Some 0, 0), (None, 0)]" by code_simp
  then show ?thesis by (simp add: first_zone_def next_zones_zonelist_def)
qed

lemma two_pages_block: "has_block 0 two_pages 0"
proof -
  have "avail_of 0 two_pages \<noteq> {}" by (simp add: two_pages_avail)
  then have "zblocks 0 two_pages \<noteq> {}" by (auto simp: avail_of_def free_of_def pages_of_def)
  then show ?thesis by (auto simp: has_block_def)
qed

text \<open>The heap after one allocation, and the object it hands out.\<close>

definition heap_one :: slab where
  "heap_one = fst (projr (slab_alloc 0x3000 GFP_KERNEL small_heap))"

definition obj_one :: addr where
  "obj_one = snd (projr (slab_alloc 0x3000 GFP_KERNEL small_heap))"

lemma alloc_one: "slab_alloc 0x3000 GFP_KERNEL small_heap = Inr (heap_one, obj_one)"
  using slab_alloc_cases [OF small_heap_inv, of "0x3000" GFP_KERNEL] two_pages_block
  by (auto simp: no_object_def heap_one_def obj_one_def split: sum.splits)

lemma heap_one_inv: "slabs_inv 0 {0x3000} heap_one" "set (in_use heap_one 0x3000) = {obj_one}" "kcaches heap_one = kcaches small_heap"
    and heap_one_zone: "first_zone 0 (slmm heap_one) fl"
proof -
  have "in_use small_heap 0x3000 = []" by (simp add: in_use_def slabs_of_def kmem_cache_node_init_def)
  then have "slabs_inv 0 {0x3000} heap_one \<and> set (in_use heap_one 0x3000) = {obj_one} \<and> same_config small_heap heap_one"
    using slab_alloc_cases [OF small_heap_inv, of "0x3000" GFP_KERNEL] by (simp add: alloc_one)
  then show "slabs_inv 0 {0x3000} heap_one" "set (in_use heap_one 0x3000) = {obj_one}" "kcaches heap_one = kcaches small_heap"
    "first_zone 0 (slmm heap_one) fl"
    using two_pages_zone [of fl] by (simp_all add: same_config_def first_zone_def)
qed

definition heap_two :: slab where
  "heap_two = fst (projr (slab_alloc 0x3000 GFP_KERNEL heap_one))"

definition obj_two :: addr where
  "obj_two = snd (projr (slab_alloc 0x3000 GFP_KERNEL heap_one))"

lemma heap_one_more: "\<not> no_object 0 heap_one 0x3000"
proof
  assume no: "no_object 0 heap_one 0x3000"
  let ?o = "objat (offs heap_one) (kcaches heap_one 0x3000)"
  have iu: "in_use heap_one 0x3000 = concat (map (\<lambda>p. map (?o p) [0..<4]) (slabs_of heap_one 0x3000))"
    using no heap_one_inv(3) by (simp add: in_use_def no_object_def cong: map_cong)
  then obtain p where "p \<in> set (slabs_of heap_one 0x3000)" using heap_one_inv(2) by (cases "slabs_of heap_one 0x3000") auto
  then have "?o p ` {0..<4} \<subseteq> {obj_one}" using heap_one_inv(2) unfolding iu by fastforce
  then have "?o p 0 = obj_one" "?o p 1 = obj_one" by (simp_all add: image_subset_iff)
  then have "?o p 0 = ?o p 1" by simp
  then show False using heap_one_inv(3) by (simp add: objat_def kat_def opos_def)
qed

lemma alloc_two: "slab_alloc 0x3000 GFP_KERNEL heap_one = Inr (heap_two, obj_two)"
  using slab_alloc_cases [OF heap_one_inv(1) _ heap_one_zone, of "0x3000" GFP_KERNEL] heap_one_more
  by (auto simp: heap_two_def obj_two_def split: sum.splits)

section \<open>Properties\<close>

text \<open>C3. Allocating an object (\<^verbatim>\<open>slab_alloc\<close>, behind \<^verbatim>\<open>kmem_cache_alloc\<close> and \<^verbatim>\<open>kmalloc\<close>): when every cache of the
  system is well formed, the call panics only if no object of the cache waits in the per-CPU array, no slab of the cache
  has a free object and the page allocator has no block of the order; otherwise it returns an object
  that was not in use, above the addresses that stand for failure, marks exactly this object as in use,
  keeps every cache well formed and changes no byte of any object in use; with \<^verbatim>\<open>__GFP_ZERO\<close> the object
  is zeroed.\<close>

theorem slab_alloc_correct:
  assumes "slabs_inv z C S" "c \<in> C" "first_zone z (slmm S) (gfp_exact_node fl)"
  shows "case slab_alloc c fl S of
      Inl f \<Rightarrow> f = Panic \<and> no_object z S c
    | Inr (S', obj) \<Rightarrow> slabs_inv z C S' \<and> same_config S S' \<and> 16 < obj \<and> obj \<notin> set (in_use S c) \<and> set (in_use S' c) = insert obj (set (in_use S c))
        \<and> (\<forall>c' \<in> C. c' \<noteq> c \<longrightarrow> set (in_use S' c') = set (in_use S c'))
        \<and> (\<forall>c' \<in> C. \<forall>a \<in> set (in_use S c'). \<forall>j < osz (kcaches S c'). kram S' (a + of_nat j) = kram S (a + of_nat j))
        \<and> (fl AND GFP_ZERO \<noteq> 0 \<longrightarrow> (\<forall>j < unat (object_size (kcaches S c)). kram S' (obj + of_nat j) = 0))"
  by (rule slab_alloc_cases [OF assms])

theorem slab_alloc_correct_witness:
  "case slab_alloc 0x3000 0x100 small_heap of Inl f \<Rightarrow> False
   | Inr (S', obj) \<Rightarrow> slabs_inv 0 {0x3000} S' \<and> set (in_use S' 0x3000) = {obj} \<and> (\<forall>j < 1024. kram S' (obj + of_nat j) = 0)"
proof -
  have "in_use small_heap 0x3000 = []" by (simp add: in_use_def slabs_of_def kmem_cache_node_init_def)
  then show ?thesis
    using slab_alloc_correct [OF small_heap_inv, of "0x3000" "0x100"] two_pages_block
    by (auto simp: no_object_def GFP_ZERO_def split: sum.splits)
qed

text \<open>C4. Freeing an object (\<^verbatim>\<open>kfree\<close>, \<^verbatim>\<open>kmem_cache_free\<close>): an object in use of any cache is found by its page, both
  calls succeed with the same state, exactly this object is no longer in use, every cache stays well
  formed and no byte of another object in use changes, although the free list of the slab may be kept
  inside the objects that are free.\<close>

theorem kfree_correct:
  assumes "slabs_inv z C S" "c \<in> C" "obj \<in> set (in_use S c)"
  shows "\<exists>S'. kfree obj S = Inr S' \<and> kmem_cache_free c obj S = Inr S' \<and> slabs_inv z C S' \<and> same_config S S' \<and> set (in_use S' c) = set (in_use S c) - {obj}
     \<and> (\<forall>c' \<in> C. c' \<noteq> c \<longrightarrow> set (in_use S' c') = set (in_use S c'))
     \<and> (\<forall>c' \<in> C. \<forall>a \<in> set (in_use S' c'). \<forall>j < osz (kcaches S c'). kram S' (a + of_nat j) = kram S (a + of_nat j))"
  by (rule kfree_cases [OF assms])

theorem kfree_correct_witness:
  "\<exists>S'. kfree obj_one heap_one = Inr S' \<and> slabs_inv 0 {0x3000} S' \<and> in_use S' 0x3000 = []"
proof -
  obtain S' where "kfree obj_one heap_one = Inr S'" "slabs_inv 0 {0x3000} S'" "set (in_use S' 0x3000) = {}"
    using kfree_correct [OF heap_one_inv(1), of "0x3000" obj_one] heap_one_inv(2) by auto
  then show ?thesis by simp
qed

text \<open>C15. An allocation hands out memory of its own: no byte of the object that \<^verbatim>\<open>slab_alloc\<close> returns is a byte
  of an object in use, of the same or of another cache, and none lies in a page that the page allocator
  still has to give.\<close>

theorem slab_alloc_no_overlap:
  assumes "slabs_inv z C S" "c \<in> C" "first_zone z (slmm S) (gfp_exact_node fl)"
    and "slab_alloc c fl S = Inr (S', obj)" "j < osz (kcaches S c)"
  shows "(\<forall>c' \<in> C. \<forall>b \<in> set (in_use S c'). \<forall>k < osz (kcaches S c'). obj + of_nat j \<noteq> b + of_nat k)
     \<and> unat (obj + of_nat j - offs S') div 4096 \<notin> avail_of z (slmm S')"
proof -
  have al: "slabs_inv z C S'" "kcaches S' = kcaches S" "obj \<notin> set (in_use S c)" "set (in_use S' c) = insert obj (set (in_use S c))"
    "\<forall>c' \<in> C. c' \<noteq> c \<longrightarrow> set (in_use S' c') = set (in_use S c')"
    using slab_alloc_cases [OF assms(1-3)] by (simp_all add: assms(4) same_config_def)
  have apart: "obj + of_nat j \<noteq> b + of_nat k" if "c' \<in> C" "b \<in> set (in_use S c')" "k < osz (kcaches S c')" for c' b k
    using objects_apart [OF al(1) assms(2), of obj j c' b k] that al assms(5) by (cases "c' = c") auto
  moreover have "unat (obj + of_nat j - offs S') div 4096 \<notin> avail_of z (slmm S')"
    using object_page [OF al(1) assms(2), of obj j] al(2,4) assms(5) by simp
  ultimately show ?thesis by blast
qed

theorem slab_alloc_no_overlap_witness:
  "obj_two + of_nat 3 \<noteq> obj_one + of_nat 1023 \<and> unat (obj_two + of_nat 3 - offs heap_two) div 4096 \<notin> avail_of 0 (slmm heap_two)"
proof -
  have w: "(\<forall>k < 1024. obj_two + of_nat 3 \<noteq> obj_one + of_nat k) \<and> unat (obj_two + of_nat 3 - offs heap_two) div 4096 \<notin> avail_of 0 (slmm heap_two)"
    using slab_alloc_no_overlap [OF heap_one_inv(1) _ heap_one_zone alloc_two, of 3] heap_one_inv(2,3) by simp
  have "(1023 :: nat) < 1024" by simp
  then show ?thesis using w by blast
qed

text \<open>C2. Running any sequence of allocations, frees of objects in use and writes of bytes into objects in
  use on the slab allocator is a run of the abstract heap, a map from the objects in use to their
  contents: an allocation adds an object that was not there, a free removes exactly its object, a
  write changes exactly one byte of its object; nothing else ever changes.\<close>

theorem slab_heap_refines:
  assumes "slabs_inv z C S" "slab_ops z C ops S = Some S'"
  shows "slabs_inv z C S' \<and> heap_specs (slab_view C S) ops (slab_view C S')"
  using slab_heap.do_ops_refines [OF assms(1), of ops S'] assms(2) by (simp add: slab_ops_eq slab_view_eq)

theorem slab_heap_refines_witness:
  "case slab_ops 0 {0x3000} [Take (0x3000, GFP_KERNEL), Poke (0x3000, obj_one) 5 7] small_heap of
     None \<Rightarrow> False
   | Some S' \<Rightarrow> slabs_inv 0 {0x3000} S'
       \<and> heap_specs (slab_view {0x3000} small_heap) [Take (0x3000 :: addr, GFP_KERNEL), Poke (0x3000, obj_one) 5 7] (slab_view {0x3000} S')"
proof -
  have run: "slab_ops 0 {0x3000} [Take (0x3000, GFP_KERNEL), Poke (0x3000, obj_one) 5 7] small_heap = Some (obj_poke heap_one (0x3000, obj_one) 5 7)"
    using heap_one_inv(2,3) by (simp add: obj_alloc_def alloc_one obj_live_def obj_content_def)
  show ?thesis using slab_heap_refines [OF small_heap_inv run] unfolding run by simp
qed

end
