(* ===== verification/SlabSizes.thy ===== *)
theory SlabSizes
  imports SlabSystem
begin

text \<open>
  The geometry that \<^verbatim>\<open>__kmem_cache_create\<close> of \<^verbatim>\<open>src/slab/slab.c\<close> computes for a cache: the rounded size of an object, the order of
  a slab, the number of objects and the place of the free list. It is the one that the invariant of theory
  \<open>SlabInv\<close> asks of every cache.
\<close>

section \<open>The order of a slab\<close>

text \<open>The bytes a slab needs for each object.\<close>

definition room :: "u32 \<Rightarrow> u32 \<Rightarrow> nat" where
  "room sz fl = unat sz + (if fl AND CFLGS_OBJFREELIST_SLAB \<noteq> 0 then 0 else 1)"

lemma slab_bytes: "ord \<le> 10 \<Longrightarrow> unat (push_bit ord 4096 :: u64) = 4096 * 2 ^ ord"
proof -
  assume o: "ord \<le> 10"
  have "(2 :: nat) ^ ord \<le> 2 ^ 10" by (rule power_increasing) (use o in simp_all)
  then have "unat (of_nat (4096 * 2 ^ ord) :: u64) = 4096 * 2 ^ ord" by (intro unat_of_nat64) simp
  then show ?thesis by (simp add: push_bit_eq_mult)
qed

lemma cache_estimate_num:
  assumes o: "ord \<le> 10" and s: "0 < sz"
  shows "unat (fst (cache_estimate ord (ucast sz) fl)) = 4096 * 2 ^ ord div room sz fl"
proof -
  have u: "unat (ucast sz :: u64) = unat sz" using unat_u32_less [of sz] by (simp add: unsigned_ucast_eq take_bit_nat_eq_self)
  have u1: "unat (ucast sz + 1 :: u64) = unat sz + 1"
    using unat_add_no_wrap [of "ucast sz" 1] unat_u32_less [of sz] u by simp
  have "(2 :: nat) ^ ord \<le> 2 ^ 10" by (rule power_increasing) (use o in simp_all)
  then have small: "4096 * 2 ^ ord div d < 2 ^ 32" for d :: nat by (rule_tac le_less_trans [OF div_le_dividend]) simp
  have cut: "unat (ucast (w :: u64) :: u32) = unat w" if "unat w < 2 ^ 32" for w
    using that by (simp add: unsigned_ucast_eq take_bit_nat_eq_self)
  show ?thesis
    using small slab_bytes [OF o] by (auto simp: cache_estimate_def Let_def room_def cut unat_div u u1)
qed

lemma slab_order_loop_some:
  assumes "slab_order_loop k ord (ucast sz) fl = Some (num, o1, left)" "ord + k \<le> 11" "0 < sz"
  shows "ord \<le> o1 \<and> o1 < ord + k \<and> 0 < unat num \<and> unat num \<le> 255 \<and> unat num = 4096 * 2 ^ o1 div room sz fl
    \<and> (ord < o1 \<longrightarrow> 4096 * 2 ^ (o1 - 1) div room sz fl = 0)"
  using assms
proof (induction k arbitrary: ord)
  case (Suc k)
  note e = cache_estimate_num [of ord sz fl]
  obtain n r where ce: "cache_estimate ord (ucast sz) fl = (n, r)" by fastforce
  show ?case
  proof (cases "n = 0")
    case True
    then have ih: "ord + 1 \<le> o1 \<and> o1 < ord + 1 + k \<and> 0 < unat num \<and> unat num \<le> 255 \<and> unat num = 4096 * 2 ^ o1 div room sz fl
        \<and> (ord + 1 < o1 \<longrightarrow> 4096 * 2 ^ (o1 - 1) div room sz fl = 0)"
      using Suc.IH [of "ord + 1"] Suc.prems ce by simp
    moreover have "4096 * 2 ^ ord div room sz fl = 0" using e ce True Suc.prems by simp
    ultimately show ?thesis by (cases "o1 = ord + 1") auto
  next
    case False
    then show ?thesis using Suc.prems e ce by (auto simp: SLAB_OBJ_MAX_NUM_def word_less_nat_alt unat_gt_0 split: if_splits)
  qed
qed simp

lemma slab_order_loop_none:
  assumes "slab_order_loop k ord (ucast sz) fl = None" "ord + k \<le> 11" "0 < sz" "0 < k" "4096 * 2 ^ ord div room sz fl \<le> 255"
  shows "4096 * 2 ^ (ord + k - 1) < room sz fl"
  using assms
proof (induction k arbitrary: ord)
  case (Suc k)
  note e = cache_estimate_num [of ord sz fl]
  obtain n r where ce: "cache_estimate ord (ucast sz) fl = (n, r)" by fastforce
  have r0: "0 < room sz fl" using Suc.prems(3) by (simp add: room_def word_less_nat_alt)
  have n0: "n = 0" using Suc.prems e ce by (auto simp: SLAB_OBJ_MAX_NUM_def word_less_nat_alt split: if_splits)
  then have lt: "4096 * 2 ^ ord < room sz fl" using e ce Suc.prems r0 by (auto simp: div_eq_0_iff)
  then have "4096 * 2 ^ (ord + 1) div room sz fl < 2" using r0 by (simp add: div_less_iff_less_mult)
  then show ?case using Suc.IH [of "ord + 1"] Suc.prems n0 ce lt by (cases "k = 0") auto
qed simp

lemma order_some:
  assumes "slab_order_loop (KMALLOC_MAX_ORDER + 1) 0 (ucast sz) fl = Some (num, o1, left)" "0 < sz"
  shows "o1 < MAX_ORDER" "0 < unat num" "unat num \<le> 255" "unat num * room sz fl \<le> 4096 * 2 ^ o1" "0 < o1 \<Longrightarrow> unat num = 1"
proof -
  note s = slab_order_loop_some [OF assms(1) _ assms(2), simplified KMALLOC_MAX_ORDER_def KMALLOC_SHIFT_HIGH_def MAX_ORDER_def, simplified]
  then show "o1 < MAX_ORDER" "0 < unat num" "unat num \<le> 255" "unat num * room sz fl \<le> 4096 * 2 ^ o1"
    by (auto simp: MAX_ORDER_def)
  assume o: "0 < o1"
  then have "4096 * 2 ^ (o1 - 1) < room sz fl" using s assms(2) by (auto simp: div_eq_0_iff room_def word_less_nat_alt)
  then have "4096 * 2 ^ o1 < 2 * room sz fl" using o by (cases o1) auto
  then have "4096 * 2 ^ o1 div room sz fl < 2" by (simp add: div_less_iff_less_mult)
  then show "unat num = 1" using s by linarith
qed

section \<open>The size of an object\<close>

lemma ALIGN32_nat:
  assumes "k \<le> 30" "unat y \<le> 2 ^ 30 + 2 ^ 30"
  shows "unat y \<le> unat (ALIGN32 y (2 ^ k))" "unat (ALIGN32 y (2 ^ k)) < unat y + 2 ^ k" "2 ^ k dvd unat (ALIGN32 y (2 ^ k))"
proof -
  have p: "(2 :: nat) ^ k \<le> 2 ^ 30" "0 < (2 :: nat) ^ k" using assms(1) by (rule power_increasing) simp_all
  have e: "unat (ALIGN32 y (2 ^ k)) = (unat y + 2 ^ k - 1) div 2 ^ k * 2 ^ k"
    unfolding ALIGN32_def by (rule align_up_nat) (use assms p in simp_all)
  then show "2 ^ k dvd unat (ALIGN32 y (2 ^ k))" by simp
  have "(unat y + 2 ^ k - 1) mod 2 ^ k < 2 ^ k" "(unat y + 2 ^ k - 1) div 2 ^ k * 2 ^ k + (unat y + 2 ^ k - 1) mod 2 ^ k = unat y + 2 ^ k - 1"
    using p(2) by (simp_all add: div_mult_mod_eq)
  then show "unat y \<le> unat (ALIGN32 y (2 ^ k))" "unat (ALIGN32 y (2 ^ k)) < unat y + 2 ^ k" using e p(2) by linarith+
qed

text \<open>Rounding up to a multiple of eight before rounding up to a multiple of \<open>P\<close> gives the same bound.\<close>

lemma round_twice:
  fixes y y8 ya P :: nat
  assumes "y \<le> y8" "y8 < y + 8" "8 dvd y8" "y8 \<le> ya" "ya < y8 + P" "8 dvd P" "8 dvd ya"
  shows "ya < y + P"
proof -
  obtain a b c where "y8 = 8 * a" "ya = 8 * b" "P = 8 * c" using assms(3,6,7) by (auto elim!: dvdE)
  moreover from this have "b + 1 \<le> a + c" using assms(5) by simp
  ultimately show ?thesis using assms(2) by linarith
qed

text \<open>The size of an object after rounding.\<close>

definition rounded :: "u32 \<Rightarrow> u32 \<Rightarrow> u32" where
  "rounded y a = (let sz = ALIGN32 (ALIGN32 y 8) a in if sz < SLAB_OBJ_MIN_SIZE then ALIGN32 SLAB_OBJ_MIN_SIZE a else sz)"

lemma rounded_nat:
  assumes k: "3 \<le> k" "k \<le> 30" and y: "0 < y" "unat y \<le> 2 ^ 30"
  shows "unat y \<le> unat (rounded y (2 ^ k))" "2 ^ k dvd unat (rounded y (2 ^ k))" "16 \<le> unat (rounded y (2 ^ k))"
    "unat (rounded y (2 ^ k)) < unat y + 2 ^ k \<or> unat (rounded y (2 ^ k)) = 16"
proof -
  define y8 where "y8 = ALIGN32 y (2 ^ 3)"
  define ya where "ya = ALIGN32 y8 (2 ^ k)"
  note a8 = ALIGN32_nat [of 3 y, folded y8_def] and ak = ALIGN32_nat [of k y8, folded ya_def] and am = ALIGN32_nat [of k 16]
  have r: "rounded y (2 ^ k) = (if ya < 16 then ALIGN32 16 (2 ^ k) else ya)"
    by (simp add: rounded_def Let_def ya_def y8_def SLAB_OBJ_MIN_SIZE_def)
  have y8: "unat y \<le> unat y8" "unat y8 < unat y + 8" "8 dvd unat y8" using a8 y by simp_all
  have a: "unat y8 \<le> unat ya" "unat ya < unat y8 + 2 ^ k" "2 ^ k dvd unat ya" using ak k y y8 by simp_all
  have m: "16 \<le> unat (ALIGN32 16 (2 ^ k))" "2 ^ k dvd unat (ALIGN32 16 (2 ^ k))" "unat (ALIGN32 16 (2 ^ k)) < 16 + 2 ^ k" using am k by simp_all
  have small: "k = 3" if "ya < 16"
  proof (rule ccontr)
    assume "k \<noteq> 3"
    then have "(2 :: nat) ^ 4 \<le> 2 ^ k" using k by (intro power_increasing) simp_all
    moreover have "0 < unat ya" using a(1) y8(1) y(1) by (simp add: word_less_nat_alt)
    ultimately have "16 \<le> unat ya" using dvd_imp_le [OF a(3)] by simp
    then show False using that by (simp add: word_less_nat_alt)
  qed
  show "unat y \<le> unat (rounded y (2 ^ k))" using a(1) y8(1) m(1) by (auto simp: r word_less_nat_alt)
  show "2 ^ k dvd unat (rounded y (2 ^ k))" using a(3) m(2) by (simp add: r)
  show "16 \<le> unat (rounded y (2 ^ k))" using m(1) by (auto simp: r word_less_nat_alt)
  show "unat (rounded y (2 ^ k)) < unat y + 2 ^ k \<or> unat (rounded y (2 ^ k)) = 16"
  proof (cases "ya < 16")
    case True
    then have "unat (ALIGN32 16 (2 ^ k)) = 16" using m small by simp presburger
    then show ?thesis using True by (simp add: r)
  next
    case False
    have "(8 :: nat) dvd 2 ^ k" using k(1) le_imp_power_dvd [of 3 k "2 :: nat"] by simp
    then have "unat ya < unat y + 2 ^ k" using round_twice [OF y8 a(1,2)] a(3) dvd_trans by blast
    then show ?thesis using False by (simp add: r)
  qed
qed

section \<open>The geometry of a cache\<close>

lemma objfreelist_cases:
  assumes "set_objfreelist_slab_cache sz fl x = (x', ok)"
  shows "\<exists>num o1. x' = x\<lparr>kc_num := num, gfporder := o1\<rparr> \<and> (ok \<longrightarrow> kc_ctor x = None \<and> ucast num \<le> (scast (object_size x) :: u64)
    \<and> (\<exists>left. slab_order_loop (KMALLOC_MAX_ORDER + 1) 0 sz (fl OR CFLGS_OBJFREELIST_SLAB) = Some (num, o1, left)))"
proof (cases "slab_order_loop (KMALLOC_MAX_ORDER + 1) 0 sz (fl OR CFLGS_OBJFREELIST_SLAB)")
  case None
  then have "x' = x\<lparr>kc_num := 0\<rparr> \<and> \<not> ok"
    using assms unfolding set_objfreelist_slab_cache_def calculate_slab_order_def None by (simp add: Let_def split: if_splits)
  then show ?thesis by (intro exI [of _ 0] exI [of _ "gfporder x"]) simp
next
  case (Some r)
  obtain num o1 left where r: "r = (num, o1, left)" by (cases r)
  note l = Some [unfolded r]
  show ?thesis
  proof (cases "kc_ctor x = None")
    case True
    then have "x' = x\<lparr>kc_num := num, gfporder := o1\<rparr> \<and> (ok \<longrightarrow> ucast num \<le> (scast (object_size x) :: u64))"
      using assms unfolding set_objfreelist_slab_cache_def calculate_slab_order_def l by (auto simp: Let_def split: if_splits)
    then show ?thesis using True l by blast
  next
    case False
    then have "x' = x\<lparr>kc_num := 0\<rparr> \<and> \<not> ok" using assms by (simp add: set_objfreelist_slab_cache_def)
    then show ?thesis by (intro exI [of _ 0] exI [of _ "gfporder x"]) simp
  qed
qed

lemma on_slab_cases:
  assumes "set_on_slab_cache sz fl x = (x', ok)"
  shows "slab_order_loop (KMALLOC_MAX_ORDER + 1) 0 sz fl = None \<and> \<not> ok
    \<or> (\<exists>num o1 left. x' = x\<lparr>kc_num := num, gfporder := o1\<rparr> \<and> slab_order_loop (KMALLOC_MAX_ORDER + 1) 0 sz fl = Some (num, o1, left) \<and> (ok \<longleftrightarrow> num \<noteq> 0))"
proof (cases "slab_order_loop (KMALLOC_MAX_ORDER + 1) 0 sz fl")
  case None
  then show ?thesis using assms unfolding set_on_slab_cache_def calculate_slab_order_def None by simp
next
  case (Some r)
  obtain num o1 left where r: "r = (num, o1, left)" by (cases r)
  show ?thesis using assms Some unfolding set_on_slab_cache_def calculate_slab_order_def Some r by auto
qed

lemma flag_set: "(fl OR c) AND c = (c :: u32)"
  by (rule bit_word_eqI) (auto simp: bit_simps)

text \<open>The geometry of a cache whose free list is in a free object, and of one whose free list is at the end of the slab.\<close>

lemma geom_objfreelist:
  assumes "slab_order_loop (KMALLOC_MAX_ORDER + 1) 0 (ucast sz) (fl OR CFLGS_OBJFREELIST_SLAB) = Some (num, o1, left)" "0 < sz"
    and "kc_ctor x = None" "ucast num \<le> (scast (object_size x) :: u64)" "unat (object_size x) \<le> unat sz" "unat (object_size x) < 2 ^ 31"
  shows "geom_ok (x\<lparr>kc_num := num, gfporder := o1, freelist_size := num, kc_flags := fl OR CFLGS_OBJFREELIST_SLAB, kc_size := sz\<rparr>)"
proof -
  note s = order_some [OF assms(1,2)]
  have "room sz (fl OR CFLGS_OBJFREELIST_SLAB) = unat sz"
    unfolding room_def flag_set by (simp add: CFLGS_OBJFREELIST_SLAB_def)
  moreover have "(scast (object_size x) :: u64) = of_nat (unat (object_size x))"
    using assms(6) by (intro scast_small) simp
  then have "unat num \<le> unat (object_size x)"
    using assms(4,6) unat_u32_less [of num] by (simp add: word_le_nat_alt unsigned_ucast_eq take_bit_nat_eq_self)
  ultimately show ?thesis using s assms(2,3,5)
    by (simp add: geom_ok_def OBJFREELIST_SLAB_def flag_set word_less_nat_alt) (simp add: CFLGS_OBJFREELIST_SLAB_def)
qed

lemma geom_on_slab:
  assumes "slab_order_loop (KMALLOC_MAX_ORDER + 1) 0 (ucast sz) fl = Some (num, o1, left)" "0 < sz"
    and "fl AND CFLGS_OBJFREELIST_SLAB = 0" "unat (object_size x) \<le> unat sz"
  shows "geom_ok (x\<lparr>kc_num := num, gfporder := o1, freelist_size := num, kc_flags := fl, kc_size := sz\<rparr>)"
proof -
  have "room sz fl = unat sz + 1" using assms(3) by (simp add: room_def)
  then show ?thesis using order_some [OF assms(1,2)] assms(2-4)
    by (simp add: geom_ok_def OBJFREELIST_SLAB_def word_less_nat_alt)
qed

lemma cache_geometry_rounded:
  assumes "kc_align x = 2 ^ k" "3 \<le> k" "k \<le> 30"
  shows "cache_geometry fl x =
    (let sz = rounded (kc_size x) (2 ^ k); (x, ok) = set_objfreelist_slab_cache (ucast sz) fl x
     in if ok then Inr (x\<lparr>freelist_size := kc_num x, kc_flags := fl OR CFLGS_OBJFREELIST_SLAB, kc_size := sz\<rparr>)
        else let (x, ok) = set_on_slab_cache (ucast sz) fl x
             in if ok then Inr (x\<lparr>freelist_size := kc_num x, kc_flags := fl, kc_size := sz\<rparr>) else Inl Panic)"
proof -
  have "(2 :: nat) ^ k < 2 ^ 32" using assms(3) by (intro power_strict_increasing) simp_all
  then have "unat (of_nat (2 ^ k) :: u32) = 2 ^ k" by (simp only: unat_of_nat) (simp add: take_bit_nat_eq_self)
  then have "unat (2 ^ k :: u32) = 2 ^ k" by simp
  moreover have "(2 :: nat) ^ 3 \<le> 2 ^ k" using assms(2) by (intro power_increasing) simp_all
  ultimately have "8 \<le> (2 ^ k :: u32)" by (simp add: word_le_nat_alt)
  then have "(if 8 < (2 ^ k :: u32) then 2 ^ k else 8) = (2 ^ k :: u32)" by auto
  moreover have "x\<lparr>kc_align := 2 ^ k\<rparr> = x" using assms(1) by simp
  ultimately show ?thesis unfolding cache_geometry_def assms(1) Let_def rounded_def by (simp only: select_convs update_convs assms(1))
qed

text \<open>C25. The geometry that \<^verbatim>\<open>__kmem_cache_create\<close> computes is sound. For every object size up to \<open>2 ^ 30\<close> and every alignment
  that is a power of two from 8 on, it either gives a cache in which the objects of a slab and the free list, in
  the last free object or behind the objects, lie inside the pages of the slab, with at most 255 objects that fit
  the bytes of the free list, at least as large as asked, a multiple of the alignment apart and less than one
  alignment larger than asked; or it panics, and then the object with its rounding takes more than 4 MB.\<close>

theorem cache_geometry_sound:
  assumes "kc_align x = 2 ^ k" "3 \<le> k" "k \<le> 30" "kc_size x = object_size x" "0 < object_size x" "unat (object_size x) \<le> 2 ^ 30"
    and "fl AND CFLGS_OBJFREELIST_SLAB = 0"
  shows "case cache_geometry fl x of
      Inl f \<Rightarrow> f = Panic \<and> 2 ^ 22 < unat (object_size x) + 2 ^ k
    | Inr y \<Rightarrow> geom_ok y \<and> 2 ^ k dvd unat (kc_size y) \<and> unat (kc_size y) < max 17 (unat (object_size x) + 2 ^ k)
        \<and> object_size y = object_size x \<and> kc_align y = kc_align x"
proof -
  define sz where "sz = rounded (object_size x) (2 ^ k)"
  note r = rounded_nat [OF assms(2,3,5,6), folded sz_def]
  have s0: "0 < sz" using r(3) by (simp add: word_less_nat_alt)
  obtain x1 ok1 where o: "set_objfreelist_slab_cache (ucast sz) fl x = (x1, ok1)" by fastforce
  obtain x2 ok2 where p: "set_on_slab_cache (ucast sz) fl x1 = (x2, ok2)" by fastforce
  note e = cache_geometry_rounded [OF assms(1-3), of fl, unfolded Let_def assms(4), folded sz_def]
  obtain num o1 where x1: "x1 = x\<lparr>kc_num := num, gfporder := o1\<rparr>" "ok1 \<longrightarrow> kc_ctor x = None \<and> ucast num \<le> (scast (object_size x) :: u64)
    \<and> (\<exists>left. slab_order_loop (KMALLOC_MAX_ORDER + 1) 0 (ucast sz) (fl OR CFLGS_OBJFREELIST_SLAB) = Some (num, o1, left))"
    using objfreelist_cases [OF o] by blast
  have big: "unat sz < max 17 (unat (object_size x) + 2 ^ k)" using r(4) by auto
  show ?thesis
  proof (cases ok1)
    case True
    then have "geom_ok (x1\<lparr>freelist_size := kc_num x1, kc_flags := fl OR CFLGS_OBJFREELIST_SLAB, kc_size := sz\<rparr>)"
      using geom_objfreelist [OF _ s0] x1 r(1) assms(6) by auto
    then show ?thesis using True big r(2) by (simp add: e o x1(1))
  next
    case False
    from on_slab_cases [OF p] show ?thesis
    proof (elim disjE exE conjE)
      assume n: "slab_order_loop (KMALLOC_MAX_ORDER + 1) 0 (ucast sz) fl = None" "\<not> ok2"
      have "room sz fl = unat sz + 1" using assms(7) by (simp add: room_def)
      then have "2 ^ 22 < unat sz + 1"
        using slab_order_loop_none [OF n(1) _ s0] r(3) div_le_mono2 [of 17 "unat sz + 1" 4096]
        by (simp add: KMALLOC_MAX_ORDER_def KMALLOC_SHIFT_HIGH_def MAX_ORDER_def)
      then show ?thesis using False n(2) r(4) by (auto simp: e o p)
    next
      fix num2 o2 left
      assume n: "x2 = x1\<lparr>kc_num := num2, gfporder := o2\<rparr>" "slab_order_loop (KMALLOC_MAX_ORDER + 1) 0 (ucast sz) fl = Some (num2, o2, left)" "ok2 \<longleftrightarrow> num2 \<noteq> 0"
      have "geom_ok (x2\<lparr>freelist_size := kc_num x2, kc_flags := fl, kc_size := sz\<rparr>)"
        using geom_on_slab [OF n(2) s0 assms(7), of x1] r(1) x1(1) by (simp add: n(1))
      moreover have ok2 using order_some(2) [OF n(2) s0] n(3) by auto
      ultimately show ?thesis using False big r(2) by (simp add: e o p [unfolded x1(1) n(1)] x1(1) n(1))
    qed
  qed
qed

text \<open>The 96-byte objects of a \<^verbatim>\<open>kmalloc\<close> cache.\<close>

definition example_cache :: kmem_cache where
  "example_cache = \<lparr>cpu_cache = 0, kc_limit = 0, kc_size = 96, kc_flags = 0, kc_num = 0, gfporder = 0, freelist_size = 0, kc_ctor = None,
     kc_name = 0, object_size = 96, kc_align = 8, kc_node = 0\<rparr>"

theorem cache_geometry_sound_witness: "\<exists>y. cache_geometry 0 example_cache = Inr y \<and> geom_ok y \<and> 8 dvd unat (kc_size y) \<and> unat (kc_size y) < 104"
  using cache_geometry_sound [of example_cache 3 0]
  by (cases "cache_geometry 0 example_cache") (simp_all add: example_cache_def)

end
