(* ===== verification/Spec2Isabelle.thy ===== *)
theory Spec2Isabelle
  imports UserString KMemset Vsprintf KList BuddyBoot VirtioIrq XarrayFind RadixTree SlabProps SlabSizes
begin

text \<open>
  A verification development for a small modular kernel for 64-bit RISC-V.

  \<^bold>\<open>The program.\<close> The kernel under \<^verbatim>\<open>src/\<close> is a set of modules, one directory each, that a loader links at boot. The
  parts modelled here are the ones everything else stands on: the memory and string library and the
  formatted output, the bit searches, the intrusive lists, the three memory allocators, the two index trees and
  the virtqueues that the block driver talks to its device with. At boot \<^verbatim>\<open>memblock\<close> gives out physical memory,
  then hands what is left to the page allocator (\<^verbatim>\<open>buddy\<close>); the slab allocator takes pages from it and gives out
  objects; the XArray, the radix tree and the virtqueues live in such objects.

  \<^bold>\<open>How the code is modelled.\<close> C integers are words of their width, pointers are 64-bit addresses, and memory is a
  function from addresses to bytes. A structure is a record; structures that are linked or shared live in a
  heap, a function from their address. Code that changes state takes the state and returns it. A panic, a
  \<^verbatim>\<open>BUG_ON\<close>, a null pointer and an access outside an array are the left values of \<open>outcome\<close> in theory \<open>Prelude\<close>.
  A loop that ends recurses on what bounds it. A loop that need not end is a \<open>partial_function (option)\<close>, where
  \<open>None\<close> is not returning; the theorems about such functions show that they return.

  \<^bold>\<open>Theories and sources.\<close>
  \<^item> \<open>Prelude\<close>: types, faults, strings in memory, lemmas on words. \<open>Interfaces\<close>: the contracts between components
    as locales, each interpreted on the definitions of the component that provides it.
  \<^item> \<open>KString\<close>: \<^verbatim>\<open>lib/string.c\<close>, \<^verbatim>\<open>startup/string.c\<close> and, instruction row by instruction row, \<^verbatim>\<open>startup/memcpy.S\<close>. Copies are exact,
    also for overlapping areas in \<^verbatim>\<open>memmove\<close>; comparison is the lexicographic order; \<^verbatim>\<open>strlcpy\<close> stays inside its buffer.
  \<^item> \<open>KMemset\<close>: \<^verbatim>\<open>startup/memset.S\<close> with its jump into the unrolled loop, equal to the effect the C code uses.
  \<^item> \<open>UserString\<close>: \<^verbatim>\<open>strncpy_from_user\<close> and \<^verbatim>\<open>strnlen_user\<close>, which find the end of a string by arithmetic on whole
    words; shown to agree with the string.
  \<^item> \<open>KBits\<close>: \<^verbatim>\<open>include/log2.h\<close>, \<^verbatim>\<open>lib/find_bit.c\<close>, \<^verbatim>\<open>bitmap/bitmap.c\<close>. The search for a free area finds the first one.
  \<^item> \<open>Vsprintf\<close>: \<^verbatim>\<open>lib/vsprintf.c\<close>. Formatting implements an abstract rendering of format and arguments; parsing reads
    back what was printed.
  \<^item> \<open>KList\<close>: \<^verbatim>\<open>include/list.h\<close> on a heap of link fields. Every series of operations is the same series on sequences of
    nodes. The later theories use lists of nodes for this reason.
  \<^item> \<open>Memblock\<close>, \<open>MemblockFree\<close>, \<open>MemblockProps\<close>: \<^verbatim>\<open>memblock/memblock.c\<close>. The region arrays stay sorted, disjoint and merged
    and cover exactly what was added; an allocation is the highest aligned free place; at the end every whole
    free page is handed over exactly once.
  \<^item> \<open>Buddy\<close>, \<open>BuddyInit\<close>, \<open>BuddyProps\<close>, \<open>BuddyBoot\<close>: \<^verbatim>\<open>buddy/buddy.c\<close>. The free lists of a zone are aligned, disjoint and counted
    blocks; allocation and free keep this and move exactly the pages they say; in every run the pages held and
    the free pages are the pages of the start; the hand-over from \<^verbatim>\<open>memblock\<close> is exact. Two theorems show defects:
    after boot no blocks are ever merged, and a page that was allocated cannot be freed.
  \<^item> \<open>Slab\<close>, \<open>SlabPages\<close>, \<open>SlabInv\<close>, \<open>SlabAlloc\<close>, \<open>SlabGrow\<close>, \<open>SlabOps\<close>, \<open>SlabSystem\<close>, \<open>SlabFree\<close>, \<open>SlabProps\<close>, \<open>SlabSizes\<close>: \<^verbatim>\<open>slab/slab.c\<close> and
    \<^verbatim>\<open>include/slab.h\<close>. Any sequence of allocations, frees and writes into objects is a run of an abstract heap of
    disjoint objects, although the free lists are kept in the free objects; the geometry that is computed for a
    cache is the one the invariant asks for.
  \<^item> \<open>Xarray\<close>, \<open>XarrayProps\<close>, \<open>XarrayFind\<close>, \<open>RadixTree\<close>: \<^verbatim>\<open>xarray/xarray.c\<close> and \<^verbatim>\<open>radix_tree/radix-tree.c\<close> on a heap of nodes. A store
    changes exactly one index or fails with everything unchanged; the iteration ends and visits the entries in
    order.
  \<^item> \<open>Scatterlist\<close>, \<open>VirtioRing\<close>, \<open>VirtioProps\<close>, \<open>VirtioIrq\<close>: \<^verbatim>\<open>scatterlist/scatterlist.c\<close> and \<^verbatim>\<open>virtio/virtio_ring.c\<close>. The device is outside the
    repository; it is an inductive step relation that follows the rules of the split ring, and its rule for
    interrupts is a parameter with the documented law as hypothesis. No buffer is lost or returned twice, the
    device finds the buffers that were added, all buffers can be collected, and enabling callbacks loses no
    interrupt however the two sides interleave.

  \<^bold>\<open>Bounds.\<close> The argument that bounds a loop of the assembly routines is the distance to the end pointer in rounds, after
  which the branch of the source falls through. The indices of the region iterators are packed into 32 bits each,
  so the arrays are shorter than \<open>2 ^ 31\<close>. The orders of the page allocator are below 11, and slabs have at most 255
  objects, as in the source. Page frame numbers are below \<open>2 ^ 52\<close>, the frames of a 64-bit address.

  \<^bold>\<open>Not modelled.\<close> Locks and memory barriers are left out, since the kernel runs on one hart here; the memory
  order is program order. The structures of the slab allocator are in heaps of their own, apart from the bytes of
  the objects they are allocated from. The fault handling of user accesses is not modelled. The file systems, the
  block layer, the device model, the interrupt controllers, the scheduler, the page tables and the drivers
  work on device registers, page tables or callbacks, for which there is no model here.
\<close>

end
